(* ===== verification/Prelude.thy ===== *)
theory Prelude
  imports Main "HOL-Library.Word"
begin

text \<open>
  The vocabulary every other theory shares: the C++ integer types as words, failures of the
  program as values, hashes and keys as byte vectors, and the facts on words and lists that the
  component proofs use through the collections \<open>word_nat\<close> and \<open>result_simps\<close>.
\<close>

unbundle bit_operations_syntax

section \<open>Integer types\<close>

type_synonym u8 = "8 word"
type_synonym u16 = "16 word"
type_synonym u32 = "32 word"
type_synonym u64 = "64 word"

text \<open>The targets are 64 bit, so \<^verbatim>\<open>size_t\<close> is a 64-bit word.\<close>

type_synonym usize = u64

text \<open>A blob (\<^verbatim>\<open>BinaryArray\<close>, \<^verbatim>\<open>std::string\<close> used as bytes) is a list of bytes; a
  \<^verbatim>\<open>Crypto::Hash\<close>, key or key image is such a list of length 32.\<close>

type_synonym bytes = "u8 list"
type_synonym hash = bytes

section \<open>Failures as values\<close>

text \<open>
  \<^verbatim>\<open>AssertFailed\<close> is a failed \<^verbatim>\<open>assert\<close>, \<^verbatim>\<open>OutOfRange\<close> an element access outside its
  container (undefined behaviour of \<^verbatim>\<open>operator[]\<close>, an exception of \<^verbatim>\<open>at\<close>), \<^verbatim>\<open>NullDeref\<close>
  a write through a null pointer, \<^verbatim>\<open>BadGet\<close> the exception of \<^verbatim>\<open>boost::get\<close>,
  \<^verbatim>\<open>RuntimeError\<close> a \<^verbatim>\<open>std::runtime_error\<close> the source throws, and \<^verbatim>\<open>NoReturn\<close> a loop that does not end.
\<close>

datatype cpp_error = AssertFailed | OutOfRange | NullDeref | BadGet | RuntimeError | NoReturn

type_synonym 'a result = "cpp_error + 'a"

definition bind_res :: "'a result \<Rightarrow> ('a \<Rightarrow> 'b result) \<Rightarrow> 'b result" where
  "bind_res r f = (case r of Inl e \<Rightarrow> Inl e | Inr x \<Rightarrow> f x)"

definition assert_res :: "bool \<Rightarrow> 'a result \<Rightarrow> 'a result" where
  "assert_res c r = (if c then r else Inl AssertFailed)"

definition at_res :: "'a list \<Rightarrow> nat \<Rightarrow> 'a result" where
  "at_res xs i = (if i < length xs then Inr (xs ! i) else Inl OutOfRange)"

named_theorems result_simps

lemma bind_res_simps [simp, result_simps]:
  "bind_res (Inl e) f = Inl e"
  "bind_res (Inr x) f = f x"
  by (simp_all add: bind_res_def)

lemma assert_res_simps [simp, result_simps]:
  "assert_res True r = r"
  "assert_res False r = Inl AssertFailed"
  by (simp_all add: assert_res_def)

lemma bind_res_Inr [result_simps]:
  "bind_res r f = Inr y \<longleftrightarrow> (\<exists>x. r = Inr x \<and> f x = Inr y)"
  by (cases r) auto

lemma assert_res_Inr [result_simps]:
  "assert_res c r = Inr y \<longleftrightarrow> c \<and> r = Inr y"
  by (simp add: assert_res_def)

lemma at_res_Inr [result_simps]:
  "at_res xs i = Inr y \<longleftrightarrow> i < length xs \<and> xs ! i = y"
  by (auto simp: at_res_def)

lemma at_res_in [simp]: "i < length xs \<Longrightarrow> at_res xs i = Inr (xs ! i)"
  by (simp add: at_res_def)

section \<open>Words read as natural numbers\<close>

text \<open>\<open>word_nat\<close> moves a statement on words to \<open>nat\<close>, with the wrap-around as \<open>mod\<close>.\<close>

named_theorems word_nat

lemmas [word_nat] = unat_word_ariths word_less_nat_alt word_le_nat_alt unat_div unat_mod

lemma unat_u64_less [simp]: "unat (x :: u64) < 18446744073709551616"
  using unsigned_less [of x] by simp

lemma unat_u32_less [simp]: "unat (x :: u32) < 4294967296"
  using unsigned_less [of x] by simp

lemma unat_u8_less [simp]: "unat (x :: u8) < 256"
  using unsigned_less [of x] by simp

lemma unat_push_bit_u64 [word_nat]:
  "unat (push_bit n (x :: u64)) = (unat x * 2 ^ n) mod 18446744073709551616"
  by (simp only: unsigned_push_bit_eq) (simp add: take_bit_eq_mod push_bit_eq_mult)

lemma unat_drop_bit_nat [word_nat]: "unat (drop_bit n (x :: 'a::len word)) = unat x div 2 ^ n"
  by (simp only: unat_drop_bit_eq) (simp add: drop_bit_eq_div)

lemma unat_and_mask [word_nat]:
  "unat ((x :: 'a::len word) AND mask n) = unat x mod 2 ^ n"
  by (simp only: take_bit_eq_mask [symmetric] unsigned_take_bit_eq) (simp add: take_bit_eq_mod)

lemma unat_ucast_u32_u64 [simp, word_nat]: "unat (ucast (x :: u32) :: u64) = unat x"
proof -
  have "unat x < 18446744073709551616" by (rule less_trans [OF unat_u32_less]) simp
  then show ?thesis by (simp add: unsigned_ucast_eq take_bit_eq_mod)
qed

lemma unat_of_nat_u32: "n < 2 ^ 32 \<Longrightarrow> unat (of_nat n :: u32) = n"
  by (simp add: unat_of_nat)

lemma unat_of_nat_u64: "n < 2 ^ 64 \<Longrightarrow> unat (of_nat n :: u64) = n"
  by (simp add: unat_of_nat)

lemma unat_mult_fits: "unat a * unat b < 2 ^ 64 \<Longrightarrow> unat (a * b :: u64) = unat a * unat b"
  by (simp add: unat_word_ariths)

lemma unat_ucast_u8_u64 [simp, word_nat]: "unat (ucast (x :: u8) :: u64) = unat x"
proof -
  have "unat x < 18446744073709551616" by (rule less_trans [OF unat_u8_less]) simp
  then show ?thesis by (simp add: unsigned_ucast_eq take_bit_eq_mod)
qed

lemma u64_eqI: "unat (x :: u64) = unat y \<Longrightarrow> x = y"
  by (simp add: word_unat_eq_iff)

text \<open>The carry test of unsigned addition: the wrapped sum is below a summand exactly when the
  true sum passes the modulus.\<close>

lemma add_carry:
  fixes x y B :: nat
  assumes "x < B" and "y < B"
  shows "x + y = (x + y) mod B + (if (x + y) mod B < x then B else 0)"
proof (cases "x + y < B")
  case False
  then have "(x + y) mod B = x + y - B"
    using assms by (simp add: le_mod_geq)
  with False assms show ?thesis by auto
qed simp

section \<open>Lists\<close>

lemma butlast_snoc_last: "xs \<noteq> [] \<Longrightarrow> butlast xs @ [last xs] = xs"
  by simp

lemma sorted_wrt_snoc:
  "sorted_wrt R (xs @ [x]) \<longleftrightarrow> sorted_wrt R xs \<and> (\<forall>y\<in>set xs. R y x)"
  by (auto simp: sorted_wrt_append)

end
