(* ===== verification/Codec.thy ===== *)
theory Codec
  imports Prelude
begin

text \<open>
  The contract between a writer that appends to an output stream and a reader that takes a value off
  the front of an input stream: what was written is read back and the rest of the stream is left.
  Every self-delimiting encoding of the program (variable-length integers, blobs, transactions)
  provides it; what follows from it is proved here once.
\<close>

locale prefix_code =
  fixes enc :: "'a \<Rightarrow> bytes"
    and dec :: "bytes \<Rightarrow> ('a \<times> bytes) option"
  assumes dec_enc: "dec (enc x @ rest) = Some (x, rest)"
begin

lemma dec_enc_all: "dec (enc x) = Some (x, [])"
  using dec_enc [of x "[]"] by simp

lemma unique_split:
  assumes "enc x @ r = enc y @ s"
  shows "x = y \<and> r = s"
proof -
  have "Some (x, r) = dec (enc x @ r)" by (rule dec_enc [symmetric])
  also have "\<dots> = dec (enc y @ s)" by (rule arg_cong [OF assms])
  also have "\<dots> = Some (y, s)" by (rule dec_enc)
  finally have "Some (x, r) = Some (y, s)" .
  then show ?thesis by simp
qed

lemma enc_inj: "enc x = enc y \<Longrightarrow> x = y"
  using unique_split [of x "[]" y "[]"] by simp

lemma no_proper_prefix: "enc x = enc y @ s \<Longrightarrow> s = []"
  using unique_split [of x "[]" y s] by simp

text \<open>Reading a known number of values off a stream.\<close>

fun dec_n :: "nat \<Rightarrow> bytes \<Rightarrow> ('a list \<times> bytes) option" where
  "dec_n 0 bs = Some ([], bs)"
| "dec_n (Suc n) bs =
     (case dec bs of None \<Rightarrow> None
      | Some (x, bs') \<Rightarrow> (case dec_n n bs' of None \<Rightarrow> None
                         | Some (xs, bs'') \<Rightarrow> Some (x # xs, bs'')))"

lemma dec_n_enc: "dec_n (length xs) (concat (map enc xs) @ rest) = Some (xs, rest)"
  by (induction xs) (simp_all add: dec_enc)

end

end
