(* ===== verification/Varint.thy ===== *)
theory Varint
  imports Codec
begin

text \<open>
  Variable-length integers, \<^verbatim>\<open>src/Common/Varint.h\<close>: seven bits per byte, least significant first,
  the top bit set on every byte but the last. The template parameter \<^verbatim>\<open>T\<close> is
  \<^verbatim>\<open>uint64_t\<close>, the type the program instantiates it at.
\<close>

section \<open>Definitions\<close>

function write_varint :: "u64 \<Rightarrow> bytes" where
  "write_varint i =
     (if 0x80 \<le> i then ((ucast i AND 0x7f) OR 0x80) # write_varint (drop_bit 7 i)
      else [ucast i])"
  by pat_completeness auto
termination
proof (relation "measure unat")
  fix i :: u64
  assume "0x80 \<le> i"
  then have "0x80 \<le> unat i" by (simp add: word_le_nat_alt)
  then show "(drop_bit 7 i, i) \<in> measure unat" by (simp add: unat_drop_bit_nat)
qed simp

declare write_varint.simps [simp del]

text \<open>The string a \<^verbatim>\<open>std::stringstream\<close> collects from the writer.\<close>

definition get_varint_data :: "u64 \<Rightarrow> bytes" where
  "get_varint_data v = write_varint v"

text \<open>
  The reader's loop. It gives the returned \<^verbatim>\<open>int\<close> (the number of bytes read, or -1 for a value that
  does not fit, -2 for a non-canonical form), the value left in \<^verbatim>\<open>i\<close> and the input left.
\<close>

fun read_varint_loop :: "nat \<Rightarrow> nat \<Rightarrow> int \<Rightarrow> u64 \<Rightarrow> bytes \<Rightarrow> int \<times> u64 \<times> bytes" where
  "read_varint_loop bits shift read i [] = (read, i, [])"
| "read_varint_loop bits shift read i (byte # rest) =
     (let read = read + 1 in
      if bits \<le> shift + 7 \<and> 2 ^ (bits - shift) \<le> unat byte then (-1, i, rest)
      else if byte = 0 \<and> shift \<noteq> 0 then (-2, i, rest)
      else let i = i OR push_bit shift (ucast (byte AND 0x7f)) in
        if byte AND 0x80 = 0 then (read, i, rest)
        else read_varint_loop bits (shift + 7) read i rest)"

definition read_varint :: "bytes \<Rightarrow> int \<times> u64 \<times> bytes" where
  "read_varint bs = read_varint_loop 64 0 0 0 bs"

section \<open>Bits of a group\<close>

lemma bit_0x80: "bit (0x80 :: u8) n \<longleftrightarrow> n = 7" "bit (0x80 :: int) n \<longleftrightarrow> n = 7"
proof -
  have "(0x80 :: u8) = 2 ^ 7" "(0x80 :: int) = 2 ^ 7" by simp_all
  then show "bit (0x80 :: u8) n \<longleftrightarrow> n = 7" "bit (0x80 :: int) n \<longleftrightarrow> n = 7"
    by (simp_all only: bit_exp_iff) auto
qed

lemma bit_0x7f: "bit (0x7f :: u8) n \<longleftrightarrow> n < 7" "bit (0x7f :: int) n \<longleftrightarrow> n < 7"
proof -
  have "(0x7f :: u8) = mask 7" "(0x7f :: int) = mask 7" by (simp_all add: mask_eq_exp_minus_1)
  then show "bit (0x7f :: u8) n \<longleftrightarrow> n < 7" "bit (0x7f :: int) n \<longleftrightarrow> n < 7"
    by (simp_all only: bit_mask_iff) auto
qed

lemma group_low: "ucast (((ucast i AND 0x7f) OR 0x80 :: u8) AND 0x7f) = (take_bit 7 i :: u64)"
  by (rule bit_word_eqI) (auto simp: bit_simps bit_0x80 bit_0x7f)

lemma take_bit_last: "i < 0x80 \<Longrightarrow> take_bit 7 i = (i :: u64)"
  by (simp add: word_unat_eq_iff take_bit_eq_mod unat_mod word_less_nat_alt)

lemma group_last: "i < 0x80 \<Longrightarrow> ucast ((ucast i :: u8) AND 0x7f) = (i :: u64)"
proof -
  assume "i < 0x80"
  then have "take_bit 7 i = i" by (rule take_bit_last)
  moreover have "ucast ((ucast i :: u8) AND 0x7f) = (take_bit 7 i :: u64)"
    by (rule bit_word_eqI) (auto simp: bit_simps bit_0x7f)
  ultimately show ?thesis by simp
qed

lemma group_more: "((ucast i AND 0x7f) OR 0x80 :: u8) AND 0x80 = 0x80"
  by (rule bit_word_eqI) (auto simp: bit_simps bit_0x80)

lemma varint_group:
  "push_bit s (i :: u64) = push_bit s (take_bit 7 i) OR push_bit (s + 7) (drop_bit 7 i)"
proof (rule bit_word_eqI)
  fix n
  show "bit (push_bit s i) n \<longleftrightarrow>
      bit (push_bit s (take_bit 7 i) OR push_bit (s + 7) (drop_bit 7 i)) n"
    if "n < LENGTH(64)"
  proof (cases "s + 7 \<le> n")
    case True
    then have "7 + (n - (s + 7)) = n - s" by arith
    with True that show ?thesis by (auto simp: bit_simps)
  next
    case False
    with that show ?thesis by (auto simp: bit_simps)
  qed
qed

section \<open>Round trip\<close>

lemma unat_last_group: "i < 0x80 \<Longrightarrow> unat (ucast i :: u8) = unat (i :: u64)"
  by (simp add: word_less_nat_alt unsigned_ucast_eq take_bit_eq_mod)

lemma unat_more_group: "unat ((ucast i AND 0x7f) OR 0x80 :: u8) = unat (i :: u64) mod 128 + 128"
proof -
  have "((ucast i AND 0x7f) OR 0x80 :: u8) = ucast (take_bit 7 i) + 0x80"
  proof -
    have "(ucast i AND 0x7f :: u8) = ucast (take_bit 7 i)"
      by (rule bit_word_eqI) (auto simp: bit_simps bit_0x7f)
    moreover have "(ucast (take_bit 7 i) :: u8) OR 0x80 = ucast (take_bit 7 i) + 0x80"
    proof (rule disjunctive_add [symmetric])
      fix n show "\<not> bit (ucast (take_bit 7 i) :: u8) n \<or> \<not> bit (0x80 :: u8) n"
        by (auto simp: bit_simps bit_0x80)
    qed
    ultimately show ?thesis by simp
  qed
  moreover have "unat (ucast (take_bit 7 i) :: u8) = unat i mod 128"
    by (simp add: unsigned_ucast_eq take_bit_eq_mod unat_mod)
  ultimately show ?thesis
    by (simp add: unat_word_ariths)
qed

lemma write_varint_less: "v < 0x80 \<Longrightarrow> write_varint v = [ucast v]"
  by (subst write_varint.simps) (auto simp add: not_le)

lemma write_varint_more: "0x80 \<le> v \<Longrightarrow>
    write_varint v = ((ucast v AND 0x7f) OR 0x80) # write_varint (drop_bit 7 v)"
  by (subst write_varint.simps) simp

text \<open>The overflow test does not fire on a group of a value that fits above the bits read.\<close>

lemma fits_shift:
  assumes "x * 2 ^ shift < (2 :: nat) ^ bits" "x > 0"
  shows "shift < bits"
proof (rule ccontr)
  assume "\<not> shift < bits"
  then have "(2 :: nat) ^ bits \<le> 2 ^ shift" by (intro power_increasing) simp_all
  also have "\<dots> \<le> x * 2 ^ shift" using assms(2) by simp
  finally show False using assms(1) by simp
qed

lemma fits_bound:
  assumes "x * 2 ^ shift < (2 :: nat) ^ bits" "shift < bits"
  shows "x < 2 ^ (bits - shift)"
proof -
  have "(2 :: nat) ^ bits = 2 ^ (bits - shift) * 2 ^ shift"
    using assms(2) by (simp add: power_add [symmetric])
  with assms(1) have "x * 2 ^ shift < 2 ^ (bits - shift) * 2 ^ shift" by (simp only:)
  then show ?thesis by simp
qed

lemma read_write_varint_loop:
  assumes "unat v * 2 ^ shift < 2 ^ bits" and "shift \<noteq> 0 \<longrightarrow> v \<noteq> 0" and "shift < bits"
  shows "read_varint_loop bits shift r i (write_varint v @ rest) =
    (r + int (length (write_varint v)), i OR push_bit shift v, rest)"
  using assms
proof (induction v arbitrary: shift r i rule: write_varint.induct)
  case (1 v)
  show ?case
  proof (cases "0x80 \<le> v")
    case False
    then have v: "v < 0x80" by simp
    have b: "unat (ucast v :: u8) < 2 ^ (bits - shift)"
      using fits_bound [OF "1.prems"(1,3)] unat_last_group [OF v] by simp
    have z: "(ucast v :: u8) = 0 \<longleftrightarrow> v = 0"
      using unat_last_group [OF v] by (simp add: word_unat_eq_iff)
    have m: "(ucast v :: u8) AND 0x80 = 0"
    proof (rule bit_word_eqI)
      fix n assume "n < LENGTH(8)"
      have "\<not> bit v 7"
        using bit_take_bit_iff [of 7 v 7] unfolding take_bit_last [OF v] by simp
      then show "bit ((ucast v :: u8) AND 0x80) n \<longleftrightarrow> bit (0 :: u8) n"
        by (auto simp: bit_simps bit_0x80)
    qed
    show ?thesis
      using b z m "1.prems"(2)
      by (cases "shift = 0") (simp_all add: write_varint_less [OF v] group_last [OF v] not_le Let_def)
  next
    case True
    let ?b = "(ucast v AND 0x7f) OR 0x80 :: u8"
    have v: "128 \<le> unat v" using True by (simp add: word_le_nat_alt)
    have d: "unat (drop_bit 7 v) = unat v div 128" by (simp add: unat_drop_bit_nat)
    have s: "unat (drop_bit 7 v) * 2 ^ (shift + 7) \<le> unat v * 2 ^ shift"
    proof -
      have "unat v div 128 * 128 \<le> unat v" by simp
      then have "unat v div 128 * 128 * 2 ^ shift \<le> unat v * 2 ^ shift" by (rule mult_right_mono) simp
      then show ?thesis by (simp add: d power_add ac_simps)
    qed
    have p: "unat (drop_bit 7 v) > 0" using v by (simp add: d)
    have f: "unat (drop_bit 7 v) * 2 ^ (shift + 7) < 2 ^ bits" using s "1.prems"(1) by simp
    have sh: "shift + 7 < bits" using fits_shift [OF f p] .
    have nz: "drop_bit 7 v \<noteq> 0" using p by auto
    have b0: "?b \<noteq> 0" using unat_more_group [of v] by (metis add_is_0 unat_0 zero_neq_numeral)
    have "read_varint_loop bits shift r i (write_varint v @ rest) =
        read_varint_loop bits (shift + 7) (r + 1) (i OR push_bit shift (take_bit 7 v))
          (write_varint (drop_bit 7 v) @ rest)"
      using sh b0 by (simp add: write_varint_more [OF True] group_low group_more Let_def)
    also have "\<dots> = (r + 1 + int (length (write_varint (drop_bit 7 v))),
        (i OR push_bit shift (take_bit 7 v)) OR push_bit (shift + 7) (drop_bit 7 v), rest)"
      using "1.IH" [OF True f _ sh] nz by simp
    also have "\<dots> = (r + int (length (write_varint v)), i OR push_bit shift v, rest)"
      by (simp add: write_varint_more [OF True] varint_group [of shift v] or.assoc)
    finally show ?thesis .
  qed
qed

lemma read_write_varint:
  "read_varint (write_varint v @ rest) = (int (length (write_varint v)), v, rest)"
  using read_write_varint_loop [of v 0 64 0 0 rest] by (simp add: read_varint_def)

text \<open>The reader as a partial decoder: a call site tests the returned count with \<^verbatim>\<open>read <= 0\<close>.\<close>

definition varint_dec :: "bytes \<Rightarrow> (u64 \<times> bytes) option" where
  "varint_dec bs = (case read_varint bs of (read, v, rest) \<Rightarrow> if read \<le> 0 then None else Some (v, rest))"

lemma write_varint_not_Nil [simp]: "write_varint v \<noteq> []"
  by (cases "0x80 \<le> v") (simp_all add: write_varint_more write_varint_less not_le)

interpretation vi: prefix_code write_varint varint_dec
  by unfold_locales (simp add: varint_dec_def read_write_varint)

section \<open>Length\<close>

lemma write_varint_length_le: "unat v < 128 ^ Suc k \<Longrightarrow> length (write_varint v) \<le> Suc k"
proof (induction k arbitrary: v)
  case 0
  then have "v < 0x80" by (simp add: word_less_nat_alt)
  then show ?case by (simp add: write_varint_less)
next
  case (Suc k)
  show ?case
  proof (cases "0x80 \<le> v")
    case True
    have "unat (drop_bit 7 v) < 128 ^ Suc k"
      using Suc.prems by (simp add: unat_drop_bit_nat less_mult_imp_div_less ac_simps)
    from Suc.IH [OF this] show ?thesis by (simp add: write_varint_more [OF True])
  qed (simp add: write_varint_less not_le)
qed

section \<open>Canonical form\<close>

lemma low_byte:
  assumes "(byte :: u8) AND 0x80 = 0"
  shows "(ucast byte :: u64) < 0x80" "(ucast (ucast byte :: u64) :: u8) = byte"
    and "(ucast (byte AND 0x7f) :: u64) = ucast byte"
proof -
  have "\<not> bit byte 7"
    using arg_cong [OF assms, of "\<lambda>w. bit w 7"] by (simp add: bit_simps bit_0x80)
  then have b: "take_bit 7 byte = byte"
    by (intro bit_word_eqI) (auto simp: bit_take_bit_iff less_Suc_eq numeral_eq_Suc)
  have "unat (take_bit 7 byte) < 128" by (simp add: take_bit_eq_mod unat_mod)
  then have "unat byte < 128" unfolding b .
  then show "(ucast byte :: u64) < 0x80" by (simp add: word_less_nat_alt)
  show "(ucast (ucast byte :: u64) :: u8) = byte" by (rule bit_word_eqI) (auto simp: bit_simps)
  have "byte AND 0x7f = byte"
    using b by (simp add: take_bit_eq_mask mask_eq_exp_minus_1)
  then show "(ucast (byte AND 0x7f) :: u64) = ucast byte" by simp
qed

lemma high_byte:
  assumes "(byte :: u8) AND 0x80 \<noteq> 0"
  shows "128 \<le> unat byte" "(byte AND 0x7f) OR 0x80 = byte"
proof -
  have b: "bit byte 7"
  proof (rule ccontr)
    assume "\<not> bit byte 7"
    then have "byte AND 0x80 = 0" by (intro bit_word_eqI) (auto simp: bit_simps bit_0x80)
    with assms show False by simp
  qed
  then show *: "(byte AND 0x7f) OR 0x80 = byte"
    by (intro bit_word_eqI) (auto simp: bit_simps bit_0x80 bit_0x7f less_Suc_eq numeral_eq_Suc)
  have "(ucast (ucast byte :: u64) :: u8) = byte" by (rule bit_word_eqI) (auto simp: bit_simps)
  then show "128 \<le> unat byte" using unat_more_group [of "ucast byte"] * by simp
qed

text \<open>A group put under a value that leaves room for it.\<close>

lemma varint_cons:
  fixes v :: u64
  assumes "(byte :: u8) AND 0x80 \<noteq> 0" "v \<noteq> 0" "unat v * 128 < 2 ^ 64"
  defines "w \<equiv> push_bit 7 v OR ucast (byte AND 0x7f)"
  shows "write_varint w = byte # write_varint v" "take_bit 7 w = ucast (byte AND 0x7f)" "drop_bit 7 w = v"
proof -
  have t: "take_bit 7 w = ucast (byte AND 0x7f)"
    unfolding w_def by (rule bit_word_eqI) (auto simp: bit_simps bit_0x7f)
  have u: "unat (push_bit 7 v) = unat v * 128"
    using assms(3) by (simp add: unat_push_bit_u64)
  have d: "drop_bit 7 w = v"
  proof -
    have "drop_bit 7 (push_bit 7 v) = v"
      by (simp add: word_unat_eq_iff unat_drop_bit_nat u)
    moreover have "drop_bit 7 (ucast (byte AND 0x7f) :: u64) = 0"
      by (rule bit_word_eqI) (auto simp: bit_simps bit_0x7f)
    ultimately show ?thesis by (simp add: w_def drop_bit_or)
  qed
  have "unat v > 0" using assms(2) by (simp add: word_unat_eq_iff)
  then have "128 \<le> unat w"
    using arg_cong [OF d, of unat] by (simp add: unat_drop_bit_nat)
  then have le: "0x80 \<le> w" by (simp add: word_le_nat_alt)
  have "(ucast w AND 0x7f :: u8) = byte AND 0x7f"
    unfolding w_def by (rule bit_word_eqI) (auto simp: bit_simps bit_0x7f)
  then show "write_varint w = byte # write_varint v"
    using high_byte(2) [OF assms(1)] by (simp add: write_varint_more [OF le] d)
  show "take_bit 7 w = ucast (byte AND 0x7f)" "drop_bit 7 w = v" by (rule t, rule d)
qed

text \<open>A read that ends on a byte without the continuation bit consumed the canonical encoding.\<close>

lemma read_varint_loop_canonical:
  assumes "read_varint_loop 64 shift r i bs = (n, x, rest)" "0 \<le> r" "r < n"
    and "last (take (nat (n - r)) bs) AND 0x80 = 0" "shift < 64" "7 dvd shift"
  shows "\<exists>v. bs = write_varint v @ rest \<and> n = r + int (length (write_varint v)) \<and>
    unat v * 2 ^ shift < 2 ^ 64 \<and> (shift \<noteq> 0 \<longrightarrow> v \<noteq> 0)"
  using assms
proof (induction bs arbitrary: shift r i)
  case (Cons byte bs)
  have no1: "\<not> (64 \<le> shift + 7 \<and> 2 ^ (64 - shift) \<le> unat byte)"
    using Cons.prems(1,2,3) by (auto simp: Let_def)
  then have no2: "\<not> (byte = 0 \<and> shift \<noteq> 0)"
    using Cons.prems(1,2,3) by (auto simp: Let_def split: if_splits)
  have fit: "unat byte * 2 ^ shift < 2 ^ 64"
  proof -
    have "unat byte < 2 ^ (64 - shift)"
    proof (cases "64 \<le> shift + 7")
      case False
      then have "(2 :: nat) ^ 8 \<le> 2 ^ (64 - shift)" by (intro power_increasing) simp_all
      moreover have "unat byte < 2 ^ 8" by simp
      ultimately show ?thesis by (rule order_less_le_trans [rotated])
    qed (use no1 in simp)
    then have "unat byte * 2 ^ shift < 2 ^ (64 - shift) * 2 ^ shift" by simp
    also have "\<dots> = (2 :: nat) ^ 64" using Cons.prems(5) by (simp only: power_add [symmetric]) simp
    finally show ?thesis .
  qed
  show ?case
  proof (cases "byte AND 0x80 = 0")
    case True
    let ?v = "ucast byte :: u64"
    have "n = r + 1" "rest = bs"
      using Cons.prems(1) no1 no2 True by (auto simp: Let_def split: if_splits)
    moreover have "write_varint ?v = [byte]"
      using low_byte [OF True] by (simp add: write_varint_less)
    moreover have "?v \<noteq> 0" if "shift \<noteq> 0" 
      using no2 that low_byte(2) [OF True] by auto
    ultimately show ?thesis using fit by (intro exI [of _ ?v]) simp
  next
    case False
    have sh: "shift + 7 < 64"
    proof (rule ccontr)
      assume "\<not> shift + 7 < 64"
      then have "shift = 63" using Cons.prems(5,6) by (auto simp: dvd_def)
      with no1 high_byte(1) [OF False] show False by simp
    qed
    have st: "read_varint_loop 64 (shift + 7) (r + 1) (i OR push_bit shift (ucast (byte AND 0x7f))) bs = (n, x, rest)"
      using Cons.prems(1) no1 no2 False by (auto simp: Let_def split: if_splits)
    have "n \<noteq> r + 1"
      using Cons.prems(4) False by auto
    then have n: "r + 1 < n" using Cons.prems(3) by simp
    then have "nat (n - r) = Suc (nat (n - (r + 1)))" "bs \<noteq> []"
      using st by auto
    then have "last (take (nat (n - (r + 1))) bs) AND 0x80 = 0"
      using Cons.prems(4) n by (simp add: last.simps split: if_splits)
    from Cons.IH [OF st _ n this sh] Cons.prems(2,6) obtain v where
      v: "bs = write_varint v @ rest" "n = r + 1 + int (length (write_varint v))"
         "unat v * 2 ^ (shift + 7) < 2 ^ 64" "v \<noteq> 0" by auto
    have v7: "unat v * 128 < 2 ^ 64"
    proof -
      have "unat v * 2 ^ 7 \<le> unat v * 2 ^ (shift + 7)" by (intro mult_left_mono power_increasing) simp_all
      also note v(3)
      finally show ?thesis by simp
    qed
    obtain w where w: "write_varint w = byte # write_varint v" "drop_bit 7 w = v"
      using varint_cons [OF False v(4) v7] by blast
    have "unat w * 2 ^ shift < 2 ^ 64"
    proof -
      have "unat v < 2 ^ (64 - (shift + 7))" using fits_bound [OF v(3) sh] .
      moreover have "unat w div 128 = unat v"
        using arg_cong [OF w(2), of unat] by (simp add: unat_drop_bit_nat)
      ultimately have "unat w < 128 * 2 ^ (64 - (shift + 7))"
        by (metis dividend_less_times_div div_less_iff_less_mult mult.commute zero_less_numeral)
      then have "unat w * 2 ^ shift < 128 * 2 ^ (64 - (shift + 7)) * 2 ^ shift" by simp
      also have "\<dots> = 2 ^ 7 * 2 ^ (64 - (shift + 7)) * 2 ^ shift" by simp
      also have "\<dots> = (2 :: nat) ^ 64" using sh by (simp only: power_add [symmetric]) simp
      finally show ?thesis .
    qed
    moreover have "w \<noteq> 0"
      using w(2) v(4) by auto
    ultimately show ?thesis
      using v w(1) by (intro exI [of _ w]) simp
  qed
qed simp

lemma read_varint_canonical:
  assumes "read_varint bs = (n, v, rest)" "0 < n" "last (take (nat n) bs) AND 0x80 = 0"
  shows "bs = write_varint v @ rest \<and> n = int (length (write_varint v))"
proof -
  from read_varint_loop_canonical [of 0 0 0 bs n v rest] assms obtain v' where
    b: "bs = write_varint v' @ rest" by (auto simp: read_varint_def)
  with assms(1) show ?thesis by (auto simp: read_write_varint)
qed

text \<open>
  Without the last byte of an encoding the reader stops at the end of its input and reports the
  bytes it saw: a positive count, which the call sites take for success.
\<close>

lemma read_varint_truncated:
  "read_varint [0x80] = (1, 0, [])"
  by code_simp

section \<open>Properties\<close>

text \<open>C40: reading what was written gives the value, the number of bytes written and the rest of the
  stream, and writes between one and ten bytes; conversely every successful read that ends on a byte
  without the continuation bit consumed exactly the encoding the writer produces for its result, so
  each value has one accepted encoding.\<close>

theorem varint_exact:
  "read_varint (write_varint v @ rest) = (int (length (write_varint v)), v, rest) \<and>
   length (write_varint v) \<in> {1..10} \<and>
   (read_varint bs = (n, w, rest') \<and> 0 < n \<and> last (take (nat n) bs) AND 0x80 = 0 \<longrightarrow>
      bs = write_varint w @ rest' \<and> n = int (length (write_varint w)))"
proof (intro conjI impI)
  show "read_varint (write_varint v @ rest) = (int (length (write_varint v)), v, rest)"
    by (rule read_write_varint)
  have "unat v < 128 ^ Suc 9"
    using unat_u64_less [of v] by (simp del: unat_u64_less)
  from write_varint_length_le [OF this] show "length (write_varint v) \<in> {1..10}"
    by (simp add: Suc_le_eq)
qed (use read_varint_canonical in blast)+

theorem varint_exact_witness:
  "read_varint [0xac, 0x02, 0x07] = (2, 300, [0x07]) \<and>
   [0xac, 0x02, 0x07] = write_varint 300 @ [0x07] \<and> 2 = int (length (write_varint 300))"
proof -
  have "read_varint [0xac, 0x02, 0x07] = (2, 300, [0x07])" "last (take (nat 2) [0xac, 0x02, 0x07 :: u8]) AND 0x80 = 0"
    by code_simp+
  then show ?thesis
    using varint_exact [of 0 "[]" "[0xac, 0x02, 0x07]" 2 300 "[0x07]"] by simp
qed

end
