(* ===== verification/HeightIndex.thy ===== *)
theory HeightIndex
  imports Prelude
begin

text \<open>
  The contract of the structures that grow by one element per block and are cut back when blocks are
  popped (\<^verbatim>\<open>BlockIndex\<close>, \<^verbatim>\<open>DepositIndex\<close>, \<^verbatim>\<open>InvestmentIndex\<close>): a push that
  succeeds is undone by one pop. \<open>limit\<close> is the number of blocks the structure can count. What the
  chain relies on, that popping back to a height gives the structure as it was at that height, is
  proved here for all of them.
\<close>

locale height_index =
  fixes empty_index :: 's
    and push :: "'x \<Rightarrow> 's \<Rightarrow> 's result"
    and pop :: "'s \<Rightarrow> 's result"
    and count :: "'s \<Rightarrow> nat"
    and inv :: "'s \<Rightarrow> bool"
    and limit :: nat
  assumes inv_empty: "inv empty_index"
    and count_empty: "count empty_index = 0"
    and inv_push: "inv s \<Longrightarrow> count s < limit \<Longrightarrow> push x s = Inr s' \<Longrightarrow> inv s'"
    and count_push: "inv s \<Longrightarrow> count s < limit \<Longrightarrow> push x s = Inr s' \<Longrightarrow> count s' = Suc (count s)"
    and pop_push: "inv s \<Longrightarrow> count s < limit \<Longrightarrow> push x s = Inr s' \<Longrightarrow> pop s' = Inr s"
begin

fun push_all :: "'x list \<Rightarrow> 's \<Rightarrow> 's result" where
  "push_all [] s = Inr s"
| "push_all (x # xs) s = bind_res (push x s) (push_all xs)"

fun pop_n :: "nat \<Rightarrow> 's \<Rightarrow> 's result" where
  "pop_n 0 s = Inr s"
| "pop_n (Suc n) s = bind_res (pop s) (pop_n n)"

lemma push_all_append: "push_all (xs @ ys) s = bind_res (push_all xs s) (push_all ys)"
  by (induction xs arbitrary: s) (auto simp: bind_res_def split: sum.splits)

lemma pop_n_add: "pop_n (m + n) s = bind_res (pop_n m s) (pop_n n)"
  by (induction m arbitrary: s) (auto simp: bind_res_def split: sum.splits)

lemma push_all_inv:
  assumes "push_all xs s = Inr s'" "inv s" "count s + length xs \<le> limit"
  shows "inv s' \<and> count s' = count s + length xs"
  using assms
proof (induction xs arbitrary: s)
  case (Cons x xs)
  then obtain t where t: "push x s = Inr t" "push_all xs t = Inr s'"
    by (auto simp: bind_res_def split: sum.splits)
  have "count s < limit" using Cons.prems(3) by simp
  from inv_push [OF Cons.prems(2) this t(1)] count_push [OF Cons.prems(2) this t(1)]
  show ?case using Cons.IH [OF t(2)] Cons.prems(3) by simp
qed simp

lemma pop_n_push_all:
  assumes "push_all xs s = Inr s'" "inv s" "count s + length xs \<le> limit"
  shows "pop_n (length xs) s' = Inr s"
  using assms
proof (induction xs arbitrary: s)
  case (Cons x xs)
  then obtain t where t: "push x s = Inr t" "push_all xs t = Inr s'"
    by (auto simp: bind_res_def split: sum.splits)
  have l: "count s < limit" using Cons.prems(3) by simp
  note facts = inv_push [OF Cons.prems(2) l t(1)] count_push [OF Cons.prems(2) l t(1)]
    pop_push [OF Cons.prems(2) l t(1)]
  have "pop_n (length xs) s' = Inr t"
    using Cons.IH [OF t(2)] Cons.prems(3) facts by simp
  then have "pop_n (length xs + Suc 0) s' = Inr s"
    unfolding pop_n_add by (simp add: facts)
  then show ?case by simp
qed simp

theorem pop_to_height:
  assumes "push_all xs empty_index = Inr s" "length xs \<le> limit" "k \<le> length xs"
  shows "pop_n (length xs - k) s = push_all (take k xs) empty_index"
proof -
  have "push_all (take k xs @ drop k xs) empty_index = Inr s" using assms(1) by simp
  then obtain t where t: "push_all (take k xs) empty_index = Inr t" "push_all (drop k xs) t = Inr s"
    unfolding push_all_append by (auto simp: bind_res_def split: sum.splits)
  have "inv t \<and> count t = k"
    using push_all_inv [OF t(1) inv_empty] assms(2,3) by (simp add: count_empty)
  with pop_n_push_all [OF t(2)] assms(2,3) show ?thesis by (simp add: t(1))
qed

end

end
