(* ===== verification/DepositIndex.thy ===== *)
theory DepositIndex
  imports HeightIndex
begin

text \<open>
  The deposit index, \<^verbatim>\<open>src/CryptoNoteCore/DepositIndex.cpp\<close>: the running totals of locked
  deposits and of their interest, one entry per block that changed the locked amount. Amounts are
  \<^verbatim>\<open>int64_t\<close> (a 64-bit word read with \<^term>\<open>sint\<close>), interest \<^verbatim>\<open>uint64_t\<close>, heights
  \<^verbatim>\<open>uint32_t\<close>. The specification is the list of what each block pushed; the theorems show that
  the compressed index answers every height query with the sums over that list, and that both ways
  of cutting it back (\<open>popBlock\<close> and \<open>popBlocks\<close>) give the index as it was at the lower height.
\<close>

section \<open>Definitions\<close>

type_synonym s64 = "64 word"

record deposit_entry =
  de_height :: u32
  de_amount :: s64
  de_interest :: u64

record deposit_index =
  di_index :: "deposit_entry list"
  di_blockCount :: u32

definition deposit_index_new :: deposit_index where
  "deposit_index_new = \<lparr>di_index = [], di_blockCount = 0\<rparr>"

definition fullDepositAmount :: "deposit_index \<Rightarrow> s64" where
  "fullDepositAmount s = (if di_index s = [] then 0 else de_amount (last (di_index s)))"

definition fullInterestAmount :: "deposit_index \<Rightarrow> u64" where
  "fullInterestAmount s = (if di_index s = [] then 0 else de_interest (last (di_index s)))"

definition sumWillOverflow_s64 :: "s64 \<Rightarrow> s64 \<Rightarrow> bool" where
  "sumWillOverflow_s64 x y =
     (if sint y > 0 \<and> sint x > (2 ^ 63 - 1) - sint y then True
      else if sint y < 0 \<and> sint x < - (2 ^ 63) - sint y then True
      else False)"

definition sumWillOverflow_u64 :: "u64 \<Rightarrow> u64 \<Rightarrow> bool" where
  "sumWillOverflow_u64 x y = (x > 0xffffffffffffffff - y)"

definition pushBlock :: "s64 \<Rightarrow> u64 \<Rightarrow> deposit_index \<Rightarrow> deposit_index result" where
  "pushBlock amount interest s =
     (let lastAmount = (if di_index s = [] then 0 else de_amount (last (di_index s)));
          lastInterest = (if di_index s = [] then 0 else de_interest (last (di_index s))) in
      assert_res (\<not> sumWillOverflow_s64 amount lastAmount) (
      assert_res (\<not> sumWillOverflow_u64 interest lastInterest) (
      assert_res (0 \<le> sint (amount + lastAmount)) (
        let s1 = (if amount \<noteq> 0
                  then s\<lparr>di_index := di_index s @
                         [\<lparr>de_height = di_blockCount s, de_amount = amount + lastAmount,
                           de_interest = interest + lastInterest\<rparr>]\<rparr>
                  else s)
        in Inr (s1\<lparr>di_blockCount := di_blockCount s1 + 1\<rparr>)))))"

definition popBlock :: "deposit_index \<Rightarrow> deposit_index result" where
  "popBlock s = assert_res (0 < di_blockCount s)
     (let s1 = s\<lparr>di_blockCount := di_blockCount s - 1\<rparr> in
      Inr (if di_index s1 \<noteq> [] \<and> de_height (last (di_index s1)) = di_blockCount s1
           then s1\<lparr>di_index := butlast (di_index s1)\<rparr> else s1))"

definition size_di :: "deposit_index \<Rightarrow> u32" where
  "size_di s = di_blockCount s"

text \<open>\<^verbatim>\<open>std::upper_bound\<close> on a range ordered by height: the position of the first entry above it.\<close>

definition upperBound :: "u32 \<Rightarrow> deposit_index \<Rightarrow> nat" where
  "upperBound height s = length (takeWhile (\<lambda>e. \<not> height < de_height e) (di_index s))"

definition popBlocks :: "u32 \<Rightarrow> deposit_index \<Rightarrow> usize \<times> deposit_index" where
  "popBlocks from s =
     (if from \<ge> di_blockCount s then (0, s)
      else
        let it = upperBound from s;
            it = (if it \<noteq> 0
                  then (let it = it - 1 in if de_height (di_index s ! it) \<noteq> from then it + 1 else it)
                  else it);
            s1 = s\<lparr>di_index := take it (di_index s)\<rparr>;
            diff = di_blockCount s1 - from
        in (ucast diff, s1\<lparr>di_blockCount := di_blockCount s1 - diff\<rparr>))"

definition depositAmountAtHeight :: "u32 \<Rightarrow> deposit_index \<Rightarrow> s64" where
  "depositAmountAtHeight height s =
     (if di_blockCount s = 0 then 0
      else let it = upperBound height s in if it = 0 then 0 else de_amount (di_index s ! (it - 1)))"

definition depositInterestAtHeight :: "u32 \<Rightarrow> deposit_index \<Rightarrow> u64" where
  "depositInterestAtHeight height s =
     (if di_blockCount s = 0 then 0
      else let it = upperBound height s in if it = 0 then 0 else de_interest (di_index s ! (it - 1)))"

section \<open>Specification: the pushed history\<close>

type_synonym deposit_history = "(s64 \<times> u64) list"

definition hist_amount :: "deposit_history \<Rightarrow> s64" where
  "hist_amount ds = sum_list (map fst ds)"

text \<open>Interest pushed together with a zero amount is dropped by \<open>pushBlock\<close>.\<close>

definition hist_interest :: "deposit_history \<Rightarrow> u64" where
  "hist_interest ds = sum_list (map snd (filter (\<lambda>d. fst d \<noteq> 0) ds))"

definition hist_entry :: "deposit_history \<Rightarrow> nat \<Rightarrow> deposit_entry" where
  "hist_entry ds i = \<lparr>de_height = of_nat i, de_amount = hist_amount (take (Suc i) ds),
     de_interest = hist_interest (take (Suc i) ds)\<rparr>"

definition hist_index :: "deposit_history \<Rightarrow> deposit_index" where
  "hist_index ds = \<lparr>di_index = map (hist_entry ds) (filter (\<lambda>i. fst (ds ! i) \<noteq> 0) [0..<length ds]),
     di_blockCount = of_nat (length ds)\<rparr>"

fun di_pushes :: "deposit_history \<Rightarrow> deposit_index \<Rightarrow> deposit_index result" where
  "di_pushes [] s = Inr s"
| "di_pushes (d # ds) s = bind_res (pushBlock (fst d) (snd d) s) (di_pushes ds)"

section \<open>The index as a height index\<close>

definition di_inv :: "deposit_index \<Rightarrow> bool" where
  "di_inv s = list_all (\<lambda>e. de_height e < di_blockCount s) (di_index s)"

lemmas deposit_index_defs = pushBlock_def popBlock_def di_inv_def Let_def

lemma u32_Suc: "unat (n :: u32) < 2 ^ 32 - 1 \<Longrightarrow> unat (n + 1) = Suc (unat n)"
  by (simp add: unat_word_ariths)

lemma pushBlock_InrE:
  assumes "pushBlock a i s = Inr s'"
  obtains "\<not> sumWillOverflow_s64 a (fullDepositAmount s)"
    "\<not> sumWillOverflow_u64 i (fullInterestAmount s)" "0 \<le> sint (a + fullDepositAmount s)"
    "s' = \<lparr>di_index = (if a \<noteq> 0 then di_index s @ [\<lparr>de_height = di_blockCount s,
        de_amount = a + fullDepositAmount s, de_interest = i + fullInterestAmount s\<rparr>] else di_index s),
      di_blockCount = di_blockCount s + 1\<rparr>"
  using assms that
  by (cases s) (auto simp: pushBlock_def assert_res_def fullDepositAmount_def fullInterestAmount_def
      Let_def split: if_splits)

lemma di_inv_pushBlock:
  assumes "di_inv s" "unat (di_blockCount s) < 2 ^ 32 - 1" "pushBlock a i s = Inr s'"
  shows "di_inv s'"
proof -
  have "x < di_blockCount s + 1" if "x \<le> di_blockCount s" for x
    using that u32_Suc [OF assms(2)] by (simp add: word_less_nat_alt word_le_nat_alt)
  then show ?thesis
    using assms(1,3) by (elim pushBlock_InrE) (auto simp: di_inv_def list_all_iff)
qed

lemma popBlock_pushBlock:
  assumes "di_inv s" "unat (di_blockCount s) < 2 ^ 32 - 1" "pushBlock a i s = Inr s'"
  shows "popBlock s' = Inr s"
proof -
  have "0 < di_blockCount s + 1"
    using u32_Suc [OF assms(2)] by (simp add: word_less_nat_alt)
  moreover have "de_height (last (di_index s)) \<noteq> di_blockCount s" if "di_index s \<noteq> []"
    using assms(1) last_in_set [OF that] by (auto simp: di_inv_def list_all_iff)
  ultimately show ?thesis
    using assms(3) by (elim pushBlock_InrE, cases s) (auto simp: popBlock_def Let_def)
qed

interpretation di: height_index deposit_index_new "\<lambda>d. pushBlock (fst d) (snd d)" popBlock
  "\<lambda>s. unat (di_blockCount s)" di_inv "2 ^ 32 - 1"
proof unfold_locales
  show "di_inv deposit_index_new" by (simp add: di_inv_def deposit_index_new_def)
  show "unat (di_blockCount deposit_index_new) = 0" by (simp add: deposit_index_new_def)
  fix s s' :: deposit_index and d
  assume *: "di_inv s" "unat (di_blockCount s) < 2 ^ 32 - 1" "pushBlock (fst d) (snd d) s = Inr s'"
  show "di_inv s'" by (rule di_inv_pushBlock [OF *])
  show "unat (di_blockCount s') = Suc (unat (di_blockCount s))"
    using * by (elim pushBlock_InrE) (simp add: u32_Suc)
  show "popBlock s' = Inr s" by (rule popBlock_pushBlock [OF *])
qed

lemma di_pushes_eq: "di.push_all ds s = di_pushes ds s"
proof (induction ds arbitrary: s)
  case (Cons d ds)
  then have "di.push_all ds = di_pushes ds" by blast
  then show ?case by simp
qed simp

lemma di_pushes_snoc:
  "di_pushes (ds @ [d]) s = bind_res (di_pushes ds s) (pushBlock (fst d) (snd d))"
  using di.push_all_append [of ds "[d]" s]
  by (auto simp: di_pushes_eq bind_res_def split: sum.splits)

section \<open>The index holds the history\<close>

lemma hist_amount_simps [simp]: "hist_amount [] = 0" "hist_amount (ds @ [d]) = hist_amount ds + fst d"
  by (simp_all add: hist_amount_def)

lemma hist_interest_simps [simp]:
  "hist_interest [] = 0"
  "hist_interest (ds @ [d]) = hist_interest ds + (if fst d = 0 then 0 else snd d)"
  by (simp_all add: hist_interest_def)

lemma hist_index_snoc:
  "hist_index (ds @ [d]) =
    \<lparr>di_index = di_index (hist_index ds) @ (if fst d = 0 then [] else
       [\<lparr>de_height = of_nat (length ds), de_amount = hist_amount ds + fst d,
         de_interest = hist_interest ds + snd d\<rparr>]),
     di_blockCount = of_nat (length ds) + 1\<rparr>"
proof -
  have "map (hist_entry (ds @ [d])) (filter (\<lambda>i. fst ((ds @ [d]) ! i) \<noteq> 0) [0..<length ds]) =
      map (hist_entry ds) (filter (\<lambda>i. fst (ds ! i) \<noteq> 0) [0..<length ds])"
    by (rule map_cong, rule filter_cong) (auto simp: nth_append hist_entry_def)
  then show ?thesis by (simp add: hist_index_def hist_entry_def add.commute)
qed

lemma full_hist [simp]:
  "fullDepositAmount (hist_index ds) = hist_amount ds"
  "fullInterestAmount (hist_index ds) = hist_interest ds"
  by (induction ds rule: rev_induct)
    (auto simp: fullDepositAmount_def fullInterestAmount_def hist_index_snoc hist_index_def [of "[]"])

lemma di_pushes_hist:
  assumes "di_pushes ds deposit_index_new = Inr s"
  shows "s = hist_index ds"
  using assms
proof (induction ds arbitrary: s rule: rev_induct)
  case (snoc d ds)
  then obtain t where t: "di_pushes ds deposit_index_new = Inr t" "pushBlock (fst d) (snd d) t = Inr s"
    by (auto simp: di_pushes_snoc bind_res_def split: sum.splits)
  from snoc.IH [OF t(1)] t(2) show ?case
    by (elim pushBlock_InrE) (auto simp: hist_index_snoc, simp_all add: hist_index_def add.commute)
qed (simp add: deposit_index_new_def hist_index_def)

section \<open>Queries and cuts\<close>

lemma hist_height_less:
  assumes "e \<in> set (di_index (hist_index ds))" "length ds < 2 ^ 32"
  shows "unat (de_height e) < length ds"
proof -
  from assms(1) obtain i where i: "i < length ds" "e = hist_entry ds i" by (auto simp: hist_index_def)
  then have "unat (of_nat i :: u32) = i" using assms(2) by (simp add: unat_of_nat_u32)
  with i show ?thesis by (simp add: hist_entry_def)
qed

lemma takeWhile_hist:
  assumes "length ds < 2 ^ 32"
  shows "takeWhile (\<lambda>e. \<not> h < de_height e) (di_index (hist_index ds)) =
    di_index (hist_index (take (Suc (unat h)) ds))"
  using assms
proof (induction ds rule: rev_induct)
  case (snoc d ds)
  have len: "length ds < 2 ^ 32" using snoc.prems by simp
  have n: "unat (of_nat (length ds) :: u32) = length ds" using len by (simp add: unat_of_nat_u32)
  show ?case
  proof (cases "length ds \<le> unat h")
    case True
    have "\<not> h < de_height e" if "e \<in> set (di_index (hist_index (ds @ [d])))" for e
      using hist_height_less [OF that snoc.prems] True by (simp add: word_less_nat_alt)
    then have "takeWhile (\<lambda>e. \<not> h < de_height e) (di_index (hist_index (ds @ [d]))) =
        di_index (hist_index (ds @ [d]))" by (simp add: takeWhile_eq_all_conv)
    with True show ?thesis by simp
  next
    case False
    then have "h < of_nat (length ds)" by (simp add: word_less_nat_alt n)
    then show ?thesis
      using snoc.IH [OF len] False by (simp add: hist_index_snoc takeWhile_tail)
  qed
qed (simp add: hist_index_def)

lemma upperBound_hist:
  "length ds < 2 ^ 32 \<Longrightarrow>
    take (upperBound h (hist_index ds)) (di_index (hist_index ds)) = di_index (hist_index (take (Suc (unat h)) ds))"
  unfolding upperBound_def takeWhile_eq_take [symmetric] by (rule takeWhile_hist)

lemma nth_last_take: "n \<noteq> 0 \<Longrightarrow> n \<le> length xs \<Longrightarrow> xs ! (n - 1) = last (take n xs)"
  by (subst last_conv_nth) auto

lemma upperBound_le: "upperBound h s \<le> length (di_index s)"
  by (simp add: upperBound_def length_takeWhile_le)

lemma amountAtHeight_hist:
  assumes "length ds < 2 ^ 32"
  shows "depositAmountAtHeight h (hist_index ds) = hist_amount (take (Suc (unat h)) ds)"
    and "depositInterestAtHeight h (hist_index ds) = hist_interest (take (Suc (unat h)) ds)"
proof -
  let ?s = "hist_index ds" and ?t = "hist_index (take (Suc (unat h)) ds)"
  let ?n = "upperBound h ?s"
  have n: "?n = 0 \<longleftrightarrow> di_index ?t = []"
    using upperBound_hist [OF assms, of h] upperBound_le [of h ?s]
    by (metis le_zero_eq length_0_conv length_take min.absorb2 take_eq_Nil)
  have l: "di_index ?s ! (?n - 1) = last (di_index ?t)" if "?n \<noteq> 0"
    using nth_last_take [OF that upperBound_le] upperBound_hist [OF assms] by simp
  have "di_blockCount ?s = 0 \<longleftrightarrow> ds = []"
    using assms by (simp add: hist_index_def word_unat_eq_iff unat_of_nat_u32)
  moreover have "di_index ?t = []" if "ds = []" using that by (simp add: hist_index_def)
  ultimately have "depositAmountAtHeight h ?s = fullDepositAmount ?t"
    and "depositInterestAtHeight h ?s = fullInterestAmount ?t"
    using n l by (auto simp: depositAmountAtHeight_def depositInterestAtHeight_def Let_def
        fullDepositAmount_def fullInterestAmount_def)
  then show "depositAmountAtHeight h ?s = hist_amount (take (Suc (unat h)) ds)"
    and "depositInterestAtHeight h ?s = hist_interest (take (Suc (unat h)) ds)" by simp_all
qed

lemma popBlocks_hist:
  assumes "length ds < 2 ^ 32"
  shows "popBlocks from (hist_index ds) =
    (of_nat (length ds - unat from), hist_index (take (unat from) ds))"
proof (cases "unat from < length ds")
  case False
  then have "di_blockCount (hist_index ds) \<le> from"
    using assms by (simp add: word_le_nat_alt hist_index_def unat_of_nat_u32)
  with False show ?thesis by (simp add: popBlocks_def)
next
  case True
  let ?s = "hist_index ds" and ?k = "unat from"
  let ?n = "upperBound from ?s"
  have lt: "\<not> di_blockCount ?s \<le> from"
    using True assms by (simp add: word_le_nat_alt hist_index_def unat_of_nat_u32)
  have cut: "take (Suc ?k) ds = take ?k ds @ [ds ! ?k]" using True by (rule take_Suc_conv_app_nth)
  let ?e = "\<lparr>de_height = from, de_amount = hist_amount (take ?k ds) + fst (ds ! ?k),
         de_interest = hist_interest (take ?k ds) + snd (ds ! ?k)\<rparr>"
  have t: "take ?n (di_index ?s) = di_index (hist_index (take ?k ds)) @ (if fst (ds ! ?k) = 0 then [] else [?e])"
    using upperBound_hist [OF assms, of "from"] True by (simp add: cut hist_index_snoc)
  let ?it = "if ?n \<noteq> 0 then (if de_height (di_index ?s ! (?n - 1)) \<noteq> from then ?n - 1 + 1 else ?n - 1) else ?n"
  have small: "de_height e \<noteq> from" if "e \<in> set (di_index (hist_index (take ?k ds)))" for e
    using hist_height_less [OF that] True assms by auto
  have it: "take ?it (di_index ?s) = di_index (hist_index (take ?k ds))"
  proof (cases "?n = 0")
    case True
    with t show ?thesis by (auto split: if_splits)
  next
    case n: False
    note l = nth_last_take [OF n upperBound_le]
    have ne: "take ?n (di_index ?s) \<noteq> []" using n upperBound_le [of "from" ?s] by auto
    show ?thesis
    proof (cases "fst (ds ! ?k) = 0")
      case True
      then have "di_index ?s ! (?n - 1) \<in> set (di_index (hist_index (take ?k ds)))"
        using ne last_in_set [of "take ?n (di_index ?s)"] unfolding l t by simp
      then have "de_height (di_index ?s ! (?n - 1)) \<noteq> from" by (rule small)
      with n t True show ?thesis by simp
    next
      case False
      have "take (?n - 1) (di_index ?s) = butlast (take ?n (di_index ?s))"
        using upperBound_le [of "from" ?s] by (simp add: butlast_take)
      moreover have "de_height (di_index ?s ! (?n - 1)) = from" unfolding l t using False by simp
      ultimately show ?thesis using n t False by simp
    qed
  qed
  have cnt: "di_blockCount ?s - (di_blockCount ?s - from) = of_nat (length (take ?k ds))"
    using True by (simp add: min_absorb2)
  have "unat (di_blockCount ?s - from) = length ds - ?k"
    using lt assms True by (simp add: unat_sub hist_index_def unat_of_nat_u32 word_le_nat_alt)
  then have diff: "ucast (di_blockCount ?s - from) = (of_nat (length ds - ?k) :: usize)"
    using True assms by (simp add: word_unat_eq_iff unat_of_nat_u64 del: of_nat_diff)
  have "popBlocks from ?s = (ucast (di_blockCount ?s - from), \<lparr>di_index = take ?it (di_index ?s),
      di_blockCount = di_blockCount ?s - (di_blockCount ?s - from)\<rparr>)"
    unfolding popBlocks_def Let_def using lt by (cases ?s) simp
  then show ?thesis unfolding it diff cnt by (simp only: hist_index_def [of "take ?k ds"] deposit_index.simps)
qed

section \<open>No wrap-around\<close>

lemma sint_add_no_overflow:
  assumes "\<not> sumWillOverflow_s64 x y"
  shows "sint (x + y) = sint x + sint y"
proof -
  have r: "- (2 ^ 63) \<le> sint w \<and> sint w < 2 ^ 63" for w :: s64
    using sint_greater_eq [of w] sint_less [of w] by simp
  have "- (2 ^ 63) \<le> sint x + sint y \<and> sint x + sint y < 2 ^ 63"
    using assms r [of x] r [of y] by (auto simp: sumWillOverflow_s64_def split: if_splits)
  then have "signed_take_bit 63 (sint x + sint y) = sint x + sint y"
    by (intro signed_take_bit_int_eq_self) simp_all
  then show ?thesis by (simp add: sint_word_ariths)
qed

lemma unat_add_no_overflow:
  assumes "\<not> sumWillOverflow_u64 x y"
  shows "unat (x + y) = unat x + unat y"
proof -
  have "unat (0xffffffffffffffff - y) = 18446744073709551615 - unat y"
    by (subst unat_sub) (simp_all add: word_le_nat_alt less_Suc_eq_le [symmetric])
  then have "unat x + unat y < 2 ^ 64"
    using assms unat_u64_less [of y]
    by (simp add: sumWillOverflow_u64_def not_less word_le_nat_alt del: unat_u64_less)
  then show ?thesis by (simp add: unat_word_ariths)
qed

lemma di_pushes_no_wrap:
  assumes "di_pushes ds deposit_index_new = Inr s"
  shows "sint (hist_amount ds) = (\<Sum>d\<leftarrow>ds. sint (fst d)) \<and> 0 \<le> sint (hist_amount ds) \<and>
    unat (hist_interest ds) = (\<Sum>d\<leftarrow>filter (\<lambda>d. fst d \<noteq> 0) ds. unat (snd d))"
  using assms
proof (induction ds arbitrary: s rule: rev_induct)
  case (snoc d ds)
  then obtain t where t: "di_pushes ds deposit_index_new = Inr t" "pushBlock (fst d) (snd d) t = Inr s"
    by (auto simp: di_pushes_snoc bind_res_def split: sum.splits)
  from t(2) show ?case
  proof (cases rule: pushBlock_InrE)
    case 1
    then have "sint (hist_amount ds + fst d) = sint (hist_amount ds) + sint (fst d)"
      "unat (hist_interest ds + snd d) = unat (hist_interest ds) + unat (snd d)"
      "0 \<le> sint (hist_amount ds + fst d)"
      using sint_add_no_overflow [of "fst d" "hist_amount ds"] unat_add_no_overflow [of "snd d" "hist_interest ds"]
      by (simp_all add: di_pushes_hist [OF t(1)] add.commute)
    then show ?thesis using snoc.IH [OF t(1)] by simp
  qed
qed simp

lemma di_pushes_take:
  assumes "di_pushes ds s = Inr t"
  shows "\<exists>u. di_pushes (take k ds) s = Inr u"
  using assms by (induction ds arbitrary: s k) (auto simp: take_Cons bind_res_def split: sum.splits nat.splits)

section \<open>Properties\<close>

text \<open>Popping one block at a time.\<close>

fun popBlock_times :: "nat \<Rightarrow> deposit_index \<Rightarrow> deposit_index result" where
  "popBlock_times 0 s = Inr s"
| "popBlock_times (Suc n) s = bind_res (popBlock s) (popBlock_times n)"

lemma popBlock_times_eq: "di.pop_n n s = popBlock_times n s"
proof (induction n arbitrary: s)
  case (Suc n)
  then have "di.pop_n n = popBlock_times n" by blast
  then show ?case by simp
qed simp

text \<open>C28: for a chain whose blocks pushed \<open>ds\<close> without tripping an assertion, the index answers
  every height with the sum of the amounts pushed up to and including that height, and with the sum
  of the interests of the blocks that changed the amount, as mathematical sums: nothing wrapped.\<close>

theorem deposit_index_totals:
  assumes "di_pushes ds deposit_index_new = Inr s" and "length ds < 2 ^ 32"
  shows "sint (depositAmountAtHeight h s) = (\<Sum>d\<leftarrow>take (Suc (unat h)) ds. sint (fst d)) \<and>
    unat (depositInterestAtHeight h s) =
      (\<Sum>d\<leftarrow>filter (\<lambda>d. fst d \<noteq> 0) (take (Suc (unat h)) ds). unat (snd d)) \<and>
    sint (fullDepositAmount s) = (\<Sum>d\<leftarrow>ds. sint (fst d)) \<and> 0 \<le> sint (fullDepositAmount s)"
proof -
  obtain u where "di_pushes (take (Suc (unat h)) ds) deposit_index_new = Inr u"
    using di_pushes_take [OF assms(1)] by blast
  from di_pushes_no_wrap [OF this] di_pushes_no_wrap [OF assms(1)] show ?thesis
    using amountAtHeight_hist [OF assms(2)] by (simp add: di_pushes_hist [OF assms(1)])
qed

theorem deposit_index_totals_witness:
  "\<exists>s. di_pushes [(5, 1), (0, 9), (7, 2), (-4, 3)] deposit_index_new = Inr s \<and>
     sint (depositAmountAtHeight 1 s) = 5 \<and> unat (depositInterestAtHeight 2 s) = 3 \<and>
     sint (fullDepositAmount s) = 8"
proof -
  let ?ds = "[(5, 1), (0, 9), (7, 2), (-4, 3)]"
  obtain s where s: "di_pushes ?ds deposit_index_new = Inr s"
    by (simp add: pushBlock_def deposit_index_new_def sumWillOverflow_s64_def sumWillOverflow_u64_def Let_def)
  show ?thesis
    using s deposit_index_totals [OF s, of 1] deposit_index_totals [OF s, of 2] by (intro exI [of _ s]) simp
qed

text \<open>C26: cutting the index at height \<open>from\<close> with the binary search of \<open>popBlocks\<close> returns the
  number of blocks removed and gives the index built from the first \<open>from\<close> blocks alone, the same
  index that popping the blocks one by one gives.\<close>

theorem deposit_index_cut:
  assumes "di_pushes ds deposit_index_new = Inr s" and "length ds < 2 ^ 32" and "unat from \<le> length ds"
  shows "unat (fst (popBlocks from s)) = length ds - unat from \<and>
    di_pushes (take (unat from) ds) deposit_index_new = Inr (snd (popBlocks from s)) \<and>
    popBlock_times (length ds - unat from) s = Inr (snd (popBlocks from s))"
proof -
  obtain u where u: "di_pushes (take (unat from) ds) deposit_index_new = Inr u"
    using di_pushes_take [OF assms(1)] by blast
  have "popBlock_times (length ds - unat from) s = Inr u"
    using di.pop_to_height [of ds s "unat from"] assms u by (simp add: di_pushes_eq popBlock_times_eq)
  moreover have "popBlocks from s = (of_nat (length ds - unat from), u)"
    using popBlocks_hist [OF assms(2)] by (simp add: di_pushes_hist [OF assms(1)] di_pushes_hist [OF u])
  moreover have "unat (of_nat (length ds - unat from) :: usize) = length ds - unat from"
    using assms(2) by (intro unat_of_nat_u64) simp
  ultimately show ?thesis using u by simp
qed

theorem deposit_index_cut_example:
  "\<exists>s. di_pushes [(5, 1), (0, 9), (7, 2)] deposit_index_new = Inr s \<and>
     di_pushes [(5, 1)] deposit_index_new = Inr (snd (popBlocks 1 s)) \<and>
     unat (fst (popBlocks 1 s)) = 2"
proof -
  let ?ds = "[(5, 1), (0, 9), (7, 2)]"
  obtain s where s: "di_pushes ?ds deposit_index_new = Inr s"
    by (simp add: pushBlock_def deposit_index_new_def sumWillOverflow_s64_def sumWillOverflow_u64_def Let_def)
  show ?thesis
    using s deposit_index_cut [OF s, of 1] by (intro exI [of _ s]) simp
qed

end
