(* ===== verification/InvestmentIndex.thy ===== *)
theory InvestmentIndex
  imports DepositIndex
begin

text \<open>
  The investment index, \<^verbatim>\<open>src/CryptoNoteCore/InvestmentIndex.cpp\<close>. It is a second class with the
  same operations as the deposit index, kept apart in the source; the definitions follow that file,
  and a structure map to the deposit index that commutes with every operation transfers what is
  proved there.
\<close>

section \<open>Definitions\<close>

record investment_entry =
  ie_height :: u32
  ie_amount :: s64
  ie_interest :: u64

record investment_index =
  ii_index :: "investment_entry list"
  ii_blockCount :: u32

definition investment_index_new :: investment_index where
  "investment_index_new = \<lparr>ii_index = [], ii_blockCount = 0\<rparr>"

definition inv_fullDepositAmount :: "investment_index \<Rightarrow> s64" where
  "inv_fullDepositAmount s = (if ii_index s = [] then 0 else ie_amount (last (ii_index s)))"

definition inv_fullInterestAmount :: "investment_index \<Rightarrow> u64" where
  "inv_fullInterestAmount s = (if ii_index s = [] then 0 else ie_interest (last (ii_index s)))"

definition inv_sumWillOverflow_s64 :: "s64 \<Rightarrow> s64 \<Rightarrow> bool" where
  "inv_sumWillOverflow_s64 x y =
     (if sint y > 0 \<and> sint x > (2 ^ 63 - 1) - sint y then True
      else if sint y < 0 \<and> sint x < - (2 ^ 63) - sint y then True
      else False)"

definition inv_sumWillOverflow_u64 :: "u64 \<Rightarrow> u64 \<Rightarrow> bool" where
  "inv_sumWillOverflow_u64 x y = (x > 0xffffffffffffffff - y)"

definition inv_pushBlock :: "s64 \<Rightarrow> u64 \<Rightarrow> investment_index \<Rightarrow> investment_index result" where
  "inv_pushBlock amount interest s =
     (let lastAmount = (if ii_index s = [] then 0 else ie_amount (last (ii_index s)));
          lastInterest = (if ii_index s = [] then 0 else ie_interest (last (ii_index s))) in
      assert_res (\<not> inv_sumWillOverflow_s64 amount lastAmount) (
      assert_res (\<not> inv_sumWillOverflow_u64 interest lastInterest) (
      assert_res (0 \<le> sint (amount + lastAmount)) (
        let s1 = (if amount \<noteq> 0
                  then s\<lparr>ii_index := ii_index s @
                         [\<lparr>ie_height = ii_blockCount s, ie_amount = amount + lastAmount,
                           ie_interest = interest + lastInterest\<rparr>]\<rparr>
                  else s)
        in Inr (s1\<lparr>ii_blockCount := ii_blockCount s1 + 1\<rparr>)))))"

definition inv_popBlock :: "investment_index \<Rightarrow> investment_index result" where
  "inv_popBlock s = assert_res (0 < ii_blockCount s)
     (let s1 = s\<lparr>ii_blockCount := ii_blockCount s - 1\<rparr> in
      Inr (if ii_index s1 \<noteq> [] \<and> ie_height (last (ii_index s1)) = ii_blockCount s1
           then s1\<lparr>ii_index := butlast (ii_index s1)\<rparr> else s1))"

definition size_ii :: "investment_index \<Rightarrow> u32" where
  "size_ii s = ii_blockCount s"

text \<open>\<^verbatim>\<open>std::upper_bound\<close> on a range ordered by height: the position of the first entry above it.\<close>

definition inv_upperBound :: "u32 \<Rightarrow> investment_index \<Rightarrow> nat" where
  "inv_upperBound height s = length (takeWhile (\<lambda>e. \<not> height < ie_height e) (ii_index s))"

definition inv_popBlocks :: "u32 \<Rightarrow> investment_index \<Rightarrow> usize \<times> investment_index" where
  "inv_popBlocks from s =
     (if from \<ge> ii_blockCount s then (0, s)
      else
        let it = inv_upperBound from s;
            it = (if it \<noteq> 0
                  then (let it = it - 1 in if ie_height (ii_index s ! it) \<noteq> from then it + 1 else it)
                  else it);
            s1 = s\<lparr>ii_index := take it (ii_index s)\<rparr>;
            diff = ii_blockCount s1 - from
        in (ucast diff, s1\<lparr>ii_blockCount := ii_blockCount s1 - diff\<rparr>))"

definition investmentAmountAtHeight :: "u32 \<Rightarrow> investment_index \<Rightarrow> s64" where
  "investmentAmountAtHeight height s =
     (if ii_blockCount s = 0 then 0
      else let it = inv_upperBound height s in if it = 0 then 0 else ie_amount (ii_index s ! (it - 1)))"

definition inv_depositInterestAtHeight :: "u32 \<Rightarrow> investment_index \<Rightarrow> u64" where
  "inv_depositInterestAtHeight height s =
     (if ii_blockCount s = 0 then 0
      else let it = inv_upperBound height s in if it = 0 then 0 else ie_interest (ii_index s ! (it - 1)))"

section \<open>The structure map\<close>

definition as_deposit_entry :: "investment_entry \<Rightarrow> deposit_entry" where
  "as_deposit_entry e = \<lparr>de_height = ie_height e, de_amount = ie_amount e, de_interest = ie_interest e\<rparr>"

definition as_deposit :: "investment_index \<Rightarrow> deposit_index" where
  "as_deposit s = \<lparr>di_index = map as_deposit_entry (ii_index s), di_blockCount = ii_blockCount s\<rparr>"

lemmas as_deposit_defs = as_deposit_def as_deposit_entry_def

lemma as_deposit_entry_sel [simp]:
  "de_height (as_deposit_entry e) = ie_height e"
  "de_amount (as_deposit_entry e) = ie_amount e"
  "de_interest (as_deposit_entry e) = ie_interest e"
  by (simp_all add: as_deposit_entry_def)

lemma as_deposit_sel [simp]:
  "di_index (as_deposit s) = map as_deposit_entry (ii_index s)"
  "di_blockCount (as_deposit s) = ii_blockCount s"
  by (simp_all add: as_deposit_def)

lemma as_deposit_inject: "as_deposit s = as_deposit t \<Longrightarrow> s = t"
proof -
  have "inj as_deposit_entry" by (rule injI) (simp add: as_deposit_entry_def)
  then show "as_deposit s = as_deposit t \<Longrightarrow> s = t"
    by (simp add: as_deposit_def inj_map_eq_map)
qed

lemma as_deposit_overflow:
  "inv_sumWillOverflow_s64 x y = sumWillOverflow_s64 x y"
  "inv_sumWillOverflow_u64 i j = sumWillOverflow_u64 i j"
  by (simp_all add: inv_sumWillOverflow_s64_def sumWillOverflow_s64_def
      inv_sumWillOverflow_u64_def sumWillOverflow_u64_def)

lemma as_deposit_full:
  "fullDepositAmount (as_deposit s) = inv_fullDepositAmount s"
  "fullInterestAmount (as_deposit s) = inv_fullInterestAmount s"
  by (simp_all add: fullDepositAmount_def inv_fullDepositAmount_def fullInterestAmount_def
      inv_fullInterestAmount_def last_map)

lemma as_deposit_upperBound: "upperBound h (as_deposit s) = inv_upperBound h s"
  by (simp add: upperBound_def inv_upperBound_def takeWhile_map comp_def)

lemma inv_upperBound_le: "inv_upperBound h s \<le> length (ii_index s)"
  by (simp add: inv_upperBound_def length_takeWhile_le)

lemma as_deposit_push:
  "pushBlock a i (as_deposit s) = map_sum id as_deposit (inv_pushBlock a i s)"
proof -
  have "(if di_index (as_deposit s) = [] then 0 else de_amount (last (di_index (as_deposit s)))) =
      (if ii_index s = [] then 0 else ie_amount (last (ii_index s)))"
    "(if di_index (as_deposit s) = [] then 0 else de_interest (last (di_index (as_deposit s)))) =
      (if ii_index s = [] then 0 else ie_interest (last (ii_index s)))"
    by (simp_all add: last_map)
  then show ?thesis
    unfolding pushBlock_def inv_pushBlock_def as_deposit_overflow Let_def
    by (simp add: assert_res_def as_deposit_def as_deposit_entry_def)
qed

lemma as_deposit_pop: "popBlock (as_deposit s) = map_sum id as_deposit (inv_popBlock s)"
  by (cases "ii_index s = []")
    (simp_all add: popBlock_def inv_popBlock_def assert_res_def as_deposit_def last_map map_butlast Let_def)

lemma as_deposit_popBlocks: "popBlocks h (as_deposit s) = map_prod id as_deposit (inv_popBlocks h s)"
proof -
  have "map as_deposit_entry (ii_index s) ! (inv_upperBound h s - 1) =
      as_deposit_entry (ii_index s ! (inv_upperBound h s - 1))" if "inv_upperBound h s \<noteq> 0"
    using that inv_upperBound_le [of h s] by (intro nth_map) simp
  then show ?thesis
    unfolding popBlocks_def inv_popBlocks_def as_deposit_upperBound Let_def
    by (simp add: as_deposit_def take_map)
qed

lemma as_deposit_queries:
  "depositAmountAtHeight h (as_deposit s) = investmentAmountAtHeight h s"
  "depositInterestAtHeight h (as_deposit s) = inv_depositInterestAtHeight h s"
proof -
  have "map as_deposit_entry (ii_index s) ! (inv_upperBound h s - 1) =
      as_deposit_entry (ii_index s ! (inv_upperBound h s - 1))" if "inv_upperBound h s \<noteq> 0"
    using that inv_upperBound_le [of h s] by (intro nth_map) simp
  then show "depositAmountAtHeight h (as_deposit s) = investmentAmountAtHeight h s"
    "depositInterestAtHeight h (as_deposit s) = inv_depositInterestAtHeight h s"
    by (simp_all add: depositAmountAtHeight_def investmentAmountAtHeight_def depositInterestAtHeight_def
        inv_depositInterestAtHeight_def as_deposit_upperBound Let_def)
qed

section \<open>Transfer\<close>

interpretation ii: height_index investment_index_new "\<lambda>d. inv_pushBlock (fst d) (snd d)" inv_popBlock
  "\<lambda>s. unat (ii_blockCount s)" "\<lambda>s. di_inv (as_deposit s)" "2 ^ 32 - 1"
proof unfold_locales
  have new: "as_deposit investment_index_new = deposit_index_new"
    by (simp add: as_deposit_def investment_index_new_def deposit_index_new_def)
  show "di_inv (as_deposit investment_index_new)" unfolding new by (rule di.inv_empty)
  show "unat (ii_blockCount investment_index_new) = 0" by (simp add: investment_index_new_def)
  fix s s' :: investment_index and d
  assume "di_inv (as_deposit s)" "unat (ii_blockCount s) < 2 ^ 32 - 1" "inv_pushBlock (fst d) (snd d) s = Inr s'"
  then have *: "di_inv (as_deposit s)" "unat (di_blockCount (as_deposit s)) < 2 ^ 32 - 1"
    "pushBlock (fst d) (snd d) (as_deposit s) = Inr (as_deposit s')"
    by (simp_all add: as_deposit_push)
  show "di_inv (as_deposit s')" by (rule di.inv_push [OF *])
  show "unat (ii_blockCount s') = Suc (unat (ii_blockCount s))" using di.count_push [OF *] by simp
  have "map_sum id as_deposit (inv_popBlock s') = Inr (as_deposit s)"
    using di.pop_push [OF *] by (simp add: as_deposit_pop)
  then show "inv_popBlock s' = Inr s"
    by (cases "inv_popBlock s'") (auto dest: as_deposit_inject)
qed

fun ii_pushes :: "deposit_history \<Rightarrow> investment_index \<Rightarrow> investment_index result" where
  "ii_pushes [] s = Inr s"
| "ii_pushes (d # ds) s = bind_res (inv_pushBlock (fst d) (snd d) s) (ii_pushes ds)"

lemma ii_pushes_as_deposit: "di_pushes ds (as_deposit s) = map_sum id as_deposit (ii_pushes ds s)"
proof (induction ds arbitrary: s)
  case (Cons d ds)
  then show ?case
    by (cases "inv_pushBlock (fst d) (snd d) s") (simp_all add: as_deposit_push)
qed simp


end
