(* ===== verification/BlockIndex.thy ===== *)
theory BlockIndex
  imports HeightIndex
begin

text \<open>
  The block index, \<^verbatim>\<open>src/CryptoNoteCore/BlockIndex.cpp\<close> and \<^verbatim>\<open>BlockIndex.h\<close>: the ids of the
  main chain in order, looked up by height and by id. The container is a sequence that refuses
  duplicates (a random-access view and a hashed-unique view of the same elements), so a state is a
  list of ids with \<^term>\<open>distinct\<close> as its invariant. The theorems give the lookups as inverse
  functions, the sparse chain a node sends to its peers (doubling steps back from a block to the
  genesis block), and that a peer with the same genesis block finds a common block in it.
\<close>

section \<open>Definitions\<close>

type_synonym block_index = "hash list"

definition pop_id :: "block_index \<Rightarrow> block_index" where
  "pop_id c = butlast c"

definition push_id :: "hash \<Rightarrow> block_index \<Rightarrow> bool \<times> block_index" where
  "push_id h c = (if h \<in> set c then (False, c) else (True, c @ [h]))"

definition hasBlock :: "hash \<Rightarrow> block_index \<Rightarrow> bool" where
  "hasBlock h c = (h \<in> set c)"

definition getBlockHeight :: "hash \<Rightarrow> block_index \<Rightarrow> u32 option" where
  "getBlockHeight h c = (if h \<in> set c then Some (of_nat (length (takeWhile (\<lambda>x. x \<noteq> h) c))) else None)"

definition size_bi :: "block_index \<Rightarrow> u32" where
  "size_bi c = of_nat (length c)"

definition clear_bi :: "block_index \<Rightarrow> block_index" where
  "clear_bi c = []"

definition getBlockId :: "u32 \<Rightarrow> block_index \<Rightarrow> hash result" where
  "getBlockId height c = assert_res (unat height < length c) (Inr (c ! unat height))"

definition getBlockIds :: "u32 \<Rightarrow> u32 \<Rightarrow> block_index \<Rightarrow> hash list" where
  "getBlockIds startBlockIndex maxCount c =
     (if unat startBlockIndex \<ge> length c then []
      else let count = min (unat maxCount) (length c - unat startBlockIndex)
           in map (\<lambda>i. c ! (unat startBlockIndex + i)) [0..<count])"

fun findSupplement :: "hash list \<Rightarrow> block_index \<Rightarrow> u32 option" where
  "findSupplement [] c = None"
| "findSupplement (i # ids) c =
     (case getBlockHeight i c of Some offset \<Rightarrow> Some offset | None \<Rightarrow> findSupplement ids c)"

text \<open>
  The loop \<^verbatim>\<open>for (size_t i = 1; i <= sparseChainEnd; i *= 2)\<close>. The end is at most
  \<^term>\<open>2 ^ 32 :: nat\<close>, so the 64-bit counter does not wrap and a natural number stands for it.
\<close>

function sparse_loop :: "nat \<Rightarrow> nat \<Rightarrow> block_index \<Rightarrow> hash list" where
  "sparse_loop i sparseChainEnd c =
     (if 0 < i \<and> i \<le> sparseChainEnd then c ! (sparseChainEnd - i) # sparse_loop (i * 2) sparseChainEnd c
      else [])"
  by pat_completeness auto
termination by (relation "measure (\<lambda>(i, e, _). Suc e - i)") auto

declare sparse_loop.simps [simp del]

definition buildSparseChain :: "hash \<Rightarrow> block_index \<Rightarrow> hash list result" where
  "buildSparseChain startBlockId c =
     (case getBlockHeight startBlockId c of
        None \<Rightarrow> Inl AssertFailed
      | Some startBlockHeight \<Rightarrow>
          let sparseChainEnd = unat (startBlockHeight + 1);
              result = sparse_loop 1 sparseChainEnd c
          in if result = [] then Inl OutOfRange
             else Inr (if last result \<noteq> c ! 0 then result @ [c ! 0] else result))"

definition getTailId :: "block_index \<Rightarrow> hash result" where
  "getTailId c = assert_res (c \<noteq> []) (Inr (last c))"

section \<open>The index as a height index\<close>

text \<open>How the chain uses \<open>push\<close>: the id of a new block is not in the index yet.\<close>

definition push_new :: "hash \<Rightarrow> block_index \<Rightarrow> block_index result" where
  "push_new h c = (case push_id h c of (True, c') \<Rightarrow> Inr c' | (False, _) \<Rightarrow> Inl AssertFailed)"

lemma push_new_Inr: "push_new h c = Inr c' \<longleftrightarrow> h \<notin> set c \<and> c' = c @ [h]"
  by (auto simp: push_new_def push_id_def)

interpretation bi: height_index "[]" push_new "\<lambda>c. Inr (pop_id c)" length distinct "2 ^ 32 - 1"
  by unfold_locales (auto simp: push_new_Inr pop_id_def)

section \<open>Lookups\<close>

lemma takeWhile_nth_distinct: "distinct c \<Longrightarrow> i < length c \<Longrightarrow> length (takeWhile (\<lambda>x. x \<noteq> c ! i) c) = i"
proof (induction c arbitrary: i)
  case (Cons a c)
  then show ?case by (cases i) auto
qed simp

lemma getBlockHeight_nth:
  "distinct c \<Longrightarrow> i < length c \<Longrightarrow> getBlockHeight (c ! i) c = Some (of_nat i)"
  by (simp add: getBlockHeight_def takeWhile_nth_distinct)

lemma getBlockHeight_Some:
  assumes "getBlockHeight h c = Some n" "length c < 2 ^ 32"
  shows "unat n < length c \<and> c ! unat n = h"
proof -
  have h: "h \<in> set c" and n: "n = of_nat (length (takeWhile (\<lambda>x. x \<noteq> h) c))"
    using assms(1) by (auto simp: getBlockHeight_def split: if_splits)
  have l: "length (takeWhile (\<lambda>x. x \<noteq> h) c) < length c"
  proof -
    have "takeWhile (\<lambda>x. x \<noteq> h) c \<noteq> c" using h by (auto simp: takeWhile_eq_all_conv)
    then show ?thesis
      by (metis length_takeWhile_le le_neq_implies_less takeWhile_eq_take take_all_iff order_refl)
  qed
  have "unat n = length (takeWhile (\<lambda>x. x \<noteq> h) c)"
    using l assms(2) by (simp add: n unat_of_nat_u32)
  with l nth_length_takeWhile [OF l] show ?thesis by simp
qed

lemma getBlockIds_slice:
  "getBlockIds start maxCount c = take (unat maxCount) (drop (unat start) c)"
proof (cases "unat start < length c")
  case True
  then show ?thesis
    by (intro nth_equalityI) (auto simp: getBlockIds_def Let_def)
qed (simp add: getBlockIds_def)

section \<open>The sparse chain\<close>

lemma sparse_loop_closed:
  assumes "2 ^ n \<le> e" "e < 2 ^ Suc n" "k \<le> n"
  shows "sparse_loop (2 ^ k) e c = map (\<lambda>j. c ! (e - 2 ^ j)) [k..<Suc n]"
  using assms(3)
proof (induction "n - k" arbitrary: k)
  case 0
  then have "k = n" by simp
  then show ?case
    using assms(1,2) by (subst sparse_loop.simps) (simp add: sparse_loop.simps [of "2 ^ n * 2"])
next
  case (Suc d)
  have "k < n" using Suc by simp
  then have "(2 :: nat) ^ k \<le> 2 ^ n" by (simp add: power_increasing)
  with assms(1) have "2 ^ k \<le> e" by (rule order_trans [rotated])
  then have "sparse_loop (2 ^ k) e c = c ! (e - 2 ^ k) # sparse_loop (2 ^ Suc k) e c"
    by (subst sparse_loop.simps) (simp add: mult.commute)
  also have "sparse_loop (2 ^ Suc k) e c = map (\<lambda>j. c ! (e - 2 ^ j)) [Suc k..<Suc n]"
    using Suc.hyps(1) [of "Suc k"] Suc.hyps(2) \<open>k < n\<close> by simp
  finally show ?case using Suc.prems by (simp add: upt_conv_Cons del: upt_Suc)
qed

lemma power2_bracket: "0 < e \<Longrightarrow> \<exists>n. 2 ^ n \<le> e \<and> e < (2 :: nat) ^ Suc n"
proof (induction e rule: less_induct)
  case (less e)
  show ?case
  proof (cases "e = 1")
    case False
    with less.prems have "e div 2 < e" "0 < e div 2" by auto
    then obtain n where "2 ^ n \<le> e div 2" "e div 2 < 2 ^ Suc n" using less.IH by blast
    then have "2 ^ Suc n \<le> e" "e < 2 ^ Suc (Suc n)" by auto
    then show ?thesis by blast
  qed (auto intro: exI [of _ 0])
qed

lemma buildSparseChain_closed:
  assumes "distinct c" "length c < 2 ^ 32" "p < length c" "2 ^ n \<le> p + 1" "p + 1 < 2 ^ Suc n"
  shows "buildSparseChain (c ! p) c = Inr (map (\<lambda>j. c ! (p + 1 - 2 ^ j)) [0..<Suc n] @
    (if p + 1 = 2 ^ n then [] else [c ! 0]))"
proof -
  have e: "unat (of_nat p + 1 :: u32) = p + 1"
    using assms(2,3) unat_of_nat_u32 [of "Suc p"] by (simp add: add.commute)
  have l: "sparse_loop 1 (p + 1) c = map (\<lambda>j. c ! (p + 1 - 2 ^ j)) [0..<Suc n]"
    using sparse_loop_closed [OF assms(4,5), of 0 c] by simp
  have "last (map (\<lambda>j. c ! (p + 1 - 2 ^ j)) [0..<Suc n]) = c ! (p + 1 - 2 ^ n)" by simp
  moreover have "c ! (p + 1 - 2 ^ n) = c ! 0 \<longleftrightarrow> p + 1 = 2 ^ n"
  proof -
    have "p + 1 - 2 ^ n \<le> p + 1 - 1" by (rule diff_le_mono2) simp
    then have "p + 1 - 2 ^ n < length c" "0 < length c" using assms(3) by auto
    then have "c ! (p + 1 - 2 ^ n) = c ! 0 \<longleftrightarrow> p + 1 - 2 ^ n = 0"
      by (rule nth_eq_iff_index_eq [OF assms(1)])
    then show ?thesis using assms(4) by auto
  qed
  ultimately show ?thesis
    unfolding buildSparseChain_def getBlockHeight_nth [OF assms(1,3)] option.case Let_def e l
    by simp
qed

lemma findSupplement_mem:
  assumes "x \<in> set ids" "hasBlock x c" "length c < 2 ^ 32"
  shows "\<exists>k. findSupplement ids c = Some k \<and> unat k < length c \<and> c ! unat k \<in> set ids"
  using assms(1)
proof (induction ids)
  case (Cons i ids)
  show ?case
  proof (cases "getBlockHeight i c")
    case None
    then have "x \<noteq> i" using assms(2) by (auto simp: getBlockHeight_def hasBlock_def split: if_splits)
    then show ?thesis using Cons None by auto
  next
    case (Some k)
    then show ?thesis using getBlockHeight_Some [OF Some assms(3)] by auto
  qed
qed simp

section \<open>Properties\<close>

text \<open>C30: the sparse chain of the block at height \<open>p\<close> starts with that block, steps back by
  doubling distances, ends with the genesis block, and has at most 33 ids.\<close>

theorem sparse_chain_shape:
  assumes "distinct c" and "length c < 2 ^ 32" and "p < length c"
  shows "\<exists>n ids. buildSparseChain (c ! p) c = Inr ids \<and> hd ids = c ! p \<and> last ids = c ! 0 \<and>
    (\<forall>j \<le> n. 2 ^ j \<le> p + 1 \<and> ids ! j = c ! (p + 1 - 2 ^ j)) \<and> p + 1 < 2 ^ Suc n \<and>
    length ids = (if p + 1 = 2 ^ n then n + 1 else n + 2) \<and> length ids \<le> 33"
proof -
  obtain n where n: "2 ^ n \<le> p + 1" "p + 1 < 2 ^ Suc n" using power2_bracket [of "p + 1"] by auto
  let ?ids = "map (\<lambda>j. c ! (p + 1 - 2 ^ j)) [0..<Suc n] @ (if p + 1 = 2 ^ n then [] else [c ! 0])"
  have b: "buildSparseChain (c ! p) c = Inr ?ids" by (rule buildSparseChain_closed [OF assms n])
  have "(2 :: nat) ^ n < 2 ^ 32" using n(1) assms(2,3) by linarith
  then have n32: "n < 32" by (rule power_less_imp_less_exp [rotated]) simp
  have pow: "2 ^ j \<le> p + 1" if "j \<le> n" for j
    by (rule order_trans [OF power_increasing [OF that] n(1)]) simp
  have at: "?ids ! j = c ! (p + 1 - 2 ^ j)" if "j \<le> n" for j
    using that by (simp add: nth_append nth_map_upt del: upt_Suc)
  have len: "length ?ids = (if p + 1 = 2 ^ n then n + 1 else n + 2)" by simp
  have "hd ?ids = ?ids ! 0" by (rule hd_conv_nth) simp
  then have hd: "hd ?ids = c ! p" using at [of 0] by simp
  have last: "last ?ids = c ! 0" by simp
  have "n + 2 \<le> 33" using n32 by simp
  then show ?thesis
    using b hd last at pow n(2) len by (intro exI [of _ n] exI [of _ ?ids] conjI allI impI) simp_all
qed

theorem sparse_chain_shape_example:
  "\<exists>ids. buildSparseChain [3] [[0], [1], [2], [3], [4]] = Inr ids \<and> hd ids = [3] \<and> last ids = [0]"
  using sparse_chain_shape [of "[[0], [1], [2], [3], [4]]" 3] by auto

text \<open>C36: a node that asks a peer for blocks sends the sparse chain of one of its blocks. A peer with
  the same genesis block always finds a starting point, and it is a block both have.\<close>

theorem supplement_found:
  assumes "distinct c" and "length c < 2 ^ 32" and "p < length c"
    and "length d < 2 ^ 32" and "d \<noteq> []" and "c ! 0 = d ! 0"
  shows "\<exists>ids k. buildSparseChain (c ! p) c = Inr ids \<and> findSupplement ids d = Some k \<and>
    unat k < length d \<and> hasBlock (d ! unat k) c"
proof -
  obtain n where n: "2 ^ n \<le> p + 1" "p + 1 < 2 ^ Suc n" using power2_bracket [of "p + 1"] by auto
  let ?ids = "map (\<lambda>j. c ! (p + 1 - 2 ^ j)) [0..<Suc n] @ (if p + 1 = 2 ^ n then [] else [c ! 0])"
  have b: "buildSparseChain (c ! p) c = Inr ?ids" by (rule buildSparseChain_closed [OF assms(1-3) n])
  have "p + 1 - 2 ^ j \<le> p + 1 - 1" for j :: nat by (rule diff_le_mono2) simp
  then have "p + 1 - 2 ^ j < length c" for j :: nat
    using assms(3) by (metis add_diff_cancel_right' le_less_trans)
  then have "c ! (p + 1 - 2 ^ j) \<in> set c" for j :: nat by (rule nth_mem)
  moreover have "c ! 0 \<in> set c" using assms(3) by (intro nth_mem) auto
  ultimately have sub: "set ?ids \<subseteq> set c" by auto
  have "c ! 0 \<in> set ?ids" by auto
  moreover have "hasBlock (c ! 0) d" using assms(5,6) by (simp add: hasBlock_def)
  ultimately obtain k where "findSupplement ?ids d = Some k" "unat k < length d" "d ! unat k \<in> set ?ids"
    using findSupplement_mem [OF _ _ assms(4)] by blast
  with b sub show ?thesis by (auto simp: hasBlock_def)
qed

theorem supplement_found_witness:
  "\<exists>ids k. buildSparseChain [3] [[0], [1], [2], [3]] = Inr ids \<and> findSupplement ids [[0], [1], [7]] = Some k \<and>
    hasBlock ([[0], [1], [7]] ! unat k) [[0], [1], [2], [3 :: u8]]"
  using supplement_found [of "[[0], [1], [2], [3]]" 3 "[[0], [1], [7]]"] by auto

text \<open>C31: lookups by height and by id are inverse to each other, an id is refused exactly when it is
  in the index, and a slice of ids is the corresponding slice of the chain.\<close>

theorem block_index_lookups:
  assumes "distinct c" and "length c < 2 ^ 32"
  shows "(getBlockHeight h c = Some n \<longleftrightarrow> getBlockId n c = Inr h) \<and>
    (getBlockHeight h c = None \<longleftrightarrow> \<not> hasBlock h c) \<and>
    (fst (push_id h c) \<longleftrightarrow> \<not> hasBlock h c) \<and> distinct (snd (push_id h c)) \<and> distinct (pop_id c) \<and>
    (\<not> hasBlock h c \<longrightarrow> getTailId (snd (push_id h c)) = Inr h \<and> pop_id (snd (push_id h c)) = c) \<and>
    getBlockIds m k c = take (unat k) (drop (unat m) c)"
proof -
  have "getBlockHeight h c = Some n \<longleftrightarrow> getBlockId n c = Inr h"
  proof
    assume "getBlockHeight h c = Some n"
    from getBlockHeight_Some [OF this assms(2)] show "getBlockId n c = Inr h" by (simp add: getBlockId_def)
  next
    assume "getBlockId n c = Inr h"
    then have "unat n < length c" "c ! unat n = h" by (auto simp: getBlockId_def assert_res_def split: if_splits)
    then show "getBlockHeight h c = Some n" using getBlockHeight_nth [OF assms(1)] by fastforce
  qed
  moreover have "getBlockHeight h c = None \<longleftrightarrow> \<not> hasBlock h c"
    by (simp add: getBlockHeight_def hasBlock_def)
  ultimately show ?thesis
    using assms(1) by (auto simp: push_id_def hasBlock_def pop_id_def getTailId_def getBlockIds_slice distinct_butlast)
qed

theorem block_index_lookups_example:
  "getBlockHeight [2] [[0], [1], [2]] = Some 2 \<and> getBlockId 2 [[0], [1], [2]] = Inr [2] \<and>
   getTailId (snd (push_id [5] [[0], [1], [2]])) = Inr [5]"
proof -
  have "getBlockId 2 [[0], [1], [2]] = Inr [2]" by (simp add: getBlockId_def)
  then show ?thesis
    using block_index_lookups [of "[[0], [1], [2]]" "[2]" 2 0 0] block_index_lookups [of "[[0], [1], [2]]" "[5]" 2 0 0]
    by (simp add: hasBlock_def)
qed

end
