(* ===== verification/StringTools.thy ===== *)
theory StringTools
  imports Prelude
begin

text \<open>
  Text helpers, \<^verbatim>\<open>src/Common/StringTools.cpp\<close> and \<^verbatim>\<open>StringTools.h\<close>: the hexadecimal
  conversions that every hash and key passes through when it enters or leaves the program as text,
  and the two \<^verbatim>\<open>extract\<close> functions. A \<^verbatim>\<open>std::string\<close> is a list of characters, a buffer the list
  of its bytes; \<^verbatim>\<open>text[i]\<close> is the element the loop bound keeps in range.
\<close>

section \<open>Definitions\<close>

text \<open>The table of 256 entries: digits, upper-case and lower-case letters up to F, 0xff elsewhere.\<close>

definition hex_value :: "nat \<Rightarrow> u8" where
  "hex_value n =
     (if 0x30 \<le> n \<and> n \<le> 0x39 then of_nat (n - 0x30)
      else if 0x41 \<le> n \<and> n \<le> 0x46 then of_nat (n - 0x41 + 0x0a)
      else if 0x61 \<le> n \<and> n \<le> 0x66 then of_nat (n - 0x61 + 0x0a)
      else 0xff)"

definition characterValues :: "u8 list" where
  "characterValues = map hex_value [0..<256]"

definition char_value :: "char \<Rightarrow> u8" where
  "char_value character = characterValues ! of_char character"

text \<open>The overload that throws.\<close>

definition fromHex_char :: "char \<Rightarrow> u8 result" where
  "fromHex_char character =
     (let value = char_value character in if value > 0x0f then Inl RuntimeError else Inr value)"

text \<open>The overload that returns false; the value is left alone then.\<close>

definition fromHex_char_ok :: "char \<Rightarrow> u8 option" where
  "fromHex_char_ok character =
     (if char_value character > 0x0f then None else Some (char_value character))"

text \<open>
  The loop of the two overloads that fill a buffer, from position \<open>i\<close> on: the bytes written stay in
  the buffer when a later character is refused.
\<close>

fun fromHex_loop :: "nat \<Rightarrow> string \<Rightarrow> u8 list \<Rightarrow> bool \<times> u8 list" where
  "fromHex_loop i (c1 # c2 # text) data =
     (case fromHex_char_ok c1 of None \<Rightarrow> (False, data)
      | Some value1 \<Rightarrow>
          (case fromHex_char_ok c2 of None \<Rightarrow> (False, data)
           | Some value2 \<Rightarrow> fromHex_loop (i + 1) text (data[i := push_bit 4 value1 OR value2])))"
| "fromHex_loop i text data = (True, data)"

text \<open>The result: whether it succeeded, the buffer, and the size assigned on success.\<close>

definition fromHex_buf :: "string \<Rightarrow> u8 list \<Rightarrow> bool \<times> u8 list \<times> nat option" where
  "fromHex_buf text data =
     (if odd (length text) then (False, data, None)
      else if length text div 2 > length data then (False, data, None)
      else case fromHex_loop 0 text data of
             (True, data) \<Rightarrow> (True, data, Some (length text div 2))
           | (False, data) \<Rightarrow> (False, data, None))"

fun fromHex_vec_loop :: "string \<Rightarrow> u8 list result" where
  "fromHex_vec_loop (c1 # c2 # text) =
     bind_res (fromHex_char c1) (\<lambda>value1. bind_res (fromHex_char c2) (\<lambda>value2.
       bind_res (fromHex_vec_loop text) (\<lambda>data. Inr ((push_bit 4 value1 OR value2) # data))))"
| "fromHex_vec_loop text = Inr []"

definition fromHex_vec :: "string \<Rightarrow> u8 list result" where
  "fromHex_vec text = (if odd (length text) then Inl RuntimeError else fromHex_vec_loop text)"

fun fromHex_append_loop :: "string \<Rightarrow> u8 list \<Rightarrow> bool \<times> u8 list" where
  "fromHex_append_loop (c1 # c2 # text) data =
     (case fromHex_char_ok c1 of None \<Rightarrow> (False, data)
      | Some value1 \<Rightarrow>
          (case fromHex_char_ok c2 of None \<Rightarrow> (False, data)
           | Some value2 \<Rightarrow> fromHex_append_loop text (data @ [push_bit 4 value1 OR value2])))"
| "fromHex_append_loop text data = (True, data)"

definition fromHex_append :: "string \<Rightarrow> u8 list \<Rightarrow> bool \<times> u8 list" where
  "fromHex_append text data =
     (if odd (length text) then (False, data) else fromHex_append_loop text data)"

text \<open>A plain object of \<open>length val\<close> bytes filled from text, e.g. a hash.\<close>

definition podFromHex :: "string \<Rightarrow> u8 list \<Rightarrow> bool \<times> u8 list" where
  "podFromHex text val =
     (case fromHex_buf text val of (ok, data, outSize) \<Rightarrow> (ok \<and> outSize = Some (length val), data))"

definition hexDigits :: string where
  "hexDigits = ''0123456789abcdef''"

definition toHex_append :: "u8 list \<Rightarrow> string \<Rightarrow> string" where
  "toHex_append data text =
     fold (\<lambda>b text. (text @ [hexDigits ! unat (drop_bit 4 b)]) @ [hexDigits ! unat (b AND 15)]) data text"

definition toHex :: "u8 list \<Rightarrow> string" where
  "toHex data = toHex_append data []"

definition podToHex :: "u8 list \<Rightarrow> string" where
  "podToHex s = toHex s"

text \<open>\<open>find\<close> from an offset: the position of the delimiter, or \<^verbatim>\<open>npos\<close> (None).\<close>

definition find_from :: "string \<Rightarrow> char \<Rightarrow> nat \<Rightarrow> nat option" where
  "find_from text delimiter offset =
     (let n = length (takeWhile (\<lambda>c. c \<noteq> delimiter) (drop offset text)) in
      if offset + n < length text then Some (offset + n) else None)"

text \<open>The first \<^verbatim>\<open>extract\<close> gives the part before the delimiter and leaves what follows in \<open>text\<close>.\<close>

definition extract_first :: "string \<Rightarrow> char \<Rightarrow> string \<times> string" where
  "extract_first text delimiter =
     (case find_from text delimiter 0 of
        Some delimiterPosition \<Rightarrow> (take delimiterPosition text, drop (delimiterPosition + 1) text)
      | None \<Rightarrow> (text, []))"

text \<open>The second gives a part of \<open>text\<close> and the new offset. It moves the offset first and takes the
  part from the new offset on, \<open>delimiterPosition\<close> characters long.\<close>

definition extract_at :: "string \<Rightarrow> char \<Rightarrow> nat \<Rightarrow> string \<times> nat" where
  "extract_at text delimiter offset =
     (case find_from text delimiter offset of
        Some delimiterPosition \<Rightarrow>
          (let offset = delimiterPosition + 1 in (take delimiterPosition (drop offset text), offset))
      | None \<Rightarrow> (let offset = length text in (drop offset text, offset)))"

section \<open>Digits\<close>

lemma char_value_eq: "char_value c = hex_value (of_char c)"
proof -
  have "(of_char c :: nat) < 256" by (simp add: of_char_def horner_sum_bound)
  then show ?thesis by (simp add: char_value_def characterValues_def)
qed

lemma nat_less_16_cases: "(n :: nat) < 16 \<Longrightarrow> n \<in> {0,1,2,3,4,5,6,7,8,9,10,11,12,13,14,15}"
  unfolding insert_iff empty_iff by presburger

lemma hex_digit_value:
  assumes "n < 16"
  shows "char_value (hexDigits ! n) = of_nat n" "(of_nat n :: u8) \<le> 0x0f"
  using nat_less_16_cases [OF assms]
  by (elim insertE emptyE; simp add: char_value_eq hex_value_def hexDigits_def of_char_def)+

text \<open>The lower-case form of a character, on the letters.\<close>

definition lower :: "char \<Rightarrow> char" where
  "lower c = (if 65 \<le> (of_char c :: nat) \<and> (of_char c :: nat) \<le> 90 then char_of ((of_char c :: nat) + 32) else c)"

lemma char_value_digit:
  assumes "\<not> char_value c > 0x0f"
  shows "hexDigits ! unat (char_value c) = lower c \<and> unat (char_value c) < 16"
proof -
  let ?n = "of_char c :: nat"
  have r: "0x30 \<le> ?n \<and> ?n \<le> 0x39 \<or> 0x41 \<le> ?n \<and> ?n \<le> 0x46 \<or> 0x61 \<le> ?n \<and> ?n \<le> 0x66"
  proof (rule ccontr)
    assume "\<not> ?thesis"
    then have "hex_value ?n = 0xff" by (auto simp: hex_value_def)
    with assms show False by (simp add: char_value_eq)
  qed
  have "list_all (\<lambda>n. hexDigits ! unat (hex_value n) = lower (char_of n) \<and> unat (hex_value n) < 16)
      ([0x30..<0x3a] @ [0x41..<0x47] @ [0x61..<0x67])"
    by (simp add: hex_value_def hexDigits_def lower_def upt_rec char_of_def bit_0)
  moreover have "?n \<in> set ([0x30..<0x3a] @ [0x41..<0x47] @ [0x61..<0x67])"
    using r unfolding set_append set_upt Un_iff atLeastLessThan_iff by linarith
  ultimately have "hexDigits ! unat (hex_value ?n) = lower (char_of ?n) \<and> unat (hex_value ?n) < 16"
    unfolding list_all_iff by blast
  then show ?thesis by (simp add: char_value_eq)
qed

section \<open>Round trips\<close>

text \<open>A byte is the two nibbles the writer prints.\<close>

definition hex_pair :: "u8 \<Rightarrow> string" where
  "hex_pair b = [hexDigits ! unat (drop_bit 4 b), hexDigits ! unat (b AND 15)]"

lemma toHex_append_eq: "toHex_append data text = text @ concat (map hex_pair data)"
  by (induction data arbitrary: "text") (simp_all add: toHex_append_def hex_pair_def)

lemma toHex_simps [simp]: "toHex [] = []" "toHex (b # bs) = hex_pair b @ toHex bs"
  by (simp_all add: toHex_def toHex_append_eq)

lemma length_toHex [simp]: "length (toHex bs) = 2 * length bs"
  by (induction bs) (simp_all add: hex_pair_def)

lemma nibbles_less: "unat (drop_bit 4 (b :: u8)) < 16" "unat (b AND 15) < 16"
proof -
  show "unat (drop_bit 4 b) < 16"
    using unat_u8_less [of b] by (simp add: unat_drop_bit_nat less_mult_imp_div_less del: unat_u8_less)
  have "b AND 15 = take_bit 4 b" by (simp add: take_bit_eq_mask mask_eq_exp_minus_1)
  then show "unat (b AND 15) < 16" by (simp add: take_bit_eq_mod unat_mod)
qed

lemma bit_15: "bit (15 :: u8) n \<longleftrightarrow> n < 4" "bit (15 :: int) n \<longleftrightarrow> n < 4"
proof -
  have "(15 :: u8) = mask 4" "(15 :: int) = mask 4" by (simp_all add: mask_eq_exp_minus_1)
  then show "bit (15 :: u8) n \<longleftrightarrow> n < 4" "bit (15 :: int) n \<longleftrightarrow> n < 4"
    by (simp_all only: bit_mask_iff) auto
qed

lemma nibbles_join: "push_bit 4 (drop_bit 4 b) OR (b AND 15) = (b :: u8)"
  by (rule bit_word_eqI) (auto simp: bit_push_bit_iff bit_drop_bit_eq bit_or_iff bit_and_iff bit_15)

lemma fromHex_char_digit:
  assumes "n < 16"
  shows "fromHex_char (hexDigits ! n) = Inr (of_nat n)" "fromHex_char_ok (hexDigits ! n) = Some (of_nat n)"
  using hex_digit_value [OF assms] by (simp_all add: fromHex_char_def fromHex_char_ok_def Let_def not_less)

lemma fromHex_vec_toHex: "fromHex_vec_loop (toHex bs) = Inr bs"
  by (induction bs)
    (simp_all add: hex_pair_def fromHex_char_digit nibbles_less nibbles_join unat_of_nat)

lemma fromHex_append_toHex: "fromHex_append_loop (toHex bs) data = (True, data @ bs)"
  by (induction bs arbitrary: data)
    (simp_all add: hex_pair_def fromHex_char_digit nibbles_less nibbles_join)

lemma fromHex_loop_toHex:
  "i + length bs \<le> length data \<Longrightarrow>
    fromHex_loop i (toHex bs) data = (True, take i data @ bs @ drop (i + length bs) data)"
proof (induction bs arbitrary: i data)
  case (Cons b bs)
  let ?d = "data[i := b]"
  have "fromHex_loop i (toHex (b # bs)) data = fromHex_loop (i + 1) (toHex bs) ?d"
    by (simp add: hex_pair_def fromHex_char_digit nibbles_less nibbles_join)
  also have "\<dots> = (True, take (i + 1) ?d @ bs @ drop (i + 1 + length bs) ?d)"
    using Cons by simp
  also have "take (i + 1) ?d = take i data @ [b]"
    using Cons.prems by (simp add: take_Suc_conv_app_nth)
  finally show ?case by simp
qed simp

lemma podFromHex_toHex: "length h = length val \<Longrightarrow> podFromHex (toHex h) val = (True, h)"
  by (simp add: podFromHex_def fromHex_buf_def fromHex_loop_toHex)

text \<open>What the reader accepts, in the shape the three overloads share.\<close>

lemma fromHex_char_ok_iff: "fromHex_char_ok c = Some v \<longleftrightarrow> fromHex_char c = Inr v"
  by (auto simp: fromHex_char_def fromHex_char_ok_def Let_def)

lemma fromHex_char_ok_None: "fromHex_char_ok c = None \<longleftrightarrow> fromHex_char c = Inl RuntimeError"
  by (auto simp: fromHex_char_def fromHex_char_ok_def Let_def)

lemma fromHex_char_Inr:
  assumes "fromHex_char c = Inr v"
  shows "hexDigits ! unat v = lower c" "unat v < 16"
  using assms char_value_digit [of c] by (auto simp: fromHex_char_def Let_def split: if_splits)

lemma nibbles_split:
  assumes "unat (v :: u8) < 16" "unat w < 16"
  shows "drop_bit 4 (push_bit 4 v OR w) = v" "(push_bit 4 v OR w) AND 15 = w"
proof -
  have small: "bit x n \<Longrightarrow> n < 4" if "unat x < 16" for x :: u8 and n
  proof -
    have "take_bit 4 x = x" using that by (simp add: word_unat_eq_iff take_bit_eq_mod unat_mod)
    then show "bit x n \<Longrightarrow> n < 4" by (metis bit_take_bit_iff)
  qed
  have add: "4 + n - 4 = n" for n :: nat by simp
  show "drop_bit 4 (push_bit 4 v OR w) = v"
    by (rule bit_word_eqI)
      (auto simp: bit_simps dest: small [OF assms(1)] small [OF assms(2)])
  show "(push_bit 4 v OR w) AND 15 = w"
    by (rule bit_word_eqI)
      (auto simp: bit_simps bit_15 dest: small [OF assms(1)] small [OF assms(2)])
qed

lemma toHex_fromHex_vec:
  "fromHex_vec_loop text = Inr data \<Longrightarrow> even (length text) \<Longrightarrow> toHex data = map lower text"
proof (induction "text" arbitrary: data rule: fromHex_vec_loop.induct)
  case (1 c1 c2 "text")
  then obtain v w d where *: "fromHex_char c1 = Inr v" "fromHex_char c2 = Inr w"
    "fromHex_vec_loop text = Inr d" "data = (push_bit 4 v OR w) # d"
    by (auto simp: bind_res_def split: sum.splits)
  have "toHex d = map lower text" using 1 * by simp
  then show ?case
    using * nibbles_split [OF fromHex_char_Inr(2) [OF *(1)] fromHex_char_Inr(2) [OF *(2)]]
      fromHex_char_Inr(1) [OF *(1)] fromHex_char_Inr(1) [OF *(2)]
    by (simp add: hex_pair_def)
qed auto

section \<open>Properties\<close>

text \<open>C40: bytes printed in hexadecimal are read back by every overload, a hash object included; and
  text that is accepted is the printed form of the bytes it gives, up to the case of its letters.\<close>

theorem hex_roundtrip:
  "fromHex_vec (toHex bs) = Inr bs \<and>
   fromHex_append (toHex bs) data = (True, data @ bs) \<and>
   (length val = length bs \<longrightarrow> podFromHex (toHex bs) val = (True, bs)) \<and>
   (fromHex_vec t = Inr d \<longrightarrow> toHex d = map lower t)"
proof (intro conjI impI)
  show "fromHex_vec (toHex bs) = Inr bs" by (simp add: fromHex_vec_def fromHex_vec_toHex)
  show "fromHex_append (toHex bs) data = (True, data @ bs)"
    by (simp add: fromHex_append_def fromHex_append_toHex)
  show "podFromHex (toHex bs) val = (True, bs)" if "length val = length bs"
    using that by (simp add: podFromHex_toHex)
  show "toHex d = map lower t" if "fromHex_vec t = Inr d"
    using that toHex_fromHex_vec [of t d] by (auto simp: fromHex_vec_def split: if_splits)
qed

theorem hex_roundtrip_example:
  "podFromHex (toHex [0xca, 0xfe]) [0, 0] = (True, [0xca, 0xfe]) \<and>
   fromHex_vec ''CaFe'' = Inr [0xca, 0xfe] \<and> toHex [0xca, 0xfe] = ''cafe''"
proof -
  note rt = hex_roundtrip [of "[0xca, 0xfe]" "[]" "[0, 0]" "''CaFe''" "[0xca, 0xfe]"]
  have "fromHex_vec ''CaFe'' = Inr [0xca, 0xfe]"
    by (simp add: fromHex_vec_def fromHex_char_def char_value_eq hex_value_def of_char_def)
  moreover have "map lower ''CaFe'' = ''cafe''" by (simp add: lower_def of_char_def char_of_def bit_0)
  moreover have "length [0, 0 :: u8] = length [0xca, 0xfe :: u8]" by simp
  ultimately show ?thesis using rt by metis
qed

text \<open>The second \<^verbatim>\<open>extract\<close> skips the field before the delimiter and returns what follows it.\<close>

lemma extract_at_skips_field:
  "extract_at ''12;345;6'' CHR '';'' 0 = (''34'', 3) \<and> fst (extract_first ''12;345;6'' CHR '';'') = ''12''"
  by (simp add: extract_at_def extract_first_def find_from_def)

end
