(* ===== verification/CryptoNoteTypes.thy ===== *)
theory CryptoNoteTypes
  imports Prelude
begin

text \<open>
  The data of the protocol, \<^verbatim>\<open>include/CryptoNote.h\<close>, and the constants of
  \<^verbatim>\<open>src/CryptoNoteConfig.h\<close> that the modelled code uses. The variants are datatypes with the
  source's alternatives as constructors; the structures that inherit from another one are record
  extensions, so a function on \<^verbatim>\<open>TransactionPrefix\<close> applies to a \<^verbatim>\<open>Transaction\<close> as in the source.
\<close>

section \<open>Data\<close>

type_synonym key_image = bytes
type_synonym public_key = bytes
type_synonym secret_key = bytes
type_synonym signature = bytes

record KeyInput =
  ki_amount :: u64
  ki_outputIndexes :: "u32 list"
  ki_keyImage :: key_image

record MultisignatureInput =
  mi_amount :: u64
  mi_signatureCount :: u8
  mi_outputIndex :: u32
  mi_term :: u32

record MultisignatureOutput =
  mo_keys :: "public_key list"
  mo_requiredSignatureCount :: u8
  mo_term :: u32

datatype TransactionInput =
    BaseInput (blockIndex: u32)
  | InKey KeyInput
  | InMulti MultisignatureInput

datatype TransactionOutputTarget =
    OutKey public_key
  | OutMulti MultisignatureOutput

record TransactionOutput =
  out_amount :: u64
  out_target :: TransactionOutputTarget

record TransactionPrefix =
  tx_version :: u8
  tx_unlockTime :: u64
  tx_inputs :: "TransactionInput list"
  tx_outputs :: "TransactionOutput list"
  tx_extra :: bytes

record Transaction = TransactionPrefix +
  tx_signatures :: "signature list list"

record BlockHeader =
  bl_majorVersion :: u8
  bl_minorVersion :: u8
  bl_nonce :: u32
  bl_timestamp :: u64
  bl_previousBlockHash :: hash

record Block = BlockHeader +
  bl_baseTransaction :: Transaction
  bl_transactionHashes :: "hash list"

record AccountPublicAddress =
  spendPublicKey :: public_key
  viewPublicKey :: public_key

section \<open>Constants\<close>

definition NULL_HASH :: hash where "NULL_HASH = replicate 32 0"
definition NULL_PUBLIC_KEY :: public_key where "NULL_PUBLIC_KEY = replicate 32 0"
definition MAX_BLOCK_NUMBER :: u32 where "MAX_BLOCK_NUMBER = 500000000"
definition MAX_BLOCK_BLOB_SIZE :: usize where "MAX_BLOCK_BLOB_SIZE = 500000000"
definition MINED_COINS_UNLOCK_WINDOW :: u32 where "MINED_COINS_UNLOCK_WINDOW = 10"
definition COIN :: u64 where "COIN = 100000"
definition MONEY_SUPPLY :: u64 where "MONEY_SUPPLY = 30000000000000"
definition MINIMUM_FEE :: u64 where "MINIMUM_FEE = 100"
definition DEFAULT_DUST_THRESHOLD :: u64 where "DEFAULT_DUST_THRESHOLD = 10"
definition MULTIPLIER_FACTOR :: u64 where "MULTIPLIER_FACTOR = 100"
definition END_MULTIPLIER_BLOCK :: u32 where "END_MULTIPLIER_BLOCK = 12750"
definition DIFFICULTY_TARGET :: u64 where "DIFFICULTY_TARGET = 120"
definition DIFFICULTY_WINDOW :: usize where "DIFFICULTY_WINDOW = 120"
definition BLOCK_FUTURE_TIME_LIMIT :: u64 where "BLOCK_FUTURE_TIME_LIMIT = 360"
definition BLOCKCHAIN_TIMESTAMP_CHECK_WINDOW :: nat where "BLOCKCHAIN_TIMESTAMP_CHECK_WINDOW = 11"
definition DIFFICULTY_BLOCKS_COUNT :: nat where "DIFFICULTY_BLOCKS_COUNT = unat DIFFICULTY_WINDOW + 1"
definition DEPOSIT_MIN_AMOUNT :: u64 where "DEPOSIT_MIN_AMOUNT = 1 * COIN"
definition DEPOSIT_MIN_TERM :: u32 where "DEPOSIT_MIN_TERM = 21900"
definition DEPOSIT_MAX_TERM :: u32 where "DEPOSIT_MAX_TERM = 1 * 12 * 21900"
definition DEPOSIT_MAX_TOTAL_RATE :: u64 where "DEPOSIT_MAX_TOTAL_RATE = 4"
definition UPGRADE_HEIGHT_V2 :: u32 where "UPGRADE_HEIGHT_V2 = 2"
definition BLOCK_REWARD :: u64 where "BLOCK_REWARD = 3 * COIN"
definition STATIC_BLOCK_REWARD :: u64 where "STATIC_BLOCK_REWARD = 5 * COIN"
definition REWARD_INCREASE_INTERVAL :: u64 where "REWARD_INCREASE_INTERVAL = 720 * 90"
definition FOUNDATION_TRUST :: u64 where "FOUNDATION_TRUST = 15000000 * COIN"
definition REWARD_BLOCKS_WINDOW :: nat where "REWARD_BLOCKS_WINDOW = 100"
definition COINBASE_BLOB_RESERVED_SIZE :: usize where "COINBASE_BLOB_RESERVED_SIZE = 600"
definition BLOCK_GRANTED_FULL_REWARD_ZONE :: usize where "BLOCK_GRANTED_FULL_REWARD_ZONE = 100000"
definition TRANSACTION_VERSION_1 :: u8 where "TRANSACTION_VERSION_1 = 1"
definition TRANSACTION_VERSION_2 :: u8 where "TRANSACTION_VERSION_2 = 2"
definition BLOCK_MAJOR_VERSION_1 :: u8 where "BLOCK_MAJOR_VERSION_1 = 1"
definition BLOCK_MAJOR_VERSION_2 :: u8 where "BLOCK_MAJOR_VERSION_2 = 2"
definition BLOCK_MINOR_VERSION_0 :: u8 where "BLOCK_MINOR_VERSION_0 = 0"
definition BLOCK_MINOR_VERSION_1 :: u8 where "BLOCK_MINOR_VERSION_1 = 1"

named_theorems config
lemmas config_defs [config] = MAX_BLOCK_NUMBER_def MAX_BLOCK_BLOB_SIZE_def COIN_def MONEY_SUPPLY_def
  MINIMUM_FEE_def DEFAULT_DUST_THRESHOLD_def MULTIPLIER_FACTOR_def END_MULTIPLIER_BLOCK_def
  DIFFICULTY_TARGET_def DIFFICULTY_WINDOW_def BLOCK_FUTURE_TIME_LIMIT_def
  BLOCKCHAIN_TIMESTAMP_CHECK_WINDOW_def DIFFICULTY_BLOCKS_COUNT_def DEPOSIT_MIN_AMOUNT_def
  DEPOSIT_MIN_TERM_def DEPOSIT_MAX_TERM_def DEPOSIT_MAX_TOTAL_RATE_def UPGRADE_HEIGHT_V2_def
  BLOCK_REWARD_def STATIC_BLOCK_REWARD_def REWARD_INCREASE_INTERVAL_def FOUNDATION_TRUST_def
  REWARD_BLOCKS_WINDOW_def COINBASE_BLOB_RESERVED_SIZE_def BLOCK_GRANTED_FULL_REWARD_ZONE_def
  TRANSACTION_VERSION_1_def TRANSACTION_VERSION_2_def

end
