(* ===== verification/Checkpoints.thy ===== *)
theory Checkpoints
  imports StringTools CryptoNoteTypes
begin

text \<open>
  Checkpoints, \<^verbatim>\<open>src/CryptoNoteCore/Checkpoints.cpp\<close>: heights at which the chain must have a given
  block. The \<^verbatim>\<open>std::map\<close> of points is the list of its pairs in key order. The theorems say that a
  stored point is never replaced, that a block is refused exactly when it contradicts a point, and
  that an alternative block is allowed only above every point the main chain has passed.
\<close>

section \<open>Definitions\<close>

type_synonym checkpoints = "(u32 \<times> hash) list"

definition points_ok :: "checkpoints \<Rightarrow> bool" where
  "points_ok m = sorted_wrt (<) (map fst m)"

text \<open>\<^verbatim>\<open>m_points[height] = h\<close>.\<close>

fun put_point :: "u32 \<Rightarrow> hash \<Rightarrow> checkpoints \<Rightarrow> checkpoints" where
  "put_point k h [] = [(k, h)]"
| "put_point k h ((k', h') # m) =
     (if k < k' then (k, h) # (k', h') # m
      else if k = k' then (k, h) # m
      else (k', h') # put_point k h m)"

definition add_checkpoint :: "u32 \<Rightarrow> string \<Rightarrow> checkpoints \<Rightarrow> bool \<times> checkpoints" where
  "add_checkpoint height hash_str m =
     (case podFromHex hash_str NULL_HASH of (ok, h) \<Rightarrow>
        if \<not> ok then (False, m)
        else if \<not> (height \<notin> fst ` set m) then (False, m)
        else (True, put_point height h m))"

definition is_in_checkpoint_zone :: "u32 \<Rightarrow> checkpoints \<Rightarrow> bool" where
  "is_in_checkpoint_zone height m = (m \<noteq> [] \<and> height \<le> fst (last m))"

text \<open>The result and the out parameter \<^verbatim>\<open>is_a_checkpoint\<close>.\<close>

definition check_block_flag :: "u32 \<Rightarrow> hash \<Rightarrow> checkpoints \<Rightarrow> bool \<times> bool" where
  "check_block_flag height h m =
     (case map_of m height of
        None \<Rightarrow> (True, False)
      | Some h' \<Rightarrow> if h' = h then (True, True) else (False, True))"

definition check_block :: "u32 \<Rightarrow> hash \<Rightarrow> checkpoints \<Rightarrow> bool" where
  "check_block height h m = fst (check_block_flag height h m)"

definition is_alternative_block_allowed :: "u32 \<Rightarrow> u32 \<Rightarrow> checkpoints \<Rightarrow> bool" where
  "is_alternative_block_allowed blockchain_height block_height m =
     (if 0 = block_height then False
      else if block_height < blockchain_height - MINED_COINS_UNLOCK_WINDOW \<and>
              \<not> is_in_checkpoint_zone block_height m then False
      else
        let it = length (takeWhile (\<lambda>p. \<not> blockchain_height < fst p) m) in
        if it = 0 then True
        else let checkpoint_height = fst (m ! (it - 1)) in checkpoint_height < block_height)"

definition getCheckpointHeights :: "checkpoints \<Rightarrow> u32 list" where
  "getCheckpointHeights m = map fst m"

text \<open>The built-in table is the argument; the result of \<open>add_checkpoint\<close> is ignored.\<close>

definition load_checkpoints :: "(u32 \<times> string) list \<Rightarrow> checkpoints \<Rightarrow> bool \<times> checkpoints" where
  "load_checkpoints table m = (True, fold (\<lambda>cp m. snd (add_checkpoint (fst cp) (snd cp) m)) table m)"

section \<open>Lemmas\<close>

lemma map_of_put_point: "map_of (put_point k h m) = (map_of m)(k \<mapsto> h)"
  by (induction m) auto

lemma keys_put_point: "fst ` set (put_point k h m) = insert k (fst ` set m)"
  by (induction k h m rule: put_point.induct) (simp_all add: insert_commute)

lemma put_point_ok: "points_ok m \<Longrightarrow> points_ok (put_point k h m)"
proof (induction m)
  case (Cons p m)
  obtain k' h' where p: "p = (k', h')" by force
  have m: "points_ok m" "\<forall>x \<in> fst ` set m. k' < x" using Cons.prems by (auto simp: points_ok_def p)
  show ?case
  proof (cases "k' < k")
    case True
    then have "\<forall>x \<in> fst ` set (put_point k h m). k' < x" using m(2) by (simp add: keys_put_point)
    then show ?thesis
      using Cons.IH [OF m(1)] True by (auto simp: points_ok_def p)
  next
    case False
    then show ?thesis using m by (auto simp: points_ok_def p)
  qed
qed (simp add: points_ok_def)

lemma check_block_iff: "check_block height h m \<longleftrightarrow> (\<forall>h'. map_of m height = Some h' \<longrightarrow> h' = h)"
  by (auto simp: check_block_def check_block_flag_def split: option.splits)

lemma add_checkpoint_cases:
  "add_checkpoint height s m = (True, m') \<longleftrightarrow>
     (\<exists>h. podFromHex s NULL_HASH = (True, h) \<and> height \<notin> fst ` set m \<and> m' = put_point height h m)"
  "fst (add_checkpoint height s m) = False \<Longrightarrow> snd (add_checkpoint height s m) = m"
  by (auto simp: add_checkpoint_def split: prod.splits if_splits)

lemma add_checkpoint_ok: "points_ok m \<Longrightarrow> points_ok (snd (add_checkpoint height s m))"
  by (auto simp: add_checkpoint_def put_point_ok split: prod.splits)

lemma add_checkpoint_keeps: "map_of m k = Some h \<Longrightarrow> map_of (snd (add_checkpoint height s m)) k = Some h"
  by (auto simp: add_checkpoint_def map_of_put_point split: prod.splits)
    (metis domI domIff map_of_eq_None_iff)

lemma last_below_upper:
  assumes "points_ok m" "it = length (takeWhile (\<lambda>p. \<not> b < fst p) m)" "it \<noteq> 0"
  shows "fst (m ! (it - 1)) < x \<longleftrightarrow> (\<forall>k \<in> fst ` set m. k \<le> b \<longrightarrow> k < x)"
proof -
  have le: "it \<le> length m" using assms(2) by (simp add: length_takeWhile_le)
  let ?l = "m ! (it - 1)"
  have "?l \<in> set (takeWhile (\<lambda>p. \<not> b < fst p) m)"
    using assms(2,3) by (metis One_nat_def diff_less length_greater_0_conv length_0_conv neq0_conv nth_mem takeWhile_nth zero_less_one)
  then have l: "?l \<in> set m" "fst ?l \<le> b" by (auto dest: set_takeWhileD)
  have "fst p \<le> fst ?l" if p: "p \<in> set m" "fst p \<le> b" for p
  proof -
    obtain i where i: "i < length m" "p = m ! i" using p(1) by (metis in_set_conv_nth)
    have "i < it"
    proof (rule ccontr)
      assume "\<not> i < it"
      then have it: "it < length m" "it \<le> i" using i by auto
      have "b < fst (m ! it)" using nth_length_takeWhile [of "\<lambda>p. \<not> b < fst p" m] assms(2) it(1) by simp
      also have "fst (m ! it) \<le> fst (m ! i)"
        using assms(1) it i by (cases "it = i") (auto simp: points_ok_def sorted_wrt_iff_nth_less intro!: less_imp_le)
      finally show False using p(2) i by simp
    qed
    then show ?thesis
      using assms(1) i le by (cases "i = it - 1") (auto simp: points_ok_def sorted_wrt_iff_nth_less intro!: less_imp_le)
  qed
  with l show ?thesis by (auto intro: le_less_trans)
qed

lemma is_in_zone_iff:
  assumes "points_ok m"
  shows "is_in_checkpoint_zone b m \<longleftrightarrow> (\<exists>k \<in> fst ` set m. b \<le> k)"
proof (cases m rule: rev_cases)
  case (snoc m' p)
  have "\<forall>k \<in> fst ` set m. k \<le> fst p"
    using assms by (auto simp: snoc points_ok_def sorted_wrt_append intro: less_imp_le)
  then show ?thesis by (auto simp: is_in_checkpoint_zone_def snoc intro: order_trans)
qed (simp add: is_in_checkpoint_zone_def)

lemma alternative_allowed_iff:
  assumes "points_ok m"
  shows "is_alternative_block_allowed n b m \<longleftrightarrow>
    b \<noteq> 0 \<and> (n - 10 \<le> b \<or> (\<exists>k \<in> fst ` set m. b \<le> k)) \<and> (\<forall>k \<in> fst ` set m. k \<le> n \<longrightarrow> k < b)"
proof -
  let ?it = "length (takeWhile (\<lambda>p. \<not> n < fst p) m)"
  have "(if ?it = 0 then True else fst (m ! (?it - 1)) < b) \<longleftrightarrow> (\<forall>k \<in> fst ` set m. k \<le> n \<longrightarrow> k < b)"
  proof (cases "?it = 0")
    case True
    have "n < k" if k: "k \<in> fst ` set m" for k
    proof -
      obtain p m' where m: "m = p # m'" using k by (cases m) auto
      then have "n < fst p" using True by (auto split: if_splits)
      with k assms show ?thesis by (auto simp: m points_ok_def)
    qed
    with True show ?thesis by force
  next
    case False
    then show ?thesis using last_below_upper [OF assms refl False] by simp
  qed
  then show ?thesis
    unfolding is_alternative_block_allowed_def MINED_COINS_UNLOCK_WINDOW_def Let_def is_in_zone_iff [OF assms]
    by (auto simp: not_less)
qed

section \<open>Properties\<close>

text \<open>C28: a checkpoint is added exactly when the text is a valid hash and the height is free. Afterwards
  the block at that height must have that hash, the points at all other heights are as before, and the
  map stays ordered; a refused checkpoint changes nothing.\<close>

theorem checkpoint_added:
  assumes "points_ok m"
  shows "(fst (add_checkpoint height (toHex h) m) \<longleftrightarrow> length h = 32 \<and> height \<notin> fst ` set m) \<and>
    (case add_checkpoint height (toHex h) m of (ok, m') \<Rightarrow>
       points_ok m' \<and> (\<not> ok \<longrightarrow> m' = m) \<and> (ok \<longrightarrow> (\<forall>g. check_block height g m' \<longleftrightarrow> g = h)) \<and>
       (\<forall>k g. k \<noteq> height \<longrightarrow> check_block k g m' = check_block k g m))"
proof -
  have "podFromHex (toHex h) NULL_HASH = (True, h)" if "length h = 32"
    using that by (intro podFromHex_toHex) (simp add: NULL_HASH_def)
  moreover have "\<not> fst (podFromHex (toHex h) NULL_HASH)" if "length h \<noteq> 32"
    using that by (auto simp: podFromHex_def fromHex_buf_def NULL_HASH_def split: prod.splits bool.splits)
  ultimately show ?thesis
    using put_point_ok [OF assms, of height h] assms
    by (cases "length h = 32")
      (auto simp: add_checkpoint_def check_block_iff map_of_put_point split: prod.splits)
qed

theorem checkpoint_added_example:
  "points_ok [(5, replicate 32 7)] \<and>
   fst (add_checkpoint 9 (toHex (replicate 32 1)) [(5, replicate 32 7)])"
  using checkpoint_added [of "[(5, replicate 32 7)]" 9 "replicate 32 1"] by (simp add: points_ok_def)

text \<open>C35: an alternative block at height \<open>b\<close> of a chain of \<open>n\<close> blocks is allowed exactly when it is
  not the genesis block, lies in the last ten blocks or below some checkpoint, and is above every
  checkpoint up to \<open>n\<close>: no reorganisation replaces a checkpointed block. The ten-block bound is the
  32-bit difference.\<close>

theorem alternative_never_crosses_checkpoint:
  assumes "points_ok m"
  shows "is_alternative_block_allowed n b m \<longleftrightarrow>
    b \<noteq> 0 \<and> (n - 10 \<le> b \<or> is_in_checkpoint_zone b m) \<and> (\<forall>k h. map_of m k = Some h \<and> k \<le> n \<longrightarrow> k < b)"
proof -
  have "(\<forall>k \<in> fst ` set m. k \<le> n \<longrightarrow> k < b) \<longleftrightarrow> (\<forall>k h. map_of m k = Some h \<and> k \<le> n \<longrightarrow> k < b)"
    by (metis map_of_eq_None_iff not_None_eq)
  then show ?thesis unfolding alternative_allowed_iff [OF assms] is_in_zone_iff [OF assms] by simp
qed

theorem alternative_never_crosses_checkpoint_witness:
  "\<not> is_alternative_block_allowed 2510 2500 [(0, []), (2500, []), (5000, [])] \<and>
   is_alternative_block_allowed 2510 2501 [(0, []), (2500, []), (5000, [])]"
proof -
  let ?m = "[(0, []), (2500, []), (5000, [])] :: checkpoints"
  have ok: "points_ok ?m" by (simp add: points_ok_def)
  have "map_of ?m 2500 = Some []" "(2500 :: u32) \<le> 2510" by simp_all
  then have "\<not> is_alternative_block_allowed 2510 2500 ?m"
    using alternative_never_crosses_checkpoint [OF ok, of 2510 2500] by blast
  moreover have "k < 2501" if "map_of ?m k = Some h \<and> k \<le> 2510" for k h
    using that by (auto split: if_splits)
  then have "is_alternative_block_allowed 2510 2501 ?m"
    using alternative_never_crosses_checkpoint [OF ok, of 2510 2501] by (simp add: is_in_checkpoint_zone_def)
  ultimately show ?thesis by blast
qed

text \<open>On a chain of fewer than ten blocks the difference wraps, and every alternative block above the
  last checkpoint is refused.\<close>

lemma short_chain_refuses_alternatives: "\<not> is_alternative_block_allowed 5 4 [(0, h)]"
  by (simp add: alternative_allowed_iff points_ok_def)

end
