(* ===== verification/IntUtil.thy ===== *)
theory IntUtil
  imports Prelude
begin

text \<open>
  The 128-bit helpers of \<^verbatim>\<open>src/Common/int-util.h\<close>: the schoolbook product of two 64-bit words and
  the long division of a 128-bit number by a 32-bit one, both in 32-bit digits.
\<close>

section \<open>Definitions\<close>

definition hi_dword :: "u64 \<Rightarrow> u64" where
  "hi_dword val = drop_bit 32 val"

definition lo_dword :: "u64 \<Rightarrow> u64" where
  "lo_dword val = val AND 0xFFFFFFFF"

text \<open>The result is the pair of the returned low word and the word stored in \<^verbatim>\<open>*product_hi\<close>.\<close>

definition mul128 :: "u64 \<Rightarrow> u64 \<Rightarrow> u64 \<times> u64" where
  "mul128 multiplier multiplicand =
     (let a = hi_dword multiplier; b = lo_dword multiplier;
          c = hi_dword multiplicand; d = lo_dword multiplicand;
          ac = a * c; ad = a * d; bc = b * c; bd = b * d;
          adbc = ad + bc;
          adbc_carry = (if adbc < ad then 1 else 0);
          product_lo = bd + push_bit 32 adbc;
          product_lo_carry = (if product_lo < bd then 1 else 0);
          product_hi = ac + drop_bit 32 adbc + push_bit 32 adbc_carry + product_lo_carry
      in (product_lo, product_hi))"

text \<open>One digit of the long division: the quotient digit and the new remainder.\<close>

definition div_with_reminder :: "u64 \<Rightarrow> u32 \<Rightarrow> u32 \<Rightarrow> u64 \<times> u32" where
  "div_with_reminder dividend divisor remainder =
     (let dividend = dividend OR push_bit 32 (ucast remainder)
      in (dividend div ucast divisor, ucast (dividend mod ucast divisor)))"

text \<open>The result is the remainder with the words stored in \<^verbatim>\<open>*quotient_hi\<close> and
  \<^verbatim>\<open>*quotient_lo\<close>.\<close>

definition div128_32 :: "u64 \<Rightarrow> u64 \<Rightarrow> u32 \<Rightarrow> u32 \<times> u64 \<times> u64" where
  "div128_32 dividend_hi dividend_lo divisor =
     (let (q3, r3) = div_with_reminder (hi_dword dividend_hi) divisor 0;
          (q2, r2) = div_with_reminder (lo_dword dividend_hi) divisor r3;
          (q1, r1) = div_with_reminder (hi_dword dividend_lo) divisor r2;
          (q0, r0) = div_with_reminder (lo_dword dividend_lo) divisor r1
      in (r0, push_bit 32 q3 OR q2, push_bit 32 q1 OR q0))"

section \<open>The digits\<close>

lemma unat_hi_dword [word_nat]: "unat (hi_dword x) = unat x div 4294967296"
  by (simp add: hi_dword_def word_nat)

lemma unat_lo_dword [word_nat]: "unat (lo_dword x) = unat x mod 4294967296"
proof -
  have "(0xFFFFFFFF :: u64) = mask 32" by (simp add: mask_eq_exp_minus_1)
  then show ?thesis by (simp only: lo_dword_def unat_and_mask) simp
qed

section \<open>The product\<close>

text \<open>The nat-level arithmetic behind the carries: all four partial products fit a word.\<close>

lemma digit_product_bound:
  fixes a d :: nat
  assumes "a < 4294967296" and "d < 4294967296"
  shows "a * d \<le> 18446744065119617025"
proof -
  have "a * d \<le> 4294967295 * 4294967295"
    using assms by (intro mult_le_mono) auto
  then show ?thesis by simp
qed

lemma mul128_nat:
  fixes a b c d :: nat
  assumes a: "a < 4294967296" and b: "b < 4294967296"
    and c: "c < 4294967296" and d: "d < 4294967296"
  defines "B \<equiv> (18446744073709551616 :: nat)"
  defines "adbc \<equiv> (a * d + b * c) mod B"
  defines "lo \<equiv> (b * d + (adbc * 4294967296) mod B) mod B"
  defines "hi \<equiv> a * c + adbc div 4294967296 + (if adbc < a * d then 4294967296 else 0)
      + (if lo < b * d then 1 else 0)"
  shows "lo + B * hi = (a * 4294967296 + b) * (c * 4294967296 + d)"
proof -
  have ad: "a * d \<le> 18446744065119617025" and bc: "b * c \<le> 18446744065119617025"
    and bd: "b * d \<le> 18446744065119617025"
    using assms(1-4) by (auto intro: digit_product_bound)
  define s where "s = a * d + b * c"
  have s1: "s = adbc + (if adbc < a * d then B else 0)"
    unfolding adbc_def s_def using ad bc by (intro add_carry) (auto simp: B_def)
  define l where "l = adbc mod 4294967296"
  define h where "h = adbc div 4294967296"
  have adbc: "adbc = h * 4294967296 + l" by (simp add: l_def h_def)
  have sh: "(adbc * 4294967296) mod B = l * 4294967296"
  proof -
    have "(adbc * 4294967296) mod (4294967296 * 4294967296) = l * 4294967296"
      by (simp only: mod_mult_mult2 l_def)
    then show ?thesis by (simp add: B_def)
  qed
  have l: "l < 4294967296" by (simp add: l_def)
  have "l * 4294967296 \<le> 4294967295 * 4294967296" using l by simp
  then have lo: "b * d + l * 4294967296 = lo + (if lo < b * d then B else 0)"
    unfolding lo_def sh using bd by (intro add_carry) (auto simp: B_def)
  have "(a * 4294967296 + b) * (c * 4294967296 + d) = B * (a * c) + s * 4294967296 + b * d"
    by (simp add: B_def s_def algebra_simps)
  also have "s * 4294967296 = B * h + l * 4294967296
      + B * (if adbc < a * d then 4294967296 else 0)"
    by (subst s1, subst adbc) (simp add: B_def algebra_simps)
  finally show ?thesis
    unfolding hi_def using lo by (simp add: h_def [symmetric] algebra_simps split: if_splits)
qed

lemma unat_split_dwords: "unat (hi_dword x) * 4294967296 + unat (lo_dword x) = unat x"
  by (simp add: word_nat)

lemma unat_hi_dword_less: "unat (hi_dword x) < 4294967296"
  using unat_u64_less [of x] by (simp add: word_nat less_mult_imp_div_less del: unat_u64_less)

lemma unat_lo_dword_less: "unat (lo_dword x) < 4294967296"
  by (simp add: word_nat)

text \<open>The two result words hold the full 128-bit product.\<close>

lemma mul128_correct:
  assumes "mul128 x y = (lo, hi)"
  shows "unat lo + 18446744073709551616 * unat hi = unat x * unat y"
proof -
  let ?B = "18446744073709551616 :: nat"
  let ?a = "unat (hi_dword x)" and ?b = "unat (lo_dword x)"
  let ?c = "unat (hi_dword y)" and ?d = "unat (lo_dword y)"
  note less = unat_hi_dword_less [of x] unat_lo_dword_less [of x]
    unat_hi_dword_less [of y] unat_lo_dword_less [of y]
  note prod = digit_product_bound [OF less(1,4)] digit_product_bound [OF less(2,3)]
    digit_product_bound [OF less(2,4)] digit_product_bound [OF less(1,3)]
  define adbc where "adbc = (?a * ?d + ?b * ?c) mod ?B"
  define l where "l = (?b * ?d + (adbc * 4294967296) mod ?B) mod ?B"
  define h where "h = ?a * ?c + adbc div 4294967296
    + (if adbc < ?a * ?d then 4294967296 else 0) + (if l < ?b * ?d then 1 else 0)"
  have eq: "l + ?B * h = unat x * unat y"
    using mul128_nat [OF less] by (simp add: adbc_def l_def h_def unat_split_dwords)
  have "?B * h < ?B * ?B"
  proof -
    have "unat x * unat y \<le> (?B - 1) * (?B - 1)"
      using unat_u64_less [of x] unat_u64_less [of y]
      by (intro mult_le_mono) (simp_all del: unat_u64_less)
    with eq show ?thesis by simp
  qed
  then have h: "h < ?B" by simp
  have ac': "unat (hi_dword x * hi_dword y) = ?a * ?c"
    and ad': "unat (hi_dword x * lo_dword y) = ?a * ?d"
    and bc': "unat (lo_dword x * hi_dword y) = ?b * ?c"
    and bd': "unat (lo_dword x * lo_dword y) = ?b * ?d"
    using prod by (simp_all add: unat_word_ariths del: unat_u64_less)
  define wadbc where "wadbc = hi_dword x * lo_dword y + lo_dword x * hi_dword y"
  have adbc': "unat wadbc = adbc"
    unfolding wadbc_def adbc_def by (subst unat_word_ariths) (simp add: ad' bc')
  define wlo where "wlo = lo_dword x * lo_dword y + push_bit 32 wadbc"
  have lo': "unat wlo = l"
    unfolding wlo_def l_def by (subst unat_word_ariths) (simp add: bd' unat_push_bit_u64 adbc')
  define ca :: u64 where "ca = push_bit 32 (if wadbc < hi_dword x * lo_dword y then 1 else 0)"
  have ca': "unat ca = (if adbc < ?a * ?d then 4294967296 else 0)"
    unfolding ca_def word_less_nat_alt ad' adbc' by (simp add: unat_push_bit_u64)
  define cl :: u64 where "cl = (if wlo < lo_dword x * lo_dword y then 1 else 0)"
  have cl': "unat cl = (if l < ?b * ?d then 1 else 0)"
    unfolding cl_def word_less_nat_alt bd' lo' by simp
  have res: "lo = wlo" "hi = hi_dword x * hi_dword y + drop_bit 32 wadbc + ca + cl"
    using assms unfolding mul128_def Let_def wlo_def wadbc_def ca_def cl_def prod.inject
    by blast+
  have lo: "unat lo = l" using res lo' by simp
  have hi: "unat hi = h mod ?B"
    unfolding res h_def unat_word_ariths ac' ca' cl' unat_drop_bit_nat adbc'
    by (simp add: mod_simps)
  from eq lo hi h show ?thesis by simp
qed

text \<open>The closing \<^verbatim>\<open>assert(ac <= *product_hi)\<close> of the source never fires.\<close>

lemma mul128_assert:
  assumes "mul128 x y = (lo, hi)"
  shows "hi_dword x * hi_dword y \<le> hi"
proof -
  let ?a = "unat (hi_dword x)" and ?c = "unat (hi_dword y)"
  have "18446744073709551616 * (?a * ?c) = (?a * 4294967296) * (?c * 4294967296)"
    by simp
  also have "\<dots> \<le> unat x * unat y"
    using unat_split_dwords [of x] unat_split_dwords [of y] by (intro mult_le_mono) linarith+
  also have "\<dots> = unat lo + 18446744073709551616 * unat hi"
    by (rule mul128_correct [OF assms, symmetric])
  finally have "18446744073709551616 * (?a * ?c) < 18446744073709551616 * (unat hi + 1)"
    using unat_u64_less [of lo] by (simp del: unat_u64_less)
  then have "?a * ?c \<le> unat hi" by simp
  moreover have "unat (hi_dword x * hi_dword y) = ?a * ?c"
    using digit_product_bound [OF unat_hi_dword_less unat_hi_dword_less, of x y]
    by (simp add: unat_word_ariths)
  ultimately show ?thesis by (simp add: word_le_nat_alt)
qed

section \<open>The quotient\<close>

lemma or_push_bit_32:
  fixes x y :: u64
  assumes "unat x < 4294967296" and "unat y < 4294967296"
  shows "unat (x OR push_bit 32 y) = unat y * 4294967296 + unat x"
proof -
  have x: "take_bit 32 x = x"
    using assms(1) by (simp add: word_unat_eq_iff take_bit_eq_mod unat_mod)
  have "x AND push_bit 32 y = 0"
    by (subst x [symmetric]) (auto simp: bit_eq_iff bit_simps)
  then have "unat (x OR push_bit 32 y) = unat (x + push_bit 32 y)"
    by (simp add: disjunctive_add_eq_or)
  also have "\<dots> = unat x + unat y * 4294967296"
  proof -
    have "unat y * 4294967296 \<le> 4294967295 * 4294967296"
      using assms(2) by simp
    with assms(1) show ?thesis by (simp add: unat_word_ariths unat_push_bit_u64)
  qed
  finally show ?thesis by simp
qed

lemma div_with_reminder_correct:
  assumes "div_with_reminder x d r = (q, r')" and "unat x < 4294967296" and "r < d \<or> r = 0 \<and> d \<noteq> 0"
  shows "unat q = (unat r * 4294967296 + unat x) div unat d"
    and "unat r' = (unat r * 4294967296 + unat x) mod unat d"
    and "unat q < 4294967296" and "r' < d"
proof -
  have d: "0 < unat d" using assms(3) by (auto simp: word_less_nat_alt unat_gt_0)
  have r: "unat (ucast r :: u64) = unat r" and ud: "unat (ucast d :: u64) = unat d"
    by simp_all
  have n: "unat (x OR push_bit 32 (ucast r)) = unat r * 4294967296 + unat x"
    using assms(2) r unat_u32_less [of r] by (subst or_push_bit_32) simp_all
  show q: "unat q = (unat r * 4294967296 + unat x) div unat d"
    using assms(1) by (auto simp: div_with_reminder_def Let_def unat_div n ud)
  have m: "(unat r * 4294967296 + unat x) mod unat d < unat d" using d by simp
  show r': "unat r' = (unat r * 4294967296 + unat x) mod unat d"
    using assms(1) m unat_u32_less [of d]
    by (auto simp: div_with_reminder_def Let_def unsigned_ucast_eq take_bit_eq_mod unat_mod n ud
        simp del: unat_u32_less)
  show "r' < d" using m r' by (simp add: word_less_nat_alt)
  have "unat r * 4294967296 + unat x < unat d * 4294967296"
  proof (cases "r = 0")
    case True
    with assms(2) d show ?thesis by (simp add: less_le_trans)
  next
    case False
    with assms(3) have "unat r + 1 \<le> unat d" by (simp add: word_less_nat_alt)
    then have "(unat r + 1) * 4294967296 \<le> unat d * 4294967296" by simp
    with assms(2) show ?thesis by simp
  qed
  then show "unat q < 4294967296"
    unfolding q by (simp add: less_mult_imp_div_less mult.commute)
qed

text \<open>Dividing digit by digit is dividing the whole number.\<close>

lemma long_division_step:
  fixes n x d B :: nat
  shows "((n mod d) * B + x) div d + (n div d) * B = (n * B + x) div d"
    and "((n mod d) * B + x) mod d = (n * B + x) mod d"
proof -
  have "n * B = ((n div d) * d + n mod d) * B" by (simp only: div_mult_mod_eq)
  then have n: "n * B = (n div d) * B * d + (n mod d) * B"
    by (simp only: add_mult_distrib mult.assoc mult.commute [of d B])
  then have eq: "n * B + x = (n div d) * B * d + ((n mod d) * B + x)" by simp
  show "((n mod d) * B + x) mod d = (n * B + x) mod d" unfolding eq by simp
  show "((n mod d) * B + x) div d + (n div d) * B = (n * B + x) div d"
  proof (cases "d = 0")
    case False
    then show ?thesis unfolding eq by (subst div_mult_self3) (simp_all add: add.commute)
  qed simp
qed

text \<open>For a divisor that is not zero the two quotient words and the remainder are those of the
  128-bit dividend.\<close>

lemma div128_32_correct:
  assumes "div128_32 hi lo d = (r, qhi, qlo)" and "d \<noteq> 0"
  shows "unat qlo + 18446744073709551616 * unat qhi
      = (unat lo + 18446744073709551616 * unat hi) div unat d"
    and "unat r = (unat lo + 18446744073709551616 * unat hi) mod unat d"
proof -
  let ?B = "4294967296 :: nat"
  obtain q3 r3 where e3: "div_with_reminder (hi_dword hi) d 0 = (q3, r3)" by force
  obtain q2 r2 where e2: "div_with_reminder (lo_dword hi) d r3 = (q2, r2)" by force
  obtain q1 r1 where e1: "div_with_reminder (hi_dword lo) d r2 = (q1, r1)" by force
  obtain q0 r0 where e0: "div_with_reminder (lo_dword lo) d r1 = (q0, r0)" by force
  have "(0 :: u32) < d \<or> (0 :: u32) = 0 \<and> d \<noteq> 0" using assms(2) by simp
  note d3 = div_with_reminder_correct [OF e3 unat_hi_dword_less this]
  note d2 = div_with_reminder_correct [OF e2 unat_lo_dword_less disjI1 [OF d3(4)]]
  note d1 = div_with_reminder_correct [OF e1 unat_hi_dword_less disjI1 [OF d2(4)]]
  note d0 = div_with_reminder_correct [OF e0 unat_lo_dword_less disjI1 [OF d1(4)]]
  have res: "r = r0" "qhi = push_bit 32 q3 OR q2" "qlo = push_bit 32 q1 OR q0"
    using assms(1) by (simp_all add: div128_32_def e3 e2 e1 e0)
  have qhi: "unat qhi = unat q3 * ?B + unat q2" and qlo: "unat qlo = unat q1 * ?B + unat q0"
    unfolding res using d3(3) d2(3) d1(3) d0(3) by (simp_all add: or.commute or_push_bit_32)
  let ?n3 = "unat (hi_dword hi)"
  let ?n2 = "?n3 * ?B + unat (lo_dword hi)"
  let ?n1 = "?n2 * ?B + unat (hi_dword lo)"
  let ?n0 = "?n1 * ?B + unat (lo_dword lo)"
  have n0: "?n0 = unat lo + 18446744073709551616 * unat hi"
    using unat_split_dwords [of hi] unat_split_dwords [of lo] by simp
  note s2 = long_division_step [of ?n3 "unat d" ?B "unat (lo_dword hi)"]
  note s1 = long_division_step [of ?n2 "unat d" ?B "unat (hi_dword lo)"]
  note s0 = long_division_step [of ?n1 "unat d" ?B "unat (lo_dword lo)"]
  have r3: "unat r3 = ?n3 mod unat d" and q3: "unat q3 = ?n3 div unat d"
    using d3(1,2) by simp_all
  have r2: "unat r2 = ?n2 mod unat d" and q2: "unat q2 + unat q3 * ?B = ?n2 div unat d"
    by (simp_all only: d2(1,2) r3 q3 s2)
  have r1: "unat r1 = ?n1 mod unat d"
    and q1: "unat q1 + (unat q2 + unat q3 * ?B) * ?B = ?n1 div unat d"
    by (simp_all only: d1(1,2) r2 q2 s1)
  have "unat r0 = ?n0 mod unat d"
    and "unat q0 + (unat q1 + (unat q2 + unat q3 * ?B) * ?B) * ?B = ?n0 div unat d"
    by (simp_all only: d0(1,2) r1 q1 s0)
  then show "unat qlo + 18446744073709551616 * unat qhi
      = (unat lo + 18446744073709551616 * unat hi) div unat d"
    and "unat r = (unat lo + 18446744073709551616 * unat hi) mod unat d"
    unfolding res(1) n0 qhi qlo by simp_all
qed

end
