(* ===== verification/FormatUtils.thy ===== *)
theory FormatUtils
  imports CryptoNoteTypes IntUtil
begin

text \<open>
  Checks and sums on transactions, \<^verbatim>\<open>src/CryptoNoteCore/CryptoNoteFormatUtils.cpp\<close> and the template
  in its header. The curve test \<^verbatim>\<open>check_key\<close> is an argument. The theorems say that the overflow
  tests hold exactly when the mathematical sums fit 64 bits, that the two conversions of output
  offsets are inverse on ordered offsets, and that the split of an amount into digits loses nothing.
\<close>

section \<open>Definitions\<close>

definition input_amount :: "TransactionInput \<Rightarrow> u64" where
  "input_amount i = (case i of InKey k \<Rightarrow> ki_amount k | InMulti m \<Rightarrow> mi_amount m | _ \<Rightarrow> 0)"

definition get_inputs_money_amount :: "'a TransactionPrefix_scheme \<Rightarrow> u64" where
  "get_inputs_money_amount tx = fold (\<lambda>i money. money + input_amount i) (tx_inputs tx) 0"

definition get_block_height :: "Block \<Rightarrow> u32" where
  "get_block_height b =
     (if length (tx_inputs (bl_baseTransaction b)) \<noteq> 1 then 0
      else case tx_inputs (bl_baseTransaction b) ! 0 of BaseInput n \<Rightarrow> n | _ \<Rightarrow> 0)"

definition check_inputs_types_supported :: "'a TransactionPrefix_scheme \<Rightarrow> bool" where
  "check_inputs_types_supported tx =
     list_all (\<lambda>i. case i of InMulti _ \<Rightarrow> \<not> tx_version tx < TRANSACTION_VERSION_2
                           | InKey _ \<Rightarrow> True
                           | BaseInput _ \<Rightarrow> False) (tx_inputs tx)"

text \<open>
  The result is the returned value with the text written to \<^verbatim>\<open>error\<close>, when the caller gave a pointer
  (\<open>has_error\<close>). One branch writes through the pointer without testing it.
\<close>

fun check_outs_valid :: "(public_key \<Rightarrow> bool) \<Rightarrow> u8 \<Rightarrow> bool \<Rightarrow> TransactionOutput list \<Rightarrow> (bool \<times> string option) result" where
  "check_outs_valid check_key version has_error [] = Inr (True, None)"
| "check_outs_valid check_key version has_error (out # outs) =
     (let fail = (\<lambda>msg. Inr (False, if has_error then Some msg else None)) in
      case out_target out of
        OutKey key \<Rightarrow>
          if out_amount out = 0 then fail ''Zero amount ouput''
          else if \<not> check_key key then fail ''Output with invalid key''
          else check_outs_valid check_key version has_error outs
      | OutMulti mo \<Rightarrow>
          if version < TRANSACTION_VERSION_2 then
            (if has_error
             then Inr (False, Some ''Transaction contains multisignature output but its version is less than 2'')
             else Inl NullDeref)
          else if unat (mo_requiredSignatureCount mo) > length (mo_keys mo)
          then fail ''Multisignature output with invalid required signature count''
          else if \<not> list_all check_key (mo_keys mo)
          then fail ''Multisignature output with invalid public key''
          else check_outs_valid check_key version has_error outs)"

fun multisig_diff_loop :: "TransactionInput list \<Rightarrow> (u64 \<times> u32) set \<Rightarrow> bool" where
  "multisig_diff_loop [] inputsUsage = True"
| "multisig_diff_loop (InMulti i # is) inputsUsage =
     (if (mi_amount i, mi_outputIndex i) \<in> inputsUsage then False
      else multisig_diff_loop is (insert (mi_amount i, mi_outputIndex i) inputsUsage))"
| "multisig_diff_loop (_ # is) inputsUsage = multisig_diff_loop is inputsUsage"

definition checkMultisignatureInputsDiff :: "'a TransactionPrefix_scheme \<Rightarrow> bool" where
  "checkMultisignatureInputsDiff tx = multisig_diff_loop (tx_inputs tx) {}"

text \<open>The amount an input can contribute, None when it does not fit: the body of the loop up to the sum.\<close>

definition max_input_amount :: "TransactionInput \<Rightarrow> u64 option" where
  "max_input_amount i =
     (case i of
        InKey k \<Rightarrow> Some (ki_amount k)
      | InMulti m \<Rightarrow>
          if mi_term m \<noteq> 0 then
            (case mul128 (mi_amount m) DEPOSIT_MAX_TOTAL_RATE of (lo, hi) \<Rightarrow>
             case div128_32 hi lo 100 of (_, maxInterestHi, maxInterestLo) \<Rightarrow>
               if maxInterestHi > 0 then None
               else if mi_amount m > 0xffffffffffffffff - maxInterestLo then None
               else Some (mi_amount m + maxInterestLo))
          else Some (mi_amount m)
      | BaseInput _ \<Rightarrow> Some 0)"

fun inputs_overflow_loop :: "TransactionInput list \<Rightarrow> u64 \<Rightarrow> bool" where
  "inputs_overflow_loop [] money = True"
| "inputs_overflow_loop (i # is) money =
     (case max_input_amount i of
        None \<Rightarrow> False
      | Some amount \<Rightarrow> if money > amount + money then False else inputs_overflow_loop is (money + amount))"

definition check_inputs_overflow :: "'a TransactionPrefix_scheme \<Rightarrow> bool" where
  "check_inputs_overflow tx = inputs_overflow_loop (tx_inputs tx) 0"

fun outs_overflow_loop :: "TransactionOutput list \<Rightarrow> u64 \<Rightarrow> bool" where
  "outs_overflow_loop [] money = True"
| "outs_overflow_loop (o1 # os) money =
     (if money > out_amount o1 + money then False else outs_overflow_loop os (money + out_amount o1))"

definition check_outs_overflow :: "'a TransactionPrefix_scheme \<Rightarrow> bool" where
  "check_outs_overflow tx = outs_overflow_loop (tx_outputs tx) 0"

definition check_money_overflow :: "'a TransactionPrefix_scheme \<Rightarrow> bool" where
  "check_money_overflow tx = (check_inputs_overflow tx \<and> check_outs_overflow tx)"

definition get_outs_money_amount :: "'a TransactionPrefix_scheme \<Rightarrow> u64" where
  "get_outs_money_amount tx = fold (\<lambda>o1 outputs_amount. outputs_amount + out_amount o1) (tx_outputs tx) 0"

text \<open>The two loops over a vector of offsets, by index.\<close>

definition relative_output_offsets_to_absolute :: "u32 list \<Rightarrow> u32 list" where
  "relative_output_offsets_to_absolute off =
     fold (\<lambda>i res. res[i := res ! i + res ! (i - 1)]) [1..<length off] off"

definition absolute_output_offsets_to_relative :: "u32 list \<Rightarrow> u32 list" where
  "absolute_output_offsets_to_relative off =
     (if off = [] then off
      else let res = sort off
           in fold (\<lambda>i res. res[i := res ! i - res ! (i - 1)]) (rev [1..<length res]) res)"

text \<open>The calls of the two handlers, in order.\<close>

datatype digit_event = Chunk u64 | Dust u64

function decompose_loop :: "u64 \<Rightarrow> u64 \<Rightarrow> bool \<Rightarrow> u64 \<Rightarrow> u64 \<Rightarrow> digit_event list" where
  "decompose_loop dust_threshold amount is_dust_handled dust order =
     (if amount \<noteq> 0 then
        let chunk = (amount mod 10) * order;
            amount' = amount div 10;
            order' = order * 10
        in if dust + chunk \<le> dust_threshold
           then decompose_loop dust_threshold amount' is_dust_handled (dust + chunk) order'
           else (if \<not> is_dust_handled \<and> dust \<noteq> 0 then [Dust dust] else []) @
                (if chunk \<noteq> 0 then [Chunk chunk] else []) @
                decompose_loop dust_threshold amount' (is_dust_handled \<or> dust \<noteq> 0) dust order'
      else if \<not> is_dust_handled \<and> dust \<noteq> 0 then [Dust dust] else [])"
  by pat_completeness auto
termination
proof (relation "measure (\<lambda>(_, amount, _). unat amount)", goal_cases)
  case (2 dust_threshold amount is_dust_handled dust order x xa xb)
  then show ?case by (simp add: unat_div word_unat_eq_iff)
next
  case (3 dust_threshold amount is_dust_handled dust order x xa xb)
  then show ?case by (simp add: unat_div word_unat_eq_iff)
qed simp

declare decompose_loop.simps [simp del]

definition decompose_amount_into_digits :: "u64 \<Rightarrow> u64 \<Rightarrow> digit_event list" where
  "decompose_amount_into_digits amount dust_threshold =
     (if 0 = amount then [] else decompose_loop dust_threshold amount False 0 1)"

section \<open>Overflow tests\<close>

lemma add_test: "\<not> money > a + money \<longleftrightarrow> unat a + unat (money :: u64) < 2 ^ 64"
proof (cases "unat a + unat money < 2 ^ 64")
  case True
  then have "unat (a + money) = unat a + unat money" by (simp add: unat_word_ariths)
  with True show ?thesis by (simp add: word_less_nat_alt)
next
  case False
  then have "unat (a + money) = unat a + unat money - 2 ^ 64"
    using unat_u64_less [of a] unat_u64_less [of money]
    by (simp add: unat_word_ariths le_mod_geq del: unat_u64_less)
  with False show ?thesis
    using unat_u64_less [of a] by (simp add: word_less_nat_alt del: unat_u64_less)
qed

lemma unat_add_fits: "unat a + unat (b :: u64) < 2 ^ 64 \<Longrightarrow> unat (a + b) = unat a + unat b"
  by (simp add: unat_word_ariths)

lemma outs_overflow_iff:
  "outs_overflow_loop os money \<longleftrightarrow> unat money + (\<Sum>o1\<leftarrow>os. unat (out_amount o1)) < 2 ^ 64"
proof (induction os arbitrary: money)
  case (Cons o1 os)
  show ?case
  proof (cases "unat money + unat (out_amount o1) < 2 ^ 64")
    case True
    then show ?thesis
      using Cons.IH [of "money + out_amount o1"] add_test [of "out_amount o1" money]
      by (simp add: unat_add_fits add.commute add.left_commute add.assoc)
  next
    case False
    then show ?thesis using add_test [of "out_amount o1" money] by (simp add: add.commute)
  qed
qed (use unat_u64_less in simp)

text \<open>What an input is worth at most: its amount and, for a deposit, the highest interest.\<close>

definition input_worth :: "TransactionInput \<Rightarrow> nat" where
  "input_worth i = (case i of
      InKey k \<Rightarrow> unat (ki_amount k)
    | InMulti m \<Rightarrow> if mi_term m \<noteq> 0 then unat (mi_amount m) + unat (mi_amount m) * 4 div 100
                  else unat (mi_amount m)
    | BaseInput _ \<Rightarrow> 0)"

lemma max_deposit_amount:
  assumes "mul128 a 4 = (lo, hi)" "div128_32 hi lo 100 = (r, qhi, qlo)"
  shows "qhi = 0" "unat qlo = unat a * 4 div 100"
proof -
  have "unat lo + 18446744073709551616 * unat hi = unat a * 4"
    using mul128_correct [OF assms(1)] by simp
  with div128_32_correct(1) [OF assms(2)] have *: "unat qlo + 18446744073709551616 * unat qhi = unat a * 4 div 100"
    by simp
  have "unat a * 4 div 100 < 18446744073709551616" using unat_u64_less [of a] by (simp del: unat_u64_less)
  with * have "unat qhi = 0" by linarith
  with * show "qhi = 0" "unat qlo = unat a * 4 div 100" by (simp_all add: word_unat_eq_iff)
qed

lemma max_input_amount_spec:
  "max_input_amount i = (if input_worth i < 2 ^ 64 then Some (of_nat (input_worth i)) else None)"
proof (cases i)
  case (InMulti m)
  show ?thesis
  proof (cases "mi_term m = 0")
    case False
    let ?a = "mi_amount m"
    obtain lo hi where m: "mul128 ?a 4 = (lo, hi)" by force
    obtain r qhi qlo where d: "div128_32 hi lo 100 = (r, qhi, qlo)" by (metis prod_cases3)
    note q = max_deposit_amount [OF m d]
    have "unat (0xffffffffffffffff - qlo) = 18446744073709551615 - unat qlo"
      by (subst unat_sub) (simp_all add: word_le_nat_alt less_Suc_eq_le [symmetric])
    then have "?a > 0xffffffffffffffff - qlo \<longleftrightarrow> \<not> unat ?a + unat qlo < 2 ^ 64"
      using unat_u64_less [of qlo] by (simp add: word_less_nat_alt del: unat_u64_less) arith
    moreover have "?a + qlo = of_nat (unat ?a + unat qlo)" by simp
    ultimately show ?thesis
      using False by (simp add: InMulti max_input_amount_def input_worth_def DEPOSIT_MAX_TOTAL_RATE_def m d q
          del: of_nat_add)
  qed (use unat_u64_less [of "mi_amount m"] in \<open>simp add: InMulti max_input_amount_def input_worth_def\<close>)
qed (simp_all add: max_input_amount_def input_worth_def)

lemma inputs_overflow_iff:
  "inputs_overflow_loop is money \<longleftrightarrow> unat money + (\<Sum>i\<leftarrow>is. input_worth i) < 2 ^ 64"
proof (induction "is" arbitrary: money)
  case (Cons i "is")
  let ?a = "of_nat (input_worth i) :: u64"
  show ?case
  proof (cases "unat money + input_worth i < 2 ^ 64")
    case True
    then have a: "unat ?a = input_worth i" by (intro unat_of_nat_u64) simp
    with True have "unat ?a + unat money < 2 ^ 64" by simp
    with True a show ?thesis
      using Cons.IH [of "money + ?a"] add_test [of ?a money] unat_add_fits [of money ?a]
      by (simp add: max_input_amount_spec add.assoc)
  next
    case False
    show ?thesis
    proof (cases "input_worth i < 2 ^ 64")
      case True
      then have "unat ?a = input_worth i" by (rule unat_of_nat_u64)
      with False True show ?thesis using add_test [of ?a money] by (simp add: max_input_amount_spec)
    qed (use False in \<open>simp add: max_input_amount_spec\<close>)
  qed
qed simp

lemma fold_add_words:
  "a + sum_list (map f xs) < 2 ^ 64 \<Longrightarrow> unat (m :: u64) = a \<Longrightarrow> (\<And>x. unat (g x) \<le> f x) \<Longrightarrow>
    unat (fold (\<lambda>x m. m + g x) xs m) = a + (\<Sum>x\<leftarrow>xs. unat (g x))"
proof (induction xs arbitrary: m a)
  case (Cons x xs)
  have l: "(\<Sum>x\<leftarrow>xs. unat (g x)) \<le> sum_list (map f xs)" by (intro sum_list_mono Cons.prems(3))
  have "unat m + unat (g x) < 2 ^ 64" using Cons.prems(1,2) Cons.prems(3) [of x] by simp
  then have u: "unat (m + g x) = a + unat (g x)" using Cons.prems(2) by (simp add: unat_add_fits)
  have "a + unat (g x) + sum_list (map f xs) < 2 ^ 64" using Cons.prems(1) Cons.prems(3) [of x] by simp
  from Cons.IH [OF this u Cons.prems(3)] show ?case by simp
qed simp

section \<open>Output offsets\<close>

lemma relative_loop:
  assumes "k \<le> length off"
  shows "fold (\<lambda>i res. res[i := res ! i + res ! (i - 1)]) [1..<k] off =
    map (\<lambda>i. if i < k then sum_list (take (Suc i) off) else (off ! i :: u32)) [0..<length off]"
  using assms
proof (induction k)
  case 0
  then show ?case by (simp add: map_nth)
next
  case (Suc k)
  let ?f = "\<lambda>k i. if i < k then sum_list (take (Suc i) off) else off ! i"
  show ?case
  proof (cases "k = 0")
    case True
    have "map (?f (Suc 0)) [0..<length off] = off"
      using Suc.prems by (intro nth_equalityI) (auto simp: take_Suc hd_conv_nth)
    with True show ?thesis by simp
  next
    case False
    then have "[1..<Suc k] = [1..<k] @ [k]" by simp
    then have "fold (\<lambda>i res. res[i := res ! i + res ! (i - 1)]) [1..<Suc k] off =
        (map (?f k) [0..<length off])[k := off ! k + sum_list (take k off)]"
      using Suc False by simp
    also have "\<dots> = map (?f (Suc k)) [0..<length off]"
      using Suc.prems by (intro nth_equalityI) (auto simp: nth_list_update take_Suc_conv_app_nth add.commute)
    finally show ?thesis .
  qed
qed

lemma relative_to_absolute_nth:
  "relative_output_offsets_to_absolute off = map (\<lambda>i. sum_list (take (Suc i) off)) [0..<length off]"
  unfolding relative_output_offsets_to_absolute_def by (subst relative_loop) auto

lemma absolute_loop:
  assumes "0 < k" "k \<le> length s"
  shows "fold (\<lambda>i res. res[i := res ! i - res ! (i - 1)]) (rev [k..<length s]) s =
    map (\<lambda>i. if k \<le> i then s ! i - s ! (i - 1) else (s ! i :: u32)) [0..<length s]"
  using assms(2,1)
proof (induction "length s - k" arbitrary: k)
  case 0
  then have "k = length s" by simp
  then show ?case by (intro nth_equalityI) auto
next
  case (Suc n)
  let ?f = "\<lambda>k i. if k \<le> i then s ! i - s ! (i - 1) else s ! i"
  have k: "k < length s" "n = length s - Suc k" using Suc.hyps(2) by simp_all
  then have "rev [k..<length s] = rev [Suc k..<length s] @ [k]" by (simp add: upt_conv_Cons)
  then have "fold (\<lambda>i res. res[i := res ! i - res ! (i - 1)]) (rev [k..<length s]) s =
      (map (?f (Suc k)) [0..<length s])[k := s ! k - s ! (k - 1)]"
    using Suc.hyps(1) [of "Suc k"] Suc.prems k by simp
  also have "\<dots> = map (?f k) [0..<length s]"
    using k by (intro nth_equalityI) (auto simp: nth_list_update)
  finally show ?case .
qed

lemma absolute_to_relative_nth:
  "absolute_output_offsets_to_relative off =
    map (\<lambda>i. if i = 0 then sort off ! 0 else sort off ! i - sort off ! (i - 1)) [0..<length off]"
proof (cases "off = []")
  case False
  then have "absolute_output_offsets_to_relative off =
      map (\<lambda>i. if 1 \<le> i then sort off ! i - sort off ! (i - 1) else sort off ! i) [0..<length off]"
    unfolding absolute_output_offsets_to_relative_def Let_def
    using absolute_loop [of 1 "sort off"] by (simp add: Suc_le_eq)
  then show ?thesis by (simp add: Suc_le_eq cong: map_cong)
qed (simp add: absolute_output_offsets_to_relative_def)

lemma telescope:
  "i < length s \<Longrightarrow>
    sum_list (take (Suc i) (map (\<lambda>i. if i = 0 then s ! 0 else s ! i - s ! (i - 1)) [0..<length s])) = (s ! i :: u32)"
proof (induction i)
  case 0
  then show ?case by (simp add: take_Suc hd_map)
next
  case (Suc i)
  then show ?case by (subst take_Suc_conv_app_nth) simp_all
qed

section \<open>Decomposition into digits\<close>

definition event_value :: "digit_event \<Rightarrow> nat" where
  "event_value e = (case e of Chunk c \<Rightarrow> unat c | Dust d \<Rightarrow> unat d)"

lemma event_value_simps: "event_value (Chunk c) = unat c" "event_value (Dust d) = unat d"
  by (simp_all add: event_value_def)

text \<open>A chunk is one decimal digit at its place; dust stays under the threshold.\<close>

definition event_ok :: "u64 \<Rightarrow> digit_event \<Rightarrow> bool" where
  "event_ok dust_threshold e = (case e of
      Chunk c \<Rightarrow> \<exists>d \<in> {1..9}. \<exists>k < 20. unat c = d * 10 ^ k
    | Dust d \<Rightarrow> d \<le> dust_threshold \<and> d \<noteq> 0)"

lemma chunk_nat:
  fixes amount order :: u64
  assumes "unat amount * 10 ^ k < 2 ^ 64" "order = of_nat (10 ^ k)" "amount \<noteq> 0"
  shows "unat (amount mod 10 * order) = unat amount mod 10 * 10 ^ k"
    and "unat amount * 10 ^ k = unat amount mod 10 * 10 ^ k + unat (amount div 10) * 10 ^ Suc k"
    and "k < 20"
proof -
  have "1 \<le> unat amount" using assms(3) by (simp add: word_unat_eq_iff)
  then have "10 ^ k \<le> unat amount * 10 ^ k" by simp
  with assms(1) have p: "(10 :: nat) ^ k < 2 ^ 64" by (rule le_less_trans [rotated])
  then have o: "unat order = 10 ^ k" unfolding assms(2) by (rule unat_of_nat_u64)
  have "unat amount mod 10 * 10 ^ k \<le> unat amount * 10 ^ k" by simp
  with assms(1) have "unat amount mod 10 * 10 ^ k < 2 ^ 64" by (rule le_less_trans [rotated])
  then show "unat (amount mod 10 * order) = unat amount mod 10 * 10 ^ k"
    by (simp add: unat_word_ariths unat_mod o)
  have d: "unat (amount div 10) = unat amount div 10" by (simp add: unat_div)
  have split: "(m + 10 * q) * c = m * c + q * (10 * c)" for m q c :: nat by (simp add: algebra_simps)
  have "unat amount * 10 ^ k = (unat amount mod 10 + 10 * (unat amount div 10)) * 10 ^ k" by simp
  then show "unat amount * 10 ^ k = unat amount mod 10 * 10 ^ k + unat (amount div 10) * 10 ^ Suc k"
    unfolding split d power_Suc .
  show "k < 20"
  proof (rule ccontr)
    assume "\<not> k < 20"
    then have "(10 :: nat) ^ 20 \<le> 10 ^ k" by (intro power_increasing) simp_all
    with p show False by simp
  qed
qed

lemma order_step: "order = (of_nat (10 ^ k) :: u64) \<Longrightarrow> order * 10 = of_nat (10 ^ Suc k)"
  by (simp add: mult.commute)

lemma decompose_loop_sum:
  assumes "unat amount * 10 ^ k + unat dust < 2 ^ 64" and "order = of_nat (10 ^ k)"
    and "handled \<longrightarrow> unat threshold < unat dust + 10 ^ k" and "dust \<le> threshold"
  shows "(\<Sum>e\<leftarrow>decompose_loop threshold amount handled dust order. event_value e) =
      unat amount * 10 ^ k + (if handled then 0 else unat dust) \<and>
    list_all (event_ok threshold) (decompose_loop threshold amount handled dust order)"
  using assms
proof (induction threshold amount handled dust order arbitrary: k rule: decompose_loop.induct)
  case (1 threshold amount handled dust order)
  show ?case
  proof (cases "amount = 0")
    case True
    then show ?thesis
      using "1.prems"(4) by (subst (1 2) decompose_loop.simps) (simp add: event_value_def event_ok_def)
  next
    case False
    define chunk where "chunk = amount mod 10 * order"
    have lt: "unat amount * 10 ^ k < 2 ^ 64" using "1.prems"(1) by simp
    note ch = chunk_nat [OF lt "1.prems"(2) False, folded chunk_def]
    have fit: "unat dust + unat chunk + unat (amount div 10) * 10 ^ Suc k < 2 ^ 64"
      using "1.prems"(1) ch(1,2) by simp
    then have add: "unat (dust + chunk) = unat dust + unat chunk" by (intro unat_add_fits) simp
    note ord = order_step [OF "1.prems"(2)]
    note step = decompose_loop.simps [of threshold amount handled dust order, folded chunk_def]
    show ?thesis
    proof (cases "dust + chunk \<le> threshold")
      case True
      have z: "handled \<Longrightarrow> unat chunk = 0"
      proof -
        assume handled
        then have "unat chunk < 10 ^ k"
          using True "1.prems"(3) add by (simp add: word_le_nat_alt)
        then have "unat amount mod 10 = 0" by (simp add: ch(1))
        then show "unat chunk = 0" by (simp add: ch(1))
      qed
      have "unat (amount div 10) * 10 ^ Suc k + unat (dust + chunk) < 2 ^ 64" using fit add by simp
      moreover have "handled \<longrightarrow> unat threshold < unat (dust + chunk) + 10 ^ Suc k"
        using "1.prems"(3) add by auto
      ultimately have "(\<Sum>e\<leftarrow>decompose_loop threshold (amount div 10) handled (dust + chunk) (order * 10). event_value e) =
          unat (amount div 10) * 10 ^ Suc k + (if handled then 0 else unat (dust + chunk)) \<and>
        list_all (event_ok threshold) (decompose_loop threshold (amount div 10) handled (dust + chunk) (order * 10))"
        using "1.IH"(1) [OF False refl refl refl, folded chunk_def, OF True _ ord] True by blast
      then show ?thesis
        using False True z add ch(1,2) by (simp add: step Let_def)
    next
      case F: False
      let ?h = "handled \<or> dust \<noteq> 0"
      have "unat (amount div 10) * 10 ^ Suc k + unat dust < 2 ^ 64" using fit by simp
      moreover have "?h \<longrightarrow> unat threshold < unat dust + 10 ^ Suc k"
      proof -
        have "unat amount mod 10 * 10 ^ k \<le> 10 * 10 ^ k" by (intro mult_right_mono) simp_all
        moreover have "unat threshold < unat dust + unat amount mod 10 * 10 ^ k"
          using F add ch(1) by (simp add: word_le_nat_alt not_le)
        ultimately have "unat threshold < unat dust + 10 * 10 ^ k" by linarith
        then show ?thesis by simp
      qed
      ultimately have "(\<Sum>e\<leftarrow>decompose_loop threshold (amount div 10) ?h dust (order * 10). event_value e) =
          unat (amount div 10) * 10 ^ Suc k + (if ?h then 0 else unat dust) \<and>
        list_all (event_ok threshold) (decompose_loop threshold (amount div 10) ?h dust (order * 10))"
        using "1.IH"(2) [OF False refl refl refl, folded chunk_def, OF F _ ord] "1.prems"(4) by blast
      moreover have "event_ok threshold (Chunk chunk)" if "chunk \<noteq> 0"
      proof -
        have "unat amount mod 10 \<noteq> 0" using that ch(1) by (auto simp: word_unat_eq_iff)
        then have "unat amount mod 10 \<in> {1..9}" using mod_less_divisor [of 10 "unat amount"] by simp
        then show ?thesis using ch(1,3) by (auto simp: event_ok_def)
      qed
      moreover have "event_ok threshold (Dust dust)" if "dust \<noteq> 0"
        using that "1.prems"(4) by (simp add: event_ok_def)
      ultimately show ?thesis
        using False F ch(2) unfolding ch(1) [symmetric] by (simp add: step Let_def event_value_simps)
    qed
  qed
qed

section \<open>Multisignature inputs\<close>

fun multisig_refs :: "TransactionInput list \<Rightarrow> (u64 \<times> u32) list" where
  "multisig_refs [] = []"
| "multisig_refs (InMulti i # is) = (mi_amount i, mi_outputIndex i) # multisig_refs is"
| "multisig_refs (_ # is) = multisig_refs is"

lemma multisig_diff_loop_iff:
  "multisig_diff_loop is S \<longleftrightarrow> distinct (multisig_refs is) \<and> set (multisig_refs is) \<inter> S = {}"
  by (induction "is" S rule: multisig_diff_loop.induct) auto

lemma checkMultisignatureInputsDiff_iff:
  "checkMultisignatureInputsDiff tx \<longleftrightarrow> distinct (multisig_refs (tx_inputs tx))"
  by (simp add: checkMultisignatureInputsDiff_def multisig_diff_loop_iff)

section \<open>Properties\<close>

text \<open>C33: the overflow test of a transaction holds exactly when the sum of what its inputs are worth
  (deposits with the highest interest) and the sum of its outputs both fit 64 bits, as mathematical
  sums; the two amounts the code then computes with 64-bit additions are those sums.\<close>

theorem money_overflow_exact:
  "(check_money_overflow tx \<longleftrightarrow>
      (\<Sum>i\<leftarrow>tx_inputs tx. input_worth i) < 2 ^ 64 \<and> (\<Sum>t\<leftarrow>tx_outputs tx. unat (out_amount t)) < 2 ^ 64) \<and>
   (check_money_overflow tx \<longrightarrow>
      unat (get_inputs_money_amount tx) = (\<Sum>i\<leftarrow>tx_inputs tx. unat (input_amount i)) \<and>
      unat (get_outs_money_amount tx) = (\<Sum>t\<leftarrow>tx_outputs tx. unat (out_amount t)))"
proof -
  have "unat (input_amount i) \<le> input_worth i" for i
    by (cases i) (auto simp: input_amount_def input_worth_def)
  then show ?thesis
    using fold_add_words [of 0 input_worth "tx_inputs tx" 0 input_amount]
      fold_add_words [of 0 "\<lambda>t. unat (out_amount t)" "tx_outputs tx" 0 out_amount]
    by (simp add: check_money_overflow_def check_inputs_overflow_def check_outs_overflow_def
        inputs_overflow_iff outs_overflow_iff get_inputs_money_amount_def get_outs_money_amount_def)
qed

theorem money_overflow_exact_example:
  "let tx = \<lparr>tx_version = 1, tx_unlockTime = 0,
      tx_inputs = [InMulti \<lparr>mi_amount = 1000, mi_signatureCount = 1, mi_outputIndex = 0, mi_term = 5\<rparr>],
      tx_outputs = [\<lparr>out_amount = 600, out_target = OutKey []\<rparr>, \<lparr>out_amount = 400, out_target = OutKey []\<rparr>],
      tx_extra = []\<rparr>
   in check_money_overflow tx \<and> unat (get_outs_money_amount tx) = 1000"
  unfolding Let_def
  using money_overflow_exact [of "\<lparr>tx_version = 1, tx_unlockTime = 0,
      tx_inputs = [InMulti \<lparr>mi_amount = 1000, mi_signatureCount = 1, mi_outputIndex = 0, mi_term = 5\<rparr>],
      tx_outputs = [\<lparr>out_amount = 600, out_target = OutKey []\<rparr>, \<lparr>out_amount = 400, out_target = OutKey []\<rparr>],
      tx_extra = []\<rparr>"]
  by (simp add: input_worth_def)

text \<open>C35: relative output offsets become the running sums, and turning absolute offsets into relative
  ones and back gives them in ascending order, so ordered offsets survive the round trip.\<close>

theorem output_offsets_roundtrip:
  "relative_output_offsets_to_absolute (absolute_output_offsets_to_relative off) = sort off \<and>
   relative_output_offsets_to_absolute off = map (\<lambda>i. sum_list (take (Suc i) off)) [0..<length off]"
proof -
  let ?s = "sort off"
  let ?r = "map (\<lambda>i. if i = 0 then ?s ! 0 else ?s ! i - ?s ! (i - 1)) [0..<length off]"
  have "map (\<lambda>i. sum_list (take (Suc i) ?r)) [0..<length off] = ?s"
    using telescope [of _ ?s] by (intro nth_equalityI) simp_all
  then show ?thesis by (simp add: relative_to_absolute_nth absolute_to_relative_nth)
qed

text \<open>C34: splitting an amount into digits loses nothing: the chunks and the dust add up to it, every
  chunk is one non-zero decimal digit at its place, and the dust is within the threshold.\<close>

theorem decompose_exact:
  "(\<Sum>e\<leftarrow>decompose_amount_into_digits amount dust_threshold. event_value e) = unat amount \<and>
   list_all (event_ok dust_threshold) (decompose_amount_into_digits amount dust_threshold)"
proof (cases "amount = 0")
  case False
  then show ?thesis
    using decompose_loop_sum [of amount 0 0 1 False dust_threshold] by (simp add: decompose_amount_into_digits_def)
qed (simp add: decompose_amount_into_digits_def)

text \<open>A multisignature output in a version 1 transaction writes through a null \<^verbatim>\<open>error\<close> pointer when
  the caller passes none.\<close>

lemma check_outs_valid_null_deref:
  "check_outs_valid check_key 1 False [\<lparr>out_amount = 5, out_target = OutMulti mo\<rparr>] = Inl NullDeref"
  by (simp add: TRANSACTION_VERSION_2_def)

end
