(* ===== verification/Difficulty.thy ===== *)
theory Difficulty
  imports Prelude
begin

text \<open>
  The proof-of-work test, \<^verbatim>\<open>src/CryptoNoteCore/Difficulty.cpp\<close>. It multiplies a 256-bit hash by the
  difficulty in 64-bit words and looks at the carry out of the top word; the theorem is that this
  decides whether hash times difficulty fits 256 bits.
\<close>

section \<open>Definitions\<close>

text \<open>The 128-bit product, low word first (the branch for compilers with \<^verbatim>\<open>__int128\<close>).\<close>

definition mul_words :: "u64 \<Rightarrow> u64 \<Rightarrow> u64 \<times> u64" where
  "mul_words a b = (let res = unat a * unat b in (of_nat res, of_nat (res div 2 ^ 64)))"

definition cadd :: "u64 \<Rightarrow> u64 \<Rightarrow> bool" where
  "cadd a b = (a + b < a)"

definition cadc :: "u64 \<Rightarrow> u64 \<Rightarrow> bool \<Rightarrow> bool" where
  "cadc a b c = (a + b < a \<or> (c \<and> a + b = 0xffffffffffffffff))"

text \<open>\<^verbatim>\<open>swap64le(((const uint64_t *) &hash)[i])\<close>: eight bytes of the hash, least significant first.\<close>

definition le_word :: "bytes \<Rightarrow> u64" where
  "le_word bs = foldr (\<lambda>b acc. ucast b + 256 * acc) bs 0"

definition hash_word :: "hash \<Rightarrow> nat \<Rightarrow> u64" where
  "hash_word h i = le_word (take 8 (drop (8 * i) h))"

definition check_hash :: "hash \<Rightarrow> u64 \<Rightarrow> bool" where
  "check_hash hash difficulty =
     (case mul_words (hash_word hash 3) difficulty of (top1, high) \<Rightarrow>
      if high \<noteq> 0 then False
      else
        case mul_words (hash_word hash 0) difficulty of (low, cur) \<Rightarrow>
        case mul_words (hash_word hash 1) difficulty of (low, high) \<Rightarrow>
        let carry = cadd cur low; cur = high in
        case mul_words (hash_word hash 2) difficulty of (low, high) \<Rightarrow>
        let carry = cadc cur low carry;
            carry = cadc high top1 carry
        in \<not> carry)"

section \<open>Words\<close>

abbreviation "B64 \<equiv> 18446744073709551616 :: nat"

lemma mul_words_nat:
  assumes "mul_words a b = (lo, hi)"
  shows "unat a * unat b = unat lo + B64 * unat hi"
proof -
  let ?p = "unat a * unat b"
  have "?p < B64 * B64"
    by (rule mult_strict_mono) (simp_all add: unat_u64_less)
  then have "?p div B64 < B64" by (simp add: less_mult_imp_div_less)
  then have "unat hi = ?p div B64" "unat lo = ?p mod B64"
    using assms by (auto simp: mul_words_def Let_def unat_of_nat unat_word_ariths)
  then show ?thesis by simp
qed

lemma cadd_nat: "cadd a b \<longleftrightarrow> B64 \<le> unat a + unat b"
proof (cases "unat a + unat b < B64")
  case True
  then have "unat (a + b) = unat a + unat b" by (simp add: unat_word_ariths)
  with True show ?thesis by (simp add: cadd_def word_less_nat_alt)
next
  case False
  then have "unat (a + b) = unat a + unat b - B64"
    using unat_u64_less [of a] unat_u64_less [of b]
    by (simp add: unat_word_ariths le_mod_geq del: unat_u64_less)
  with False show ?thesis
    using unat_u64_less [of b] by (simp add: cadd_def word_less_nat_alt del: unat_u64_less)
qed

lemma cadc_nat: "cadc a b c \<longleftrightarrow> B64 \<le> unat a + unat b + of_bool c"
proof (cases "unat a + unat b < B64")
  case True
  then have "unat (a + b) = unat a + unat b" by (simp add: unat_word_ariths)
  then have "a + b = 0xffffffffffffffff \<longleftrightarrow> unat a + unat b = 18446744073709551615"
    by (simp add: word_unat_eq_iff)
  with True cadd_nat [of a b] show ?thesis by (auto simp: cadc_def cadd_def)
next
  case False
  with cadd_nat [of a b] show ?thesis by (simp add: cadc_def cadd_def)
qed

text \<open>The carry chain: four double words with one word of overlap.\<close>

lemma carry_chain:
  fixes l0 g0 l1 g1 l2 g2 l3 :: nat
  assumes "l0 < B64" "g0 < B64" "l1 < B64" "g1 < B64" "l2 < B64" "g2 < B64" "l3 < B64"
  defines "c1 \<equiv> of_bool (B64 \<le> g0 + l1)"
  defines "c2 \<equiv> of_bool (B64 \<le> g1 + l2 + c1)"
  shows "l0 + B64 * (g0 + l1) + B64 ^ 2 * (g1 + l2) + B64 ^ 3 * (g2 + l3) < B64 ^ 4 \<longleftrightarrow>
    \<not> B64 \<le> g2 + l3 + c2"
proof -
  have "\<exists>r1. g0 + l1 = B64 * c1 + r1 \<and> r1 < B64"
    unfolding c1_def using assms(2,3) by (cases "B64 \<le> g0 + l1") (auto intro: exI [of _ "g0 + l1 - B64"])
  then obtain r1 where r1: "g0 + l1 = B64 * c1 + r1" "r1 < B64" by blast
  have "c1 \<le> 1" by (simp add: c1_def)
  then have "\<exists>r2. g1 + l2 + c1 = B64 * c2 + r2 \<and> r2 < B64"
    unfolding c2_def using assms(4,5)
    by (cases "B64 \<le> g1 + l2 + c1") (auto intro: exI [of _ "g1 + l2 + c1 - B64"])
  then obtain r2 where r2: "g1 + l2 + c1 = B64 * c2 + r2" "r2 < B64" by blast
  have "l0 + B64 * (g0 + l1) + B64 ^ 2 * (g1 + l2) + B64 ^ 3 * (g2 + l3) =
      l0 + B64 * r1 + B64 ^ 2 * (g1 + l2 + c1) + B64 ^ 3 * (g2 + l3)"
    unfolding r1(1) by (simp add: algebra_simps power2_eq_square)
  also have "\<dots> = l0 + B64 * r1 + B64 ^ 2 * r2 + B64 ^ 3 * (g2 + l3 + c2)"
    unfolding r2(1) by (simp add: algebra_simps power2_eq_square power3_eq_cube)
  finally have *: "l0 + B64 * (g0 + l1) + B64 ^ 2 * (g1 + l2) + B64 ^ 3 * (g2 + l3) =
      l0 + B64 * r1 + B64 ^ 2 * r2 + B64 ^ 3 * (g2 + l3 + c2)" .
  have low: "l0 + B64 * r1 + B64 ^ 2 * r2 < B64 ^ 3"
    using assms(1) r1(2) r2(2) by simp
  show ?thesis unfolding * using low by (auto simp: not_le)
qed

lemma check_hash_words:
  "check_hash h d \<longleftrightarrow>
    (unat (hash_word h 0) + B64 * unat (hash_word h 1) + B64 ^ 2 * unat (hash_word h 2) +
     B64 ^ 3 * unat (hash_word h 3)) * unat d < B64 ^ 4"
proof -
  obtain l0 g0 where m0: "mul_words (hash_word h 0) d = (l0, g0)" by force
  obtain l1 g1 where m1: "mul_words (hash_word h 1) d = (l1, g1)" by force
  obtain l2 g2 where m2: "mul_words (hash_word h 2) d = (l2, g2)" by force
  obtain l3 g3 where m3: "mul_words (hash_word h 3) d = (l3, g3)" by force
  note p = mul_words_nat [OF m0] mul_words_nat [OF m1] mul_words_nat [OF m2] mul_words_nat [OF m3]
  let ?v = "unat l0 + B64 * (unat g0 + unat l1) + B64 ^ 2 * (unat g1 + unat l2) + B64 ^ 3 * (unat g2 + unat l3)"
  have distrib: "(a + B64 * b + B64 ^ 2 * c + B64 ^ 3 * e) * x =
      a * x + B64 * (b * x) + B64 ^ 2 * (c * x) + B64 ^ 3 * (e * x)" for a b c e x :: nat
    by (simp only: distrib_right mult.assoc)
  have collect: "(a + B64 * a') + B64 * (b + B64 * b') + B64 ^ 2 * (c + B64 * c') + B64 ^ 3 * (e + B64 * e') =
      a + B64 * (a' + b) + B64 ^ 2 * (b' + c) + B64 ^ 3 * (c' + e) + B64 ^ 4 * e'" for a a' b b' c c' e e' :: nat
    by simp
  have v: "(unat (hash_word h 0) + B64 * unat (hash_word h 1) + B64 ^ 2 * unat (hash_word h 2) +
      B64 ^ 3 * unat (hash_word h 3)) * unat d = ?v + B64 ^ 4 * unat g3"
    unfolding distrib p collect ..
  show ?thesis
  proof (cases "g3 = 0")
    case False
    then have "1 \<le> unat g3" by (simp add: word_unat_eq_iff)
    then have "B64 ^ 4 * 1 \<le> B64 ^ 4 * unat g3" by (rule mult_le_mono2)
    then have "\<not> ?v + B64 ^ 4 * unat g3 < B64 ^ 4" by linarith
    with False show ?thesis unfolding v by (simp add: check_hash_def m3)
  next
    case True
    have "check_hash h d \<longleftrightarrow> \<not> cadc g2 l3 (cadc g1 l2 (cadd g0 l1))"
      using True by (simp add: check_hash_def m0 m1 [unfolded One_nat_def] m2 m3 Let_def)
    also have "\<dots> \<longleftrightarrow> ?v < B64 ^ 4"
      unfolding cadc_nat cadd_nat
      by (rule carry_chain [symmetric]) (rule unat_u64_less)+
    finally show ?thesis unfolding v using True by simp
  qed
qed

section \<open>The hash as a number\<close>

definition hash_nat :: "hash \<Rightarrow> nat" where
  "hash_nat h = foldr (\<lambda>b acc. unat b + 256 * acc) h 0"

lemma hash_nat_simps [simp]: "hash_nat [] = 0" "hash_nat (b # bs) = unat b + 256 * hash_nat bs"
  by (simp_all add: hash_nat_def)

lemma hash_nat_append: "hash_nat (xs @ ys) = hash_nat xs + 256 ^ length xs * hash_nat ys"
  by (induction xs) (simp_all add: algebra_simps)

lemma hash_nat_less: "hash_nat bs < 256 ^ length bs"
proof (induction bs)
  case (Cons b bs)
  then have "unat b + 256 * hash_nat bs < 256 + 256 * hash_nat bs" by simp
  also have "\<dots> \<le> 256 * 256 ^ length bs" using Cons by simp
  finally show ?case by simp
qed simp

lemma le_word_of_nat: "le_word bs = of_nat (hash_nat bs)"
proof (induction bs)
  case (Cons b bs)
  have "(ucast b :: u64) = of_nat (unat b)" by (simp add: word_unat_eq_iff unat_of_nat)
  with Cons show ?case by (simp add: le_word_def)
qed (simp add: le_word_def)

lemma unat_hash_word: "length h = 32 \<Longrightarrow> i < 4 \<Longrightarrow> unat (hash_word h i) = hash_nat (take 8 (drop (8 * i) h))"
proof -
  assume "length h = 32" "i < 4"
  then have "length (take 8 (drop (8 * i) h)) = 8" by simp
  then have "hash_nat (take 8 (drop (8 * i) h)) < 2 ^ 64"
    using hash_nat_less [of "take 8 (drop (8 * i) h)"] by simp
  then show "unat (hash_word h i) = hash_nat (take 8 (drop (8 * i) h))"
    by (simp add: hash_word_def le_word_of_nat unat_of_nat)
qed

lemma hash_nat_words:
  assumes "length h = 32"
  shows "hash_nat h = unat (hash_word h 0) + B64 * unat (hash_word h 1) + B64 ^ 2 * unat (hash_word h 2) +
     B64 ^ 3 * unat (hash_word h 3)"
proof -
  let ?p = "\<lambda>i. take 8 (drop (8 * i) h)"
  have h: "h = ?p 0 @ ?p 1 @ ?p 2 @ ?p 3"
    using append_take_drop_id [of 8 h] append_take_drop_id [of 8 "drop 8 h"]
      append_take_drop_id [of 8 "drop 16 h"] assms by simp
  have l: "length (?p 0) = 8" "length (?p 1) = 8" "length (?p 2) = 8" using assms by simp_all
  have "hash_nat h = hash_nat (?p 0 @ ?p 1 @ ?p 2 @ ?p 3)" by (rule arg_cong [OF h])
  also have "\<dots> = hash_nat (?p 0) + 256 ^ 8 * (hash_nat (?p 1) + 256 ^ 8 * (hash_nat (?p 2) + 256 ^ 8 * hash_nat (?p 3)))"
    unfolding hash_nat_append l ..
  finally have "hash_nat h = \<dots>" .
  then show ?thesis
    using unat_hash_word [OF assms, of 0] unat_hash_word [OF assms, of 1] unat_hash_word [OF assms, of 2]
      unat_hash_word [OF assms, of 3] by simp
qed

section \<open>Property\<close>

text \<open>C30: a block's hash passes the test exactly when the hash, read as a little-endian 256-bit number,
  times the difficulty is below two to the 256. In particular difficulty 0 and 1 accept every hash,
  and a hash accepted at some difficulty is accepted at every lower one.\<close>

theorem check_hash_correct:
  assumes "length h = 32"
  shows "(check_hash h d \<longleftrightarrow> hash_nat h * unat d < 2 ^ 256) \<and>
    (check_hash h d \<and> e \<le> d \<longrightarrow> check_hash h e) \<and> check_hash h 1"
proof -
  have iff: "check_hash h d \<longleftrightarrow> hash_nat h * unat d < 2 ^ 256" for d
    unfolding check_hash_words hash_nat_words [OF assms] by simp
  have "hash_nat h * unat e < 2 ^ 256" if "hash_nat h * unat d < 2 ^ 256" "e \<le> d"
  proof -
    have "hash_nat h * unat e \<le> hash_nat h * unat d"
      using that(2) by (intro mult_le_mono2) (simp add: word_le_nat_alt)
    then show ?thesis using that(1) by (rule le_less_trans)
  qed
  moreover have "hash_nat h * unat (1 :: u64) < 2 ^ 256" using hash_nat_less [of h] assms by simp
  ultimately show ?thesis unfolding iff by blast
qed

theorem check_hash_correct_witness:
  "length (replicate 31 0 @ [1 :: u8]) = 32 \<and> \<not> check_hash (replicate 31 0 @ [1]) 256 \<and>
   check_hash (replicate 31 0 @ [1]) 255"
proof -
  have "hash_nat (replicate 31 0 @ [1]) = 256 ^ 31"
  proof -
    have "hash_nat (replicate n 0) = 0" for n by (induction n) simp_all
    then show ?thesis by (simp add: hash_nat_append)
  qed
  then show ?thesis
    using check_hash_correct [of "replicate 31 0 @ [1]" 256] check_hash_correct [of "replicate 31 0 @ [1]" 255]
    by simp
qed

end
