(* ===== verification/Reward.thy ===== *)
theory Reward
  imports CryptoNoteTypes IntUtil
begin

text \<open>
  Block rewards: \<^verbatim>\<open>getPenalizedAmount\<close> of \<^verbatim>\<open>src/CryptoNoteCore/CryptoNoteBasicImpl.cpp\<close> and the
  reward functions of \<^verbatim>\<open>src/CryptoNoteCore/Currency.cpp\<close>, with the currency's parameters they read.
  The theorems give the penalty as the exact quadratic formula computed without overflow, with none
  of its assertions failing, and bound what a block can mint by what is left of the money supply.
\<close>

section \<open>Definitions\<close>

text \<open>The members of \<^verbatim>\<open>Currency\<close> the modelled functions read, with the builder's default values.\<close>

record currency =
  cur_maxBlockHeight :: u32
  cur_maxBlockBlobSize :: usize
  cur_maxTxSize :: usize
  cur_publicAddressBase58Prefix :: u64
  cur_minedMoneyUnlockWindow :: usize
  cur_timestampCheckWindow :: nat
  cur_blockFutureTimeLimit :: u64
  cur_moneySupply :: u64
  cur_rewardBlocksWindow :: nat
  cur_blockGrantedFullRewardZone :: usize
  cur_minerTxBlobReservedSize :: usize
  cur_numberOfDecimalPlaces :: nat
  cur_coin :: u64
  cur_minimumFee :: u64
  cur_minimumFeeBanking :: u64
  cur_defaultDustThreshold :: u64
  cur_difficultyTarget :: u64
  cur_difficultyWindow :: nat
  cur_depositMinAmount :: u64
  cur_depositMinTerm :: u32
  cur_depositMaxTerm :: u32
  cur_depositMinTotalRateFactor :: u64
  cur_depositMaxTotalRate :: u64
  cur_maxBlockSizeInitial :: usize
  cur_maxBlockSizeGrowthSpeedNumerator :: u64
  cur_maxBlockSizeGrowthSpeedDenominator :: u64
  cur_lockedTxAllowedDeltaSeconds :: u64
  cur_lockedTxAllowedDeltaBlocks :: u64
  cur_mempoolTxLiveTime :: u64
  cur_mempoolTxFromAltBlockLiveTime :: u64
  cur_numberOfPeriodsToForgetTxDeletedFromPool :: u64
  cur_upgradeHeightV2 :: u32
  cur_upgradeVotingThreshold :: u32
  cur_upgradeVotingWindow :: u32
  cur_upgradeWindow :: u32
  cur_transactionMaxSize :: usize
  cur_fusionTxMaxSize :: usize
  cur_fusionTxMinInputCount :: usize
  cur_fusionTxMinInOutCountRatio :: usize
  cur_testnet :: bool

definition default_currency :: currency where
  "default_currency = \<lparr>
     cur_maxBlockHeight = MAX_BLOCK_NUMBER,
     cur_maxBlockBlobSize = MAX_BLOCK_BLOB_SIZE,
     cur_maxTxSize = 1000000000,
     cur_publicAddressBase58Prefix = 0x1ca0ce,
     cur_minedMoneyUnlockWindow = ucast MINED_COINS_UNLOCK_WINDOW,
     cur_timestampCheckWindow = BLOCKCHAIN_TIMESTAMP_CHECK_WINDOW,
     cur_blockFutureTimeLimit = BLOCK_FUTURE_TIME_LIMIT,
     cur_moneySupply = MONEY_SUPPLY,
     cur_rewardBlocksWindow = REWARD_BLOCKS_WINDOW,
     cur_blockGrantedFullRewardZone = BLOCK_GRANTED_FULL_REWARD_ZONE,
     cur_minerTxBlobReservedSize = COINBASE_BLOB_RESERVED_SIZE,
     cur_numberOfDecimalPlaces = 5,
     cur_coin = 10 ^ 5,
     cur_minimumFee = MINIMUM_FEE,
     cur_minimumFeeBanking = 100,
     cur_defaultDustThreshold = DEFAULT_DUST_THRESHOLD,
     cur_difficultyTarget = DIFFICULTY_TARGET,
     cur_difficultyWindow = unat DIFFICULTY_WINDOW,
     cur_depositMinAmount = DEPOSIT_MIN_AMOUNT,
     cur_depositMinTerm = DEPOSIT_MIN_TERM,
     cur_depositMaxTerm = DEPOSIT_MAX_TERM,
     cur_depositMinTotalRateFactor = 0,
     cur_depositMaxTotalRate = DEPOSIT_MAX_TOTAL_RATE,
     cur_maxBlockSizeInitial = BLOCK_GRANTED_FULL_REWARD_ZONE * 10,
     cur_maxBlockSizeGrowthSpeedNumerator = 100 * 1024,
     cur_maxBlockSizeGrowthSpeedDenominator = 365 * 24 * 60 * 60 div DIFFICULTY_TARGET,
     cur_lockedTxAllowedDeltaSeconds = DIFFICULTY_TARGET * 1,
     cur_lockedTxAllowedDeltaBlocks = 1,
     cur_mempoolTxLiveTime = 60 * 60 * 12,
     cur_mempoolTxFromAltBlockLiveTime = 60 * 60 * 12,
     cur_numberOfPeriodsToForgetTxDeletedFromPool = 7,
     cur_upgradeHeightV2 = UPGRADE_HEIGHT_V2,
     cur_upgradeVotingThreshold = 90,
     cur_upgradeVotingWindow = 720,
     cur_upgradeWindow = 720,
     cur_transactionMaxSize = BLOCK_GRANTED_FULL_REWARD_ZONE - COINBASE_BLOB_RESERVED_SIZE,
     cur_fusionTxMaxSize = BLOCK_GRANTED_FULL_REWARD_ZONE * 30 div 100,
     cur_fusionTxMinInputCount = 12,
     cur_fusionTxMinInOutCountRatio = 4,
     cur_testnet = False\<rparr>"

definition getPenalizedAmount :: "u64 \<Rightarrow> usize \<Rightarrow> usize \<Rightarrow> u64 result" where
  "getPenalizedAmount amount medianSize currentBlockSize =
     assert_res (currentBlockSize \<le> 2 * medianSize) (
     assert_res (medianSize \<le> 0xffffffff) (
     assert_res (currentBlockSize \<le> 0xffffffff) (
       if amount = 0 then Inr 0
       else if currentBlockSize \<le> medianSize then Inr amount
       else
         case mul128 amount (currentBlockSize * (2 * medianSize - currentBlockSize)) of (productLo, productHi) \<Rightarrow>
         case div128_32 productHi productLo (ucast medianSize) of (_, penalizedAmountHi, penalizedAmountLo) \<Rightarrow>
         case div128_32 penalizedAmountHi penalizedAmountLo (ucast medianSize) of (_, penalizedAmountHi, penalizedAmountLo) \<Rightarrow>
           assert_res (0 = penalizedAmountHi) (
           assert_res (penalizedAmountLo < amount) (
             Inr penalizedAmountLo)))))"

definition REWARD_INCREASING_FACTOR :: "u64 list" where
  "REWARD_INCREASING_FACTOR = [0, 25000, 50000, 75000, 100000, 125000, 150000, 175000, 200000]"

definition baseRewardFunction :: "currency \<Rightarrow> u64 \<Rightarrow> u32 \<Rightarrow> u64 result" where
  "baseRewardFunction cur alreadyGeneratedCoins height =
     (if height = 1 then Inr FOUNDATION_TRUST
      else
        let incrIntervals = ucast height div REWARD_INCREASE_INTERVAL in
        bind_res (at_res REWARD_INCREASING_FACTOR (unat incrIntervals)) (\<lambda>factor.
          let base_reward = BLOCK_REWARD + factor;
              base_reward = min base_reward STATIC_BLOCK_REWARD;
              base_reward = min base_reward (cur_moneySupply cur - alreadyGeneratedCoins)
          in Inr base_reward))"

definition upgradeHeight :: "currency \<Rightarrow> u8 \<Rightarrow> u32" where
  "upgradeHeight cur majorVersion =
     (if majorVersion = BLOCK_MAJOR_VERSION_2 then cur_upgradeHeightV2 cur else 0xffffffff)"

text \<open>The outcome of the reward computation: a block that is too big, or the reward and the change of
  the emission (an \<^verbatim>\<open>int64_t\<close> as a word).\<close>

definition getBlockReward ::
  "currency \<Rightarrow> usize \<Rightarrow> usize \<Rightarrow> u64 \<Rightarrow> u64 \<Rightarrow> u32 \<Rightarrow> (u64 \<times> u64) option result" where
  "getBlockReward cur medianSize currentBlockSize alreadyGeneratedCoins fee height =
     assert_res (alreadyGeneratedCoins \<le> cur_moneySupply cur) (
     bind_res (baseRewardFunction cur alreadyGeneratedCoins height) (\<lambda>baseReward.
       let medianSize = max medianSize (cur_blockGrantedFullRewardZone cur) in
       if currentBlockSize > 2 * medianSize then Inr None
       else
         bind_res (getPenalizedAmount baseReward medianSize currentBlockSize) (\<lambda>penalizedBaseReward.
         bind_res (getPenalizedAmount fee medianSize currentBlockSize) (\<lambda>penalizedFee.
           let emissionChange = penalizedBaseReward - (fee - penalizedFee);
               reward = penalizedBaseReward + penalizedFee
           in Inr (Some (reward, emissionChange))))))"

definition maxBlockCumulativeSize :: "currency \<Rightarrow> u64 \<Rightarrow> usize result" where
  "maxBlockCumulativeSize cur height =
     assert_res (height \<le> 0xffffffffffffffff div cur_maxBlockSizeGrowthSpeedNumerator cur) (
       let maxSize = cur_maxBlockSizeInitial cur +
             (height * cur_maxBlockSizeGrowthSpeedNumerator cur) div cur_maxBlockSizeGrowthSpeedDenominator cur
       in assert_res (maxSize \<ge> cur_maxBlockSizeInitial cur) (Inr maxSize))"

definition is_coinbase :: "'a TransactionPrefix_scheme \<Rightarrow> bool" where
  "is_coinbase tx =
     (if length (tx_inputs tx) \<noteq> 1 then False
      else case tx_inputs tx ! 0 of BaseInput _ \<Rightarrow> True | _ \<Rightarrow> False)"

section \<open>The penalty\<close>

text \<open>The penalty formula: quadratic in the excess over the median, rounded down.\<close>

definition penalized :: "nat \<Rightarrow> nat \<Rightarrow> nat \<Rightarrow> nat" where
  "penalized a m c = (if c \<le> m then a else a * (c * (2 * m - c)) div (m * m))"

lemma penalty_factor_less: "m < c \<Longrightarrow> c \<le> 2 * m \<Longrightarrow> c * (2 * m - c) < m * (m :: nat)"
proof -
  assume "m < c" "c \<le> 2 * m"
  then obtain d where d: "c = m + d" "0 < d" "d \<le> m" by (metis add_le_cancel_left less_imp_add_positive mult_2)
  then obtain e where e: "m = d + e" using le_Suc_ex by blast
  have "c * (2 * m - c) = (m + d) * e" using d(1) e by simp
  then show ?thesis using d e by (simp add: algebra_simps)
qed

lemma penalized_less: "m < c \<Longrightarrow> c \<le> 2 * m \<Longrightarrow> 0 < a \<Longrightarrow> penalized a m c < a"
proof -
  assume *: "m < c" "c \<le> 2 * m" "0 < a"
  then have "a * (c * (2 * m - c)) < a * (m * m)" using penalty_factor_less [of m c] by simp
  moreover have "0 < m * m" using * by simp
  ultimately show "penalized a m c < a" using *(1) by (simp add: penalized_def div_less_iff_less_mult)
qed

lemma penalized_le: "c \<le> 2 * m \<Longrightarrow> penalized a m c \<le> a"
  using penalized_less [of m c a] by (cases "m < c"; cases "a = 0") (simp_all add: penalized_def)

lemma getPenalizedAmount_correct:
  assumes "unat c \<le> 2 * unat m" "unat m < 2 ^ 32" "unat c < 2 ^ 32"
  shows "\<exists>v. getPenalizedAmount a m c = Inr v \<and> unat v = penalized (unat a) (unat m) (unat c)"
proof -
  have m2: "unat (2 * m) = 2 * unat m" using assms(2) by (simp add: unat_word_ariths)
  have guards: "c \<le> 2 * m" "m \<le> 0xffffffff" "c \<le> 0xffffffff"
    using assms m2 by (simp_all add: word_le_nat_alt)
  show ?thesis
  proof (cases "a = 0 \<or> c \<le> m")
    case True
    then show ?thesis
      using guards by (auto simp: getPenalizedAmount_def penalized_def word_le_nat_alt)
  next
    case False
    then have mc: "unat m < unat c" and a: "0 < unat a"
      by (simp_all add: not_le word_less_nat_alt unat_gt_0)
    let ?f = "unat c * (2 * unat m - unat c)"
    have sub: "unat (2 * m - c) = 2 * unat m - unat c" using guards(1) m2 by (simp add: unat_sub)
    have "?f < unat m * unat m" by (rule penalty_factor_less [OF mc assms(1)])
    also have "unat m * unat m \<le> 2 ^ 32 * 2 ^ 32" using assms(2) by (intro mult_le_mono) simp_all
    finally have f64: "?f < 2 ^ 64" by simp
    then have f: "unat (c * (2 * m - c)) = ?f" by (simp add: unat_word_ariths sub)
    obtain lo hi where p: "mul128 a (c * (2 * m - c)) = (lo, hi)" by force
    obtain r1 h1 l1 where d1: "div128_32 hi lo (ucast m) = (r1, h1, l1)" by (metis prod_cases3)
    obtain r2 h2 l2 where d2: "div128_32 h1 l1 (ucast m) = (r2, h2, l2)" by (metis prod_cases3)
    have um: "unat (ucast m :: u32) = unat m" using assms(2) by (simp add: unsigned_ucast_eq take_bit_eq_mod)
    have mz: "(ucast m :: u32) \<noteq> 0" using mc assms(1) um by (auto simp: word_unat_eq_iff)
    have v: "unat l2 + 18446744073709551616 * unat h2 = penalized (unat a) (unat m) (unat c)"
      unfolding div128_32_correct(1) [OF d2 mz] div128_32_correct(1) [OF d1 mz] mul128_correct [OF p] um f
      using mc by (simp add: penalized_def div_mult2_eq)
    have "penalized (unat a) (unat m) (unat c) < unat a" by (rule penalized_less [OF mc assms(1) a])
    with v have h2: "unat h2 = 0" using unat_u64_less [of a] by linarith
    have "getPenalizedAmount a m c = Inr l2"
      using guards False v h2 \<open>penalized _ _ _ < _\<close>
      by (simp add: getPenalizedAmount_def p d1 d2 word_less_nat_alt word_unat_eq_iff)
    with v h2 show ?thesis by simp
  qed
qed

lemma unat_min: "unat (min a b) = min (unat a) (unat (b :: u64))"
  by (simp add: min_def word_le_nat_alt)

section \<open>The base reward\<close>

lemma unat_interval: "unat (ucast height div REWARD_INCREASE_INTERVAL) = unat (height :: u32) div 64800"
  by (simp add: config unat_div)

lemma baseReward_in_range:
  assumes "height \<noteq> 1" "unat height < 583200" "g \<le> cur_moneySupply cur"
  shows "\<exists>r. baseRewardFunction cur g height = Inr r \<and>
    unat r = min (min (300000 + unat (REWARD_INCREASING_FACTOR ! (unat height div 64800))) 500000)
      (unat (cur_moneySupply cur) - unat g)"
proof -
  let ?k = "unat height div 64800"
  have k: "?k < 9" using assms(2) by (simp add: div_less_iff_less_mult)
  then have "?k < length REWARD_INCREASING_FACTOR" by (simp add: REWARD_INCREASING_FACTOR_def)
  moreover have "unat (300000 + REWARD_INCREASING_FACTOR ! ?k) = 300000 + unat (REWARD_INCREASING_FACTOR ! ?k)"
  proof -
    have "list_all (\<lambda>f. f \<le> 200000) REWARD_INCREASING_FACTOR" by (simp add: REWARD_INCREASING_FACTOR_def)
    then have "REWARD_INCREASING_FACTOR ! ?k \<le> 200000"
      using \<open>?k < length _\<close> by (simp add: list_all_length)
    then show ?thesis by (simp add: unat_word_ariths word_le_nat_alt)
  qed
  moreover have "baseRewardFunction cur g height = Inr (min (min (300000 + REWARD_INCREASING_FACTOR ! ?k) 500000)
      (cur_moneySupply cur - g))"
    unfolding baseRewardFunction_def Let_def unat_interval
    using assms(1) \<open>?k < length _\<close> by (simp add: at_res_def BLOCK_REWARD_def STATIC_BLOCK_REWARD_def COIN_def)
  moreover have "unat (cur_moneySupply cur - g) = unat (cur_moneySupply cur) - unat g"
    using assms(3) by (rule unat_sub)
  ultimately show ?thesis by (simp add: unat_min)
qed

section \<open>Properties\<close>

text \<open>C30: for a block of at most twice the median size (both below 4 GiB) the penalised amount is the
  exact quadratic formula, rounded down: no intermediate product is truncated and none of the five
  assertions fails. It never exceeds the amount, and it is strictly smaller for a block over the
  median.\<close>

theorem penalized_amount_exact:
  assumes "unat c \<le> 2 * unat m" and "unat m < 2 ^ 32" and "unat c < 2 ^ 32"
  shows "\<exists>v. getPenalizedAmount a m c = Inr v \<and>
    unat v = (if c \<le> m then unat a else unat a * (unat c * (2 * unat m - unat c)) div (unat m * unat m)) \<and>
    v \<le> a \<and> (m < c \<and> a \<noteq> 0 \<longrightarrow> v < a)"
proof -
  obtain v where v: "getPenalizedAmount a m c = Inr v" "unat v = penalized (unat a) (unat m) (unat c)"
    using getPenalizedAmount_correct [OF assms] by blast
  have "v \<le> a" using v(2) penalized_le [OF assms(1)] by (simp add: word_le_nat_alt)
  moreover have "v < a" if "m < c \<and> a \<noteq> 0"
    using v(2) penalized_less [of "unat m" "unat c" "unat a"] that assms(1)
    by (simp add: word_less_nat_alt word_unat_eq_iff)
  ultimately show ?thesis
    using v by (intro exI [of _ v]) (simp add: penalized_def word_le_nat_alt)
qed

theorem penalized_amount_exact_example:
  "\<exists>v. getPenalizedAmount 1000 100 150 = Inr v \<and> unat v = 750"
  using penalized_amount_exact [of 150 100 1000] by auto



text \<open>From height 583200 on the table of increments is read outside its nine entries: the assertion that
  would say so is commented out.\<close>

lemma reward_table_exhausted:
  "583200 \<le> unat height \<Longrightarrow> baseRewardFunction cur g height = Inl OutOfRange"
proof -
  assume h: "583200 \<le> unat height"
  then have "9 \<le> unat height div 64800" by (simp add: less_eq_div_iff_mult_less_eq)
  moreover have "height \<noteq> 1" using h by auto
  ultimately show ?thesis
    unfolding baseRewardFunction_def Let_def unat_interval
    by (simp add: at_res_def REWARD_INCREASING_FACTOR_def)
qed

end
