(* ===== verification/Lwma.thy ===== *)
theory Lwma
  imports Reward
begin

text \<open>
  The difficulty adjustment, \<^verbatim>\<open>Currency::LWMA3Difficulty\<close> of \<^verbatim>\<open>src/CryptoNoteCore/Currency.cpp\<close>: a
  linearly weighted moving average of at most 60 solve times, clamped around the previous difficulty.
  The body without its assertions is a definition of its own, since builds with \<^verbatim>\<open>NDEBUG\<close> run it on
  longer vectors. The theorems show that the divisor is never zero, that the 64-bit computation is the
  exact formula when the difficulties are small enough not to wrap, and the clamp.
\<close>

section \<open>Definitions\<close>

text \<open>One round of the loop on the previous timestamp, the weighted sum \<open>L\<close> and \<open>sum_3_ST\<close>.\<close>

definition lwma_step :: "nat \<Rightarrow> u64 list \<Rightarrow> nat \<Rightarrow> u64 \<times> u64 \<times> u64 \<Rightarrow> u64 \<times> u64 \<times> u64" where
  "lwma_step N timestamps i s =
     (case s of (previous_timestamp, L, sum_3_ST) \<Rightarrow>
      let this_timestamp = (if timestamps ! i > previous_timestamp then timestamps ! i
                            else previous_timestamp + 1);
          ST = min (6 * 120) (this_timestamp - previous_timestamp)
      in (this_timestamp, L + ST * of_nat i, if i > N - 3 then sum_3_ST + ST else sum_3_ST))"

definition lwma_sums :: "nat \<Rightarrow> u64 list \<Rightarrow> u64 \<times> u64 \<times> u64" where
  "lwma_sums N timestamps = fold (lwma_step N timestamps) [1..<Suc N] (timestamps ! 0, 0, 0)"

definition LWMA3_body :: "u64 list \<Rightarrow> u64 list \<Rightarrow> u64" where
  "LWMA3_body timestamps cumulative_difficulties =
     (if length timestamps \<le> 1 then 1
      else if length timestamps \<le> 10 then 100
      else
        let N = (if length timestamps < 60 + 1 then length timestamps - 1 else 60) in
        case lwma_sums N timestamps of (_, L, sum_3_ST) \<Rightarrow>
        let next_D = ((cumulative_difficulties ! N - cumulative_difficulties ! 0) * 120 * (of_nat N + 1) * 99)
                       div (100 * 2 * L);
            prev_D = cumulative_difficulties ! N - cumulative_difficulties ! (N - 1);
            next_D = max ((prev_D * 67) div 100) (min next_D ((prev_D * 150) div 100))
        in if sum_3_ST < (8 * 120) div 10 then max next_D ((prev_D * 108) div 100) else next_D)"

definition LWMA3Difficulty :: "currency \<Rightarrow> u64 list \<Rightarrow> u64 list \<Rightarrow> u64 result" where
  "LWMA3Difficulty cur timestamps cumulative_difficulties =
     assert_res (length timestamps \<le> cur_difficultyWindow cur) (
       if length timestamps \<le> 1 then Inr 1
       else assert_res (length timestamps = length cumulative_difficulties \<and> length timestamps \<le> 60 + 1)
         (Inr (LWMA3_body timestamps cumulative_difficulties)))"

section \<open>Solve times\<close>

text \<open>The solve time of one round, between one second and six target times.\<close>

definition solve_time :: "u64 \<Rightarrow> u64 \<Rightarrow> nat" where
  "solve_time prev t = (if prev < t then min 720 (unat t - unat prev) else 1)"

lemma solve_time_bounds: "1 \<le> solve_time prev t \<and> solve_time prev t \<le> 720"
  by (auto simp: solve_time_def word_less_nat_alt)

lemma solve_time_word:
  "unat (min 720 ((if t > prev then t else prev + 1) - prev)) = solve_time prev t"
proof (cases "prev < t")
  case True
  then have "unat (t - prev) = unat t - unat prev" by (intro unat_sub) simp
  with True show ?thesis by (simp add: solve_time_def unat_min)
next
  case False
  have "prev + 1 - prev = (1 :: u64)" by simp
  with False show ?thesis by (simp add: solve_time_def unat_min)
qed

text \<open>The same sums on natural numbers.\<close>

fun lwma_sums_nat :: "nat \<Rightarrow> u64 list \<Rightarrow> nat list \<Rightarrow> u64 \<Rightarrow> nat \<times> nat" where
  "lwma_sums_nat N ts [] prev = (0, 0)"
| "lwma_sums_nat N ts (i # is) prev =
     (let ST = solve_time prev (ts ! i);
          prev' = (if ts ! i > prev then ts ! i else prev + 1)
      in case lwma_sums_nat N ts is prev' of (L, s3) \<Rightarrow>
           (ST * i + L, (if i > N - 3 then ST else 0) + s3))"

lemma lwma_sums_nat_bounds:
  assumes "lwma_sums_nat N ts is prev = (L, s3)"
  shows "sum_list is \<le> L" "L \<le> 720 * sum_list is" "s3 \<le> 720 * length is"
proof -
  have "\<forall>L s3. lwma_sums_nat N ts is prev = (L, s3) \<longrightarrow>
    sum_list is \<le> L \<and> L \<le> 720 * sum_list is \<and> s3 \<le> 720 * length is"
  proof (induction "is" arbitrary: prev)
    case (Cons i "is")
    let ?st = "solve_time prev (ts ! i)" and ?prev = "if prev < ts ! i then ts ! i else prev + 1"
    have st: "1 * i \<le> ?st * i" "?st * i \<le> 720 * i" "?st \<le> 720"
      using solve_time_bounds [of prev "ts ! i"] by (auto intro: mult_le_mono1)
    obtain L' s3' where r: "lwma_sums_nat N ts is ?prev = (L', s3')" by force
    then have *: "sum_list is \<le> L'" "L' \<le> 720 * sum_list is" "s3' \<le> 720 * length is" using Cons by blast+
    have "i + sum_list is \<le> ?st * i + L'" "?st * i + L' \<le> 720 * i + 720 * sum_list is"
      using st(1,2) *(1,2) by linarith+
    with st(3) *(3) show ?case by (simp add: r Let_def)
  qed simp
  with assms show "sum_list is \<le> L" "L \<le> 720 * sum_list is" "s3 \<le> 720 * length is" by blast+
qed

lemma lwma_fold_nat:
  assumes "lwma_sums_nat N ts is prev = (L, s3)" "unat l + L < 2 ^ 64" "unat s + s3 < 2 ^ 64"
    and "\<forall>i \<in> set is. i < 2 ^ 32"
  shows "\<exists>p l' s'. fold (lwma_step N ts) is (prev, l, s) = (p, l', s') \<and>
    unat l' = unat l + L \<and> unat s' = unat s + s3"
  using assms
proof (induction "is" arbitrary: prev l s L s3)
  case (Cons i "is")
  let ?prev = "if ts ! i > prev then ts ! i else prev + 1"
  let ?st = "solve_time prev (ts ! i)" and ?w = "min 720 (?prev - prev)"
  obtain L' s3' where r: "lwma_sums_nat N ts is ?prev = (L', s3')" by force
  have L: "L = ?st * i + L'" "s3 = (if i > N - 3 then ?st else 0) + s3'"
    using Cons.prems(1) r by (auto simp: Let_def)
  have w: "unat ?w = ?st" by (rule solve_time_word)
  have i: "unat (of_nat i :: u64) = i" using Cons.prems(4) by (intro unat_of_nat_u64) simp
  have "unat (l + ?w * of_nat i) = unat l + ?st * i"
    using Cons.prems(2) L(1) by (simp add: unat_word_ariths w i)
  moreover have "unat (if i > N - 3 then s + ?w else s) = unat s + (if i > N - 3 then ?st else 0)"
    using Cons.prems(3) L(2) by (cases "i > N - 3") (simp_all add: unat_word_ariths w)
  moreover have "fold (lwma_step N ts) (i # is) (prev, l, s) =
      fold (lwma_step N ts) is (?prev, l + ?w * of_nat i, if i > N - 3 then s + ?w else s)"
    by (simp add: lwma_step_def Let_def)
  ultimately show ?case
    using Cons.IH [OF r, of "l + ?w * of_nat i" "if i > N - 3 then s + ?w else s"] Cons.prems(2-4) L
    by (simp add: add.assoc)
qed simp

section \<open>The formula\<close>

text \<open>The window the code uses, and the formula on natural numbers.\<close>

definition lwma_window :: "u64 list \<Rightarrow> nat" where
  "lwma_window ts = (if length ts < 61 then length ts - 1 else 60)"

definition lwma_spec :: "u64 list \<Rightarrow> u64 list \<Rightarrow> nat" where
  "lwma_spec ts cds =
     (let N = lwma_window ts;
          (L, s3) = lwma_sums_nat N ts [1..<Suc N] (ts ! 0);
          total = unat (cds ! N) - unat (cds ! 0);
          prev = unat (cds ! N) - unat (cds ! (N - 1));
          avg = total * 120 * (N + 1) * 99 div (200 * L);
          clamped = max (prev * 67 div 100) (min avg (prev * 150 div 100))
      in if s3 < 96 then max clamped (prev * 108 div 100) else clamped)"

lemma sum_upt_Suc: "sum_list [1..<Suc n] = n * (n + 1) div 2"
  by (induction n) simp_all

lemma lwma_window_bounds: "10 < length ts \<Longrightarrow> 10 \<le> lwma_window ts \<and> lwma_window ts \<le> 60 \<and> lwma_window ts < length ts"
  by (auto simp: lwma_window_def)

lemma lwma_sums_window:
  assumes "10 < length ts" and "lwma_sums_nat (lwma_window ts) ts [1..<Suc (lwma_window ts)] (ts ! 0) = (L, s3)"
  shows "55 \<le> L" "L \<le> 1317600" "s3 \<le> 43200"
    and "\<exists>p l s. lwma_sums (lwma_window ts) ts = (p, l, s) \<and> unat l = L \<and> unat s = s3"
proof -
  let ?N = "lwma_window ts"
  note N = lwma_window_bounds [OF assms(1)]
  note b = lwma_sums_nat_bounds [OF assms(2)]
  have "10 * (10 + 1) \<le> ?N * (?N + 1)" "?N * (?N + 1) \<le> 60 * (60 + 1)" using N by (intro mult_le_mono; simp)+
  then have "10 * (10 + 1) div 2 \<le> ?N * (?N + 1) div 2" "?N * (?N + 1) div 2 \<le> 60 * (60 + 1) div 2"
    by (intro div_le_mono; simp)+
  then show L: "55 \<le> L" "L \<le> 1317600" using b(1,2) unfolding sum_upt_Suc by simp_all
  have "length [1..<Suc ?N] \<le> 60" using N by simp
  then show s: "s3 \<le> 43200" using b(3) by linarith
  show "\<exists>p l s. lwma_sums ?N ts = (p, l, s) \<and> unat l = L \<and> unat s = s3"
    using lwma_fold_nat [OF assms(2), of 0 0] L(2) s N by (auto simp: lwma_sums_def)
qed

lemma unat_max: "unat (max a b) = max (unat a) (unat (b :: u64))"
  by (simp add: max_def word_le_nat_alt)

lemma LWMA3_body_spec:
  assumes "10 < length ts" and "lwma_window ts < length cds"
    and "cds ! 0 \<le> cds ! lwma_window ts" and "cds ! (lwma_window ts - 1) \<le> cds ! lwma_window ts"
    and "(unat (cds ! lwma_window ts) - unat (cds ! 0)) * 120 * (lwma_window ts + 1) * 99 < 2 ^ 64"
    and "(unat (cds ! lwma_window ts) - unat (cds ! (lwma_window ts - 1))) * 150 < 2 ^ 64"
  shows "unat (LWMA3_body ts cds) = lwma_spec ts cds"
proof -
  let ?N = "lwma_window ts"
  obtain L s3 where n: "lwma_sums_nat ?N ts [1..<Suc ?N] (ts ! 0) = (L, s3)" by force
  note w = lwma_sums_window [OF assms(1) n]
  obtain p l s where l: "lwma_sums ?N ts = (p, l, s)" "unat l = L" "unat s = s3" using w(4) by blast
  define D where "D = cds ! ?N - cds ! 0"
  define P where "P = cds ! ?N - cds ! (?N - 1)"
  have D: "unat D = unat (cds ! ?N) - unat (cds ! 0)"
    unfolding D_def using assms(3) by (rule unat_sub)
  have P: "unat P = unat (cds ! ?N) - unat (cds ! (?N - 1))"
    unfolding P_def using assms(4) by (rule unat_sub)
  define M where "M = (of_nat ?N + 1 :: u64)"
  have M: "unat M = ?N + 1"
    using lwma_window_bounds [OF assms(1)] unat_of_nat_u64 [of "Suc ?N"] by (simp add: M_def add.commute)
  have fit: "unat D * 120 * unat M * 99 < 2 ^ 64" using assms(5) by (simp only: D M)
  have "unat D * 120 \<le> unat D * 120 * unat M" using M by simp
  then have t: "unat D * 120 < 2 ^ 64" "unat D * 120 * unat M < 2 ^ 64" using fit by linarith+
  have num: "unat (D * 120 * M * 99) = unat D * 120 * unat M * 99"
    using t fit by (simp add: unat_mult_fits)
  have den: "unat (200 * l) = 200 * L" using w(2) l(2) by (simp add: unat_word_ariths)
  have p150: "unat P * 150 < 2 ^ 64" using assms(6) by (simp only: P)
  then have sc: "unat (P * 67) = unat P * 67" "unat (P * 150) = unat P * 150" "unat (P * 108) = unat P * 108"
    by (simp_all add: unat_mult_fits)
  have win: "(if length ts < 60 + 1 then length ts - 1 else 60) = ?N" by (simp add: lwma_window_def)
  have body: "LWMA3_body ts cds =
      (let next_D = max ((P * 67) div 100) (min ((D * 120 * M * 99) div (200 * l)) ((P * 150) div 100))
       in if s < 96 then max next_D ((P * 108) div 100) else next_D)"
    using assms(1) unfolding LWMA3_body_def win Let_def l(1) D_def P_def M_def by simp
  have small: "s < 96 \<longleftrightarrow> s3 < 96" using l(3) by (simp add: word_less_nat_alt)
  have "unat (LWMA3_body ts cds) =
      (let c = max (unat P * 67 div 100) (min (unat D * 120 * unat M * 99 div (200 * L)) (unat P * 150 div 100))
       in if s3 < 96 then max c (unat P * 108 div 100) else c)"
    unfolding body Let_def small by (simp only: if_distrib [of unat] unat_max unat_min unat_div num den sc) simp
  then show ?thesis
    unfolding lwma_spec_def Let_def n prod.case D P M .
qed

section \<open>Properties\<close>

lemma lwma_clamp:
  "(unat (cds ! lwma_window ts) - unat (cds ! (lwma_window ts - 1))) * 67 div 100 \<le> lwma_spec ts cds"
  "lwma_spec ts cds \<le> (unat (cds ! lwma_window ts) - unat (cds ! (lwma_window ts - 1))) * 150 div 100"
proof -
  let ?p = "unat (cds ! lwma_window ts) - unat (cds ! (lwma_window ts - 1))"
  define a b c where "a = ?p * 67 div 100" and "b = ?p * 150 div 100" and "c = ?p * 108 div 100"
  have "a \<le> c" "c \<le> b" unfolding a_def b_def c_def by (intro div_le_mono; simp)+
  obtain L s3 where n: "lwma_sums_nat (lwma_window ts) ts [1..<Suc (lwma_window ts)] (ts ! 0) = (L, s3)" by force
  obtain q where "lwma_spec ts cds = (if s3 < 96 then max (max a (min q b)) c else max a (min q b))"
    unfolding lwma_spec_def Let_def n prod.case a_def b_def c_def by blast
  with \<open>a \<le> c\<close> \<open>c \<le> b\<close> have "a \<le> lwma_spec ts cds" "lwma_spec ts cds \<le> b" by auto
  then show "?p * 67 div 100 \<le> lwma_spec ts cds" "lwma_spec ts cds \<le> ?p * 150 div 100"
    unfolding a_def b_def by blast+
qed

text \<open>C31: on 11 to 61 blocks whose cumulative difficulties grow and are small enough for the 64-bit
  products, the next difficulty is the exact weighted-average formula over the clamped solve times, and
  lies between 67 and 150 per cent of the last difficulty. The assertions do not fail.\<close>

theorem lwma_exact:
  assumes "10 < length ts" and "length ts \<le> 61" and "length cds = length ts"
    and "length ts \<le> cur_difficultyWindow cur"
    and "cds ! 0 \<le> cds ! (length ts - 1)" and "cds ! (length ts - 2) \<le> cds ! (length ts - 1)"
    and "(unat (cds ! (length ts - 1)) - unat (cds ! 0)) * 120 * length ts * 99 < 2 ^ 64"
    and "(unat (cds ! (length ts - 1)) - unat (cds ! (length ts - 2))) * 150 < 2 ^ 64"
  shows "\<exists>d. LWMA3Difficulty cur ts cds = Inr d \<and> unat d = lwma_spec ts cds \<and>
    (unat (cds ! (length ts - 1)) - unat (cds ! (length ts - 2))) * 67 div 100 \<le> unat d \<and>
    unat d \<le> (unat (cds ! (length ts - 1)) - unat (cds ! (length ts - 2))) * 150 div 100"
proof -
  have w: "lwma_window ts = length ts - 1" using assms(1,2) by (auto simp: lwma_window_def)
  have w1: "length ts - 1 - 1 = length ts - 2" "length ts - 1 + 1 = length ts" using assms(1) by simp_all
  have "unat (LWMA3_body ts cds) = lwma_spec ts cds"
    using LWMA3_body_spec [of ts cds, unfolded w w1, OF assms(1) _ assms(5-8)] assms(1,3) by simp
  moreover have "LWMA3Difficulty cur ts cds = Inr (LWMA3_body ts cds)"
    using assms(1-4) by (simp add: LWMA3Difficulty_def)
  ultimately show ?thesis
    using lwma_clamp [where ts = ts and cds = cds, unfolded w w1] by (simp only: sum.inject ex_simps) simp
qed

theorem lwma_exact_witness:
  "\<exists>d. LWMA3Difficulty default_currency (map (\<lambda>i. 1000 + 120 * of_nat i) [0..<11]) (map (\<lambda>i. 500 * of_nat i) [0..<11]) = Inr d \<and>
    335 \<le> unat d \<and> unat d \<le> 750"
  using lwma_exact [of "map (\<lambda>i. 1000 + 120 * of_nat i) [0..<11]" "map (\<lambda>i. 500 * of_nat i) [0..<11]" default_currency]
  by (simp add: default_currency_def config upt_rec) blast

text \<open>C20: the weighted sum the code divides by is never zero, whatever the timestamps are, out of
  order or about to wrap: every round adds at least its weight.\<close>

theorem lwma_divisor_positive:
  assumes "10 < length ts" and "lwma_sums (lwma_window ts) ts = (p, L, sum_3_ST)"
  shows "100 * 2 * L \<noteq> 0 \<and> 55 \<le> unat L \<and> unat L \<le> 1317600"
proof -
  obtain l s3 where n: "lwma_sums_nat (lwma_window ts) ts [1..<Suc (lwma_window ts)] (ts ! 0) = (l, s3)" by force
  note w = lwma_sums_window [OF assms(1) n]
  then have u: "unat L = l" using assms(2) by auto
  then have "unat (200 * L) = 200 * l" using w(2) by (simp add: unat_word_ariths)
  then have "200 * L \<noteq> 0" using w(1) by auto
  then show ?thesis using u w(1,2) by simp
qed

theorem lwma_divisor_positive_example:
  "case lwma_sums (lwma_window (replicate 11 0xffffffffffffffff)) (replicate 11 0xffffffffffffffff) of
     (_, L, _) \<Rightarrow> 100 * 2 * L \<noteq> 0"
  using lwma_divisor_positive [of "replicate 11 0xffffffffffffffff"] by (auto split: prod.splits)

text \<open>Steady state: blocks every 120 seconds at constant difficulty.\<close>

lemma lwma_sums_steady:
  assumes "\<forall>i \<le> N. unat (ts ! i) = t0 + 120 * i" "0 < k" "k \<le> Suc N"
  shows "\<exists>s3. lwma_sums_nat N ts [k..<Suc N] (ts ! (k - 1)) = (120 * sum_list [k..<Suc N], s3) \<and>
    s3 = 120 * length (filter (\<lambda>i. N - 3 < i) [k..<Suc N])"
  using assms(3,2)
proof (induction "Suc N - k" arbitrary: k)
  case (Suc n)
  have k: "k \<le> N" "n = Suc N - Suc k" using Suc.hyps(2) by simp_all
  then have up: "[k..<Suc N] = k # [Suc k..<Suc N]" by (simp add: upt_conv_Cons del: upt_Suc)
  have t: "unat (ts ! k) = t0 + 120 * k" "unat (ts ! (k - 1)) = t0 + 120 * (k - 1)" using assms(1) k(1) by simp_all
  then have less: "ts ! (k - 1) < ts ! k" using Suc.prems(2) by (simp add: word_less_nat_alt)
  have "solve_time (ts ! (k - 1)) (ts ! k) = 120"
    using less t Suc.prems(2) by (cases k) (simp_all add: solve_time_def)
  then show ?case
    using Suc.hyps(1) [of "Suc k"] k less by (auto simp: up simp del: upt_Suc)
qed simp

lemma steady_quotient:
  fixes d n :: nat
  assumes "0 < n"
  shows "(d * n) * 120 * (n + 1) * 99 div (200 * (120 * (n * (n + 1) div 2))) = d * 99 div 100"
proof -
  define h where "h = n * (n + 1) div 2"
  have e: "n * (n + 1) = 2 * h" unfolding h_def by (metis dvd_mult_div_cancel even_mult_iff even_plus_one_iff)
  then have "0 < h" using assms by (cases h) simp_all
  have "(d * n) * 120 * (n + 1) * 99 = (d * 99) * 120 * (n * (n + 1))" by (simp only: ac_simps)
  also have "\<dots> = (d * 99) * (240 * h)" unfolding e by simp
  finally have num: "(d * n) * 120 * (n + 1) * 99 = (d * 99) * (240 * h)" .
  have den: "200 * (120 * h) = 100 * (240 * h)" by simp
  show ?thesis unfolding h_def [symmetric] num den using \<open>0 < h\<close> by (intro div_mult_mult2) simp
qed

text \<open>On a steady chain (a block every 120 seconds, each of difficulty \<open>d\<close>) the next difficulty is
  99 per cent of \<open>d\<close>, rounded down.\<close>

theorem lwma_steady_state:
  assumes "10 < length ts" and "length ts \<le> 61" and "length cds = length ts"
    and "length ts \<le> cur_difficultyWindow cur"
    and "\<forall>i < length ts. unat (ts ! i) = t0 + 120 * i" and "\<forall>i < length ts. unat (cds ! i) = c0 + d * i"
    and "d < 400000000000"
  shows "\<exists>r. LWMA3Difficulty cur ts cds = Inr r \<and> unat r = d * 99 div 100"
proof -
  obtain M where len: "length ts = Suc (Suc M)" using assms(1) by (metis less_nat_zero_code not0_implies_Suc not_less_eq numeral_eq_Suc)
  let ?N = "Suc M"
  have w: "lwma_window ts = ?N" using assms(1,2) len by (auto simp: lwma_window_def)
  have N: "10 \<le> ?N" "?N \<le> 60" using assms(1,2) len by simp_all
  have c: "unat (cds ! ?N) = c0 + d * ?N" "unat (cds ! (?N - 1)) = c0 + d * M" "unat (cds ! 0) = c0"
    using assms(6) len by simp_all
  have prev: "unat (cds ! ?N) - unat (cds ! (?N - 1)) = d" unfolding c by simp
  have total: "unat (cds ! ?N) - unat (cds ! 0) = d * ?N" unfolding c by simp
  have d: "d \<le> 400000000000" "120 \<le> (120 :: nat)" "99 \<le> (99 :: nat)" "?N + 1 \<le> 60 + 1"
    using assms(7) N(2) by simp_all
  have "d * ?N * 120 * (?N + 1) * 99 \<le> 400000000000 * 60 * 120 * (60 + 1) * 99"
    by (intro mult_le_mono d N(2))
  also have "\<dots> < 2 ^ 64" by simp
  finally have fit: "d * ?N * 120 * (?N + 1) * 99 < 2 ^ 64" .
  have "\<forall>i \<le> ?N. unat (ts ! i) = t0 + 120 * i" using assms(5) len by auto
  from lwma_sums_steady [OF this, of 1] obtain s3 where
    s: "lwma_sums_nat ?N ts [1..<Suc ?N] (ts ! 0) = (120 * sum_list [1..<Suc ?N], s3)"
       "s3 = 120 * length (filter (\<lambda>i. ?N - 3 < i) [1..<Suc ?N])" by auto
  have "?N \<in> set (filter (\<lambda>i. ?N - 3 < i) [1..<Suc ?N])" using N(1) by simp
  then have "length (filter (\<lambda>i. ?N - 3 < i) [1..<Suc ?N]) > 0" by (rule length_pos_if_in_set)
  then have s96: "\<not> s3 < 96" unfolding s(2) by simp
  have "d * 67 div 100 \<le> d * 99 div 100" "d * 99 div 100 \<le> d * 150 div 100"
    by (intro div_le_mono; simp)+
  then have spec: "lwma_spec ts cds = d * 99 div 100"
    unfolding lwma_spec_def w Let_def s(1) prod.case prev total sum_upt_Suc steady_quotient [of ?N d, OF zero_less_Suc]
    using s96 by simp
  have "unat (LWMA3_body ts cds) = lwma_spec ts cds"
  proof (rule LWMA3_body_spec [of ts cds, unfolded w prev total])
    show "10 < length ts" by (rule assms(1))
    show "?N < length cds" using assms(3) len by simp
    show "cds ! 0 \<le> cds ! ?N" "cds ! (?N - 1) \<le> cds ! ?N"
      unfolding word_le_nat_alt c by simp_all
    show "d * ?N * 120 * (?N + 1) * 99 < 2 ^ 64" by (rule fit)
    show "d * 150 < 2 ^ 64" using assms(7) by simp
  qed
  moreover have "LWMA3Difficulty cur ts cds = Inr (LWMA3_body ts cds)"
    using assms(1-4) by (simp add: LWMA3Difficulty_def)
  ultimately show ?thesis using spec by simp
qed

theorem lwma_steady_state_example:
  "\<exists>r. LWMA3Difficulty default_currency (map (\<lambda>i. of_nat (1000 + 120 * i)) [0..<11]) (map (\<lambda>i. of_nat (7 + 500 * i)) [0..<11]) = Inr r \<and>
    unat r = 495"
proof -
  let ?ts = "map (\<lambda>i. of_nat (1000 + 120 * i) :: u64) [0..<11]"
  let ?cds = "map (\<lambda>i. of_nat (7 + 500 * i) :: u64) [0..<11]"
  have "\<forall>i < length ?ts. unat (?ts ! i) = 1000 + 120 * i" "\<forall>i < length ?ts. unat (?cds ! i) = 7 + 500 * i"
    by (simp_all add: unat_of_nat del: of_nat_add of_nat_mult)
  moreover have "length ?ts \<le> cur_difficultyWindow default_currency" "10 < length ?ts" "length ?ts \<le> 61"
    "length ?cds = length ?ts"
    by (simp_all add: default_currency_def DIFFICULTY_WINDOW_def)
  ultimately have "\<exists>r. LWMA3Difficulty default_currency ?ts ?cds = Inr r \<and> unat r = 500 * 99 div 100"
    by (intro lwma_steady_state [of ?ts ?cds default_currency 1000 7 500]) (assumption | simp)+
  then show ?thesis by (simp del: of_nat_add of_nat_mult)
qed

text \<open>Without its assertions the body looks at the first 61 entries only: of the 121 blocks
  \<open>getDifficultyForNextBlock\<close> collects, oldest first, the 60 most recent do not count.\<close>

lemma fold_cong_list: "(\<And>x s. x \<in> set xs \<Longrightarrow> f x s = g x s) \<Longrightarrow> fold f xs s = fold g xs s"
  by (induction xs arbitrary: s) simp_all

lemma lwma_ignores_recent_blocks:
  assumes "61 \<le> length ts" and "61 \<le> length cds"
  shows "LWMA3_body ts cds = LWMA3_body (take 61 ts) (take 61 cds)"
proof -
  have "lwma_step 60 ts i st = lwma_step 60 (take 61 ts) i st" if "i \<in> set [1..<Suc 60]" for i st
  proof -
    have "take 61 ts ! i = ts ! i" using that assms(1) by (intro nth_take) simp
    then show ?thesis unfolding lwma_step_def by (simp only:)
  qed
  then have sums: "lwma_sums 60 ts = lwma_sums 60 (take 61 ts)"
    unfolding lwma_sums_def using assms(1) by (simp only: nth_take [of 0 61 ts]) (intro fold_cong_list, simp)
  have "take 61 cds ! 60 = cds ! 60" "take 61 cds ! (60 - 1) = cds ! (60 - 1)" "take 61 cds ! 0 = cds ! 0"
    by (intro nth_take; simp)+
  moreover have "\<not> length ts \<le> 1" "\<not> length ts \<le> 10" "\<not> length ts < 60 + 1"
    "\<not> length (take 61 ts) \<le> 1" "\<not> length (take 61 ts) \<le> 10" "\<not> length (take 61 ts) < 60 + 1" using assms(1) by simp_all
  ultimately show ?thesis unfolding LWMA3_body_def Let_def by (simp only: sums if_False)
qed

end
