(* ===== verification/Float32.thy ===== *)
theory Float32
  imports Complex_Main "HOL-Library.Log_Nat"
begin

text \<open>
  Rounding of the C++ types \<^verbatim>\<open>float\<close> and \<^verbatim>\<open>double\<close> (IEEE 754 binary32 and binary64, round to
  nearest, ties to even) on exact rationals. The values the program computes are in the normal range, so
  the exponent is unbounded here. The library fact is the relative error of one rounding.
\<close>

section \<open>Definitions\<close>

definition round_even :: "rat \<Rightarrow> int" where
  "round_even z =
     (let f = \<lfloor>z\<rfloor>; r = z - of_int f in
      if r < 1 / 2 then f else if r > 1 / 2 then f + 1 else if even f then f else f + 1)"

text \<open>The exponent of the last of \<open>p\<close> significant bits of a positive rational.\<close>

definition ulp_exp :: "nat \<Rightarrow> rat \<Rightarrow> int" where
  "ulp_exp p y =
     (case quotient_of y of (a, b) \<Rightarrow>
      let e = bitlen a - bitlen b - int p in
      if y \<ge> 2 ^ p * 2 powi e then e + 1 else e)"

definition rnd :: "nat \<Rightarrow> rat \<Rightarrow> rat" where
  "rnd p x =
     (if x = 0 then 0
      else let y = \<bar>x\<bar>; u = 2 powi ulp_exp p y in sgn x * (of_int (round_even (y / u)) * u))"

definition f32 :: "rat \<Rightarrow> rat" where
  "f32 x = rnd 24 x"

definition f64 :: "rat \<Rightarrow> rat" where
  "f64 x = rnd 53 x"

section \<open>Rounding error\<close>

lemma round_even_error: "\<bar>of_int (round_even z) - z\<bar> \<le> 1 / 2"
proof -
  have "0 \<le> z - of_int \<lfloor>z\<rfloor>" "z - of_int \<lfloor>z\<rfloor> < 1" by (simp_all add: floor_less_cancel)
  then show ?thesis by (auto simp: round_even_def Let_def abs_le_iff)
qed

lemma round_even_nonneg: "0 \<le> z \<Longrightarrow> 0 \<le> round_even z"
  by (simp add: round_even_def Let_def)

lemma bitlen_rat_bounds:
  assumes "0 < (a :: int)"
  shows "2 powi (bitlen a - 1) \<le> (of_int a :: rat)" "(of_int a :: rat) < 2 powi bitlen a"
proof -
  have b: "2 ^ nat (bitlen a - 1) \<le> a" "a < 2 ^ nat (bitlen a)" using bitlen_bounds [OF assms] by simp_all
  have n: "0 < bitlen a" using assms by (simp add: bitlen_eq_zero_iff less_le bitlen_nonneg)
  have "2 powi (bitlen a - 1) = (of_int (2 ^ nat (bitlen a - 1)) :: rat)"
    using n by (simp add: power_int_def)
  also have "\<dots> \<le> of_int a" using b(1) by (simp only: of_int_le_iff)
  finally show "2 powi (bitlen a - 1) \<le> (of_int a :: rat)" .
  have "(of_int a :: rat) < of_int (2 ^ nat (bitlen a))" using b(2) by (simp only: of_int_less_iff)
  also have "\<dots> = 2 powi bitlen a" using n by (simp add: power_int_def)
  finally show "(of_int a :: rat) < 2 powi bitlen a" .
qed

lemma ulp_exp_bounds:
  assumes "0 < y"
  shows "2 ^ p * 2 powi ulp_exp p y \<le> 2 * y" "y < 2 ^ p * 2 powi ulp_exp p y"
proof -
  obtain a b where q: "quotient_of y = (a, b)" by force
  have b: "0 < b" using q by (rule quotient_of_denom_pos)
  have y: "y = of_int a / of_int b" using q by (rule quotient_of_div)
  have a: "0 < a" using assms b unfolding y by (simp add: zero_less_divide_iff)
  let ?e = "bitlen a - bitlen b - int p"
  have pe: "2 ^ p * 2 powi ?e = (2 powi (bitlen a - bitlen b) :: rat)"
    by (simp add: power_int_diff)
  have split: "2 powi (bitlen a - 1) = (2 powi (bitlen a - bitlen b) / 2) * (2 powi bitlen b :: rat)"
    "2 powi bitlen a = (2 * 2 powi (bitlen a - bitlen b)) * (2 powi (bitlen b - 1) :: rat)"
    by (simp_all add: power_int_diff)
  have "(2 powi (bitlen a - bitlen b) / 2) * of_int b \<le> (2 powi (bitlen a - bitlen b) / 2) * (2 powi bitlen b :: rat)"
    using bitlen_rat_bounds(2) [OF b] by (intro mult_left_mono) simp_all
  also have "\<dots> \<le> of_int a" using bitlen_rat_bounds(1) [OF a] unfolding split .
  finally have lo: "2 powi (bitlen a - bitlen b) \<le> 2 * y"
    using b unfolding y by (simp add: field_simps)
  have "of_int a < (2 * 2 powi (bitlen a - bitlen b)) * (2 powi (bitlen b - 1) :: rat)"
    using bitlen_rat_bounds(2) [OF a] unfolding split .
  also have "\<dots> \<le> (2 * 2 powi (bitlen a - bitlen b)) * of_int b"
    using bitlen_rat_bounds(1) [OF b] by (intro mult_left_mono) simp_all
  finally have hi: "y < 2 * 2 powi (bitlen a - bitlen b)"
    using b unfolding y by (simp add: field_simps)
  have up: "2 powi (?e + 1) = 2 * (2 powi ?e :: rat)" by (simp add: power_int_add)
  show "2 ^ p * 2 powi ulp_exp p y \<le> 2 * y" "y < 2 ^ p * 2 powi ulp_exp p y"
    using lo hi pe up by (auto simp: ulp_exp_def q Let_def)
qed

lemma rnd_error: "\<bar>rnd p x - x\<bar> \<le> \<bar>x\<bar> / 2 ^ p"
proof (cases "x = 0")
  case False
  let ?y = "\<bar>x\<bar>" and ?u = "2 powi ulp_exp p \<bar>x\<bar> :: rat"
  have y: "0 < ?y" and u: "0 < ?u" using False by simp_all
  have "sgn x * (of_int (round_even (?y / ?u)) * ?u) - x = sgn x * ((of_int (round_even (?y / ?u)) - ?y / ?u) * ?u)"
    using u by (simp add: algebra_simps) (metis abs_sgn mult.commute sgn_mult_abs)
  then have "\<bar>rnd p x - x\<bar> = \<bar>of_int (round_even (?y / ?u)) - ?y / ?u\<bar> * ?u"
    using False u by (simp add: rnd_def Let_def abs_mult abs_sgn_eq)
  also have "\<dots> \<le> 1 / 2 * ?u" using round_even_error u by (intro mult_right_mono) simp_all
  also have "\<dots> \<le> ?y / 2 ^ p" using ulp_exp_bounds(1) [OF y, of p] by (simp add: field_simps)
  finally show ?thesis .
qed (simp add: rnd_def)

lemma rnd_zero [simp]: "rnd p 0 = 0"
  by (simp add: rnd_def)

lemma rnd_nonneg: "0 \<le> x \<Longrightarrow> 0 \<le> rnd p x"
  by (simp add: rnd_def Let_def round_even_nonneg)

lemma rnd_upper: "0 \<le> x \<Longrightarrow> rnd p x \<le> x * (1 + 1 / 2 ^ p)"
  using rnd_error [of p x] by (simp add: algebra_simps abs_le_iff)

lemma rnd_lower: "0 \<le> x \<Longrightarrow> x * (1 - 1 / 2 ^ p) \<le> rnd p x"
  using rnd_error [of p x] by (simp add: algebra_simps abs_le_iff)

lemma rnd_le: "0 \<le> x \<Longrightarrow> x \<le> b \<Longrightarrow> b * (1 + 1 / 2 ^ p) \<le> c \<Longrightarrow> rnd p x \<le> c"
  by (rule order_trans [OF rnd_upper order_trans [OF mult_right_mono]]) simp_all

lemma rnd_ge: "0 \<le> b \<Longrightarrow> b \<le> x \<Longrightarrow> c \<le> b * (1 - 1 / 2 ^ p) \<Longrightarrow> c \<le> rnd p x"
  by (rule order_trans [OF _ order_trans [OF mult_right_mono rnd_lower]]) simp_all

lemma rnd_abs_le: "\<bar>x\<bar> \<le> b \<Longrightarrow> b * (1 + 1 / 2 ^ p) \<le> c \<Longrightarrow> \<bar>rnd p x\<bar> \<le> c"
proof -
  assume "\<bar>x\<bar> \<le> b" "b * (1 + 1 / 2 ^ p) \<le> c"
  moreover have "\<bar>rnd p x\<bar> \<le> \<bar>x\<bar> * (1 + 1 / 2 ^ p)"
  proof -
    have "\<bar>rnd p x\<bar> \<le> \<bar>x\<bar> + \<bar>rnd p x - x\<bar>" by arith
    also have "\<dots> \<le> \<bar>x\<bar> + \<bar>x\<bar> / 2 ^ p" using rnd_error [of p x] by simp
    finally show ?thesis by (simp add: algebra_simps)
  qed
  moreover have "\<bar>x\<bar> * (1 + 1 / 2 ^ p) \<le> b * (1 + 1 / 2 ^ p)"
    using \<open>\<bar>x\<bar> \<le> b\<close> by (rule mult_right_mono) simp
  ultimately show ?thesis by linarith
qed

end
