(* ===== verification/Interest.thy ===== *)
theory Interest
  imports Reward Float32
begin

text \<open>
  Deposit interest and transaction fees, \<^verbatim>\<open>src/CryptoNoteCore/Currency.cpp\<close>. The interest is computed
  in \<^verbatim>\<open>float\<close> with \<^verbatim>\<open>double\<close> intermediates where a \<^verbatim>\<open>double\<close> literal takes part; every
  operation is followed by the rounding of its type, as the C++ conversions prescribe. The theorems bound
  the interest (and so show that the cast back to 64 bits is defined) and give the fee on every branch.
\<close>

section \<open>Definitions\<close>

definition baseInterest :: "u64 \<Rightarrow> rat" where
  "baseInterest amount =
     (let amount4Humans = amount div 100000;
          b = f32 (f64 (49 / 1000));
          b = (if amount4Humans \<ge> 5000 \<and> amount4Humans < 10000 then f32 (f64 (54 / 1000)) else b);
          b = (if amount4Humans \<ge> 10000 \<and> amount4Humans < 15000 then f32 (f64 (59 / 1000)) else b);
          b = (if amount4Humans \<ge> 15000 \<and> amount4Humans < 20000 then f32 (f64 (64 / 1000)) else b)
      in if amount4Humans \<ge> 20000 then f32 (f64 (69 / 1000)) else b)"

definition interestRate :: "rat \<Rightarrow> u32 \<Rightarrow> rat" where
  "interestRate base term =
     (let months = f32 (of_nat (unat (term div 21900)));
          months = (if months > 12 then 12 else months);
          ear = f32 (f64 (base + f64 (f32 (months - 1) * f64 (1 / 1000))))
      in f32 (f32 (ear / 12) * months))"

definition calculateInterest :: "u64 \<Rightarrow> u32 \<Rightarrow> u64" where
  "calculateInterest amount term =
     (let eir = interestRate (baseInterest amount) term;
          interest = f32 (f32 (of_nat (unat amount)) * eir)
      in of_int \<lfloor>interest\<rfloor>)"

definition calculateTotalTransactionInterest :: "'a TransactionPrefix_scheme \<Rightarrow> u64" where
  "calculateTotalTransactionInterest tx =
     fold (\<lambda>i interest. case i of
         InMulti m \<Rightarrow> if mi_term m \<noteq> 0 then interest + calculateInterest (mi_amount m) (mi_term m) else interest
       | _ \<Rightarrow> interest) (tx_inputs tx) 0"

definition getTransactionInputAmount :: "TransactionInput \<Rightarrow> u64" where
  "getTransactionInputAmount i =
     (case i of
        InKey k \<Rightarrow> ki_amount k
      | InMulti m \<Rightarrow> if mi_term m = 0 then mi_amount m
                    else mi_amount m + calculateInterest (mi_amount m) (mi_term m)
      | BaseInput _ \<Rightarrow> 0)"

definition getTransactionAllInputsAmount :: "'a TransactionPrefix_scheme \<Rightarrow> u64" where
  "getTransactionAllInputsAmount tx = fold (\<lambda>i amount. amount + getTransactionInputAmount i) (tx_inputs tx) 0"

text \<open>None is the returned \<^verbatim>\<open>false\<close>.\<close>

definition getTransactionFee_opt :: "'a TransactionPrefix_scheme \<Rightarrow> u64 option" where
  "getTransactionFee_opt tx =
     (let amount_in = fold (\<lambda>i a. a + getTransactionInputAmount i) (tx_inputs tx) 0;
          amount_out = fold (\<lambda>t a. a + out_amount t) (tx_outputs tx) 0
      in if amount_out > amount_in then
           (if length (tx_inputs tx) > 0 \<and> length (tx_outputs tx) > 0 \<and> amount_out > amount_in + MINIMUM_FEE
            then Some MINIMUM_FEE
            else None)
         else Some (amount_in - amount_out))"

definition getTransactionFee :: "'a TransactionPrefix_scheme \<Rightarrow> u64" where
  "getTransactionFee tx = (case getTransactionFee_opt tx of None \<Rightarrow> 0 | Some r \<Rightarrow> r)"

section \<open>Bounds\<close>

lemma baseInterest_bounds: "0 \<le> baseInterest amount" "4 / 100 \<le> baseInterest amount" "baseInterest amount \<le> 6901 / 100000"
proof -
  have "f32 (f64 x) \<le> 6901 / 100000" if "0 \<le> x" "x \<le> 69 / 1000" for x
    unfolding f32_def
  proof (rule rnd_le)
    show "0 \<le> f64 x" unfolding f64_def using that(1) by (rule rnd_nonneg)
    show "f64 x \<le> 69001 / 1000000" unfolding f64_def by (rule rnd_le [OF that]) simp
  qed simp
  moreover have "4 / 100 \<le> f32 (f64 x)" if "49 / 1000 \<le> x" for x
    unfolding f32_def
  proof (rule rnd_ge)
    show "45 / 1000 \<le> f64 x" unfolding f64_def by (rule rnd_ge [OF _ that]) simp_all
  qed simp_all
  ultimately show "4 / 100 \<le> baseInterest amount" "baseInterest amount \<le> 6901 / 100000"
    by (simp_all add: baseInterest_def Let_def)
  then show "0 \<le> baseInterest amount" by simp
qed

lemma months_bounds:
  "0 \<le> (if f32 (of_nat n) > 12 then 12 else f32 (of_nat n)) \<and> (if f32 (of_nat n) > 12 then 12 else f32 (of_nat n)) \<le> 12"
  by (simp add: f32_def rnd_nonneg)

lemma ear_bounds:
  assumes "4 / 100 \<le> b" "b \<le> 6901 / 100000" "0 \<le> m" "m \<le> 12"
  defines "ear \<equiv> f32 (f64 (b + f64 (f32 (m - 1) * f64 (1 / 1000))))"
  shows "0 \<le> ear \<and> ear \<le> 8005 / 100000"
proof -
  have s: "\<bar>f32 (m - 1)\<bar> \<le> 110001 / 10000"
    unfolding f32_def by (rule rnd_abs_le [of _ 11]) (use assms(3,4) in \<open>simp_all add: abs_le_iff\<close>)
  have k: "\<bar>f64 (1 / 1000)\<bar> \<le> 10001 / 10000000"
    unfolding f64_def by (rule rnd_abs_le [of _ "1 / 1000"]) simp_all
  have "\<bar>f32 (m - 1) * f64 (1 / 1000)\<bar> \<le> 110001 / 10000 * (10001 / 10000000)"
    unfolding abs_mult by (rule mult_mono [OF s k]) simp_all
  then have t: "\<bar>f64 (f32 (m - 1) * f64 (1 / 1000))\<bar> \<le> 1101 / 100000"
    unfolding f64_def by (rule rnd_abs_le) simp
  then have "0 \<le> b + f64 (f32 (m - 1) * f64 (1 / 1000))" "b + f64 (f32 (m - 1) * f64 (1 / 1000)) \<le> 8002 / 100000"
    using assms(1,2) by (simp_all add: abs_le_iff)
  then have u: "0 \<le> f64 (b + f64 (f32 (m - 1) * f64 (1 / 1000)))"
    "f64 (b + f64 (f32 (m - 1) * f64 (1 / 1000))) \<le> 8003 / 100000"
    unfolding f64_def [of "b + _"] by (intro rnd_nonneg rnd_le [of _ "8002 / 100000"]; simp)+
  then show ?thesis
    unfolding ear_def f32_def [of "f64 (b + _)"]
    by (intro conjI rnd_nonneg rnd_le [of _ "8003 / 100000"]) simp_all
qed

lemma interestRate_bounds:
  assumes "4 / 100 \<le> b" "b \<le> 6901 / 100000"
  shows "0 \<le> interestRate b term \<and> interestRate b term \<le> 802 / 10000"
proof -
  define m where "m = (if f32 (of_nat (unat (term div 21900))) > 12 then 12 else f32 (of_nat (unat (term div 21900))))"
  have m: "0 \<le> m" "m \<le> 12" using months_bounds unfolding m_def by blast+
  define ear where "ear = f32 (f64 (b + f64 (f32 (m - 1) * f64 (1 / 1000))))"
  have ear: "0 \<le> ear" "ear \<le> 8005 / 100000" using ear_bounds [OF assms m] by (simp_all add: ear_def)
  have q: "0 \<le> f32 (ear / 12)" "f32 (ear / 12) \<le> 6672 / 1000000"
    unfolding f32_def using ear by (intro rnd_nonneg rnd_le [of _ "8005 / 1200000"]; simp)+
  have "f32 (ear / 12) * m \<le> 6672 / 1000000 * 12" by (rule mult_mono [OF q(2) m(2) _ m(1)]) simp
  moreover have "0 \<le> f32 (ear / 12) * m" using q(1) m(1) by simp
  ultimately have "0 \<le> f32 (f32 (ear / 12) * m) \<and> f32 (f32 (ear / 12) * m) \<le> 802 / 10000"
    unfolding f32_def [of "f32 (ear / 12) * m"]
    by (intro conjI rnd_nonneg rnd_le [of _ "6672 / 1000000 * 12"]) simp_all
  moreover have "interestRate b term = f32 (f32 (ear / 12) * m)"
    unfolding interestRate_def Let_def m_def [symmetric] ear_def ..
  ultimately show ?thesis by simp
qed

lemma interest_bounds:
  assumes "0 \<le> r" "r \<le> 802 / 10000"
  shows "0 \<le> f32 (f32 (of_nat A) * r)" "1000 * nat \<lfloor>f32 (f32 (of_nat A) * r)\<rfloor> \<le> 81 * A"
proof -
  let ?a = "of_nat A :: rat"
  let ?i = "f32 (f32 ?a * r)"
  have f: "0 \<le> f32 ?a" "f32 ?a \<le> ?a * (1 + 1 / 2 ^ 24)"
    unfolding f32_def by (rule rnd_nonneg, simp, rule rnd_upper, simp)
  have n: "0 \<le> f32 ?a * r" using f(1) assms(1) by simp
  have "f32 ?a * r \<le> (?a * (1 + 1 / 2 ^ 24)) * (802 / 10000)" by (rule mult_mono [OF f(2) assms(2)]) (use assms(1) in simp_all)
  then have "?i \<le> (?a * (1 + 1 / 2 ^ 24)) * (802 / 10000) * (1 + 1 / 2 ^ 24)"
    unfolding f32_def [of "f32 ?a * r"] by (rule rnd_le [OF n]) (rule order_refl)
  also have "\<dots> = ?a * ((1 + 1 / 2 ^ 24) * (802 / 10000) * (1 + 1 / 2 ^ 24))" by (simp only: mult.assoc)
  also have "\<dots> \<le> ?a * (81 / 1000)" by (intro mult_left_mono) simp_all
  finally have i: "?i \<le> ?a * (81 / 1000)" .
  show i0: "0 \<le> ?i" unfolding f32_def [of "f32 ?a * r"] using n by (rule rnd_nonneg)
  have "of_int \<lfloor>?i\<rfloor> \<le> ?a * (81 / 1000)" using i of_int_floor_le [of ?i] by linarith
  then have "of_int (1000 * \<lfloor>?i\<rfloor>) \<le> (of_int (81 * int A) :: rat)" by simp
  then have "1000 * \<lfloor>?i\<rfloor> \<le> 81 * int A" by (simp only: of_int_le_iff)
  moreover have "0 \<le> \<lfloor>?i\<rfloor>" using i0 by simp
  ultimately show "1000 * nat \<lfloor>?i\<rfloor> \<le> 81 * A" by linarith
qed

lemma calculateInterest_exact:
  "unat (calculateInterest amount term) = nat \<lfloor>f32 (f32 (of_nat (unat amount)) * interestRate (baseInterest amount) term)\<rfloor>"
  "1000 * unat (calculateInterest amount term) \<le> 81 * unat amount"
proof -
  let ?r = "interestRate (baseInterest amount) term"
  obtain A where A: "A = unat amount" "A < 2 ^ 64" using unat_u64_less [of amount] by simp
  have "0 \<le> ?r" "?r \<le> 802 / 10000" using interestRate_bounds baseInterest_bounds(2,3) by blast+
  note b = interest_bounds [OF this, of A]
  have "nat \<lfloor>f32 (f32 (of_nat A) * ?r)\<rfloor> < 2 ^ 64" using b(2) A(2) by simp
  moreover have "calculateInterest amount term = of_nat (nat \<lfloor>f32 (f32 (of_nat A) * ?r)\<rfloor>)"
    unfolding calculateInterest_def Let_def A(1) [symmetric] using b(1) by (simp add: of_nat_nat)
  ultimately have "unat (calculateInterest amount term) = nat \<lfloor>f32 (f32 (of_nat A) * ?r)\<rfloor>"
    by (simp only: unat_of_nat_u64)
  with b(2) show "unat (calculateInterest amount term) = nat \<lfloor>f32 (f32 (of_nat (unat amount)) * ?r)\<rfloor>"
    "1000 * unat (calculateInterest amount term) \<le> 81 * unat amount"
    unfolding A(1) [symmetric] by simp_all
qed

lemma short_term_no_interest:
  assumes "term < 21900"
  shows "calculateInterest amount term = 0"
proof -
  have "unat (term div 21900) = 0" using assms by (simp add: unat_div word_less_nat_alt)
  then have "interestRate b term = 0" for b by (simp add: interestRate_def Let_def f32_def)
  then show ?thesis by (simp add: calculateInterest_def Let_def f32_def)
qed

text \<open>The 64-bit sums of the fee computation.\<close>

lemma fold_add_exact:
  "unat (m :: u64) + (\<Sum>x\<leftarrow>xs. unat (g x)) < 2 ^ 64 \<Longrightarrow>
    unat (fold (\<lambda>x m. m + g x) xs m) = unat m + (\<Sum>x\<leftarrow>xs. unat (g x))"
proof (induction xs arbitrary: m)
  case (Cons x xs)
  then have "unat (m + g x) = unat m + unat (g x)" by (simp add: unat_word_ariths)
  with Cons show ?case by (simp add: add.assoc)
qed simp

section \<open>Properties\<close>

text \<open>C33: the interest of a deposit is the floored result of the single-precision computation, the cast
  from \<^verbatim>\<open>float\<close> never leaves the 64-bit range, the interest is at most 8.1 per cent of the amount, and a
  deposit of less than one 21900-block month earns nothing.\<close>

theorem interest_bounded:
  "unat (calculateInterest amount term) = nat \<lfloor>f32 (f32 (of_nat (unat amount)) * interestRate (baseInterest amount) term)\<rfloor> \<and>
   1000 * unat (calculateInterest amount term) \<le> 81 * unat amount \<and>
   (term < 21900 \<longrightarrow> calculateInterest amount term = 0)"
  using calculateInterest_exact short_term_no_interest by blast

theorem interest_bounded_witness:
  "calculateInterest 500000000 21899 = 0 \<and> 1000 * unat (calculateInterest 500000000 21900) \<le> 81 * 500000000"
  using interest_bounded [of 500000000 21899] interest_bounded [of 500000000 21900] by simp

text \<open>C24: when the sums of a transaction fit 64 bits its fee is the difference of what its inputs are
  worth (deposits with interest) and its outputs; a transaction that pays out more than it takes in is
  refused only up to the minimum fee, and beyond it is given the minimum fee.\<close>

theorem transaction_fee_cases:
  fixes tx :: "'a TransactionPrefix_scheme"
  defines "I \<equiv> (\<Sum>i\<leftarrow>tx_inputs tx. unat (getTransactionInputAmount i))"
    and "P \<equiv> (\<Sum>t\<leftarrow>tx_outputs tx. unat (out_amount t))"
  assumes "I + 100 < 2 ^ 64" and "P < 2 ^ 64"
  shows "map_option unat (getTransactionFee_opt tx) =
    (if P \<le> I then Some (I - P)
     else if tx_inputs tx \<noteq> [] \<and> tx_outputs tx \<noteq> [] \<and> I + 100 < P then Some 100 else None)"
proof -
  let ?i = "fold (\<lambda>i a. a + getTransactionInputAmount i) (tx_inputs tx) (0 :: u64)"
  let ?o = "fold (\<lambda>t a. a + out_amount t) (tx_outputs tx) (0 :: u64)"
  have i: "unat ?i = I" using fold_add_exact [of 0 getTransactionInputAmount "tx_inputs tx"] assms(3) by (simp add: I_def)
  have out: "unat ?o = P" using fold_add_exact [of 0 out_amount "tx_outputs tx"] assms(4) by (simp add: P_def)
  have "unat (?i + 100) = I + 100" using i assms(3) by (simp add: unat_word_ariths)
  moreover have "unat (?i - ?o) = I - P" if "P \<le> I"
    using that i out by (subst unat_sub) (simp_all add: word_le_nat_alt)
  ultimately show ?thesis
    using i out by (auto simp: getTransactionFee_opt_def Let_def MINIMUM_FEE_def word_less_nat_alt)
qed

theorem transaction_fee_cases_example:
  "map_option unat (getTransactionFee_opt \<lparr>tx_version = 1, tx_unlockTime = 0,
     tx_inputs = [InKey \<lparr>ki_amount = 1000, ki_outputIndexes = [], ki_keyImage = []\<rparr>],
     tx_outputs = [\<lparr>out_amount = 900, out_target = OutKey []\<rparr>], tx_extra = []\<rparr>) = Some 100"
  using transaction_fee_cases [of "\<lparr>tx_version = 1, tx_unlockTime = 0,
     tx_inputs = [InKey \<lparr>ki_amount = 1000, ki_outputIndexes = [], ki_keyImage = []\<rparr>],
     tx_outputs = [\<lparr>out_amount = 900, out_target = OutKey []\<rparr>], tx_extra = []\<rparr>"]
  by (simp add: getTransactionInputAmount_def)

text \<open>A transaction that creates coins out of nothing has a fee.\<close>

lemma fee_of_unbacked_outputs:
  "getTransactionFee_opt \<lparr>tx_version = 1, tx_unlockTime = 0,
     tx_inputs = [InKey \<lparr>ki_amount = 1, ki_outputIndexes = [], ki_keyImage = []\<rparr>],
     tx_outputs = [\<lparr>out_amount = 1000000000, out_target = OutKey []\<rparr>], tx_extra = []\<rparr> = Some 100"
  by (simp add: getTransactionFee_opt_def getTransactionInputAmount_def MINIMUM_FEE_def)

text \<open>The cap of 4 per cent that the overflow test of the inputs assumes is exceeded: a deposit of 20000
  coins for twelve months earns almost twice as much.\<close>

lemma f32_ge: "b \<le> x \<Longrightarrow> 0 \<le> b \<Longrightarrow> c \<le> b * (1 - 1 / 2 ^ 24) \<Longrightarrow> c \<le> f32 x"
  unfolding f32_def by (rule rnd_ge)

lemma f64_ge: "b \<le> x \<Longrightarrow> 0 \<le> b \<Longrightarrow> c \<le> b * (1 - 1 / 2 ^ 53) \<Longrightarrow> c \<le> f64 x"
  unfolding f64_def by (rule rnd_ge)

lemma interest_exceeds_assumed_cap:
  "4 * 2000000000 div 100 < unat (calculateInterest 2000000000 262800)"
proof -
  let ?b = "baseInterest 2000000000"
  have "689 / 10000 \<le> f64 (69 / 1000)" by (rule f64_ge [OF order_refl]) simp_all
  then have "688 / 10000 \<le> f32 (f64 (69 / 1000))" by (rule f32_ge) simp_all
  then have base: "688 / 10000 \<le> ?b" by (simp add: baseInterest_def Let_def)
  define m where "m = (if f32 12 > 12 then 12 else f32 12)"
  have "1199 / 100 \<le> f32 12" by (rule f32_ge [OF order_refl]) simp_all
  then have m: "1199 / 100 \<le> m" unfolding m_def by simp
  then have "1099 / 100 \<le> m - 1" by simp
  then have "1098 / 100 \<le> f32 (m - 1)" by (rule f32_ge) simp_all
  moreover have "999 / 1000000 \<le> f64 (1 / 1000)" by (rule f64_ge [OF order_refl]) simp_all
  ultimately have "1098 / 100 * (999 / 1000000) \<le> f32 (m - 1) * f64 (1 / 1000)" by (intro mult_mono) simp_all
  then have "109 / 10000 \<le> f64 (f32 (m - 1) * f64 (1 / 1000))" by (rule f64_ge) simp_all
  with base have "797 / 10000 \<le> ?b + f64 (f32 (m - 1) * f64 (1 / 1000))" by simp
  then have "796 / 10000 \<le> f64 (?b + f64 (f32 (m - 1) * f64 (1 / 1000)))" by (rule f64_ge) simp_all
  then have "795 / 10000 \<le> f32 (f64 (?b + f64 (f32 (m - 1) * f64 (1 / 1000))))" by (rule f32_ge) simp_all
  then have "795 / 120000 \<le> f32 (f64 (?b + f64 (f32 (m - 1) * f64 (1 / 1000)))) / 12" by simp
  then have "66 / 10000 \<le> f32 (f32 (f64 (?b + f64 (f32 (m - 1) * f64 (1 / 1000)))) / 12)" by (rule f32_ge) simp_all
  with m have "66 / 10000 * (1199 / 100) \<le> f32 (f32 (f64 (?b + f64 (f32 (m - 1) * f64 (1 / 1000)))) / 12) * m"
    by (intro mult_mono) simp_all
  then have "79 / 1000 \<le> f32 (f32 (f32 (f64 (?b + f64 (f32 (m - 1) * f64 (1 / 1000)))) / 12) * m)"
    by (rule f32_ge) simp_all
  moreover have "interestRate ?b 262800 = f32 (f32 (f32 (f64 (?b + f64 (f32 (m - 1) * f64 (1 / 1000)))) / 12) * m)"
  proof -
    have "of_nat (unat ((262800 :: u32) div 21900)) = (12 :: rat)" by simp
    then show ?thesis unfolding interestRate_def Let_def m_def by (simp only:)
  qed
  moreover have "1999999000 \<le> f32 2000000000" by (rule f32_ge [OF order_refl]) simp_all
  ultimately have "1999999000 * (79 / 1000) \<le> f32 2000000000 * interestRate ?b 262800"
    by (intro mult_mono) simp_all
  then have "157000000 \<le> f32 (f32 2000000000 * interestRate ?b 262800)" by (rule f32_ge) simp_all
  then have "157000000 \<le> nat \<lfloor>f32 (f32 2000000000 * interestRate ?b 262800)\<rfloor>"
    by (simp add: le_floor_iff le_nat_iff)
  then show ?thesis using calculateInterest_exact(1) [of 2000000000 262800] by simp
qed

end
