(* ===== verification/MultiIndex.thy ===== *)
theory MultiIndex
  imports Prelude "HOL-Library.Multiset"
begin

text \<open>
  The contract of the auxiliary indices of the chain, which are multimaps filled when a block is pushed
  and emptied entry by entry when it is popped: an index is determined by the multiset of its entries,
  adding adds the entries of an object and removing takes them out again. What the chain relies on, that
  removing what was added, in any order, leaves the index as it was, is proved here once.
\<close>

section \<open>Multimaps\<close>

text \<open>\<^verbatim>\<open>std::multimap\<close> keeps its entries ordered by key and puts a new one behind those with its key;
  for \<^verbatim>\<open>std::unordered_multimap\<close> the order is not specified and insertion order is taken.\<close>

fun mm_emplace :: "'k::linorder \<Rightarrow> 'v \<Rightarrow> ('k \<times> 'v) list \<Rightarrow> ('k \<times> 'v) list" where
  "mm_emplace k v [] = [(k, v)]"
| "mm_emplace k v ((a, b) # m) = (if k < a then (k, v) # (a, b) # m else (a, b) # mm_emplace k v m)"

definition um_emplace :: "'k \<Rightarrow> 'v \<Rightarrow> ('k \<times> 'v) list \<Rightarrow> ('k \<times> 'v) list" where
  "um_emplace k v m = m @ [(k, v)]"

text \<open>The loop over \<^verbatim>\<open>equal_range\<close> that erases the first entry with the value and reports success.\<close>

fun erase_match :: "'k \<Rightarrow> 'v \<Rightarrow> ('k \<times> 'v) list \<Rightarrow> bool \<times> ('k \<times> 'v) list" where
  "erase_match k v [] = (False, [])"
| "erase_match k v ((a, b) # m) =
     (if a = k \<and> b = v then (True, m)
      else case erase_match k v m of (r, m') \<Rightarrow> (r, (a, b) # m'))"

definition equal_range :: "'k \<Rightarrow> ('k \<times> 'v) list \<Rightarrow> 'v list" where
  "equal_range k m = map snd (filter (\<lambda>e. fst e = k) m)"

lemma mset_mm_emplace [simp]: "mset (mm_emplace k v m) = add_mset (k, v) (mset m)"
  by (induction k v m rule: mm_emplace.induct) simp_all

lemma mset_um_emplace [simp]: "mset (um_emplace k v m) = add_mset (k, v) (mset m)"
  by (simp add: um_emplace_def)

lemma keys_mm_emplace: "set (map fst (mm_emplace k v m)) = insert k (set (map fst m))"
  by (induction k v m rule: mm_emplace.induct) auto

lemma sorted_mm_emplace: "sorted (map fst m) \<Longrightarrow> sorted (map fst (mm_emplace k v m))"
proof (induction k v m rule: mm_emplace.induct)
  case (2 k v a b m)
  have "\<forall>x\<in>set (map fst (mm_emplace k v m)). a \<le> x" if "\<not> k < a"
    using 2(2) that unfolding keys_mm_emplace by simp
  with 2 show ?case by (auto intro: less_imp_le order_trans)
qed simp

lemma erase_match_eq: "erase_match k v m = ((k, v) \<in> set m, remove1 (k, v) m)"
  by (induction k v m rule: erase_match.induct) auto

lemma sorted_erase: "sorted (map fst m) \<Longrightarrow> sorted (map fst (remove1 e m))"
  by (rule sorted_map_remove1)

lemma mset_equal_range: "mset (equal_range k m) = image_mset snd {#e \<in># mset m. fst e = k#}"
  by (simp add: equal_range_def)

section \<open>The contract\<close>

locale multi_index =
  fixes add_to :: "'x \<Rightarrow> 's \<Rightarrow> bool \<times> 's"
    and remove_from :: "'x \<Rightarrow> 's \<Rightarrow> bool \<times> 's"
    and entries :: "'x \<Rightarrow> 'e multiset"
    and content :: "'s \<Rightarrow> 'e multiset"
    and inv :: "'s \<Rightarrow> bool"
  assumes add_content: "inv s \<Longrightarrow> content (snd (add_to x s)) = content s + entries x"
    and add_result: "inv s \<Longrightarrow> fst (add_to x s) \<longleftrightarrow> entries x \<noteq> {#}"
    and add_inv: "inv s \<Longrightarrow> inv (snd (add_to x s))"
    and remove_content: "inv s \<Longrightarrow> content (snd (remove_from x s)) = content s - entries x"
    and remove_result: "inv s \<Longrightarrow> fst (remove_from x s) \<longleftrightarrow> entries x \<noteq> {#} \<and> entries x \<subseteq># content s"
    and remove_inv: "inv s \<Longrightarrow> inv (snd (remove_from x s))"
begin

definition add_all :: "'x list \<Rightarrow> 's \<Rightarrow> 's" where
  "add_all xs s = fold (\<lambda>x s. snd (add_to x s)) xs s"

definition remove_all :: "'x list \<Rightarrow> 's \<Rightarrow> 's" where
  "remove_all xs s = fold (\<lambda>x s. snd (remove_from x s)) xs s"

lemma add_all_content: "inv s \<Longrightarrow> inv (add_all xs s) \<and> content (add_all xs s) = content s + \<Sum>\<^sub># (image_mset entries (mset xs))"
  by (induction xs arbitrary: s) (simp_all add: add_all_def add_inv add_content)

lemma remove_all_content:
  "inv s \<Longrightarrow> inv (remove_all xs s) \<and> content (remove_all xs s) = content s - \<Sum>\<^sub># (image_mset entries (mset xs))"
  by (induction xs arbitrary: s) (simp_all add: remove_all_def remove_inv remove_content)

theorem undo:
  assumes "inv s" "mset ys = mset xs"
  shows "content (remove_all ys (add_all xs s)) = content s"
  using assms add_all_content [of s xs] remove_all_content [of "add_all xs s" ys] by simp

theorem undo_reports:
  assumes "inv s" "y \<in># mset xs" "entries y \<noteq> {#}"
  shows "fst (remove_from y (add_all xs s))"
proof -
  obtain M where "mset xs = add_mset y M" using multi_member_split [OF assms(2)] by blast
  then have "content (add_all xs s) = entries y + (content s + \<Sum>\<^sub># (image_mset entries M))"
    using add_all_content [OF assms(1), of xs] by (simp add: ac_simps)
  then have "entries y \<subseteq># content (add_all xs s)" by (simp only: mset_subset_eq_add_left)
  then show ?thesis
    using assms(1,3) add_all_content [of s xs] by (simp add: remove_result)
qed

end

text \<open>An index that is also looked up by key.\<close>

locale lookup_index = multi_index add_to remove_from entries content inv
  for add_to :: "'x \<Rightarrow> 's \<Rightarrow> bool \<times> 's" and remove_from :: "'x \<Rightarrow> 's \<Rightarrow> bool \<times> 's"
    and entries :: "'x \<Rightarrow> ('k \<times> 'v) multiset" and content :: "'s \<Rightarrow> ('k \<times> 'v) multiset"
    and inv :: "'s \<Rightarrow> bool" +
  fixes lookup :: "'k \<Rightarrow> 's \<Rightarrow> 'v list"
  assumes lookup_content: "inv s \<Longrightarrow> mset (lookup k s) = image_mset snd {#e \<in># content s. fst e = k#}"
begin

lemma lookup_added: "inv s \<Longrightarrow> (k, v) \<in># entries x \<Longrightarrow> v \<in> set (lookup k (snd (add_to x s)))"
proof -
  assume a: "inv s" "(k, v) \<in># entries x"
  then have "(k, v) \<in># content (snd (add_to x s))" by (simp add: add_content)
  then have "v \<in># mset (lookup k (snd (add_to x s)))"
    using a(1) by (simp add: lookup_content add_inv image_iff)
  then show ?thesis by simp
qed

lemma lookup_undone: "inv s \<Longrightarrow> mset ys = mset xs \<Longrightarrow> mset (lookup k (remove_all ys (add_all xs s))) = mset (lookup k s)"
  using undo add_all_content [of s xs] remove_all_content [of "add_all xs s" ys] by (simp add: lookup_content)

end

end
