(* ===== verification/BinaryStream.thy ===== *)
theory BinaryStream
  imports Varint
begin

text \<open>
  Binary streams: \<^verbatim>\<open>src/Common/StreamTools.cpp\<close> over a memory stream, and the primitive
  operations of \<^verbatim>\<open>src/Serialization/BinaryOutputStreamSerializer.cpp\<close> and
  \<^verbatim>\<open>BinaryInputStreamSerializer.cpp\<close>. A writer gives the bytes it appends or the exception it
  throws, a reader the value and the input left or the exception. The locale \<open>stream_code\<close> is the
  contract between the two directions of one \<^verbatim>\<open>serialize\<close> function; arrays provide it whenever
  their elements do.
\<close>

type_synonym 'a reader = "bytes \<Rightarrow> ('a \<times> bytes) result"

definition ret :: "'a \<Rightarrow> 'a reader" where
  "ret x bs = Inr (x, bs)"

definition fail_read :: "'a reader" where
  "fail_read bs = Inl RuntimeError"

definition rbind :: "'a reader \<Rightarrow> ('a \<Rightarrow> 'b reader) \<Rightarrow> 'b reader" where
  "rbind r f bs = bind_res (r bs) (\<lambda>(x, bs). f x bs)"

definition wcat :: "bytes result \<Rightarrow> bytes result \<Rightarrow> bytes result" where
  "wcat a b = bind_res a (\<lambda>x. bind_res b (\<lambda>y. Inr (x @ y)))"

section \<open>Stream tools\<close>

text \<open>\<^verbatim>\<open>read\<close> takes the bytes in as many steps as the stream needs and throws at its end.\<close>

definition read_bytes :: "nat \<Rightarrow> bytes reader" where
  "read_bytes n bs = (if n \<le> length bs then Inr (take n bs, drop n bs) else Inl RuntimeError)"

definition read_byte :: "u8 reader" where
  "read_byte = rbind (read_bytes 1) (\<lambda>b. ret (hd b))"

text \<open>The four overloads of \<^verbatim>\<open>readVarint\<close> differ in the width of the accumulator only.\<close>

fun readVarint_loop :: "nat \<Rightarrow> nat \<Rightarrow> u64 \<Rightarrow> u64 reader" where
  "readVarint_loop bits shift temp [] = Inl RuntimeError"
| "readVarint_loop bits shift temp (piece # rest) =
     (if bits \<le> shift + 7 \<and> 2 ^ (bits - shift) \<le> unat piece then Inl RuntimeError
      else let temp = take_bit bits (temp OR push_bit shift (ucast (piece AND 0x7f))) in
        if piece AND 0x80 = 0
        then (if piece = 0 \<and> shift \<noteq> 0 then Inl RuntimeError else Inr (temp, rest))
        else readVarint_loop bits (shift + 7) temp rest)"

definition readVarint :: "nat \<Rightarrow> u64 reader" where
  "readVarint bits = readVarint_loop bits 0 0"

function writeVarint :: "u64 \<Rightarrow> bytes" where
  "writeVarint v =
     (if 0x80 \<le> v then (ucast v OR 0x80) # writeVarint (drop_bit 7 v) else [ucast v])"
  by pat_completeness auto
termination
proof (relation "measure unat")
  fix v :: u64
  assume "0x80 \<le> v"
  then have "0 < unat v" by (simp add: word_le_nat_alt)
  then show "(drop_bit 7 v, v) \<in> measure unat" by (simp add: unat_drop_bit_nat)
qed simp

declare writeVarint.simps [simp del]

section \<open>Primitive operations of the serializers\<close>

definition MAX_SERIALIZED_SIZE :: u64 where "MAX_SERIALIZED_SIZE = 100 * 1024 * 1024"

definition ser_u8 :: "u8 \<Rightarrow> bytes result" where "ser_u8 v = Inr (writeVarint (ucast v))"
definition ser_u32 :: "u32 \<Rightarrow> bytes result" where "ser_u32 v = Inr (writeVarint (ucast v))"
definition ser_u64 :: "u64 \<Rightarrow> bytes result" where "ser_u64 v = Inr (writeVarint v)"

definition des_u8 :: "u8 reader" where "des_u8 = rbind (readVarint 8) (\<lambda>v. ret (ucast v))"
definition des_u32 :: "u32 reader" where "des_u32 = rbind (readVarint 32) (\<lambda>v. ret (ucast v))"
definition des_u64 :: "u64 reader" where "des_u64 = readVarint 64"

definition ser_string :: "bytes \<Rightarrow> bytes result" where
  "ser_string s = Inr (writeVarint (of_nat (length s)) @ s)"

definition des_string :: "bytes reader" where
  "des_string =
     rbind (readVarint 64) (\<lambda>n.
       if n > MAX_SERIALIZED_SIZE then fail_read
       else if n > 0 then read_bytes (unat n) else ret [])"

text \<open>\<^verbatim>\<open>binary(void*, size)\<close>: the bytes of an object of a fixed size.\<close>

definition ser_pod :: "bytes \<Rightarrow> bytes result" where "ser_pod v = Inr v"

definition des_pod :: "nat \<Rightarrow> bytes reader" where "des_pod n = read_bytes n"

definition begin_array_out :: "nat \<Rightarrow> bytes result" where
  "begin_array_out n = Inr (writeVarint (of_nat n))"

definition begin_array_in :: "nat reader" where
  "begin_array_in =
     rbind (readVarint 64) (\<lambda>n. if n > MAX_SERIALIZED_SIZE then fail_read else ret (unat n))"

fun write_each :: "('a \<Rightarrow> bytes result) \<Rightarrow> 'a list \<Rightarrow> bytes result" where
  "write_each ser [] = Inr []"
| "write_each ser (x # xs) = wcat (ser x) (write_each ser xs)"

fun read_each :: "'a reader \<Rightarrow> nat \<Rightarrow> 'a list reader" where
  "read_each des 0 = ret []"
| "read_each des (Suc n) = rbind des (\<lambda>x. rbind (read_each des n) (\<lambda>xs. ret (x # xs)))"

text \<open>\<^verbatim>\<open>serializeContainer\<close> and \<^verbatim>\<open>serializeVarintVector\<close>.\<close>

definition ser_array :: "('a \<Rightarrow> bytes result) \<Rightarrow> 'a list \<Rightarrow> bytes result" where
  "ser_array ser xs = wcat (begin_array_out (length xs)) (write_each ser xs)"

definition des_array :: "'a reader \<Rightarrow> 'a list reader" where
  "des_array des = rbind begin_array_in (read_each des)"

section \<open>Combinators\<close>

named_theorems reader_simps

lemma ret_Inr [reader_simps]: "ret x bs = Inr (y, rest) \<longleftrightarrow> y = x \<and> rest = bs"
  by (auto simp: ret_def)

lemma fail_read_Inr [reader_simps]: "fail_read bs \<noteq> Inr y"
  by (simp add: fail_read_def)

lemma rbind_Inr [reader_simps]:
  "rbind r f bs = Inr (y, rest) \<longleftrightarrow> (\<exists>x bs'. r bs = Inr (x, bs') \<and> f x bs' = Inr (y, rest))"
  by (cases "r bs") (auto simp: rbind_def)

lemma wcat_Inr [reader_simps]: "wcat a b = Inr z \<longleftrightarrow> (\<exists>x y. a = Inr x \<and> b = Inr y \<and> z = x @ y)"
  by (cases a; cases b) (auto simp: wcat_def)

lemma rbind_step: "r bs = Inr (x, bs') \<Longrightarrow> rbind r f bs = f x bs'"
  by (simp add: rbind_def)

section \<open>Variable-length integers of both implementations\<close>

lemma writeVarint_eq: "writeVarint v = write_varint v"
proof (induction v rule: writeVarint.induct)
  case (1 v)
  have "(ucast v OR 0x80 :: u8) = (ucast v AND 0x7f) OR 0x80"
    by (rule bit_word_eqI) (auto simp: bit_simps bit_0x80 bit_0x7f)
  with 1 show ?case
    by (subst writeVarint.simps, subst write_varint.simps) simp
qed

text \<open>The overflow test keeps the accumulator within its width.\<close>

lemma piece_fits:
  assumes "unat temp < 2 ^ bits" "shift < bits" "bits \<le> 64"
    and "\<not> (bits \<le> shift + 7 \<and> 2 ^ (bits - shift) \<le> unat piece)"
  shows "take_bit bits (temp OR push_bit shift (ucast (piece AND 0x7f))) =
      (temp OR push_bit shift (ucast (piece AND 0x7f)) :: u64)"
proof -
  have t: "take_bit bits temp = temp"
    using assms(1) by (simp add: word_unat_eq_iff unsigned_take_bit_eq take_bit_nat_eq_self)
  have high: "\<not> bit piece n" if "bits - shift \<le> n" "bits \<le> shift + 7" for n
  proof -
    have "take_bit (bits - shift) piece = piece"
      using assms(4) that by (simp add: word_unat_eq_iff unsigned_take_bit_eq take_bit_nat_eq_self)
    then show ?thesis using that(1) by (metis bit_take_bit_iff not_le)
  qed
  have "take_bit bits (push_bit shift (ucast (piece AND 0x7f)) :: u64) = push_bit shift (ucast (piece AND 0x7f))"
  proof (rule bit_word_eqI)
    fix n assume "n < LENGTH(64)"
    have "\<not> (bit piece (n - shift) \<and> n - shift < 7)" if "bits \<le> n"
      using high [of "n - shift", OF diff_le_mono [OF that]] that by linarith
    with \<open>n < LENGTH(64)\<close> show "bit (take_bit bits (push_bit shift (ucast (piece AND 0x7f)) :: u64)) n \<longleftrightarrow>
        bit (push_bit shift (ucast (piece AND 0x7f)) :: u64) n"
      by (cases "n < bits") (auto simp: bit_simps bit_0x7f)
  qed
  then show ?thesis by (simp add: t)
qed

lemma unat_less_take_bit: "unat (x :: u64) < 2 ^ bits \<longleftrightarrow> take_bit bits x = x"
  by (simp add: word_unat_eq_iff unsigned_take_bit_eq take_bit_nat_eq_self_iff)

lemma shift_more:
  assumes "\<not> (bits \<le> shift + 7 \<and> 2 ^ (bits - shift) \<le> unat (piece :: u8))" "piece AND 0x80 \<noteq> 0"
  shows "shift + 7 < bits"
proof (rule ccontr)
  assume c: "\<not> shift + 7 < bits"
  then have "(2 :: nat) ^ (bits - shift) \<le> 2 ^ 7" by (intro power_increasing) simp_all
  then show False using c assms(1) high_byte(1) [OF assms(2)] by simp
qed

lemma readVarint_loop_step:
  assumes "unat temp < 2 ^ bits" "shift < bits" "bits \<le> 64"
    and "readVarint_loop bits shift temp (piece # bs) = Inr (v, rest)"
  defines "temp' \<equiv> temp OR push_bit shift (ucast (piece AND 0x7f))"
  shows "\<not> (bits \<le> shift + 7 \<and> 2 ^ (bits - shift) \<le> unat piece) \<and> unat temp' < 2 ^ bits \<and>
    (if piece AND 0x80 = 0 then \<not> (piece = 0 \<and> shift \<noteq> 0) \<and> v = temp' \<and> rest = bs
     else shift + 7 < bits \<and> readVarint_loop bits (shift + 7) temp' bs = Inr (v, rest))"
proof -
  have c: "\<not> (bits \<le> shift + 7 \<and> 2 ^ (bits - shift) \<le> unat piece)"
    using assms(4) by (auto split: if_splits)
  note fit = piece_fits [OF assms(1-3) c]
  have "unat temp' < 2 ^ bits" using fit unfolding temp'_def unat_less_take_bit .
  with c fit assms(4) shift_more [OF c] show ?thesis
    by (auto simp: temp'_def Let_def simp del: take_bit_or split: if_splits)
qed

text \<open>A value read at some width is read at 64 bits, and by \<^verbatim>\<open>Common/Varint.h\<close>, which ends on the
  same byte.\<close>

lemma readVarint_loop_widen:
  assumes "readVarint_loop bits shift temp bs = Inr (v, rest)" "unat temp < 2 ^ bits" "shift < bits" "bits \<le> 64"
  shows "\<exists>n. read_varint_loop 64 shift r temp bs = (n, v, rest) \<and> r < n \<and>
    nat (n - r) \<le> length bs \<and> last (take (nat (n - r)) bs) AND 0x80 = 0 \<and> unat v < 2 ^ bits"
  using assms(1-3)
proof (induction bs arbitrary: shift temp r)
  case (Cons piece bs)
  let ?temp = "temp OR push_bit shift (ucast (piece AND 0x7f))"
  note st = readVarint_loop_step [OF Cons.prems(2,3) assms(4) Cons.prems(1)]
  have ok: "\<not> (64 \<le> shift + 7 \<and> 2 ^ (64 - shift) \<le> unat piece)"
  proof (rule notI, elim conjE)
    assume a: "64 \<le> shift + 7" "2 ^ (64 - shift) \<le> unat piece"
    have "unat piece < 2 ^ (bits - shift)" using st assms(4) a(1) by simp
    with a(2) have "(2 :: nat) ^ (64 - shift) < 2 ^ (bits - shift)" by (rule le_less_trans)
    moreover have "(2 :: nat) ^ (bits - shift) \<le> 2 ^ (64 - shift)"
      using assms(4) by (intro power_increasing) simp_all
    ultimately show False by linarith
  qed
  show ?case
  proof (cases "piece AND 0x80 = 0")
    case True
    then show ?thesis using st ok by (simp only: read_varint_loop.simps Let_def if_False) auto
  next
    case False
    then have "piece \<noteq> 0" by auto
    from False st obtain n where n: "read_varint_loop 64 (shift + 7) (r + 1) ?temp bs = (n, v, rest)"
      "r + 1 < n" "nat (n - (r + 1)) \<le> length bs" "last (take (nat (n - (r + 1))) bs) AND 0x80 = 0" "unat v < 2 ^ bits"
      using Cons.IH [of "shift + 7" ?temp "r + 1"] by auto
    have "nat (n - r) = Suc (nat (n - (r + 1)))" using n(2) by simp
    moreover have "take (nat (n - (r + 1))) bs \<noteq> []" using n(2,3) by auto
    ultimately show ?thesis using n False ok \<open>piece \<noteq> 0\<close> by (auto simp: Let_def)
  qed
qed simp

lemma readVarint_canonical:
  assumes "readVarint bits bs = Inr (v, rest)" "0 < bits" "bits \<le> 64"
  shows "bs = writeVarint v @ rest \<and> unat v < 2 ^ bits"
proof -
  obtain n where n: "read_varint bs = (n, v, rest)" "0 < n" "last (take (nat n) bs) AND 0x80 = 0"
    "unat v < 2 ^ bits"
    using readVarint_loop_widen [of bits 0 0 bs v rest 0] assms by (auto simp: readVarint_def read_varint_def)
  then show ?thesis using read_varint_canonical [OF n(1-3)] by (simp add: writeVarint_eq)
qed

text \<open>In the other direction the loops agree whenever input is left over, and what a reader takes off
  the stream does not depend on what follows.\<close>

lemma readVarint_loop_narrow:
  assumes "read_varint_loop bits shift r temp bs = (n, v, rest)" "0 < n" "0 \<le> r" "rest \<noteq> []"
    and "unat temp < 2 ^ bits" "shift < bits" "bits \<le> 64"
  shows "readVarint_loop bits shift temp bs = Inr (v, rest)"
  using assms(1-6)
proof (induction bs arbitrary: shift temp r)
  case (Cons piece bs)
  have c: "\<not> (bits \<le> shift + 7 \<and> 2 ^ (bits - shift) \<le> unat piece)" "\<not> (piece = 0 \<and> shift \<noteq> 0)"
    using Cons.prems(1,2) by (auto simp: Let_def split: if_splits)
  note fit = piece_fits [OF Cons.prems(5,6) assms(7) c(1)]
  have less: "unat (temp OR push_bit shift (ucast (piece AND 0x7f))) < 2 ^ bits"
    using fit unfolding unat_less_take_bit .
  show ?case
  proof (cases "piece AND 0x80 = 0")
    case True
    then show ?thesis using Cons.prems(1) c fit by (auto simp: Let_def simp del: take_bit_or split: if_splits)
  next
    case False
    then have "read_varint_loop bits (shift + 7) (r + 1) (temp OR push_bit shift (ucast (piece AND 0x7f))) bs = (n, v, rest)"
      using Cons.prems(1) c by (auto simp: Let_def split: if_splits)
    from Cons.IH [OF this Cons.prems(2) _ Cons.prems(4) less shift_more [OF c(1) False]] Cons.prems(3)
    show ?thesis using False c fit by (simp add: Let_def del: take_bit_or)
  qed
qed simp

lemma readVarint_loop_consumes:
  "readVarint_loop bits shift temp bs = Inr (v, rest) \<Longrightarrow> length rest < length bs"
  by (induction bs arbitrary: shift temp) (auto simp: Let_def less_SucI split: if_splits)

lemma readVarint_loop_frame:
  assumes "readVarint_loop bits shift temp (bs @ c) = Inr (v, c)"
  shows "readVarint_loop bits shift temp (bs @ c') = Inr (v, c')"
  using assms
proof (induction bs arbitrary: shift temp)
  case Nil
  then show ?case using readVarint_loop_consumes by fastforce
next
  case (Cons piece bs)
  then show ?case by (auto simp: Let_def split: if_splits)
qed

lemma readVarint_write:
  assumes "unat v < 2 ^ bits" "0 < bits" "bits \<le> 64"
  shows "readVarint bits (writeVarint v @ rest) = Inr (v, rest)"
proof -
  have "read_varint_loop bits 0 0 0 (write_varint v @ [0]) = (int (length (write_varint v)), v, [0])"
    using read_write_varint_loop [of v 0 bits 0 0 "[0]"] assms by simp
  from readVarint_loop_narrow [OF this] assms
  have "readVarint_loop bits 0 0 (write_varint v @ [0]) = Inr (v, [0])" by simp
  then show ?thesis unfolding readVarint_def writeVarint_eq by (rule readVarint_loop_frame)
qed

section \<open>Sizes\<close>

text \<open>The sizes the readers accept.\<close>

definition size_ok :: "'a list \<Rightarrow> bool" where
  "size_ok xs \<longleftrightarrow> length xs \<le> 104857600"

lemma size_fits: "size_ok xs \<Longrightarrow> unat (of_nat (length xs) :: u64) = length xs"
  using unat_of_nat_u64 [of "length xs"] by (simp add: size_ok_def)

lemma size_within: "n \<le> MAX_SERIALIZED_SIZE \<longleftrightarrow> unat n \<le> 104857600"
  by (simp add: MAX_SERIALIZED_SIZE_def word_le_nat_alt)

lemma size_read_back:
  "size_ok xs \<Longrightarrow> readVarint 64 (writeVarint (of_nat (length xs)) @ rest) = Inr (of_nat (length xs), rest)"
  by (rule readVarint_write) (simp_all add: size_fits, simp add: size_ok_def)

lemma begin_array_back:
  "size_ok xs \<Longrightarrow> begin_array_in (writeVarint (of_nat (length xs)) @ rest) = Inr (length xs, rest)"
  using size_within [of "of_nat (length xs)"]
  by (auto simp: begin_array_in_def rbind_def size_read_back size_fits ret_def size_ok_def
      linorder_not_le [symmetric])

lemma begin_array_canonical:
  assumes "begin_array_in bs = Inr (n, rest)"
  shows "n \<le> 104857600 \<and> bs = writeVarint (of_nat n) @ rest"
proof -
  obtain w where w: "readVarint 64 bs = Inr (w, rest)" "w \<le> MAX_SERIALIZED_SIZE" "n = unat w"
    using assms by (auto simp: begin_array_in_def reader_simps linorder_not_le [symmetric] split: if_splits)
  then show ?thesis using readVarint_canonical [OF w(1)] by (simp add: size_within)
qed

section \<open>The two directions of a serializer\<close>

text \<open>
  \<open>ok\<close> are the values the C++ type can hold within the serializer's limits. Such a value is written
  without an exception and read back, and whatever is read is such a value and is the only input that
  reads as it: the encoding is canonical.
\<close>

locale stream_code =
  fixes ser :: "'a \<Rightarrow> bytes result"
    and des :: "'a reader"
    and ok :: "'a \<Rightarrow> bool"
  assumes writes: "ok x \<Longrightarrow> \<exists>b. ser x = Inr b"
    and dec_enc: "ok x \<Longrightarrow> ser x = Inr b \<Longrightarrow> des (b @ rest) = Inr (x, rest)"
    and enc_dec: "des bs = Inr (x, rest) \<Longrightarrow> ok x \<and> (\<exists>b. ser x = Inr b \<and> bs = b @ rest)"
begin

lemma reads: "ok x \<Longrightarrow> \<exists>b. ser x = Inr b \<and> (\<forall>rest. des (b @ rest) = Inr (x, rest))"
  using writes dec_enc by blast

lemma injective: "ok x \<Longrightarrow> ok y \<Longrightarrow> ser x = ser y \<Longrightarrow> x = y"
proof -
  assume a: "ok x" "ok y" "ser x = ser y"
  then obtain b where b: "ser x = Inr b" using writes by blast
  then have "des (b @ []) = Inr (x, [])" "des (b @ []) = Inr (y, [])"
    using a b dec_enc [of x b "[]"] dec_enc [of y b "[]"] by simp_all
  then show "x = y" by simp
qed

lemma write_each_total: "list_all ok xs \<Longrightarrow> \<exists>b. write_each ser xs = Inr b"
  by (induction xs) (auto simp: wcat_def dest: writes)

lemma each_dec_enc:
  "list_all ok xs \<Longrightarrow> write_each ser xs = Inr b \<Longrightarrow> read_each des (length xs) (b @ rest) = Inr (xs, rest)"
proof (induction xs arbitrary: b)
  case (Cons x xs)
  then obtain c d where "ser x = Inr c" "write_each ser xs = Inr d" "b = c @ d"
    by (auto simp: reader_simps)
  with Cons show ?case using dec_enc [of x c "d @ rest"] by (simp add: rbind_step ret_def)
qed (simp add: ret_def)

lemma each_enc_dec:
  "read_each des n bs = Inr (xs, rest) \<Longrightarrow>
    list_all ok xs \<and> length xs = n \<and> (\<exists>b. write_each ser xs = Inr b \<and> bs = b @ rest)"
proof (induction n arbitrary: bs xs)
  case (Suc n)
  then obtain x bs' ys where "des bs = Inr (x, bs')" "read_each des n bs' = Inr (ys, rest)" "xs = x # ys"
    by (auto simp: reader_simps)
  with Suc.IH [of bs' ys] enc_dec [of bs x bs'] show ?case by (auto simp: reader_simps)
qed (simp add: reader_simps)

lemma array_code: "stream_code (ser_array ser) (des_array des) (\<lambda>xs. list_all ok xs \<and> size_ok xs)"
proof
  fix xs b rest
  assume ok: "list_all ok xs \<and> size_ok xs"
  then show "\<exists>b. ser_array ser xs = Inr b"
    using write_each_total [of xs] by (auto simp: ser_array_def begin_array_out_def wcat_def)
  assume "ser_array ser xs = Inr b"
  then obtain c where c: "write_each ser xs = Inr c" "b = writeVarint (of_nat (length xs)) @ c"
    by (auto simp: ser_array_def begin_array_out_def reader_simps)
  then show "des_array des (b @ rest) = Inr (xs, rest)"
    using ok by (simp add: des_array_def rbind_def begin_array_back each_dec_enc)
next
  fix bs xs rest
  assume "des_array des bs = Inr (xs, rest)"
  then obtain n bs' where n: "begin_array_in bs = Inr (n, bs')" "read_each des n bs' = Inr (xs, rest)"
    by (auto simp: des_array_def reader_simps)
  with each_enc_dec [OF n(2)] begin_array_canonical [OF n(1)]
  show "(list_all ok xs \<and> size_ok xs) \<and> (\<exists>b. ser_array ser xs = Inr b \<and> bs = b @ rest)"
    by (auto simp: ser_array_def begin_array_out_def size_ok_def reader_simps)
qed

end

section \<open>The primitive types\<close>

lemma ucast_u8_back: "unat (v :: u64) < 2 ^ 8 \<Longrightarrow> ucast (ucast v :: u8) = v"
  by (simp add: word_unat_eq_iff unsigned_ucast_eq unsigned_take_bit_eq take_bit_nat_eq_self)

lemma ucast_u32_back: "unat (v :: u64) < 2 ^ 32 \<Longrightarrow> ucast (ucast v :: u32) = v"
  by (simp add: word_unat_eq_iff unsigned_ucast_eq unsigned_take_bit_eq take_bit_nat_eq_self)

lemma ucast_u8_up: "(ucast (ucast (v :: u8) :: u64) :: u8) = v"
  by (rule bit_word_eqI) (auto simp: bit_simps)

lemma ucast_u32_up: "(ucast (ucast (v :: u32) :: u64) :: u32) = v"
  by (rule bit_word_eqI) (auto simp: bit_simps)

interpretation c8: stream_code ser_u8 des_u8 "\<lambda>_. True"
proof
  fix v :: u8 and b rest
  assume "ser_u8 v = Inr b"
  then show "des_u8 (b @ rest) = Inr (v, rest)"
    by (auto simp: ser_u8_def des_u8_def rbind_def readVarint_write ret_def ucast_u8_up)
next
  fix bs rest and v :: u8
  assume "des_u8 bs = Inr (v, rest)"
  then show "True \<and> (\<exists>b. ser_u8 v = Inr b \<and> bs = b @ rest)"
    by (auto simp: ser_u8_def des_u8_def reader_simps ucast_u8_back dest!: readVarint_canonical)
qed (simp add: ser_u8_def)

interpretation c32: stream_code ser_u32 des_u32 "\<lambda>_. True"
proof
  fix v :: u32 and b rest
  assume "ser_u32 v = Inr b"
  then show "des_u32 (b @ rest) = Inr (v, rest)"
    by (auto simp: ser_u32_def des_u32_def rbind_def readVarint_write ret_def ucast_u32_up)
next
  fix bs rest and v :: u32
  assume "des_u32 bs = Inr (v, rest)"
  then show "True \<and> (\<exists>b. ser_u32 v = Inr b \<and> bs = b @ rest)"
    by (auto simp: ser_u32_def des_u32_def reader_simps ucast_u32_back dest!: readVarint_canonical)
qed (simp add: ser_u32_def)

interpretation c64: stream_code ser_u64 des_u64 "\<lambda>_. True"
  by unfold_locales (auto simp: ser_u64_def des_u64_def readVarint_write dest!: readVarint_canonical)

interpretation pod: stream_code ser_pod "des_pod n" "\<lambda>v. length v = n" for n :: nat
  by unfold_locales (auto simp: ser_pod_def des_pod_def read_bytes_def split: if_splits)

interpretation str: stream_code ser_string des_string size_ok
proof
  fix s b rest :: bytes
  assume ok: "size_ok s"
  show "\<exists>b. ser_string s = Inr b" by (simp add: ser_string_def)
  assume "ser_string s = Inr b"
  define w where "w = (of_nat (length s) :: u64)"
  have w: "unat w = length s" unfolding w_def by (rule size_fits [OF ok])
  then have n: "w \<le> MAX_SERIALIZED_SIZE" "w > 0 \<longleftrightarrow> s \<noteq> []"
    using ok by (simp_all add: size_within size_ok_def word_less_nat_alt)
  have "b = writeVarint w @ s" using \<open>ser_string s = Inr b\<close> by (simp add: ser_string_def w_def)
  then show "des_string (b @ rest) = Inr (s, rest)"
    using size_read_back [OF ok, folded w_def, of "s @ rest"] n w
    by (auto simp: des_string_def rbind_def ret_def read_bytes_def not_less [symmetric])
next
  fix bs s rest :: bytes
  assume "des_string bs = Inr (s, rest)"
  then obtain w bs' where w: "readVarint 64 bs = Inr (w, bs')" "w \<le> MAX_SERIALIZED_SIZE"
      "bs' = s @ rest" "length s = unat w"
    by (auto simp: des_string_def read_bytes_def reader_simps linorder_not_le [symmetric] split: if_splits)
  then show "size_ok s \<and> (\<exists>b. ser_string s = Inr b \<and> bs = b @ rest)"
    using readVarint_canonical [OF w(1)] by (simp add: ser_string_def size_within size_ok_def)
qed

text \<open>To show the contract of a composite: write and read it back at once, then read canonically.\<close>

lemma stream_codeI:
  assumes "\<And>x. ok x \<Longrightarrow> \<exists>b. ser x = Inr b \<and> (\<forall>rest. des (b @ rest) = Inr (x, rest))"
    and "\<And>bs x rest. des bs = Inr (x, rest) \<Longrightarrow> ok x \<and> (\<exists>b. ser x = Inr b \<and> bs = b @ rest)"
  shows "stream_code ser des ok"
proof
  fix x b rest
  assume "ok x"
  then obtain c where c: "ser x = Inr c" "\<And>rest. des (c @ rest) = Inr (x, rest)" using assms(1) by blast
  then show "\<exists>b. ser x = Inr b" by blast
  assume "ser x = Inr b"
  with c show "des (b @ rest) = Inr (x, rest)" by simp
qed (rule assms(2))

lemmas read_write_simps = wcat_def rbind_def ret_def

interpretation a32: stream_code "ser_array ser_u32" "des_array des_u32" "\<lambda>xs. list_all (\<lambda>_. True) xs \<and> size_ok xs"
  by (rule c32.array_code)

interpretation apod: stream_code "ser_array ser_pod" "des_array (des_pod n)"
    "\<lambda>xs. list_all (\<lambda>v. length v = n) xs \<and> size_ok xs" for n :: nat
  by (rule pod.array_code)

end
