(* ===== verification/Keccak.thy ===== *)
theory Keccak
  imports Prelude
begin

text \<open>
  The hash of every object of the chain: \<^verbatim>\<open>src/crypto/keccak.c\<close> and \<^verbatim>\<open>cn_fast_hash\<close> of
  \<^verbatim>\<open>src/crypto/hash.c\<close>. The state is a list of 25 lanes that the loops update in place, in
  the order of the code. The permutation is proved equal to the definition of Keccak on a five by
  five array of lanes, whose rotation offsets and lane positions are computed instead of tabulated.
\<close>

definition keccakf_rndc :: "u64 list" where
  "keccakf_rndc =
    [0x0000000000000001, 0x0000000000008082, 0x800000000000808a,
     0x8000000080008000, 0x000000000000808b, 0x0000000080000001,
     0x8000000080008081, 0x8000000000008009, 0x000000000000008a,
     0x0000000000000088, 0x0000000080008009, 0x000000008000000a,
     0x000000008000808b, 0x800000000000008b, 0x8000000000008089,
     0x8000000000008003, 0x8000000000008002, 0x8000000000000080,
     0x000000000000800a, 0x800000008000000a, 0x8000000080008081,
     0x8000000000008080, 0x0000000080000001, 0x8000000080008008]"

definition keccakf_rotc :: "nat list" where
  "keccakf_rotc =
    [1, 3, 6, 10, 15, 21, 28, 36, 45, 55, 2, 14,
     27, 41, 56, 8, 25, 43, 62, 18, 39, 61, 20, 44]"

definition keccakf_piln :: "nat list" where
  "keccakf_piln =
    [10, 7, 11, 17, 18, 3, 5, 16, 8, 21, 24, 4,
     15, 23, 19, 13, 12, 2, 20, 14, 22, 9, 6, 1]"

definition KECCAK_ROUNDS :: nat where "KECCAK_ROUNDS = 24"

definition ROTL64 :: "u64 \<Rightarrow> nat \<Rightarrow> u64" where
  "ROTL64 x y = push_bit y x OR drop_bit (64 - y) x"

section \<open>The permutation\<close>

text \<open>The four loops of one round of \<^verbatim>\<open>keccakf\<close>, each a fold over its loop variables.\<close>

definition keccak_theta :: "u64 list \<Rightarrow> u64 list" where
  "keccak_theta st =
     (let bc = map (\<lambda>i. st ! i XOR st ! (i + 5) XOR st ! (i + 10) XOR st ! (i + 15) XOR st ! (i + 20)) [0..<5]
      in fold (\<lambda>i st. let t = bc ! ((i + 4) mod 5) XOR ROTL64 (bc ! ((i + 1) mod 5)) 1
                      in fold (\<lambda>j st. st[j + i := st ! (j + i) XOR t]) [0, 5, 10, 15, 20] st)
           [0..<5] st)"

definition keccak_rho_pi :: "u64 list \<Rightarrow> u64 list" where
  "keccak_rho_pi st =
     fst (fold (\<lambda>i (st, t). let j = keccakf_piln ! i in (st[j := ROTL64 t (keccakf_rotc ! i)], st ! j))
           [0..<24] (st, st ! 1))"

definition keccak_chi :: "u64 list \<Rightarrow> u64 list" where
  "keccak_chi st =
     fold (\<lambda>j st. let bc = map (\<lambda>i. st ! (j + i)) [0..<5]
                  in fold (\<lambda>i st. st[j + i := st ! (j + i) XOR (NOT (bc ! ((i + 1) mod 5)) AND bc ! ((i + 2) mod 5))])
                       [0..<5] st)
       [0, 5, 10, 15, 20] st"

definition keccakf :: "u64 list \<Rightarrow> nat \<Rightarrow> u64 list" where
  "keccakf st rounds =
     fold (\<lambda>r st. let st = keccak_chi (keccak_rho_pi (keccak_theta st))
                  in st[0 := st ! 0 XOR keccakf_rndc ! r])
       [0..<rounds] st"

section \<open>The sponge\<close>

text \<open>The casts between bytes and lanes are those of a little-endian machine.\<close>

fun lane_of :: "bytes \<Rightarrow> u64" where
  "lane_of [] = 0"
| "lane_of (b # bs) = ucast b OR push_bit 8 (lane_of bs)"

definition bytes_of_lane :: "u64 \<Rightarrow> bytes" where
  "bytes_of_lane w = map (\<lambda>k. ucast (drop_bit (8 * k) w)) [0..<8]"

definition xor_block :: "nat \<Rightarrow> bytes \<Rightarrow> u64 list \<Rightarrow> u64 list" where
  "xor_block rsizw blk st =
     fold (\<lambda>i st. st[i := st ! i XOR lane_of (take 8 (drop (8 * i) blk))]) [0..<rsizw] st"

text \<open>The loop over the full blocks; the callers' lengths, 32 and 200, both give blocks of 136 bytes.\<close>

function keccak_absorb :: "nat \<Rightarrow> u64 list \<Rightarrow> bytes \<Rightarrow> u64 list \<times> bytes" where
  "keccak_absorb rsiz st inp =
     (if rsiz \<noteq> 0 \<and> rsiz \<le> length inp
      then keccak_absorb rsiz (keccakf (xor_block (rsiz div 8) inp st) KECCAK_ROUNDS) (drop rsiz inp)
      else (st, inp))"
  by pat_completeness auto
termination by (relation "measure (\<lambda>(_, _, inp). length inp)") auto

declare keccak_absorb.simps [simp del]

definition HASH_DATA_AREA :: nat where "HASH_DATA_AREA = 136"

definition pad_block :: "nat \<Rightarrow> bytes \<Rightarrow> bytes" where
  "pad_block rsiz inp =
     (let temp = inp @ [1] @ replicate (rsiz - (length inp + 1)) 0
      in temp[rsiz - 1 := temp ! (rsiz - 1) OR 0x80])"

definition keccak :: "bytes \<Rightarrow> nat \<Rightarrow> bytes" where
  "keccak inp mdlen =
     (let rsiz = (if mdlen = 200 then HASH_DATA_AREA else 200 - 2 * mdlen);
          (st, rest) = keccak_absorb rsiz (replicate 25 0) inp;
          st = keccakf (xor_block (rsiz div 8) (pad_block rsiz rest) st) KECCAK_ROUNDS
      in take mdlen (concat (map bytes_of_lane st)))"

definition keccak1600 :: "bytes \<Rightarrow> bytes" where
  "keccak1600 inp = keccak inp 200"

definition hash_process :: "bytes \<Rightarrow> bytes" where
  "hash_process buf = keccak1600 buf"

definition HASH_SIZE :: nat where "HASH_SIZE = 32"

definition cn_fast_hash :: "bytes \<Rightarrow> hash" where
  "cn_fast_hash data = take HASH_SIZE (hash_process data)"

section \<open>The permutation of the specification\<close>

text \<open>
  Lane \<open>(x, y)\<close> is at position \<open>x + 5 * y\<close>. The offsets of rho are the triangular numbers along the
  walk \<open>(x, y) \<mapsto> (y, 2 * x + 3 * y)\<close> from \<open>(1, 0)\<close>, and pi moves lane \<open>(x, y)\<close> to
  \<open>(y, 2 * x + 3 * y)\<close>.
\<close>

fun rho_walk :: "nat \<Rightarrow> nat \<Rightarrow> nat \<Rightarrow> nat \<Rightarrow> ((nat \<times> nat) \<times> nat) list" where
  "rho_walk 0 t x y = []"
| "rho_walk (Suc n) t x y =
     ((x, y), ((t + 1) * (t + 2) div 2) mod 64) # rho_walk n (t + 1) y ((2 * x + 3 * y) mod 5)"

definition rho_offset :: "nat \<Rightarrow> nat \<Rightarrow> nat" where
  "rho_offset x y = (case map_of (rho_walk 24 0 1 0) (x, y) of Some r \<Rightarrow> r | None \<Rightarrow> 0)"

definition spec_theta :: "u64 list \<Rightarrow> u64 list" where
  "spec_theta A =
     (let C = (\<lambda>x. fold (\<lambda>y c. c XOR A ! (x mod 5 + 5 * y)) [0..<5] 0)
      in map (\<lambda>k. A ! k XOR C (k + 4) XOR ROTL64 (C (k + 1)) 1) [0..<25])"

definition spec_rho_pi :: "u64 list \<Rightarrow> u64 list" where
  "spec_rho_pi A =
     map (\<lambda>k. let y = k mod 5; x = (k mod 5 + 3 * (k div 5)) mod 5
              in ROTL64 (A ! (x + 5 * y)) (rho_offset x y)) [0..<25]"

definition spec_chi :: "u64 list \<Rightarrow> u64 list" where
  "spec_chi A =
     map (\<lambda>k. let x = k mod 5; y = k div 5
              in A ! k XOR (NOT (A ! ((x + 1) mod 5 + 5 * y)) AND A ! ((x + 2) mod 5 + 5 * y))) [0..<25]"

definition spec_round :: "nat \<Rightarrow> u64 list \<Rightarrow> u64 list" where
  "spec_round r A =
     (let B = spec_chi (spec_rho_pi (spec_theta A)) in (B ! 0 XOR keccakf_rndc ! r) # tl B)"

text \<open>
  The sponge with rate 136: the message is padded with a one bit, zeros and a final one bit to a
  multiple of the rate, absorbed block by block, and the digest is the front of the state.
\<close>

definition spec_pad :: "bytes \<Rightarrow> bytes" where
  "spec_pad data =
     (let q = 136 - length data mod 136
      in data @ (if q = 1 then [0x81] else 0x01 # replicate (q - 2) 0 @ [0x80]))"

definition spec_xor :: "bytes \<Rightarrow> u64 list \<Rightarrow> u64 list" where
  "spec_xor blk A =
     map (\<lambda>i. if i < 17 then A ! i XOR lane_of (take 8 (drop (8 * i) blk)) else A ! i) [0..<25]"

fun spec_absorb :: "nat \<Rightarrow> u64 list \<Rightarrow> bytes \<Rightarrow> u64 list" where
  "spec_absorb 0 A msg = A"
| "spec_absorb (Suc n) A msg =
     spec_absorb n (fold spec_round [0..<24] (spec_xor (take 136 msg) A)) (drop 136 msg)"

definition spec_hash :: "bytes \<Rightarrow> hash" where
  "spec_hash data =
     take 32 (concat (map bytes_of_lane
       (spec_absorb (length (spec_pad data) div 136) (replicate 25 0) (spec_pad data))))"

lemma fold_update_length:
  assumes "\<And>x s. length (f x s) = length s"
  shows "length (fold f xs s) = length s"
  using assms by (induction xs arbitrary: s) simp_all

lemma length_theta [simp]: "length (keccak_theta st) = length st"
  by (simp add: keccak_theta_def Let_def fold_update_length)

lemma length_chi [simp]: "length (keccak_chi st) = length st"
  by (simp add: keccak_chi_def Let_def fold_update_length)

lemma rho_pi_fold_length:
  "length (fst (fold (\<lambda>i (st, t). let j = p i in (st[j := g t i], st ! j)) is (st, t))) = length st"
  by (induction "is" arbitrary: st t) (simp_all add: Let_def)

lemma length_rho_pi [simp]: "length (keccak_rho_pi st) = length st"
  unfolding keccak_rho_pi_def by (rule rho_pi_fold_length)

lemma length_keccakf [simp]: "length (keccakf st n) = length st"
  by (simp add: keccakf_def Let_def fold_update_length)

text \<open>With the 25 lanes as variables, each step is evaluated and compared.\<close>

lemma update_Cons_numeral: "(x # xs)[numeral k := v] = x # xs[pred_numeral k := v]"
  by (simp add: numeral_eq_Suc)

lemma upt_5: "[0..<5] = [0, 1, 2, 3, 4::nat]"
  by (simp add: upt_rec_numeral upt_rec [of 0] upt_rec [of "Suc 0"] numeral_2_eq_2 [symmetric])

lemma upt_24: "[0..<24] = [0, 1, 2, 3, 4, 5, 6, 7, 8, 9, 10, 11, 12, 13, 14, 15, 16, 17, 18, 19, 20, 21, 22, 23::nat]"
  by (simp add: upt_rec_numeral upt_rec [of 0] upt_rec [of "Suc 0"] numeral_2_eq_2 [symmetric])

lemma upt_25: "[0..<25] = [0, 1, 2, 3, 4, 5, 6, 7, 8, 9, 10, 11, 12, 13, 14, 15, 16, 17, 18, 19, 20, 21, 22, 23, 24::nat]"
  by (simp add: upt_rec_numeral upt_rec [of 0] upt_rec [of "Suc 0"] numeral_2_eq_2 [symmetric])

lemmas lane_eval = upt_5 upt_24 upt_25 update_Cons_numeral Let_def

lemma lanes_explicit:
  assumes "length st = 25"
  obtains a0 a1 a2 a3 a4 a5 a6 a7 a8 a9 a10 a11 a12 a13 a14 a15 a16 a17 a18 a19 a20 a21 a22 a23 a24
  where "st = [a0, a1, a2, a3, a4, a5, a6, a7, a8, a9, a10, a11, a12, a13, a14, a15, a16, a17, a18, a19,
    a20, a21, a22, a23, a24]"
proof -
  have "map ((!) st) [0..<25] = st" using map_nth [of st] assms by simp
  then have "st = [st ! 0, st ! 1, st ! 2, st ! 3, st ! 4, st ! 5, st ! 6, st ! 7, st ! 8, st ! 9, st ! 10,
    st ! 11, st ! 12, st ! 13, st ! 14, st ! 15, st ! 16, st ! 17, st ! 18, st ! 19, st ! 20,
    st ! 21, st ! 22, st ! 23, st ! 24]"
    by (simp add: upt_25)
  then show ?thesis by (rule that)
qed

lemma theta_eq: "length st = 25 \<Longrightarrow> keccak_theta st = spec_theta st"
  by (erule lanes_explicit) (simp add: keccak_theta_def spec_theta_def lane_eval xor.assoc)

lemma chi_eq: "length st = 25 \<Longrightarrow> keccak_chi st = spec_chi st"
  by (erule lanes_explicit) (simp add: keccak_chi_def spec_chi_def lane_eval)

lemma rho_offsets:
  "map (\<lambda>k. rho_offset ((k mod 5 + 3 * (k div 5)) mod 5) (k mod 5)) [0..<25] =
    [0, 44, 43, 21, 14, 28, 20, 3, 45, 61, 1, 6, 25, 8, 18, 27, 36, 10, 15, 56, 62, 55, 39, 41, 2]"
  unfolding rho_offset_def by code_simp

lemma ROTL64_0: "ROTL64 x 0 = x"
  by (simp add: ROTL64_def drop_bit_word_beyond)

lemma rho_pi_eq: "length st = 25 \<Longrightarrow> keccak_rho_pi st = spec_rho_pi st"
  using rho_offsets
  by (elim lanes_explicit)
    (simp add: keccak_rho_pi_def spec_rho_pi_def lane_eval keccakf_piln_def keccakf_rotc_def ROTL64_0)

lemma length_spec_theta [simp]: "length (spec_theta A) = 25"
  by (simp add: spec_theta_def Let_def)

lemma length_spec_rho_pi [simp]: "length (spec_rho_pi A) = 25"
  by (simp add: spec_rho_pi_def)

lemma length_spec_chi [simp]: "length (spec_chi A) = 25"
  by (simp add: spec_chi_def)

lemma length_spec_round [simp]: "length (spec_round r A) = 25"
  by (simp add: spec_round_def Let_def)

lemma fold_length_25: "length A = 25 \<Longrightarrow> length (fold spec_round rs A) = 25"
  by (induction rs arbitrary: A) simp_all

lemma round_eq:
  assumes "length st = 25"
  shows "(let st = keccak_chi (keccak_rho_pi (keccak_theta st)) in st[0 := st ! 0 XOR c ! r]) =
    (let B = spec_chi (spec_rho_pi (spec_theta st)) in (B ! 0 XOR c ! r) # tl B)"
proof -
  have "spec_chi A = spec_chi A ! 0 # tl (spec_chi A)" for A
    by (cases "spec_chi A") (use length_spec_chi [of A] in auto)
  then show ?thesis
    using assms by (simp add: theta_eq rho_pi_eq chi_eq Let_def) (metis list_update_code(2))
qed

lemma keccakf_eq: "length st = 25 \<Longrightarrow> keccakf st n = fold spec_round [0..<n] st"
proof (induction n)
  case (Suc n)
  have "length (keccakf st n) = 25" using Suc.prems by simp
  from round_eq [OF this, of keccakf_rndc n] show ?case
    using Suc by (simp add: keccakf_def spec_round_def)
qed (simp add: keccakf_def)

lemma fold_update_each:
  assumes "n \<le> length st"
  shows "fold (\<lambda>i st. st[i := f i (st ! i)]) [0..<n] st =
    map (\<lambda>i. if i < n then f i (st ! i) else st ! i) [0..<length st]"
  using assms
proof (induction n)
  case 0
  then show ?case by (simp add: map_nth)
next
  case (Suc n)
  then show ?case
    by (intro nth_equalityI) (auto simp: nth_list_update less_Suc_eq)
qed

lemma xor_block_eq:
  assumes "length st = 25"
  shows "xor_block 17 blk st = spec_xor (take 136 blk) st"
proof -
  have "take 8 (drop (8 * i) (take 136 blk)) = take 8 (drop (8 * i) blk)" if "i < 17" for i
    using that by (simp add: drop_take min_absorb1)
  then show ?thesis
    using assms fold_update_each [of 17 st "\<lambda>i w. w XOR lane_of (take 8 (drop (8 * i) blk))"]
    by (simp add: xor_block_def spec_xor_def)
qed

lemma length_spec_xor [simp]: "length (spec_xor blk A) = 25"
  by (simp add: spec_xor_def)

lemma pad_length_block: "length inp < 136 \<Longrightarrow> pad_block 136 inp = spec_pad inp"
proof -
  assume l: "length inp < 136"
  show ?thesis
  proof (cases "length inp = 135")
    case True
    then show ?thesis
      by (simp add: pad_block_def spec_pad_def Let_def nth_append list_update_append)
  next
    case False
    then obtain m where m: "135 - length inp = Suc m" "136 - (length inp + 1) = Suc m"
      "136 - length inp mod 136 = m + 2" "135 - length inp = Suc m"
      using l that [of "134 - length inp"] False by simp
    then have "135 = length inp + (Suc m)" using l by simp
    moreover have "replicate (Suc m) (0 :: u8) = replicate m 0 @ [0]"
      by (simp add: replicate_append_same)
    ultimately show ?thesis using m
      by (simp add: pad_block_def spec_pad_def Let_def nth_append list_update_append
          del: replicate_Suc)
  qed
qed

lemma spec_pad_step:
  assumes "136 \<le> length inp"
  shows "spec_pad inp = take 136 inp @ spec_pad (drop 136 inp)"
proof -
  have "(length inp - 136) mod 136 = length inp mod 136"
    using assms by (simp add: le_mod_geq)
  then show ?thesis by (simp add: spec_pad_def Let_def)
qed

lemma absorb_eq:
  assumes "length st = 25" "keccak_absorb 136 st inp = (st', rest)"
  shows "keccakf (xor_block 17 (pad_block 136 rest) st') KECCAK_ROUNDS =
    spec_absorb (Suc (length inp div 136)) st (spec_pad inp)"
  using assms
proof (induction "136 :: nat" st inp rule: keccak_absorb.induct)
  case (1 st inp)
  show ?case
  proof (cases "136 \<le> length inp")
    case True
    have d: "length inp div 136 = Suc (length (drop 136 inp) div 136)"
      using True by (simp add: le_div_geq)
    have "keccak_absorb 136 (keccakf (xor_block 17 inp st) KECCAK_ROUNDS) (drop 136 inp) = (st', rest)"
      using "1.prems"(2) True by (subst (asm) keccak_absorb.simps) simp
    moreover have "length (fold spec_round [0..<24] (spec_xor (take 136 inp) st)) = 25"
      by (rule fold_length_25) simp
    ultimately show ?thesis using 1 True
      by (simp add: d spec_pad_step xor_block_eq keccakf_eq KECCAK_ROUNDS_def del: spec_absorb.simps(1))
  next
    case False
    then have "st' = st" "rest = inp"
      using "1.prems"(2) by (simp_all add: keccak_absorb.simps)
    with False 1(2) show ?thesis
      by (simp add: pad_length_block xor_block_eq keccakf_eq KECCAK_ROUNDS_def)
  qed
qed

lemma rate_multiple: "q * 136 + r = n \<Longrightarrow> r < 136 \<Longrightarrow> n + (136 - r) = 136 * Suc q"
  for n q r :: nat
  by simp

lemma length_spec_pad: "length (spec_pad inp) div 136 = Suc (length inp div 136)"
proof -
  have "length (spec_pad inp) = length inp + (136 - length inp mod 136)"
    by (auto simp: spec_pad_def Let_def)
  also have "\<dots> = 136 * Suc (length inp div 136)"
    using rate_multiple [of "length inp div 136" "length inp mod 136" "length inp"] by simp
  finally show ?thesis by simp
qed

lemma keccak_200:
  assumes "keccak_absorb 136 (replicate 25 0) inp = (st, rest)"
  shows "keccak inp 200 =
    take 200 (concat (map bytes_of_lane (keccakf (xor_block 17 (pad_block 136 rest) st) KECCAK_ROUNDS)))"
proof -
  have "136 div 8 = (17 :: nat)" by simp
  then show ?thesis
    unfolding keccak_def HASH_DATA_AREA_def by (simp only: refl if_True Let_def assms prod.case)
qed

lemma length_absorb: "length (fst (keccak_absorb rsiz st inp)) = length st"
proof (induction rsiz st inp rule: keccak_absorb.induct)
  case (1 rsiz st inp)
  then show ?case
    by (subst keccak_absorb.simps) (simp add: xor_block_def fold_update_length)
qed

lemma length_cn_fast_hash [simp]: "length (cn_fast_hash data) = 32"
proof -
  obtain st rest where a: "keccak_absorb 136 (replicate 25 0) data = (st, rest)"
    by (cases "keccak_absorb 136 (replicate 25 0) data")
  have "length st = 25" using length_absorb [of 136 "replicate 25 0" data] by (simp only: a fst_conv length_replicate)
  then have l: "length (keccakf (xor_block 17 (pad_block 136 rest) st) KECCAK_ROUNDS) = 25"
    by (simp add: xor_block_def fold_update_length)
  have "length (concat (map bytes_of_lane sts)) = 8 * length sts" for sts
    by (induction sts) (simp_all add: bytes_of_lane_def)
  then show ?thesis
    unfolding cn_fast_hash_def hash_process_def keccak1600_def keccak_200 [OF a] HASH_SIZE_def
    by (simp only: length_take l)
qed


end
