(* ===== verification/TreeHash.thy ===== *)
theory TreeHash
  imports Keccak CryptoNoteTypes
begin

text \<open>
  The Merkle tree of a block's transactions, \<^verbatim>\<open>src/crypto/tree-hash.c\<close>. Counts are
  \<^verbatim>\<open>size_t\<close> words and the smearing and doubling loops work on them bit by bit; the array
  \<^verbatim>\<open>ints\<close> is a list updated in place, in the order of the loops. The root is proved to be that of
  the tree whose first level pads the leaves to a power of two, and a branch computed by
  \<^verbatim>\<open>tree_branch\<close> proves the first leaf against that root.
\<close>

definition hash2 :: "hash \<Rightarrow> hash \<Rightarrow> hash" where
  "hash2 a b = cn_fast_hash (a @ b)"

text \<open>The largest power of two below \<open>count\<close>: smear the top bit of \<open>count - 1\<close> down and keep it.\<close>

definition tree_hash_cnt :: "usize \<Rightarrow> usize" where
  "tree_hash_cnt count =
     (let cnt = fold (\<lambda>i cnt. cnt OR drop_bit i cnt) [1, 2, 4, 8, 16, 32] (count - 1)
      in cnt AND NOT (drop_bit 1 cnt))"

text \<open>\<open>for (i = i0, j = j0; j < n; i += 2, ++j) cn_fast_hash(from[i], 2 * HASH_SIZE, ints[j])\<close>, the
  source array being another one or \<^verbatim>\<open>ints\<close> itself.\<close>

fun hash_pairs_from :: "hash list \<Rightarrow> nat \<Rightarrow> nat \<Rightarrow> nat \<Rightarrow> hash list \<Rightarrow> hash list" where
  "hash_pairs_from hashes i j 0 ints = ints"
| "hash_pairs_from hashes i j (Suc n) ints =
     hash_pairs_from hashes (i + 2) (j + 1) n (ints[j := hash2 (hashes ! i) (hashes ! (i + 1))])"

fun hash_pairs_in_place :: "nat \<Rightarrow> nat \<Rightarrow> nat \<Rightarrow> hash list \<Rightarrow> hash list" where
  "hash_pairs_in_place i j 0 ints = ints"
| "hash_pairs_in_place i j (Suc n) ints =
     hash_pairs_in_place (i + 2) (j + 1) n (ints[j := hash2 (ints ! i) (ints ! (i + 1))])"

text \<open>\<open>while (cnt > 2)\<close> of \<^verbatim>\<open>tree_hash\<close>.\<close>

function tree_hash_loop :: "nat \<Rightarrow> hash list \<Rightarrow> hash list" where
  "tree_hash_loop cnt ints =
     (if 2 < cnt
      then let cnt = cnt div 2 in tree_hash_loop cnt (hash_pairs_in_place 0 0 cnt ints)
      else ints)"
  by pat_completeness auto
termination by (relation "measure fst") auto

declare tree_hash_loop.simps [simp del]

definition tree_hash :: "hash list \<Rightarrow> hash result" where
  "tree_hash hashes =
     (let count = length hashes in
      assert_res (0 < count)
       (if count = 1 then Inr (hashes ! 0)
        else if count = 2 then Inr (hash2 (hashes ! 0) (hashes ! 1))
        else let cnt = unat (tree_hash_cnt (of_nat count));
                 ints = take (2 * cnt - count) hashes @ replicate (count - cnt) NULL_HASH;
                 ints = hash_pairs_from hashes (2 * cnt - count) (2 * cnt - count) (cnt - (2 * cnt - count)) ints
             in assert_res (2 * cnt - count + 2 * (cnt - (2 * cnt - count)) = count)
                 (let ints = tree_hash_loop cnt ints in Inr (hash2 (ints ! 0) (ints ! 1)))))"

definition tree_depth :: "usize \<Rightarrow> usize result" where
  "tree_depth count =
     assert_res (count > 0)
      (Inr (snd (fold (\<lambda>i (count, depth). if drop_bit i count > 0
                                          then (drop_bit i count, depth + of_nat i)
                                          else (count, depth))
                  [32, 16, 8, 4, 2, 1] (count, 0))))"

text \<open>\<open>while (depth > 0)\<close> of \<^verbatim>\<open>tree_branch\<close>; \<open>branch\<close> is the caller's array.\<close>

fun tree_branch_loop :: "nat \<Rightarrow> nat \<Rightarrow> hash list \<Rightarrow> hash list \<Rightarrow> hash list result" where
  "tree_branch_loop 0 cnt ints branch = Inr branch"
| "tree_branch_loop (Suc depth) cnt ints branch =
     assert_res (cnt = 2 ^ Suc depth)
      (let cnt = cnt div 2;
           branch = branch[depth := ints ! 0];
           ints = hash_pairs_in_place 1 0 (cnt - 1) ints
       in tree_branch_loop depth cnt ints branch)"

definition tree_branch_cnt :: "usize \<Rightarrow> usize \<times> usize" where
  "tree_branch_cnt count =
     fold (\<lambda>i (cnt, depth). if push_bit i cnt \<le> count
                            then (push_bit i cnt, depth + of_nat i) else (cnt, depth))
       [32, 16, 8, 4, 2, 1] (1, 0)"

definition tree_branch :: "hash list \<Rightarrow> hash list result" where
  "tree_branch hashes =
     (let count = length hashes in
      assert_res (0 < count)
       (let (wcnt, wdepth) = tree_branch_cnt (of_nat count);
            cnt = unat wcnt; depth = unat wdepth
        in assert_res (wcnt = push_bit depth 1)
            (assert_res (tree_depth (of_nat count) = Inr wdepth)
              (let keep = 2 * cnt - count - 1;
                   ints = take keep (tl hashes) @ replicate (cnt - 1 - keep) NULL_HASH;
                   ints = hash_pairs_from hashes (2 * cnt - count) keep (cnt - 1 - keep) ints
               in assert_res (2 * cnt - count + 2 * (cnt - 1 - keep) = count)
                   (tree_branch_loop depth cnt ints (replicate depth NULL_HASH))))))"

fun from_branch_loop :: "hash list \<Rightarrow> hash \<Rightarrow> bytes option \<Rightarrow> nat \<Rightarrow> bool \<Rightarrow> hash list \<Rightarrow> hash list" where
  "from_branch_loop branch leaf path 0 from_leaf buffer = buffer"
| "from_branch_loop branch leaf path (Suc depth) from_leaf buffer =
     (let right = (case path of None \<Rightarrow> False | Some p \<Rightarrow> bit (p ! (depth div 8)) (depth mod 8));
          leaf_path = (if right then 1 else 0);
          branch_path = (if right then 0 else 1);
          buffer = buffer[leaf_path := if from_leaf then leaf else hash2 (buffer ! 0) (buffer ! 1)];
          buffer = buffer[branch_path := branch ! depth]
      in from_branch_loop branch leaf path depth False buffer)"

definition tree_hash_from_branch :: "hash list \<Rightarrow> nat \<Rightarrow> hash \<Rightarrow> bytes option \<Rightarrow> hash" where
  "tree_hash_from_branch branch depth leaf path =
     (if depth = 0 then leaf
      else let buffer = from_branch_loop branch leaf path depth True [NULL_HASH, NULL_HASH]
           in hash2 (buffer ! 0) (buffer ! 1))"

section \<open>The tree\<close>

text \<open>One level up, and the root after \<open>d\<close> levels; the first level hashes the trailing leaves in pairs
  so that a power of two remains.\<close>

fun pair_up :: "hash list \<Rightarrow> hash list" where
  "pair_up (a # b # hs) = hash2 a b # pair_up hs"
| "pair_up hs = []"

fun merkle_root :: "nat \<Rightarrow> hash list \<Rightarrow> hash" where
  "merkle_root 0 hs = hd hs"
| "merkle_root (Suc d) hs = merkle_root d (pair_up hs)"

definition first_level :: "nat \<Rightarrow> hash list \<Rightarrow> hash list" where
  "first_level d hs =
     (let keep = 2 * 2 ^ d - length hs in take keep hs @ pair_up (drop keep hs))"

section \<open>Powers of two on words\<close>

lemma smear_step:
  fixes c m :: u64
  assumes "\<And>n. bit c n \<longleftrightarrow> (\<exists>j<w. bit m (n + j))"
  shows "bit (c OR drop_bit w c) n \<longleftrightarrow> (\<exists>j<2 * w. bit m (n + j))"
proof -
  have "bit (c OR drop_bit w c) n \<longleftrightarrow> (\<exists>j<w. bit m (n + j)) \<or> (\<exists>j<w. bit m (n + (w + j)))"
    by (simp add: bit_simps assms ac_simps)
  also have "\<dots> \<longleftrightarrow> (\<exists>j<2 * w. bit m (n + j))"
  proof
    assume "\<exists>j<2 * w. bit m (n + j)"
    then obtain j where j: "j < 2 * w" "bit m (n + j)" by auto
    then show "(\<exists>j<w. bit m (n + j)) \<or> (\<exists>j<w. bit m (n + (w + j)))"
      by (cases "j < w") (auto intro: exI [of _ "j - w"])
  next
    assume "(\<exists>j<w. bit m (n + j)) \<or> (\<exists>j<w. bit m (n + (w + j)))"
    then obtain j k where "j < w" "k = j \<or> k = w + j" "bit m (n + k)" by blast
    then show "\<exists>j<2 * w. bit m (n + j)" by (intro exI [of _ k]) auto
  qed
  finally show ?thesis .
qed

lemma bit_unat_div: "bit (m :: u64) n \<longleftrightarrow> odd (unat m div 2 ^ n)"
proof -
  have "bit m n \<longleftrightarrow> bit (unat m) n" by (simp add: bit_unsigned_iff)
  then show ?thesis by (simp add: bit_iff_odd)
qed

lemma top_bit:
  fixes m :: u64
  assumes "2 ^ k \<le> unat m" "unat m < 2 ^ Suc k"
  shows "bit m n \<Longrightarrow> n \<le> k" and "bit m k"
proof -
  have "unat m div 2 ^ k = 1" using assms by (simp add: div_nat_eqI)
  then show "bit m k" by (simp add: bit_unat_div)
  show "n \<le> k" if "bit m n"
  proof (rule ccontr)
    assume "\<not> n \<le> k"
    then have "(2 :: nat) ^ Suc k \<le> 2 ^ n" by (intro power_increasing) simp_all
    then have "unat m div 2 ^ n = 0" using assms(2) by simp
    then show False using that by (simp add: bit_unat_div)
  qed
qed

lemma unat_power_of_two: "k < 64 \<Longrightarrow> unat (2 ^ k :: u64) = 2 ^ k"
  using unat_of_nat_u64 [of "2 ^ k"] power_strict_increasing [of k 64 "2 :: nat"] by simp

definition smear :: "u64 \<Rightarrow> u64" where
  "smear m = fold (\<lambda>i cnt. cnt OR drop_bit i cnt) [1, 2, 4, 8, 16, 32] m"

lemma bit_smear: "bit (smear m) n \<longleftrightarrow> (\<exists>j<64. bit m (n + j))"
proof -
  have step: "\<forall>n. bit (c OR drop_bit w c) n \<longleftrightarrow> (\<exists>j<2 * w. bit m (n + j))"
    if "\<forall>n. bit c n \<longleftrightarrow> (\<exists>j<w. bit m (n + j))" for c :: u64 and w
    using that smear_step [of c w m] by blast
  have "\<forall>n. bit m n \<longleftrightarrow> (\<exists>j<1. bit m (n + j))" by simp
  from this [THEN step, THEN step, THEN step, THEN step, THEN step, THEN step]
  have "\<forall>n. bit (smear m) n \<longleftrightarrow> (\<exists>j<2 * (2 * (2 * (2 * (2 * (2 * 1))))). bit m (n + j))"
    by (simp only: smear_def fold_simps mult_1_right mult_2_right numeral_plus_numeral) simp
  then show ?thesis by simp
qed

lemma tree_hash_cnt_eq:
  assumes "2 ^ k < unat count" "unat count \<le> 2 ^ Suc k"
  shows "unat (tree_hash_cnt count) = 2 ^ k"
proof -
  define m where "m = count - 1"
  have "unat m = unat count - 1"
    using assms(1) by (simp add: m_def unat_sub word_le_nat_alt)
  then have "2 ^ k \<le> unat m" "unat m < 2 ^ Suc k" using assms by simp_all
  note top = top_bit [OF this]
  have k: "k < 64" using top(2) by (auto dest: bit_imp_le_length)
  have b: "bit (smear m) n \<longleftrightarrow> n \<le> k" for n
  proof
    assume "bit (smear m) n"
    then show "n \<le> k" using top(1) by (fastforce simp: bit_smear)
  next
    assume "n \<le> k"
    then show "bit (smear m) n"
      using top(2) k unfolding bit_smear by (intro exI [of _ "k - n"]) simp
  qed
  have "smear m AND NOT (drop_bit 1 (smear m)) = 2 ^ k"
    by (rule bit_word_eqI) (auto simp: bit_simps b)
  then show ?thesis
    unfolding tree_hash_cnt_def Let_def smear_def [symmetric] m_def [symmetric]
    by (simp only: unat_power_of_two [OF k])
qed

section \<open>The depth of the tree\<close>

text \<open>Both binary searches keep the bits of \<open>count\<close> above the depth found so far below a bound that
  each test halves.\<close>

definition depth_step :: "nat \<Rightarrow> usize \<times> usize \<Rightarrow> usize \<times> usize" where
  "depth_step i = (\<lambda>(count, depth). if drop_bit i count > 0
                                    then (drop_bit i count, depth + of_nat i) else (count, depth))"

definition cnt_step :: "usize \<Rightarrow> nat \<Rightarrow> usize \<times> usize \<Rightarrow> usize \<times> usize" where
  "cnt_step count i = (\<lambda>(cnt, depth). if push_bit i cnt \<le> count
                                     then (push_bit i cnt, depth + of_nat i) else (cnt, depth))"

definition depth_ok :: "usize \<Rightarrow> nat \<Rightarrow> nat \<Rightarrow> bool" where
  "depth_ok count w d \<longleftrightarrow> d + w \<le> 64 \<and> 2 ^ d \<le> unat count \<and> unat count < 2 ^ (d + w)"

lemma depth_ok_half:
  assumes "depth_ok count (2 * i) d"
  shows "2 ^ (d + i) \<le> unat count \<Longrightarrow> depth_ok count i (d + i)"
    and "\<not> 2 ^ (d + i) \<le> unat count \<Longrightarrow> depth_ok count i d"
  using assms by (auto simp: depth_ok_def mult_2 add.assoc)

lemma depth_step_ok:
  assumes "depth_ok count (2 * i) d" "0 < i"
  shows "\<exists>d'. depth_step i (drop_bit d count, of_nat d) = (drop_bit d' count, of_nat d') \<and>
    cnt_step count i (push_bit d 1, of_nat d) = (push_bit d' 1, of_nat d') \<and> depth_ok count i d'"
proof -
  have d: "d + i < 64" using assms by (simp add: depth_ok_def)
  have drop: "drop_bit i (drop_bit d count) > 0 \<longleftrightarrow> 2 ^ (d + i) \<le> unat count"
    by (simp add: word_less_nat_alt unat_drop_bit_nat div_greater_zero_iff power_add mult.commute)
  have p: "push_bit i (2 ^ d :: u64) = 2 ^ (d + i)"
    by (simp add: push_bit_eq_mult power_add mult.commute)
  have push: "push_bit i (2 ^ d) \<le> count \<longleftrightarrow> 2 ^ (d + i) \<le> unat count"
    using unat_power_of_two [OF d] by (simp only: p word_le_nat_alt)
  show ?thesis
  proof (cases "2 ^ (d + i) \<le> unat count")
    case True
    then show ?thesis
      using depth_ok_half(1) [OF assms(1)] drop push p
      by (intro exI [of _ "d + i"]) (simp add: depth_step_def cnt_step_def add.commute)
  next
    case False
    then show ?thesis
      using depth_ok_half(2) [OF assms(1)] drop push
      by (intro exI [of _ d]) (simp add: depth_step_def cnt_step_def)
  qed
qed

lemma depth_search:
  assumes "0 < unat count"
  obtains d where "2 ^ d \<le> unat count" "unat count < 2 ^ Suc d" "d < 64"
    "tree_depth count = Inr (of_nat d)" "tree_branch_cnt count = (push_bit d 1, of_nat d)"
proof -
  have "depth_ok count (2 * 32) 0" using assms unsigned_less [of count] by (simp add: depth_ok_def)
  then obtain d1 where 1: "depth_step 32 (drop_bit 0 count, of_nat 0) = (drop_bit d1 count, of_nat d1)"
    "cnt_step count 32 (push_bit 0 1, of_nat 0) = (push_bit d1 1, of_nat d1)" "depth_ok count (2 * 16) d1"
    using depth_step_ok [of count 32 0] by auto
  obtain d2 where 2: "depth_step 16 (drop_bit d1 count, of_nat d1) = (drop_bit d2 count, of_nat d2)"
    "cnt_step count 16 (push_bit d1 1, of_nat d1) = (push_bit d2 1, of_nat d2)" "depth_ok count (2 * 8) d2"
    using depth_step_ok [OF 1(3)] by auto
  obtain d3 where 3: "depth_step 8 (drop_bit d2 count, of_nat d2) = (drop_bit d3 count, of_nat d3)"
    "cnt_step count 8 (push_bit d2 1, of_nat d2) = (push_bit d3 1, of_nat d3)" "depth_ok count (2 * 4) d3"
    using depth_step_ok [OF 2(3)] by auto
  obtain d4 where 4: "depth_step 4 (drop_bit d3 count, of_nat d3) = (drop_bit d4 count, of_nat d4)"
    "cnt_step count 4 (push_bit d3 1, of_nat d3) = (push_bit d4 1, of_nat d4)" "depth_ok count (2 * 2) d4"
    using depth_step_ok [OF 3(3)] by auto
  obtain d5 where 5: "depth_step 2 (drop_bit d4 count, of_nat d4) = (drop_bit d5 count, of_nat d5)"
    "cnt_step count 2 (push_bit d4 1, of_nat d4) = (push_bit d5 1, of_nat d5)" "depth_ok count (2 * 1) d5"
    using depth_step_ok [OF 4(3)] by auto
  obtain d where d: "depth_step 1 (drop_bit d5 count, of_nat d5) = (drop_bit d count, of_nat d)"
    "cnt_step count 1 (push_bit d5 1, of_nat d5) = (push_bit d 1, of_nat d)" "depth_ok count 1 d"
    using depth_step_ok [OF 5(3)] by auto
  show ?thesis
  proof (rule that)
    show "tree_depth count = Inr (of_nat d)"
      using assms 1(1) 2(1) 3(1) 4(1) 5(1) d(1)
      unfolding tree_depth_def depth_step_def [symmetric] fold_simps
      by (simp only: push_bit_0_id drop_bit_0 of_nat_0) (simp add: word_less_nat_alt)
    show "tree_branch_cnt count = (push_bit d 1, of_nat d)"
      using 1(2) 2(2) 3(2) 4(2) 5(2) d(2)
      unfolding tree_branch_cnt_def cnt_step_def [symmetric] fold_simps by simp
  qed (use d(3) in \<open>auto simp: depth_ok_def\<close>)
qed

section \<open>The loops as levels of the tree\<close>

definition pairs_at :: "hash list \<Rightarrow> nat \<Rightarrow> nat \<Rightarrow> hash list" where
  "pairs_at hs i n = map (\<lambda>k. hash2 (hs ! (i + 2 * k)) (hs ! (i + 2 * k + 1))) [0..<n]"

lemma pairs_at_Suc: "pairs_at hs i (Suc n) = hash2 (hs ! i) (hs ! (i + 1)) # pairs_at hs (i + 2) n"
  unfolding pairs_at_def by (simp add: upt_conv_Cons map_Suc_upt [symmetric] del: upt_Suc)

lemma length_pairs_at [simp]: "length (pairs_at hs i n) = n"
  by (simp add: pairs_at_def)

lemma pair_up_pairs_at: "pair_up hs = pairs_at hs 0 (length hs div 2)"
proof (induction hs rule: pair_up.induct)
  case (1 a b hs)
  have "pairs_at (a # b # hs) 2 n = pairs_at hs 0 n" for n by (simp add: pairs_at_def)
  with 1 show ?case by (simp add: pairs_at_Suc flip: numeral_2_eq_2)
qed (simp_all add: pairs_at_def)

lemma length_pair_up [simp]: "length (pair_up hs) = length hs div 2"
  by (simp add: pair_up_pairs_at)

lemma pairs_at_cong:
  "(\<And>k. i \<le> k \<Longrightarrow> k < i + 2 * n \<Longrightarrow> hs ! k = hs' ! k) \<Longrightarrow> pairs_at hs i n = pairs_at hs' i n"
  by (auto simp: pairs_at_def)

lemma hash_pairs_from_eq:
  assumes "j + n \<le> length ints"
  shows "hash_pairs_from hs i j n ints = take j ints @ pairs_at hs i n @ drop (j + n) ints"
  using assms
proof (induction n arbitrary: i j ints)
  case 0
  then show ?case by (simp add: pairs_at_def)
next
  case (Suc n)
  then show ?case
    by (simp add: pairs_at_Suc take_Suc_conv_app_nth drop_update_cancel)
qed

lemma hash_pairs_in_place_eq:
  assumes "j + n \<le> length ints" "j \<le> i"
  shows "hash_pairs_in_place i j n ints = take j ints @ pairs_at ints i n @ drop (j + n) ints"
  using assms
proof (induction n arbitrary: i j ints)
  case 0
  then show ?case by (simp add: pairs_at_def)
next
  case (Suc n)
  have "pairs_at (ints[j := v]) (i + 2) n = pairs_at ints (i + 2) n" for v
    using Suc.prems(2) by (intro pairs_at_cong) simp
  with Suc show ?case
    by (simp add: pairs_at_Suc take_Suc_conv_app_nth drop_update_cancel)
qed

lemma pairs_at_drop: "i \<le> length hs \<Longrightarrow> pairs_at hs i n = pairs_at (drop i hs) 0 n"
  by (simp add: pairs_at_def nth_drop add.assoc)

lemma take_pairs_level:
  assumes "2 * n \<le> length ints"
  shows "take n (hash_pairs_in_place 0 0 n ints) = pair_up (take (2 * n) ints)"
proof -
  have "pairs_at ints 0 n = pairs_at (take (2 * n) ints) 0 n"
    by (intro pairs_at_cong) simp
  with assms show ?thesis by (simp add: hash_pairs_in_place_eq pair_up_pairs_at min_absorb2)
qed

lemma tree_hash_loop_root:
  assumes "2 ^ Suc d \<le> length ints" "r = tree_hash_loop (2 ^ Suc d) ints"
  shows "hash2 (r ! 0) (r ! 1) = merkle_root (Suc d) (take (2 ^ Suc d) ints)"
  using assms
proof (induction d arbitrary: ints)
  case 0
  then obtain a b rest where "ints = a # b # rest"
    by (cases ints; cases "tl ints") auto
  with 0 show ?case by (simp add: tree_hash_loop.simps)
next
  case (Suc d)
  define ints' where "ints' = hash_pairs_in_place 0 0 (2 ^ Suc d) ints"
  have l: "2 * 2 ^ Suc d \<le> length ints" using Suc.prems(1) by simp
  have len: "2 ^ Suc d \<le> length ints'"
    using l by (simp add: ints'_def hash_pairs_in_place_eq)
  have "2 < (2 :: nat) ^ Suc (Suc d)" using power_strict_increasing [of 1 "Suc (Suc d)" "2 :: nat"] by simp
  then have "r = tree_hash_loop (2 ^ Suc d) ints'"
    using Suc.prems(2) by (subst (asm) tree_hash_loop.simps) (simp add: ints'_def Let_def)
  from Suc.IH [OF len this] take_pairs_level [OF l] show ?case by (simp add: ints'_def)
qed

lemma first_level_eq:
  assumes "2 ^ d \<le> length hs" "length hs \<le> 2 * 2 ^ d" "keep = 2 * 2 ^ d - length hs"
  shows "take keep hs @ pairs_at hs keep (2 ^ d - keep) = first_level d hs"
proof -
  have "(length hs - keep) div 2 = 2 ^ d - keep" "keep \<le> length hs" using assms by auto
  then show ?thesis
    by (simp add: first_level_def Let_def pair_up_pairs_at pairs_at_drop [of keep] flip: assms(3))
qed

lemma length_first_level:
  assumes "2 ^ d \<le> length hs" "length hs \<le> 2 * 2 ^ d"
  shows "length (first_level d hs) = 2 ^ d"
proof -
  define keep where "keep = 2 * 2 ^ d - length hs"
  have "keep \<le> 2 ^ d" "keep \<le> length hs" using assms by (auto simp: keep_def)
  then show ?thesis
    using first_level_eq [OF assms keep_def, symmetric] by simp
qed

text \<open>A full level is its own first level one step further down.\<close>

lemma first_level_full:
  assumes "length hs = 2 * 2 ^ k"
  shows "merkle_root k (first_level k hs) = merkle_root (Suc k) (first_level (Suc k) hs)"
  using assms by (simp add: first_level_def)

lemma tree_hash_many:
  assumes "2 < length hs" "length hs \<le> 2 ^ 63" "2 ^ k < length hs" "length hs \<le> 2 * 2 ^ k"
  shows "tree_hash hs = Inr (merkle_root k (first_level k hs))"
proof -
  define keep where "keep = 2 * 2 ^ k - length hs"
  have n: "unat (of_nat (length hs) :: u64) = length hs"
    using assms(2) by (intro unat_of_nat_u64) simp
  then have cnt: "unat (tree_hash_cnt (of_nat (length hs))) = 2 ^ k"
    using assms(3,4) by (intro tree_hash_cnt_eq) simp_all
  define ints where "ints = first_level k hs"
  have keep: "keep \<le> 2 ^ k" "keep \<le> length hs" "length hs - 2 ^ k = 2 ^ k - keep"
    "keep + 2 * (2 ^ k - keep) = length hs"
    using assms(3,4) by (auto simp: keep_def)
  have lens: "2 ^ k \<le> length hs" using assms(3) by simp
  have ints: "hash_pairs_from hs keep keep (2 ^ k - keep)
      (take keep hs @ replicate (length hs - 2 ^ k) NULL_HASH) = ints"
    using keep first_level_eq [OF lens assms(4) keep_def] by (simp add: hash_pairs_from_eq ints_def)
  obtain d where d: "k = Suc d" using assms(1,4) by (cases k) auto
  have l: "length ints = 2 ^ k" unfolding ints_def by (rule length_first_level [OF lens assms(4)])
  have "hash2 (tree_hash_loop (2 ^ k) ints ! 0) (tree_hash_loop (2 ^ k) ints ! 1) =
      merkle_root k (take (2 ^ k) ints)"
    unfolding d by (rule tree_hash_loop_root) (simp_all add: l [unfolded d])
  then show ?thesis
    using assms(1) ints l keep(4)
    unfolding tree_hash_def Let_def cnt keep_def [symmetric]
    by (auto simp: ints_def assert_res_def)
qed

lemma tree_hash_root:
  assumes "hs \<noteq> []" "length hs \<le> 2 ^ 63" "2 ^ d \<le> length hs" "length hs < 2 ^ Suc d"
  shows "tree_hash hs = Inr (merkle_root d (first_level d hs))"
proof (cases "length hs \<le> 2")
  case True
  then consider a where "hs = [a]" | a b where "hs = [a, b]"
    using assms(1) by (cases hs; cases "tl hs"; cases "tl (tl hs)") auto
  then show ?thesis
  proof cases
    case 1
    then have "(2 :: nat) ^ d < 2 ^ 1" using assms(3) by simp
    then have "d = 0" by (simp only: power_strict_increasing_iff)
    with 1 show ?thesis by (simp add: tree_hash_def first_level_def)
  next
    case 2
    then have "(2 :: nat) ^ d < 2 ^ 2" "(2 :: nat) ^ 1 < 2 ^ Suc d" using assms(3,4) by simp_all
    then have "d = 1" by (simp only: power_strict_increasing_iff)
    with 2 show ?thesis by (simp add: tree_hash_def first_level_def)
  qed
next
  case False
  show ?thesis
  proof (cases "length hs = 2 ^ d")
    case True
    then obtain k where k: "d = Suc k" using False by (cases d) auto
    have "tree_hash hs = Inr (merkle_root k (first_level k hs))"
      using False True assms(2) by (intro tree_hash_many) (auto simp: k)
    then show ?thesis using first_level_full [of hs k] True by (simp add: k)
  qed (use False assms tree_hash_many [of hs d] in auto)
qed

section \<open>The branch of the first leaf\<close>

fun branch_of :: "nat \<Rightarrow> hash list \<Rightarrow> hash list" where
  "branch_of 0 hs = []"
| "branch_of (Suc d) hs = branch_of d (pair_up hs) @ [hs ! 1]"

lemma length_branch_of [simp]: "length (branch_of d hs) = d"
  by (induction d arbitrary: hs) simp_all

lemma tree_branch_loop_eq:
  assumes "length hs = 2 ^ d" "length ints \<ge> 2 ^ d - 1" "take (2 ^ d - 1) ints = tl hs" "d \<le> length br"
  shows "tree_branch_loop d (2 ^ d) ints br = Inr (branch_of d hs @ drop d br)"
  using assms
proof (induction d arbitrary: hs ints br)
  case (Suc d)
  define ints' where "ints' = hash_pairs_in_place 1 0 (2 ^ d - 1) ints"
  obtain a b rest where hs: "hs = a # b # rest"
    using Suc.prems(1) by (cases hs; cases "tl hs") auto
  obtain n where n: "(2 :: nat) ^ d = Suc n" by (cases "(2 :: nat) ^ d") simp_all
  then have pow: "2 ^ d - 1 = n" "2 ^ Suc d - 1 = Suc (2 * n)" by simp_all
  have rest: "length rest = 2 * n" using Suc.prems(1) hs by (simp add: n)
  have nth: "ints ! k = (b # rest) ! k" if "k < Suc (2 * n)" for k
    using arg_cong [OF Suc.prems(3), of "\<lambda>xs. xs ! k"] that hs unfolding pow by simp
  have "pairs_at ints 1 n = pairs_at (b # rest) 1 n"
    by (intro pairs_at_cong nth) simp
  also have "\<dots> = pair_up rest"
    using rest pairs_at_drop [of 1 "b # rest" n] by (simp add: pair_up_pairs_at)
  finally have "take n ints' = tl (pair_up hs)" "n \<le> length ints'"
    using Suc.prems(2) hs rest unfolding pow by (simp_all add: ints'_def n hash_pairs_in_place_eq)
  then have i: "take (2 ^ d - 1) ints' = tl (pair_up hs)" "2 ^ d - 1 \<le> length ints'"
    by (simp_all add: n)
  have "tree_branch_loop d (2 ^ d) ints' (br[d := ints ! 0]) =
      Inr (branch_of d (pair_up hs) @ drop d (br[d := ints ! 0]))"
    using Suc.prems i by (intro Suc.IH) simp_all
  moreover have "drop d (br[d := b]) = b # drop (Suc d) br"
    using Suc.prems(4) by (simp add: drop_update_swap Cons_nth_drop_Suc [symmetric])
  ultimately show ?case using nth [of 0] hs by (simp add: ints'_def)
qed simp

lemma from_branch_root:
  assumes "length hs = 2 ^ Suc d" "length buffer = 2" "take (Suc d) branch = branch_of (Suc d) hs"
    "(if from_leaf then leaf else hash2 (buffer ! 0) (buffer ! 1)) = hs ! 0"
    "r = from_branch_loop branch leaf None (Suc d) from_leaf buffer"
  shows "hash2 (r ! 0) (r ! 1) = merkle_root (Suc d) hs"
  using assms
proof (induction d arbitrary: hs from_leaf buffer)
  case 0
  then obtain a b where "hs = [a, b]" by (cases hs; cases "tl hs") auto
  moreover from 0 obtain x y where "buffer = [x, y]" by (cases buffer; cases "tl buffer") auto
  moreover have "branch ! 0 = hs ! 1" using arg_cong [OF 0(3), of "\<lambda>xs. xs ! 0"] by simp
  ultimately show ?case using 0(4,5) by auto
next
  case (Suc d)
  obtain a b rest where hs: "hs = a # b # rest"
    using Suc.prems(1) by (cases hs; cases "tl hs") auto
  from Suc.prems(2) obtain x y where buf: "buffer = [x, y]" by (cases buffer; cases "tl buffer") auto
  have "branch ! Suc d = hs ! 1"
    using arg_cong [OF Suc.prems(3), of "\<lambda>xs. xs ! Suc d"] by (simp add: nth_append)
  then have "r = from_branch_loop branch leaf None (Suc d) False [a, b]"
    using Suc.prems(4,5) hs buf by (subst (asm) from_branch_loop.simps(2)) (auto simp: Let_def)
  moreover have "take (Suc d) branch = branch_of (Suc d) (pair_up hs)"
    using arg_cong [OF Suc.prems(3), of "take (Suc d)"] by simp
  ultimately have "hash2 (r ! 0) (r ! 1) = merkle_root (Suc d) (pair_up hs)"
    using Suc.prems(1) hs by (intro Suc.IH [of "pair_up hs" "[a, b]" False]) simp_all
  then show ?case by simp
qed

lemma tree_branch_eq:
  assumes "hs \<noteq> []" "length hs \<le> 2 ^ 63" "2 ^ d \<le> length hs" "length hs < 2 ^ Suc d"
  shows "tree_branch hs = Inr (branch_of d (first_level d hs))"
proof -
  have n: "unat (of_nat (length hs) :: u64) = length hs"
    using assms(2) by (intro unat_of_nat_u64) simp
  obtain d' where d': "2 ^ d' \<le> length hs" "length hs < 2 ^ Suc d'" "d' < 64"
    "tree_depth (of_nat (length hs)) = Inr (of_nat d')"
    "tree_branch_cnt (of_nat (length hs)) = (push_bit d' 1, of_nat d')"
    using assms(1) by (rule_tac depth_search [of "of_nat (length hs)", unfolded n]) auto
  have "(2 :: nat) ^ d < 2 ^ Suc d'" "(2 :: nat) ^ d' < 2 ^ Suc d" using assms(3,4) d'(1,2) by linarith+
  then have "d' = d" by (simp only: power_strict_increasing_iff)
  note d = d'(3-5) [unfolded this]
  define keep where "keep = 2 * 2 ^ d - length hs"
  define L where "L = first_level d hs"
  have keep: "1 \<le> keep" "keep \<le> 2 ^ d" "keep \<le> length hs" "keep + 2 * (2 ^ d - keep) = length hs"
    "2 ^ d - Suc (keep - Suc 0) = 2 ^ d - keep" "2 * 2 ^ d - Suc (length hs) = keep - 1"
    using assms(3,4) by (auto simp: keep_def)
  have L: "L = take keep hs @ pairs_at hs keep (2 ^ d - keep)" "length L = 2 ^ d"
    using assms first_level_eq [OF assms(3) _ keep_def] length_first_level [of d hs] by (simp_all add: L_def)
  define ints where "ints = hash_pairs_from hs keep (keep - Suc 0) (2 ^ d - keep)
    (take (keep - Suc 0) (tl hs) @ replicate (2 ^ d - keep) NULL_HASH)"
  have "tl (take keep hs) = take (keep - 1) (tl hs)"
    using keep(1) by (cases hs; cases keep) simp_all
  moreover have "take keep hs \<noteq> []" using keep(1) assms(1) by (cases keep) simp_all
  ultimately have tl: "ints = tl L"
    using keep(3) L(1) assms(1) by (simp add: ints_def hash_pairs_from_eq)
  have "tree_branch_loop d (2 ^ d) ints (replicate d NULL_HASH) = Inr (branch_of d L @ drop d (replicate d NULL_HASH))"
    by (rule tree_branch_loop_eq) (simp_all add: L(2) tl)
  moreover have "unat (of_nat d :: u64) = d" "unat (push_bit d 1 :: u64) = 2 ^ d"
    using d(1) by (simp_all add: unat_of_nat_u64 unat_power_of_two)
  ultimately show ?thesis
    using assms(1) d(2,3) keep(4)
    unfolding tree_branch_def Let_def
    by (simp add: keep(5,6) L_def ints_def [symmetric] keep_def [symmetric] del: push_bit_of_1)
qed

text \<open>C25. The Merkle root the program computes for any non-empty list of hashes is the root of the tree
  whose lowest full level has the largest power of two of nodes: the first leaves as they are, the
  remaining ones hashed in pairs. No assertion fails.\<close>

theorem merkle_root_correct:
  assumes "hs \<noteq> []" "length hs \<le> 2 ^ 63" "2 ^ d \<le> length hs" "length hs < 2 ^ Suc d"
  shows "tree_hash hs = Inr (merkle_root d (first_level d hs))"
  using assms by (rule tree_hash_root)

theorem merkle_root_correct_witness:
  "tree_hash [[1], [2], [3]] = Inr (hash2 [1] (hash2 [2] [3]))"
  using merkle_root_correct [of "[[1], [2], [3]]" 1] by (simp add: first_level_def)

text \<open>C26. The branch computed for a list of hashes has one entry per level and, combined with the first
  hash, reproduces the Merkle root of the list.\<close>

theorem merkle_branch_proves_first:
  assumes "hs \<noteq> []" "length hs \<le> 2 ^ 63" "2 ^ d \<le> length hs" "length hs < 2 ^ Suc d"
  shows "\<exists>branch. tree_branch hs = Inr branch \<and> length branch = d \<and>
    tree_hash hs = Inr (tree_hash_from_branch branch d (hs ! 0) None)"
proof -
  define L where "L = first_level d hs"
  have l: "length L = 2 ^ d" using assms length_first_level [of d hs] by (simp add: L_def)
  have hd: "L ! 0 = hs ! 0"
    using assms by (simp add: L_def first_level_def Let_def nth_append)
  have "tree_hash_from_branch (branch_of d L) d (hs ! 0) None = merkle_root d L"
  proof (cases d)
    case 0
    then show ?thesis using l hd by (cases L) (simp_all add: tree_hash_from_branch_def)
  next
    case (Suc k)
    then show ?thesis
      using from_branch_root [of L k "[NULL_HASH, NULL_HASH]" "branch_of d L" True "hs ! 0"] l hd
      by (simp add: tree_hash_from_branch_def Let_def del: from_branch_loop.simps branch_of.simps)
  qed
  then show ?thesis
    using tree_branch_eq [OF assms] tree_hash_root [OF assms] by (simp add: L_def)
qed

theorem merkle_branch_proves_first_witness:
  "\<exists>branch. tree_branch [[1], [2], [3]] = Inr branch \<and> length branch = 1 \<and>
    tree_hash [[1], [2], [3]] = Inr (tree_hash_from_branch branch 1 [1] None)"
  using merkle_branch_proves_first [of "[[1], [2], [3]]" 1] by simp

end
