(* ===== verification/Serialization.thy ===== *)
theory Serialization
  imports BinaryStream TreeHash
begin

text \<open>
  The binary form of transactions and blocks: the \<^verbatim>\<open>serialize\<close> functions of
  \<^verbatim>\<open>src/CryptoNoteCore/CryptoNoteSerialization.cpp\<close> in both directions, and the conversions and
  object hashes of \<^verbatim>\<open>CryptoNoteTools.h\<close> and \<^verbatim>\<open>CryptoNoteFormatUtils.cpp\<close> built on them. Each
  pair of directions is an interpretation of \<open>stream_code\<close>: transactions and blocks survive the round
  trip and have exactly one binary form.
\<close>

section \<open>Inputs and outputs\<close>

definition getSignaturesCount :: "TransactionInput \<Rightarrow> nat" where
  "getSignaturesCount inp =
     (case inp of BaseInput _ \<Rightarrow> 0
      | InKey k \<Rightarrow> length (ki_outputIndexes k)
      | InMulti m \<Rightarrow> unat (mi_signatureCount m))"

definition input_tag :: "TransactionInput \<Rightarrow> u8" where
  "input_tag inp = (case inp of BaseInput _ \<Rightarrow> 0xff | InKey _ \<Rightarrow> 0x2 | InMulti _ \<Rightarrow> 0x3)"

definition target_tag :: "TransactionOutputTarget \<Rightarrow> u8" where
  "target_tag t = (case t of OutKey _ \<Rightarrow> 0x2 | OutMulti _ \<Rightarrow> 0x3)"

definition ser_KeyInput :: "KeyInput \<Rightarrow> bytes result" where
  "ser_KeyInput k =
     wcat (ser_u64 (ki_amount k)) (wcat (ser_array ser_u32 (ki_outputIndexes k)) (ser_pod (ki_keyImage k)))"

definition des_KeyInput :: "KeyInput reader" where
  "des_KeyInput =
     rbind des_u64 (\<lambda>a. rbind (des_array des_u32) (\<lambda>i. rbind (des_pod 32) (\<lambda>k.
       ret \<lparr>ki_amount = a, ki_outputIndexes = i, ki_keyImage = k\<rparr>)))"

definition ser_MultisignatureInput :: "MultisignatureInput \<Rightarrow> bytes result" where
  "ser_MultisignatureInput m =
     wcat (ser_u64 (mi_amount m)) (wcat (ser_u8 (mi_signatureCount m))
       (wcat (ser_u32 (mi_outputIndex m)) (ser_u32 (mi_term m))))"

definition des_MultisignatureInput :: "MultisignatureInput reader" where
  "des_MultisignatureInput =
     rbind des_u64 (\<lambda>a. rbind des_u8 (\<lambda>c. rbind des_u32 (\<lambda>i. rbind des_u32 (\<lambda>t.
       ret \<lparr>mi_amount = a, mi_signatureCount = c, mi_outputIndex = i, mi_term = t\<rparr>))))"

definition ser_TransactionInput :: "TransactionInput \<Rightarrow> bytes result" where
  "ser_TransactionInput inp =
     wcat (ser_pod [input_tag inp])
      (case inp of BaseInput h \<Rightarrow> ser_u32 h | InKey k \<Rightarrow> ser_KeyInput k | InMulti m \<Rightarrow> ser_MultisignatureInput m)"

definition des_TransactionInput :: "TransactionInput reader" where
  "des_TransactionInput =
     rbind (des_pod 1) (\<lambda>tag.
       if hd tag = 0xff then rbind des_u32 (\<lambda>h. ret (BaseInput h))
       else if hd tag = 0x2 then rbind des_KeyInput (\<lambda>k. ret (InKey k))
       else if hd tag = 0x3 then rbind des_MultisignatureInput (\<lambda>m. ret (InMulti m))
       else fail_read)"

definition ser_MultisignatureOutput :: "MultisignatureOutput \<Rightarrow> bytes result" where
  "ser_MultisignatureOutput m =
     wcat (ser_array ser_pod (mo_keys m)) (wcat (ser_u8 (mo_requiredSignatureCount m)) (ser_u32 (mo_term m)))"

definition des_MultisignatureOutput :: "MultisignatureOutput reader" where
  "des_MultisignatureOutput =
     rbind (des_array (des_pod 32)) (\<lambda>k. rbind des_u8 (\<lambda>r. rbind des_u32 (\<lambda>t.
       ret \<lparr>mo_keys = k, mo_requiredSignatureCount = r, mo_term = t\<rparr>)))"

definition ser_target :: "TransactionOutputTarget \<Rightarrow> bytes result" where
  "ser_target t =
     wcat (ser_pod [target_tag t])
      (case t of OutKey k \<Rightarrow> ser_pod k | OutMulti m \<Rightarrow> ser_MultisignatureOutput m)"

definition des_target :: "TransactionOutputTarget reader" where
  "des_target =
     rbind (des_pod 1) (\<lambda>tag.
       if hd tag = 0x2 then rbind (des_pod 32) (\<lambda>k. ret (OutKey k))
       else if hd tag = 0x3 then rbind des_MultisignatureOutput (\<lambda>m. ret (OutMulti m))
       else fail_read)"

definition ser_TransactionOutput :: "TransactionOutput \<Rightarrow> bytes result" where
  "ser_TransactionOutput out = wcat (ser_u64 (out_amount out)) (ser_target (out_target out))"

definition des_TransactionOutput :: "TransactionOutput reader" where
  "des_TransactionOutput =
     rbind des_u64 (\<lambda>a. rbind des_target (\<lambda>t. ret \<lparr>out_amount = a, out_target = t\<rparr>))"

section \<open>Transactions\<close>

text \<open>\<^verbatim>\<open>serializeAsBinary\<close> of a byte vector is the vector as a string.\<close>

definition ser_prefix :: "'a TransactionPrefix_scheme \<Rightarrow> bytes result" where
  "ser_prefix tx =
     wcat (ser_u8 (tx_version tx))
      (if TRANSACTION_VERSION_2 < tx_version tx then Inl RuntimeError
       else wcat (ser_u64 (tx_unlockTime tx))
             (wcat (ser_array ser_TransactionInput (tx_inputs tx))
               (wcat (ser_array ser_TransactionOutput (tx_outputs tx)) (ser_string (tx_extra tx)))))"

definition des_prefix :: "TransactionPrefix reader" where
  "des_prefix =
     rbind des_u8 (\<lambda>v.
       if TRANSACTION_VERSION_2 < v then fail_read
       else rbind des_u64 (\<lambda>u. rbind (des_array des_TransactionInput) (\<lambda>i.
         rbind (des_array des_TransactionOutput) (\<lambda>oo. rbind des_string (\<lambda>e.
           ret \<lparr>tx_version = v, tx_unlockTime = u, tx_inputs = i, tx_outputs = oo, tx_extra = e\<rparr>)))))"

text \<open>The loop over the inputs, writing and reading. \<open>absent\<close> is \<^verbatim>\<open>signaturesNotExpected\<close>.\<close>

fun write_signatures :: "bool \<Rightarrow> TransactionInput list \<Rightarrow> signature list list \<Rightarrow> bytes result" where
  "write_signatures absent [] sigs = Inr []"
| "write_signatures absent (inp # inps) sigs =
     (if absent then
        (if getSignaturesCount inp = 0 then write_signatures absent inps sigs else Inl RuntimeError)
      else case sigs of [] \<Rightarrow> Inl OutOfRange
           | s # ss \<Rightarrow> if getSignaturesCount inp \<noteq> length s then Inl RuntimeError
                      else wcat (write_each ser_pod s) (write_signatures absent inps ss))"

fun read_signatures :: "TransactionInput list \<Rightarrow> signature list list reader" where
  "read_signatures [] = ret []"
| "read_signatures (inp # inps) =
     rbind (read_each (des_pod 64) (getSignaturesCount inp)) (\<lambda>s.
       rbind (read_signatures inps) (\<lambda>ss. ret (s # ss)))"

definition ser_Transaction :: "Transaction \<Rightarrow> bytes result" where
  "ser_Transaction tx =
     wcat (ser_prefix tx)
      (let absent = (tx_signatures tx = []) in
       if \<not> absent \<and> length (tx_inputs tx) \<noteq> length (tx_signatures tx) then Inl RuntimeError
       else write_signatures absent (tx_inputs tx) (tx_signatures tx))"

definition des_Transaction :: "Transaction reader" where
  "des_Transaction =
     rbind des_prefix (\<lambda>p. rbind (read_signatures (tx_inputs p)) (\<lambda>s.
       ret (TransactionPrefix.extend p (Transaction.fields s))))"

section \<open>Blocks\<close>

text \<open>\<^verbatim>\<open>binary(&nonce, 4)\<close> on a little-endian machine.\<close>

definition ser_nonce :: "u32 \<Rightarrow> bytes result" where
  "ser_nonce w = Inr (map (\<lambda>k. ucast (drop_bit (8 * k) w)) [0..<4])"

definition des_nonce :: "u32 reader" where
  "des_nonce = rbind (read_bytes 4) (\<lambda>b. ret (foldr (\<lambda>x w. ucast x OR push_bit 8 w) b 0))"

definition serializeBlockHeader :: "'a BlockHeader_scheme \<Rightarrow> bytes result" where
  "serializeBlockHeader h =
     wcat (ser_u8 (bl_majorVersion h))
      (if bl_majorVersion h > BLOCK_MAJOR_VERSION_2 then Inl RuntimeError
       else wcat (ser_u8 (bl_minorVersion h)) (wcat (ser_u64 (bl_timestamp h))
             (wcat (ser_pod (bl_previousBlockHash h)) (ser_nonce (bl_nonce h)))))"

definition deserializeBlockHeader :: "BlockHeader reader" where
  "deserializeBlockHeader =
     rbind des_u8 (\<lambda>v.
       if v > BLOCK_MAJOR_VERSION_2 then fail_read
       else rbind des_u8 (\<lambda>m. rbind des_u64 (\<lambda>t. rbind (des_pod 32) (\<lambda>p. rbind des_nonce (\<lambda>n.
         ret \<lparr>bl_majorVersion = v, bl_minorVersion = m, bl_nonce = n, bl_timestamp = t, bl_previousBlockHash = p\<rparr>)))))"

definition ser_Block :: "Block \<Rightarrow> bytes result" where
  "ser_Block b =
     wcat (serializeBlockHeader b)
      (wcat (ser_Transaction (bl_baseTransaction b)) (ser_array ser_pod (bl_transactionHashes b)))"

definition des_Block :: "Block reader" where
  "des_Block =
     rbind deserializeBlockHeader (\<lambda>h. rbind des_Transaction (\<lambda>t. rbind (des_array (des_pod 32)) (\<lambda>hs.
       ret (BlockHeader.extend h (Block.fields t hs)))))"

section \<open>Objects as byte arrays\<close>

definition toBinaryArray :: "('a \<Rightarrow> bytes result) \<Rightarrow> 'a \<Rightarrow> bytes option" where
  "toBinaryArray ser x = (case ser x of Inl _ \<Rightarrow> None | Inr b \<Rightarrow> Some b)"

definition fromBinaryArray :: "'a reader \<Rightarrow> bytes \<Rightarrow> 'a option" where
  "fromBinaryArray des ba =
     (case des ba of Inl _ \<Rightarrow> None | Inr (x, rest) \<Rightarrow> if rest = [] then Some x else None)"

definition getBinaryArrayHash :: "bytes \<Rightarrow> hash" where
  "getBinaryArrayHash ba = cn_fast_hash ba"

text \<open>The objects hash to \<^verbatim>\<open>NULL_HASH\<close> and have the largest size when they cannot be written.\<close>

definition getObjectHash :: "('a \<Rightarrow> bytes result) \<Rightarrow> 'a \<Rightarrow> hash" where
  "getObjectHash ser x =
     (case toBinaryArray ser x of None \<Rightarrow> NULL_HASH | Some ba \<Rightarrow> getBinaryArrayHash ba)"

definition getObjectBinarySize :: "('a \<Rightarrow> bytes result) \<Rightarrow> 'a \<Rightarrow> usize" where
  "getObjectBinarySize ser x =
     (case toBinaryArray ser x of None \<Rightarrow> - 1 | Some ba \<Rightarrow> of_nat (length ba))"

definition get_tx_tree_hash :: "Block \<Rightarrow> hash result" where
  "get_tx_tree_hash b =
     tree_hash (getObjectHash ser_Transaction (bl_baseTransaction b) # bl_transactionHashes b)"

definition get_block_hashing_blob :: "Block \<Rightarrow> bytes option result" where
  "get_block_hashing_blob b =
     (case toBinaryArray serializeBlockHeader (BlockHeader.truncate b) of None \<Rightarrow> Inr None
      | Some ba \<Rightarrow> bind_res (get_tx_tree_hash b) (\<lambda>root.
          Inr (Some (ba @ root @ get_varint_data (of_nat (length (bl_transactionHashes b)) + 1)))))"

text \<open>The blob is hashed as a byte array object, with its length in front.\<close>

definition get_block_hash :: "Block \<Rightarrow> hash result" where
  "get_block_hash b =
     bind_res (get_block_hashing_blob b) (\<lambda>blob.
       Inr (case blob of None \<Rightarrow> NULL_HASH | Some ba \<Rightarrow> getObjectHash ser_string ba))"

section \<open>Round trips of the parts\<close>

definition ok_input :: "TransactionInput \<Rightarrow> bool" where
  "ok_input inp =
     (case inp of InKey k \<Rightarrow> size_ok (ki_outputIndexes k) \<and> length (ki_keyImage k) = 32 | _ \<Rightarrow> True)"

definition ok_target :: "TransactionOutputTarget \<Rightarrow> bool" where
  "ok_target t =
     (case t of OutKey k \<Rightarrow> length k = 32
      | OutMulti m \<Rightarrow> list_all (\<lambda>k. length k = 32) (mo_keys m) \<and> size_ok (mo_keys m))"

definition ok_prefix :: "'a TransactionPrefix_scheme \<Rightarrow> bool" where
  "ok_prefix tx \<longleftrightarrow>
     tx_version tx \<le> TRANSACTION_VERSION_2 \<and>
     list_all ok_input (tx_inputs tx) \<and> size_ok (tx_inputs tx) \<and>
     list_all (\<lambda>out. ok_target (out_target out)) (tx_outputs tx) \<and> size_ok (tx_outputs tx) \<and>
     size_ok (tx_extra tx)"

interpretation cki: stream_code ser_KeyInput des_KeyInput
  "\<lambda>k. size_ok (ki_outputIndexes k) \<and> length (ki_keyImage k) = 32"
proof (rule stream_codeI)
  fix k :: KeyInput
  assume "size_ok (ki_outputIndexes k) \<and> length (ki_keyImage k) = 32"
  then obtain b c d where
    "ser_u64 (ki_amount k) = Inr b" "\<forall>rest. des_u64 (b @ rest) = Inr (ki_amount k, rest)"
    "ser_array ser_u32 (ki_outputIndexes k) = Inr c"
    "\<forall>rest. des_array des_u32 (c @ rest) = Inr (ki_outputIndexes k, rest)"
    "ser_pod (ki_keyImage k) = Inr d" "\<forall>rest. des_pod 32 (d @ rest) = Inr (ki_keyImage k, rest)"
    using c64.reads [of "ki_amount k"] a32.reads [of "ki_outputIndexes k"] pod.reads [of "ki_keyImage k" 32]
    by (auto simp: list_all_iff)
  then show "\<exists>b. ser_KeyInput k = Inr b \<and> (\<forall>rest. des_KeyInput (b @ rest) = Inr (k, rest))"
    by (simp add: ser_KeyInput_def des_KeyInput_def read_write_simps)
next
  fix bs k rest
  assume "des_KeyInput bs = Inr (k, rest)"
  then show "(size_ok (ki_outputIndexes k) \<and> length (ki_keyImage k) = 32) \<and>
      (\<exists>b. ser_KeyInput k = Inr b \<and> bs = b @ rest)"
    by (auto simp: ser_KeyInput_def des_KeyInput_def reader_simps
        dest!: c64.enc_dec a32.enc_dec pod.enc_dec)
qed

interpretation cmi: stream_code ser_MultisignatureInput des_MultisignatureInput "\<lambda>_. True"
proof (rule stream_codeI)
  fix m :: MultisignatureInput
  obtain b c d e where
    "ser_u64 (mi_amount m) = Inr b" "\<forall>rest. des_u64 (b @ rest) = Inr (mi_amount m, rest)"
    "ser_u8 (mi_signatureCount m) = Inr c" "\<forall>rest. des_u8 (c @ rest) = Inr (mi_signatureCount m, rest)"
    "ser_u32 (mi_outputIndex m) = Inr d" "\<forall>rest. des_u32 (d @ rest) = Inr (mi_outputIndex m, rest)"
    "ser_u32 (mi_term m) = Inr e" "\<forall>rest. des_u32 (e @ rest) = Inr (mi_term m, rest)"
    using c64.reads [of "mi_amount m"] c8.reads [of "mi_signatureCount m"]
      c32.reads [of "mi_outputIndex m"] c32.reads [of "mi_term m"] by auto
  then show "\<exists>b. ser_MultisignatureInput m = Inr b \<and>
      (\<forall>rest. des_MultisignatureInput (b @ rest) = Inr (m, rest))"
    by (simp add: ser_MultisignatureInput_def des_MultisignatureInput_def read_write_simps)
next
  fix bs m rest
  assume "des_MultisignatureInput bs = Inr (m, rest)"
  then show "True \<and> (\<exists>b. ser_MultisignatureInput m = Inr b \<and> bs = b @ rest)"
    by (auto simp: ser_MultisignatureInput_def des_MultisignatureInput_def reader_simps
        dest!: c64.enc_dec c8.enc_dec c32.enc_dec)
qed

lemma des_pod_1: "des_pod (Suc 0) (t # bs) = Inr ([t], bs)"
  by (simp add: des_pod_def read_bytes_def)

lemma des_pod_1_Inr: "des_pod (Suc 0) bs = Inr (tag, rest) \<Longrightarrow> \<exists>t. tag = [t] \<and> bs = t # rest"
  by (cases bs) (auto simp: des_pod_def read_bytes_def split: if_splits)

lemmas tag_simps = input_tag_def target_tag_def ser_pod_def des_pod_1

interpretation cin: stream_code ser_TransactionInput des_TransactionInput ok_input
proof (rule stream_codeI)
  fix inp
  assume "ok_input inp"
  then show "\<exists>b. ser_TransactionInput inp = Inr b \<and> (\<forall>rest. des_TransactionInput (b @ rest) = Inr (inp, rest))"
  proof (cases inp)
    case (BaseInput h)
    then show ?thesis using c32.reads [of h]
      by (auto simp: ser_TransactionInput_def des_TransactionInput_def tag_simps read_write_simps)
  next
    case (InKey k)
    then show ?thesis using cki.reads [of k] \<open>ok_input inp\<close>
      by (auto simp: ser_TransactionInput_def des_TransactionInput_def ok_input_def tag_simps read_write_simps)
  next
    case (InMulti m)
    then show ?thesis using cmi.reads [of m]
      by (auto simp: ser_TransactionInput_def des_TransactionInput_def tag_simps read_write_simps)
  qed
next
  fix bs inp rest
  assume "des_TransactionInput bs = Inr (inp, rest)"
  then show "ok_input inp \<and> (\<exists>b. ser_TransactionInput inp = Inr b \<and> bs = b @ rest)"
    by (auto simp: ser_TransactionInput_def des_TransactionInput_def ok_input_def tag_simps reader_simps
        split: if_splits dest!: des_pod_1_Inr c32.enc_dec cki.enc_dec cmi.enc_dec)
qed

interpretation cmo: stream_code ser_MultisignatureOutput des_MultisignatureOutput
  "\<lambda>m. list_all (\<lambda>k. length k = 32) (mo_keys m) \<and> size_ok (mo_keys m)"
proof (rule stream_codeI)
  fix m :: MultisignatureOutput
  assume "list_all (\<lambda>k. length k = 32) (mo_keys m) \<and> size_ok (mo_keys m)"
  then obtain b c d where
    "ser_array ser_pod (mo_keys m) = Inr b" "\<forall>rest. des_array (des_pod 32) (b @ rest) = Inr (mo_keys m, rest)"
    "ser_u8 (mo_requiredSignatureCount m) = Inr c"
    "\<forall>rest. des_u8 (c @ rest) = Inr (mo_requiredSignatureCount m, rest)"
    "ser_u32 (mo_term m) = Inr d" "\<forall>rest. des_u32 (d @ rest) = Inr (mo_term m, rest)"
    using apod.reads [of 32 "mo_keys m"] c8.reads [of "mo_requiredSignatureCount m"] c32.reads [of "mo_term m"]
    by auto
  then show "\<exists>b. ser_MultisignatureOutput m = Inr b \<and>
      (\<forall>rest. des_MultisignatureOutput (b @ rest) = Inr (m, rest))"
    by (simp add: ser_MultisignatureOutput_def des_MultisignatureOutput_def read_write_simps)
next
  fix bs m rest
  assume "des_MultisignatureOutput bs = Inr (m, rest)"
  then show "(list_all (\<lambda>k. length k = 32) (mo_keys m) \<and> size_ok (mo_keys m)) \<and>
      (\<exists>b. ser_MultisignatureOutput m = Inr b \<and> bs = b @ rest)"
    by (auto simp: ser_MultisignatureOutput_def des_MultisignatureOutput_def reader_simps
        dest!: apod.enc_dec c8.enc_dec c32.enc_dec)
qed

interpretation ctgt: stream_code ser_target des_target ok_target
proof (rule stream_codeI)
  fix t
  assume "ok_target t"
  then show "\<exists>b. ser_target t = Inr b \<and> (\<forall>rest. des_target (b @ rest) = Inr (t, rest))"
  proof (cases t)
    case (OutKey k)
    then show ?thesis using pod.reads [of k 32] \<open>ok_target t\<close>
      by (auto simp: ser_target_def des_target_def ok_target_def tag_simps read_write_simps)
  next
    case (OutMulti m)
    then show ?thesis using cmo.reads [of m] \<open>ok_target t\<close>
      by (auto simp: ser_target_def des_target_def ok_target_def tag_simps read_write_simps)
  qed
next
  fix bs t rest
  assume "des_target bs = Inr (t, rest)"
  then show "ok_target t \<and> (\<exists>b. ser_target t = Inr b \<and> bs = b @ rest)"
    by (auto simp: ser_target_def des_target_def ok_target_def tag_simps reader_simps length_Suc_conv
        split: if_splits dest!: pod.enc_dec cmo.enc_dec)
qed

interpretation cout: stream_code ser_TransactionOutput des_TransactionOutput
  "\<lambda>out. ok_target (out_target out)"
proof (rule stream_codeI)
  fix out :: TransactionOutput
  assume "ok_target (out_target out)"
  then show "\<exists>b. ser_TransactionOutput out = Inr b \<and> (\<forall>rest. des_TransactionOutput (b @ rest) = Inr (out, rest))"
    using c64.reads [of "out_amount out"] ctgt.reads [of "out_target out"]
    by (auto simp: ser_TransactionOutput_def des_TransactionOutput_def read_write_simps)
next
  fix bs out rest
  assume "des_TransactionOutput bs = Inr (out, rest)"
  then show "ok_target (out_target out) \<and> (\<exists>b. ser_TransactionOutput out = Inr b \<and> bs = b @ rest)"
    by (auto simp: ser_TransactionOutput_def des_TransactionOutput_def reader_simps
        dest!: c64.enc_dec ctgt.enc_dec)
qed

interpretation ains: stream_code "ser_array ser_TransactionInput" "des_array des_TransactionInput"
  "\<lambda>xs. list_all ok_input xs \<and> size_ok xs"
  by (rule cin.array_code)

interpretation aouts: stream_code "ser_array ser_TransactionOutput" "des_array des_TransactionOutput"
  "\<lambda>xs. list_all (\<lambda>out. ok_target (out_target out)) xs \<and> size_ok xs"
  by (rule cout.array_code)

section \<open>Round trips of transactions\<close>

interpretation cpre: stream_code ser_prefix des_prefix ok_prefix
proof (rule stream_codeI)
  fix tx :: TransactionPrefix
  assume ok: "ok_prefix tx"
  then obtain b c d e f where
    "ser_u8 (tx_version tx) = Inr b" "\<forall>rest. des_u8 (b @ rest) = Inr (tx_version tx, rest)"
    "ser_u64 (tx_unlockTime tx) = Inr c" "\<forall>rest. des_u64 (c @ rest) = Inr (tx_unlockTime tx, rest)"
    "ser_array ser_TransactionInput (tx_inputs tx) = Inr d"
    "\<forall>rest. des_array des_TransactionInput (d @ rest) = Inr (tx_inputs tx, rest)"
    "ser_array ser_TransactionOutput (tx_outputs tx) = Inr e"
    "\<forall>rest. des_array des_TransactionOutput (e @ rest) = Inr (tx_outputs tx, rest)"
    "ser_string (tx_extra tx) = Inr f" "\<forall>rest. des_string (f @ rest) = Inr (tx_extra tx, rest)"
    using c8.reads [of "tx_version tx"] c64.reads [of "tx_unlockTime tx"] ains.reads [of "tx_inputs tx"]
      aouts.reads [of "tx_outputs tx"] str.reads [of "tx_extra tx"]
    by (auto simp: ok_prefix_def)
  moreover have "\<not> TRANSACTION_VERSION_2 < tx_version tx" using ok by (simp add: ok_prefix_def not_less)
  ultimately show "\<exists>b. ser_prefix tx = Inr b \<and> (\<forall>rest. des_prefix (b @ rest) = Inr (tx, rest))"
    by (simp add: ser_prefix_def des_prefix_def read_write_simps)
next
  fix bs tx rest
  assume "des_prefix bs = Inr (tx, rest)"
  then show "ok_prefix tx \<and> (\<exists>b. ser_prefix tx = Inr b \<and> bs = b @ rest)"
    by (auto simp: ser_prefix_def des_prefix_def ok_prefix_def reader_simps not_less split: if_splits
        dest!: c8.enc_dec c64.enc_dec ains.enc_dec aouts.enc_dec str.enc_dec)
qed

text \<open>Every input has as many signatures of 64 bytes as it asks for.\<close>

definition ok_signatures :: "TransactionInput list \<Rightarrow> signature list list \<Rightarrow> bool" where
  "ok_signatures inps sigs \<longleftrightarrow>
     list_all2 (\<lambda>inp s. length s = getSignaturesCount inp \<and> list_all (\<lambda>x. length x = 64) s) inps sigs"

lemma signatures_back:
  "ok_signatures inps sigs \<Longrightarrow>
    \<exists>b. write_signatures False inps sigs = Inr b \<and> (\<forall>rest. read_signatures inps (b @ rest) = Inr (sigs, rest))"
proof (induction inps arbitrary: sigs)
  case (Cons inp inps)
  then obtain s ss where s: "sigs = s # ss" "length s = getSignaturesCount inp" "list_all (\<lambda>x. length x = 64) s"
    "ok_signatures inps ss"
    by (auto simp: ok_signatures_def list_all2_Cons1)
  with Cons.IH obtain c where "write_signatures False inps ss = Inr c"
    "\<forall>rest. read_signatures inps (c @ rest) = Inr (ss, rest)" by blast
  moreover obtain b where "write_each ser_pod s = Inr b"
    using pod.write_each_total [OF s(3)] by blast
  ultimately show ?case
    using s pod.each_dec_enc [OF s(3)] by (simp add: read_write_simps)
qed (simp add: ok_signatures_def ret_def)

lemma signatures_canonical:
  "read_signatures inps bs = Inr (sigs, rest) \<Longrightarrow>
    ok_signatures inps sigs \<and> (\<exists>b. write_signatures False inps sigs = Inr b \<and> bs = b @ rest)"
proof (induction inps arbitrary: bs sigs)
  case (Cons inp inps)
  then obtain s ss bs' where "read_each (des_pod 64) (getSignaturesCount inp) bs = Inr (s, bs')"
    "read_signatures inps bs' = Inr (ss, rest)" "sigs = s # ss"
    by (auto simp: reader_simps)
  with Cons.IH [of bs' ss] pod.each_enc_dec [of 64 "getSignaturesCount inp" bs s bs'] show ?case
    by (auto simp: ok_signatures_def reader_simps)
qed (simp add: ok_signatures_def reader_simps)

definition ok_tx :: "Transaction \<Rightarrow> bool" where
  "ok_tx tx \<longleftrightarrow> ok_prefix tx \<and> ok_signatures (tx_inputs tx) (tx_signatures tx)"

lemma ser_prefix_extend: "ser_prefix (TransactionPrefix.extend p x) = ser_prefix p"
  by (simp add: ser_prefix_def TransactionPrefix.extend_def)

lemma ser_prefix_truncate: "ser_prefix (TransactionPrefix.truncate tx) = ser_prefix tx"
  by (simp add: ser_prefix_def TransactionPrefix.truncate_def)

lemma ok_prefix_truncate: "ok_prefix (TransactionPrefix.truncate tx) = ok_prefix tx"
  by (simp add: ok_prefix_def TransactionPrefix.truncate_def)

lemma ok_signatures_length: "ok_signatures inps sigs \<Longrightarrow> length inps = length sigs"
  by (simp add: ok_signatures_def list_all2_lengthD)

lemma ser_Transaction_ok:
  assumes "ok_signatures (tx_inputs tx) (tx_signatures tx)"
  shows "ser_Transaction tx =
    wcat (ser_prefix tx) (write_signatures False (tx_inputs tx) (tx_signatures tx))"
  using ok_signatures_length [OF assms]
  by (cases "tx_inputs tx"; cases "tx_signatures tx") (auto simp: ser_Transaction_def)

interpretation ctx: stream_code ser_Transaction des_Transaction ok_tx
proof (rule stream_codeI)
  fix tx :: Transaction
  assume ok: "ok_tx tx"
  then obtain b c where
    "ser_prefix tx = Inr b" "\<forall>rest. des_prefix (b @ rest) = Inr (TransactionPrefix.truncate tx, rest)"
    "write_signatures False (tx_inputs tx) (tx_signatures tx) = Inr c"
    "\<forall>rest. read_signatures (tx_inputs tx) (c @ rest) = Inr (tx_signatures tx, rest)"
    using cpre.reads [of "TransactionPrefix.truncate tx"] signatures_back [of "tx_inputs tx" "tx_signatures tx"]
    by (auto simp: ok_tx_def ser_prefix_truncate ok_prefix_truncate)
  then show "\<exists>b. ser_Transaction tx = Inr b \<and> (\<forall>rest. des_Transaction (b @ rest) = Inr (tx, rest))"
    using ok
    by (simp add: ser_Transaction_ok ok_tx_def des_Transaction_def read_write_simps
        TransactionPrefix.defs Transaction.defs)
next
  fix bs tx rest
  assume "des_Transaction bs = Inr (tx, rest)"
  then obtain p s bs' where p: "des_prefix bs = Inr (p, bs')" "read_signatures (tx_inputs p) bs' = Inr (s, rest)"
    and tx: "tx = TransactionPrefix.extend p (Transaction.fields s)"
    by (auto simp: des_Transaction_def reader_simps)
  have f: "tx_inputs tx = tx_inputs p" "tx_signatures tx = s" "ok_prefix tx = ok_prefix p" "ser_prefix tx = ser_prefix p"
    by (simp_all add: tx ok_prefix_def ser_prefix_def TransactionPrefix.defs Transaction.defs)
  show "ok_tx tx \<and> (\<exists>b. ser_Transaction tx = Inr b \<and> bs = b @ rest)"
    using cpre.enc_dec [OF p(1)] signatures_canonical [OF p(2)]
    by (auto simp: ok_tx_def f ser_Transaction_ok reader_simps)
qed

section \<open>Round trips of blocks\<close>

lemma four_bytes: "length b = 4 \<Longrightarrow> \<exists>w x y z. b = [w, x, y, z]"
  by (auto simp: length_Suc_conv numeral_eq_Suc)

interpretation cnon: stream_code ser_nonce des_nonce "\<lambda>_. True"
proof (rule stream_codeI)
  fix w :: u32
  have "foldr (\<lambda>x v. ucast x OR push_bit 8 v) (map (\<lambda>k. ucast (drop_bit (8 * k) w) :: u8) [0..<4]) 0 = w" (is "?l = w")
  proof (rule bit_word_eqI)
    fix n assume "n < LENGTH(32)"
    then show "bit ?l n = bit w n"
      by (cases "24 \<le> n"; cases "16 \<le> n") (auto simp: bit_simps upt_rec)
  qed
  then show "\<exists>b. ser_nonce w = Inr b \<and> (\<forall>rest. des_nonce (b @ rest) = Inr (w, rest))"
    by (simp add: ser_nonce_def des_nonce_def read_bytes_def read_write_simps)
next
  fix bs w rest
  assume "des_nonce bs = Inr (w, rest)"
  then obtain b where b: "length b = 4" "bs = b @ rest" "w = foldr (\<lambda>x v. ucast x OR push_bit 8 v) b 0"
    using that [of "take 4 bs"]
    by (auto simp: des_nonce_def read_bytes_def reader_simps split: if_splits)
  from four_bytes [OF b(1)] obtain p q r s where "b = [p, q, r, s]" by blast
  then have "map (\<lambda>k. ucast (drop_bit (8 * k) w)) [0..<4] = b"
    by (auto simp: b(3) upt_rec intro!: bit_word_eqI) (auto simp: bit_simps dest: bit_imp_le_length)
  then show "True \<and> (\<exists>b. ser_nonce w = Inr b \<and> bs = b @ rest)"
    using b(2) by (simp add: ser_nonce_def)
qed

definition ok_header :: "'a BlockHeader_scheme \<Rightarrow> bool" where
  "ok_header h \<longleftrightarrow> bl_majorVersion h \<le> BLOCK_MAJOR_VERSION_2 \<and> length (bl_previousBlockHash h) = 32"

interpretation chead: stream_code serializeBlockHeader deserializeBlockHeader ok_header
proof (rule stream_codeI)
  fix h :: BlockHeader
  assume ok: "ok_header h"
  then obtain b c d e f where
    "ser_u8 (bl_majorVersion h) = Inr b" "\<forall>rest. des_u8 (b @ rest) = Inr (bl_majorVersion h, rest)"
    "ser_u8 (bl_minorVersion h) = Inr c" "\<forall>rest. des_u8 (c @ rest) = Inr (bl_minorVersion h, rest)"
    "ser_u64 (bl_timestamp h) = Inr d" "\<forall>rest. des_u64 (d @ rest) = Inr (bl_timestamp h, rest)"
    "ser_pod (bl_previousBlockHash h) = Inr e"
    "\<forall>rest. des_pod 32 (e @ rest) = Inr (bl_previousBlockHash h, rest)"
    "ser_nonce (bl_nonce h) = Inr f" "\<forall>rest. des_nonce (f @ rest) = Inr (bl_nonce h, rest)"
    using c8.reads [of "bl_majorVersion h"] c8.reads [of "bl_minorVersion h"] c64.reads [of "bl_timestamp h"]
      pod.reads [of "bl_previousBlockHash h" 32] cnon.reads [of "bl_nonce h"]
    by (auto simp: ok_header_def)
  moreover have "\<not> bl_majorVersion h > BLOCK_MAJOR_VERSION_2" using ok by (simp add: ok_header_def not_less)
  ultimately show "\<exists>b. serializeBlockHeader h = Inr b \<and>
      (\<forall>rest. deserializeBlockHeader (b @ rest) = Inr (h, rest))"
    by (simp add: serializeBlockHeader_def deserializeBlockHeader_def read_write_simps)
next
  fix bs h rest
  assume "deserializeBlockHeader bs = Inr (h, rest)"
  then show "ok_header h \<and> (\<exists>b. serializeBlockHeader h = Inr b \<and> bs = b @ rest)"
    by (auto simp: serializeBlockHeader_def deserializeBlockHeader_def ok_header_def reader_simps not_less
        split: if_splits dest!: c8.enc_dec c64.enc_dec pod.enc_dec cnon.enc_dec)
qed

definition ok_block :: "Block \<Rightarrow> bool" where
  "ok_block b \<longleftrightarrow> ok_header b \<and> ok_tx (bl_baseTransaction b) \<and>
     list_all (\<lambda>h. length h = 32) (bl_transactionHashes b) \<and> size_ok (bl_transactionHashes b)"

lemma header_truncate:
  "serializeBlockHeader (BlockHeader.truncate b) = serializeBlockHeader b"
  "ok_header (BlockHeader.truncate b) = ok_header b"
  by (simp_all add: serializeBlockHeader_def ok_header_def BlockHeader.truncate_def)

interpretation cblk: stream_code ser_Block des_Block ok_block
proof (rule stream_codeI)
  fix b :: Block
  assume ok: "ok_block b"
  then obtain c d e where
    "serializeBlockHeader b = Inr c"
    "\<forall>rest. deserializeBlockHeader (c @ rest) = Inr (BlockHeader.truncate b, rest)"
    "ser_Transaction (bl_baseTransaction b) = Inr d"
    "\<forall>rest. des_Transaction (d @ rest) = Inr (bl_baseTransaction b, rest)"
    "ser_array ser_pod (bl_transactionHashes b) = Inr e"
    "\<forall>rest. des_array (des_pod 32) (e @ rest) = Inr (bl_transactionHashes b, rest)"
    using chead.reads [of "BlockHeader.truncate b"] ctx.reads [of "bl_baseTransaction b"]
      apod.reads [of 32 "bl_transactionHashes b"]
    by (auto simp: ok_block_def header_truncate)
  then show "\<exists>c. ser_Block b = Inr c \<and> (\<forall>rest. des_Block (c @ rest) = Inr (b, rest))"
    by (simp add: ser_Block_def des_Block_def read_write_simps BlockHeader.defs Block.defs)
next
  fix bs b rest
  assume "des_Block bs = Inr (b, rest)"
  then obtain h t hs bs1 bs2 where p: "deserializeBlockHeader bs = Inr (h, bs1)"
    "des_Transaction bs1 = Inr (t, bs2)" "des_array (des_pod 32) bs2 = Inr (hs, rest)"
    and b: "b = BlockHeader.extend h (Block.fields t hs)"
    by (auto simp: des_Block_def reader_simps)
  have f: "serializeBlockHeader b = serializeBlockHeader h" "ok_header b = ok_header h"
    "bl_baseTransaction b = t" "bl_transactionHashes b = hs"
    by (simp_all add: b serializeBlockHeader_def ok_header_def BlockHeader.defs Block.defs)
  show "ok_block b \<and> (\<exists>c. ser_Block b = Inr c \<and> bs = c @ rest)"
    using chead.enc_dec [OF p(1)] ctx.enc_dec [OF p(2)] apod.enc_dec [OF p(3)]
    by (auto simp: ok_block_def ser_Block_def f reader_simps)
qed

section \<open>Byte arrays of transactions and blocks\<close>

context stream_code
begin

lemma array_back: "ok x \<Longrightarrow> \<exists>ba. toBinaryArray ser x = Some ba \<and> fromBinaryArray des ba = Some x"
proof -
  assume "ok x"
  then obtain b where "ser x = Inr b" "\<forall>rest. des (b @ rest) = Inr (x, rest)" using reads by blast
  from this(1) spec [OF this(2), of "[]"] show ?thesis
    by (simp add: toBinaryArray_def fromBinaryArray_def)
qed

lemma array_canonical: "fromBinaryArray des ba = Some x \<Longrightarrow> ok x \<and> toBinaryArray ser x = Some ba"
  using enc_dec [of ba x "[]"]
  by (auto simp: toBinaryArray_def fromBinaryArray_def split: sum.splits if_splits)

end

text \<open>A transaction without a signature vector whose inputs need none is written as one with empty
  vectors, the form the reader gives.\<close>

lemma unsigned_form:
  assumes "list_all (\<lambda>inp. getSignaturesCount inp = 0) (tx_inputs tx)" "tx_signatures tx = []"
  shows "ser_Transaction tx = ser_Transaction (tx\<lparr>tx_signatures := replicate (length (tx_inputs tx)) []\<rparr>)"
proof -
  have "write_signatures True inps [] = Inr []" "write_signatures False inps (replicate (length inps) []) = Inr []"
    if "list_all (\<lambda>inp. getSignaturesCount inp = 0) inps" for inps
    using that by (induction inps) (auto simp: wcat_def)
  then show ?thesis
    using assms by (cases "tx_inputs tx") (auto simp: ser_Transaction_def ser_prefix_def wcat_def [of "Inr []"])
qed

lemma tree_hash_length:
  assumes "hs \<noteq> []" "list_all (\<lambda>h. length h = 32) hs" "tree_hash hs = Inr r"
  shows "length r = 32"
  using assms by (cases hs) (auto simp: tree_hash_def hash2_def Let_def assert_res_def split: if_splits)

lemma length_getObjectHash [simp]: "length (getObjectHash ser x) = 32"
  by (simp add: getObjectHash_def getBinaryArrayHash_def NULL_HASH_def split: option.split)

lemma blob_reads:
  assumes "get_block_hashing_blob b = Inr (Some blob)" "ok_header b"
    and "list_all (\<lambda>h. length h = 32) (bl_transactionHashes b)"
  shows "\<exists>r. get_tx_tree_hash b = Inr r \<and> length r = 32 \<and>
    deserializeBlockHeader blob =
      Inr (BlockHeader.truncate b, r @ write_varint (of_nat (length (bl_transactionHashes b)) + 1))"
proof -
  obtain h r where h: "serializeBlockHeader b = Inr h" "get_tx_tree_hash b = Inr r"
    "blob = h @ r @ write_varint (of_nat (length (bl_transactionHashes b)) + 1)"
    using assms(1)
    by (auto simp: get_block_hashing_blob_def toBinaryArray_def header_truncate bind_res_Inr get_varint_data_def
        split: option.splits sum.splits)
  moreover have "length r = 32"
    using tree_hash_length [OF _ _ h(2) [unfolded get_tx_tree_hash_def]] assms(3) by simp
  moreover have "deserializeBlockHeader (h @ rest) = Inr (BlockHeader.truncate b, rest)" for rest
    using assms(2) h(1) by (intro chead.dec_enc) (simp_all add: header_truncate)
  ultimately show ?thesis by simp
qed

text \<open>C17. A transaction whose fields fit the serializer's limits is written without an exception and read
  back unchanged, and a byte array that reads as a transaction is the only binary form of that
  transaction.\<close>

theorem transaction_binary_form:
  "(ok_tx tx \<longrightarrow> (\<exists>ba. toBinaryArray ser_Transaction tx = Some ba \<and> fromBinaryArray des_Transaction ba = Some tx)) \<and>
   (fromBinaryArray des_Transaction bs = Some tx \<longrightarrow> ok_tx tx \<and> toBinaryArray ser_Transaction tx = Some bs)"
  using ctx.array_back [of tx] ctx.array_canonical [of bs tx] by blast

definition sample_tx :: Transaction where
  "sample_tx = \<lparr>tx_version = 1, tx_unlockTime = 10, tx_inputs = [BaseInput 5],
     tx_outputs = [\<lparr>out_amount = 300, out_target = OutKey (replicate 32 7)\<rparr>], tx_extra = [1, 2],
     tx_signatures = [[]]\<rparr>"

lemma sample_tx_ok: "ok_tx sample_tx"
  by (simp add: sample_tx_def ok_tx_def ok_prefix_def ok_input_def ok_target_def ok_signatures_def size_ok_def
      getSignaturesCount_def TRANSACTION_VERSION_2_def)

theorem transaction_binary_form_witness:
  "\<exists>ba. toBinaryArray ser_Transaction sample_tx = Some ba \<and> fromBinaryArray des_Transaction ba = Some sample_tx \<and>
    ok_tx sample_tx"
  using transaction_binary_form [of sample_tx] sample_tx_ok by blast

text \<open>C18. A block whose fields fit the serializer's limits is written without an exception and read back
  unchanged, and a byte array that reads as a block is the only binary form of that block.\<close>

theorem block_binary_form:
  "(ok_block b \<longrightarrow> (\<exists>ba. toBinaryArray ser_Block b = Some ba \<and> fromBinaryArray des_Block ba = Some b)) \<and>
   (fromBinaryArray des_Block bs = Some b \<longrightarrow> ok_block b \<and> toBinaryArray ser_Block b = Some bs)"
  using cblk.array_back [of b] cblk.array_canonical [of bs b] by blast

definition sample_block :: Block where
  "sample_block = \<lparr>bl_majorVersion = 1, bl_minorVersion = 0, bl_nonce = 70, bl_timestamp = 1605434400,
     bl_previousBlockHash = replicate 32 9, bl_baseTransaction = sample_tx,
     bl_transactionHashes = [replicate 32 1, replicate 32 2]\<rparr>"

lemma sample_block_ok: "ok_block sample_block"
  by (simp add: sample_block_def ok_block_def ok_header_def sample_tx_ok size_ok_def BLOCK_MAJOR_VERSION_2_def)

lemma sample_blob: "\<exists>blob. get_block_hashing_blob sample_block = Inr (Some blob)"
proof -
  have "ok_header (BlockHeader.truncate sample_block)"
    unfolding header_truncate by (simp add: sample_block_def ok_header_def BLOCK_MAJOR_VERSION_2_def)
  then obtain h where "serializeBlockHeader (BlockHeader.truncate sample_block) = Inr h"
    using chead.writes by blast
  moreover obtain r where "get_tx_tree_hash sample_block = Inr r"
    using tree_hash_root [of "getObjectHash ser_Transaction sample_tx # bl_transactionHashes sample_block" 1]
    by (auto simp: get_tx_tree_hash_def sample_block_def)
  ultimately show ?thesis by (simp add: get_block_hashing_blob_def toBinaryArray_def)
qed

theorem block_binary_form_witness:
  "\<exists>ba. toBinaryArray ser_Block sample_block = Some ba \<and> fromBinaryArray des_Block ba = Some sample_block \<and>
    ok_block sample_block"
  using block_binary_form [of sample_block] sample_block_ok by blast

text \<open>C19. The blob that is hashed for proof of work and for the block's identifier determines the header,
  the Merkle root and the number of transactions of the block.\<close>

theorem hashing_blob_commits:
  assumes "get_block_hashing_blob b = Inr (Some blob)" "get_block_hashing_blob b' = Inr (Some blob)"
    and "ok_header b" "ok_header b'"
    and "list_all (\<lambda>h. length h = 32) (bl_transactionHashes b)"
    and "list_all (\<lambda>h. length h = 32) (bl_transactionHashes b')"
  shows "BlockHeader.truncate b = BlockHeader.truncate b' \<and> get_tx_tree_hash b = get_tx_tree_hash b' \<and>
    (of_nat (length (bl_transactionHashes b)) :: u64) = of_nat (length (bl_transactionHashes b'))"
proof -
  let ?n = "\<lambda>b. of_nat (length (bl_transactionHashes b)) :: u64"
  obtain r where r: "get_tx_tree_hash b = Inr r" "length r = 32"
    "deserializeBlockHeader blob = Inr (BlockHeader.truncate b, r @ write_varint (?n b + 1))"
    using blob_reads [OF assms(1,3,5)] by blast
  obtain r' where r': "get_tx_tree_hash b' = Inr r'" "length r' = 32"
    "deserializeBlockHeader blob = Inr (BlockHeader.truncate b', r' @ write_varint (?n b' + 1))"
    using blob_reads [OF assms(2,4,6)] by blast
  from r(3) r'(3) have eq: "BlockHeader.truncate b = BlockHeader.truncate b'"
    "r @ write_varint (?n b + 1) = r' @ write_varint (?n b' + 1)"
    by simp_all
  with r(2) r'(2) have "r = r'" "write_varint (?n b + 1) = write_varint (?n b' + 1)" by simp_all
  with vi.enc_inj [of "?n b + 1" "?n b' + 1"] eq(1) r(1) r'(1) show ?thesis by simp
qed

theorem hashing_blob_commits_witness:
  "\<exists>blob. get_block_hashing_blob sample_block = Inr (Some blob) \<and>
    (get_block_hashing_blob (sample_block\<lparr>bl_nonce := 71\<rparr>) = Inr (Some blob) \<longrightarrow> False)"
proof -
  obtain blob where blob: "get_block_hashing_blob sample_block = Inr (Some blob)"
    using sample_blob by blast
  have "ok_header sample_block" "ok_header (sample_block\<lparr>bl_nonce := 71\<rparr>)"
    "list_all (\<lambda>h. length h = 32) (bl_transactionHashes sample_block)"
    by (simp_all add: sample_block_def ok_header_def BLOCK_MAJOR_VERSION_2_def)
  with blob show ?thesis
    using hashing_blob_commits [of sample_block blob "sample_block\<lparr>bl_nonce := 71\<rparr>"]
    by (auto simp: sample_block_def BlockHeader.truncate_def)
qed

end
