(* ===== verification/TransactionExtra.thy ===== *)
theory TransactionExtra
  imports Serialization StringTools
begin

text \<open>
  The extra field of a transaction, \<^verbatim>\<open>src/CryptoNoteCore/TransactionExtra.cpp\<close>: its fields, the
  parser, the writer and the payment identifier carried in the nonce. The parser's out-parameter keeps
  the fields read before a failure, and \<^verbatim>\<open>getTransactionPublicKeyFromExtra\<close> uses them without
  looking at the result, so the model returns both. Fields the writer accepts are read back; a byte that
  is no known tag is skipped.
\<close>

datatype TransactionExtraField =
    ExtraPadding usize
  | ExtraPublicKey public_key
  | ExtraNonce bytes
  | ExtraMergeMiningTag usize hash
  | ExtraMessage bytes
  | ExtraTTL u64

definition TX_EXTRA_PADDING_MAX_COUNT :: nat where "TX_EXTRA_PADDING_MAX_COUNT = 255"
definition TX_EXTRA_NONCE_MAX_COUNT :: nat where "TX_EXTRA_NONCE_MAX_COUNT = 255"
definition TX_EXTRA_TAG_PADDING :: u8 where "TX_EXTRA_TAG_PADDING = 0x00"
definition TX_EXTRA_TAG_PUBKEY :: u8 where "TX_EXTRA_TAG_PUBKEY = 0x01"
definition TX_EXTRA_NONCE :: u8 where "TX_EXTRA_NONCE = 0x02"
definition TX_EXTRA_MERGE_MINING_TAG :: u8 where "TX_EXTRA_MERGE_MINING_TAG = 0x03"
definition TX_EXTRA_MESSAGE_TAG :: u8 where "TX_EXTRA_MESSAGE_TAG = 0x04"
definition TX_EXTRA_TTL :: u8 where "TX_EXTRA_TTL = 0x05"
definition TX_EXTRA_NONCE_PAYMENT_ID :: u8 where "TX_EXTRA_NONCE_PAYMENT_ID = 0x00"

lemmas extra_tags = TX_EXTRA_TAG_PADDING_def TX_EXTRA_TAG_PUBKEY_def TX_EXTRA_NONCE_def
  TX_EXTRA_MERGE_MINING_TAG_def TX_EXTRA_MESSAGE_TAG_def TX_EXTRA_TTL_def

section \<open>Parsing\<close>

text \<open>The merge-mining tag is an object inside a string; what follows it in the string is ignored.\<close>

definition doSerialize_mm :: "usize \<Rightarrow> hash \<Rightarrow> bytes result" where
  "doSerialize_mm depth root = wcat (ser_u64 depth) (ser_pod root)"

definition ser_mm_tag :: "usize \<Rightarrow> hash \<Rightarrow> bytes result" where
  "ser_mm_tag depth root = bind_res (doSerialize_mm depth root) ser_string"

definition des_mm_tag :: "TransactionExtraField reader" where
  "des_mm_tag =
     rbind des_string (\<lambda>field.
       case rbind des_u64 (\<lambda>d. rbind (des_pod 32) (\<lambda>r. ret (ExtraMergeMiningTag d r))) field of
         Inl e \<Rightarrow> (\<lambda>_. Inl e) | Inr (f, _) \<Rightarrow> ret f)"

text \<open>\<open>for (; !iss.endOfStream() && size <= MAX; ++size)\<close>; returning false and throwing end the parser
  alike.\<close>

fun padding_loop :: "nat \<Rightarrow> nat reader" where
  "padding_loop n [] = (if n > TX_EXTRA_PADDING_MAX_COUNT then Inl RuntimeError else Inr (n, []))"
| "padding_loop n (b # bs) =
     (if n \<le> TX_EXTRA_PADDING_MAX_COUNT
      then (if b \<noteq> 0 then Inl RuntimeError else padding_loop (n + 1) bs)
      else Inl RuntimeError)"

definition parse_field :: "u8 \<Rightarrow> TransactionExtraField option reader" where
  "parse_field c =
     (if c = TX_EXTRA_TAG_PADDING then rbind (padding_loop 1) (\<lambda>n. ret (Some (ExtraPadding (of_nat n))))
      else if c = TX_EXTRA_TAG_PUBKEY then rbind (des_pod 32) (\<lambda>k. ret (Some (ExtraPublicKey k)))
      else if c = TX_EXTRA_NONCE then
        rbind read_byte (\<lambda>n. rbind (if n > 0 then read_bytes (unat n) else ret []) (\<lambda>b. ret (Some (ExtraNonce b))))
      else if c = TX_EXTRA_MERGE_MINING_TAG then rbind des_mm_tag (\<lambda>f. ret (Some f))
      else if c = TX_EXTRA_MESSAGE_TAG then rbind des_string (\<lambda>m. ret (Some (ExtraMessage m)))
      else if c = TX_EXTRA_TTL then
        rbind (readVarint 8) (\<lambda>_. rbind (readVarint 64) (\<lambda>ttl. ret (Some (ExtraTTL ttl))))
      else ret None)"

text \<open>No reader puts bytes back.\<close>

definition consumes :: "'a reader \<Rightarrow> bool" where
  "consumes r \<longleftrightarrow> (\<forall>bs x rest. r bs = Inr (x, rest) \<longrightarrow> length rest \<le> length bs)"

lemma consumes_ret: "consumes (ret x)"
  by (simp add: consumes_def ret_def)

lemma consumes_fail: "consumes fail_read"
  by (simp add: consumes_def fail_read_def)

lemma consumes_rbind: "consumes r \<Longrightarrow> (\<And>x. consumes (f x)) \<Longrightarrow> consumes (rbind r f)"
  unfolding consumes_def by (fastforce simp: rbind_Inr)

lemma consumes_read_bytes: "consumes (read_bytes n)"
  by (simp add: consumes_def read_bytes_def)

lemma consumes_readVarint: "consumes (readVarint n)"
  unfolding consumes_def readVarint_def by (auto dest: readVarint_loop_consumes)

lemma consumes_padding: "consumes (padding_loop n)"
proof -
  have "padding_loop n bs = Inr (x, rest) \<Longrightarrow> rest = []" for bs x rest
    by (induction bs arbitrary: n) (auto split: if_splits)
  then show ?thesis unfolding consumes_def by fastforce
qed

lemma consumes_if: "consumes r \<Longrightarrow> consumes s \<Longrightarrow> consumes (if c then r else s)"
  by simp

lemma consumes_string: "consumes des_string"
  unfolding des_string_def
  by (intro consumes_rbind consumes_readVarint consumes_if consumes_fail consumes_read_bytes consumes_ret)

lemma consumes_mm: "consumes des_mm_tag"
  unfolding des_mm_tag_def
  by (rule consumes_rbind [OF consumes_string])
    (auto simp: consumes_def ret_def split: sum.splits prod.splits)

lemma consumes_parse_field: "consumes (parse_field c)"
  unfolding parse_field_def read_byte_def des_pod_def
  by (intro consumes_if consumes_rbind consumes_padding consumes_read_bytes consumes_readVarint consumes_string
      consumes_mm consumes_ret)

text \<open>\<open>while (!iss.endOfStream())\<close>, giving the result and the fields.\<close>

function parse_loop :: "bytes \<Rightarrow> bool \<times> TransactionExtraField list" where
  "parse_loop [] = (True, [])"
| "parse_loop (c # bs) =
     (case parse_field c bs of
        Inl _ \<Rightarrow> (False, [])
      | Inr (f, rest) \<Rightarrow>
          (case parse_loop rest of (ok, fs) \<Rightarrow> (ok, (case f of None \<Rightarrow> fs | Some f \<Rightarrow> f # fs))))"
  by pat_completeness auto
termination
  by (relation "measure length")
    (use consumes_parse_field in \<open>auto simp: consumes_def less_Suc_eq_le\<close>)

definition parseTransactionExtra :: "bytes \<Rightarrow> bool \<times> TransactionExtraField list" where
  "parseTransactionExtra extra = (if extra = [] then (True, []) else parse_loop extra)"

section \<open>Writing\<close>

definition addTransactionPublicKeyToExtra :: "bytes \<Rightarrow> public_key \<Rightarrow> bool \<times> bytes" where
  "addTransactionPublicKeyToExtra extra k = (True, extra @ [TX_EXTRA_TAG_PUBKEY] @ k)"

definition addExtraNonceToTransactionExtra :: "bytes \<Rightarrow> bytes \<Rightarrow> bool \<times> bytes" where
  "addExtraNonceToTransactionExtra extra n =
     (if length n > TX_EXTRA_NONCE_MAX_COUNT then (False, extra)
      else (True, extra @ [TX_EXTRA_NONCE, of_nat (length n)] @ n))"

definition appendMergeMiningTagToExtra :: "bytes \<Rightarrow> usize \<Rightarrow> hash \<Rightarrow> bool \<times> bytes" where
  "appendMergeMiningTagToExtra extra depth root =
     (case toBinaryArray (\<lambda>(d, r). ser_mm_tag d r) (depth, root) of None \<Rightarrow> (False, extra)
      | Some blob \<Rightarrow> (True, extra @ [TX_EXTRA_MERGE_MINING_TAG] @ blob))"

definition append_message_to_extra :: "bytes \<Rightarrow> bytes \<Rightarrow> bool \<times> bytes" where
  "append_message_to_extra extra data =
     (case toBinaryArray ser_string data of None \<Rightarrow> (False, extra)
      | Some blob \<Rightarrow> (True, extra @ [TX_EXTRA_MESSAGE_TAG] @ blob))"

definition appendTTLToExtra :: "bytes \<Rightarrow> u64 \<Rightarrow> bytes" where
  "appendTTLToExtra extra ttl =
     (let ttlData = get_varint_data ttl; extraFieldSize = get_varint_data (of_nat (length ttlData))
      in extra @ [TX_EXTRA_TTL] @ extraFieldSize @ ttlData)"

definition visit_field :: "bytes \<Rightarrow> TransactionExtraField \<Rightarrow> bool \<times> bytes" where
  "visit_field extra f =
     (case f of
        ExtraPadding n \<Rightarrow> if unat n > TX_EXTRA_PADDING_MAX_COUNT then (False, extra)
                         else (True, extra @ replicate (unat n) 0)
      | ExtraPublicKey k \<Rightarrow> addTransactionPublicKeyToExtra extra k
      | ExtraNonce n \<Rightarrow> addExtraNonceToTransactionExtra extra n
      | ExtraMergeMiningTag d r \<Rightarrow> appendMergeMiningTagToExtra extra d r
      | ExtraMessage m \<Rightarrow> append_message_to_extra extra m
      | ExtraTTL ttl \<Rightarrow> (True, appendTTLToExtra extra ttl))"

fun writeTransactionExtra :: "bytes \<Rightarrow> TransactionExtraField list \<Rightarrow> bool \<times> bytes" where
  "writeTransactionExtra extra [] = (True, extra)"
| "writeTransactionExtra extra (f # fs) =
     (case visit_field extra f of (ok, extra) \<Rightarrow>
        if \<not> ok then (False, extra) else writeTransactionExtra extra fs)"

section \<open>Queries\<close>

text \<open>\<^verbatim>\<open>findTransactionExtraFieldByType\<close> at the types it is used at.\<close>

fun find_public_key :: "TransactionExtraField list \<Rightarrow> public_key option" where
  "find_public_key [] = None"
| "find_public_key (f # fs) = (case f of ExtraPublicKey k \<Rightarrow> Some k | _ \<Rightarrow> find_public_key fs)"

fun find_nonce :: "TransactionExtraField list \<Rightarrow> bytes option" where
  "find_nonce [] = None"
| "find_nonce (f # fs) = (case f of ExtraNonce n \<Rightarrow> Some n | _ \<Rightarrow> find_nonce fs)"

fun find_mm_tag :: "TransactionExtraField list \<Rightarrow> (usize \<times> hash) option" where
  "find_mm_tag [] = None"
| "find_mm_tag (f # fs) = (case f of ExtraMergeMiningTag d r \<Rightarrow> Some (d, r) | _ \<Rightarrow> find_mm_tag fs)"

definition getTransactionPublicKeyFromExtra :: "bytes \<Rightarrow> public_key" where
  "getTransactionPublicKeyFromExtra extra =
     (case find_public_key (snd (parseTransactionExtra extra)) of None \<Rightarrow> NULL_PUBLIC_KEY | Some k \<Rightarrow> k)"

definition getMergeMiningTagFromExtra :: "bytes \<Rightarrow> (usize \<times> hash) option" where
  "getMergeMiningTagFromExtra extra = find_mm_tag (snd (parseTransactionExtra extra))"

definition setPaymentIdToTransactionExtraNonce :: "hash \<Rightarrow> bytes" where
  "setPaymentIdToTransactionExtraNonce payment_id = TX_EXTRA_NONCE_PAYMENT_ID # payment_id"

definition getPaymentIdFromTransactionExtraNonce :: "bytes \<Rightarrow> hash option" where
  "getPaymentIdFromTransactionExtraNonce n =
     (if HASH_SIZE + 1 \<noteq> length n then None
      else if TX_EXTRA_NONCE_PAYMENT_ID \<noteq> n ! 0 then None
      else Some (drop 1 n))"

definition parsePaymentId :: "string \<Rightarrow> hash option" where
  "parsePaymentId s = (case podFromHex s (replicate HASH_SIZE 0) of (ok, h) \<Rightarrow> if ok then Some h else None)"

definition createTxExtraWithPaymentId :: "string \<Rightarrow> bytes \<Rightarrow> bool \<times> bytes" where
  "createTxExtraWithPaymentId s extra =
     (case parsePaymentId s of None \<Rightarrow> (False, extra)
      | Some h \<Rightarrow> addExtraNonceToTransactionExtra extra (setPaymentIdToTransactionExtraNonce h))"

definition getPaymentIdFromTxExtra :: "bytes \<Rightarrow> hash option" where
  "getPaymentIdFromTxExtra extra =
     (case parseTransactionExtra extra of (ok, fs) \<Rightarrow>
        if \<not> ok then None
        else (case find_nonce fs of None \<Rightarrow> None | Some n \<Rightarrow> getPaymentIdFromTransactionExtraNonce n))"

section \<open>Round trip\<close>

text \<open>What one field is written as, and the fields that can be written and read back: the sizes are
  within the limits and padding, which runs to the end of the input, comes last.\<close>

definition ok_field :: "TransactionExtraField \<Rightarrow> bool" where
  "ok_field f =
     (case f of
        ExtraPadding n \<Rightarrow> False
      | ExtraPublicKey k \<Rightarrow> length k = 32
      | ExtraNonce n \<Rightarrow> length n \<le> 255
      | ExtraMergeMiningTag d r \<Rightarrow> length r = 32
      | ExtraMessage m \<Rightarrow> size_ok m
      | ExtraTTL ttl \<Rightarrow> True)"

definition ok_fields :: "TransactionExtraField list \<Rightarrow> bool" where
  "ok_fields fs \<longleftrightarrow> list_all ok_field fs \<or>
     (\<exists>gs n. fs = gs @ [ExtraPadding n] \<and> list_all ok_field gs \<and> n \<noteq> 0 \<and> unat n \<le> 255)"

lemma padding_zeros: "m + n \<le> 255 \<Longrightarrow> padding_loop m (replicate n 0) = Inr (m + n, [])"
  by (induction n arbitrary: m) (auto simp: TX_EXTRA_PADDING_MAX_COUNT_def)

lemma varint_length_le_10: "length (writeVarint v) \<le> 10"
  using write_varint_length_le [of v 9] unat_u64_less [of v] by (simp add: writeVarint_eq del: unat_u64_less)

lemma mm_tag_back:
  assumes "length r = 32"
  shows "\<exists>b. ser_mm_tag d r = Inr b \<and> (\<forall>rest. des_mm_tag (b @ rest) = Inr (ExtraMergeMiningTag d r, rest))"
proof -
  have "size_ok (writeVarint d @ r)" using varint_length_le_10 [of d] assms by (simp add: size_ok_def)
  then obtain b where b: "ser_string (writeVarint d @ r) = Inr b"
    "\<forall>rest. des_string (b @ rest) = Inr (writeVarint d @ r, rest)" using str.reads by blast
  have "des_u64 (writeVarint d @ r) = Inr (d, r)" "des_pod 32 r = Inr (r, [])"
    using assms by (simp_all add: des_u64_def readVarint_write des_pod_def read_bytes_def)
  with b show ?thesis
    by (simp add: ser_mm_tag_def doSerialize_mm_def des_mm_tag_def ser_u64_def ser_pod_def read_write_simps)
qed

lemma ttl_size_back: "readVarint 8 (write_varint (of_nat (length (write_varint ttl))) @ rest) =
    Inr (of_nat (length (write_varint ttl)), rest)"
proof -
  have "length (write_varint ttl) \<le> 10" using varint_length_le_10 [of ttl] by (simp add: writeVarint_eq)
  then have "unat (of_nat (length (write_varint ttl)) :: u64) < 2 ^ 8" by (simp add: unat_of_nat)
  from readVarint_write [OF this] show ?thesis by (simp add: writeVarint_eq)
qed

lemma nonce_back:
  assumes "length n \<le> 255"
  shows "parse_field TX_EXTRA_NONCE (of_nat (length n) # n @ rest) = Inr (Some (ExtraNonce n), rest)"
proof -
  have "unat (of_nat (length n) :: u8) = length n" using assms by (simp add: unat_of_nat)
  moreover from this have "(of_nat (length n) :: u8) > 0 \<longleftrightarrow> n \<noteq> []" by (simp add: word_less_nat_alt)
  ultimately show ?thesis
    by (auto simp: parse_field_def extra_tags read_byte_def read_bytes_def read_write_simps)
qed

lemma field_back:
  assumes "ok_field f"
  shows "\<exists>c b. (\<forall>extra. visit_field extra f = (True, extra @ c # b)) \<and>
    (\<forall>rest. parse_field c (b @ rest) = Inr (Some f, rest))"
proof (cases f)
  case (ExtraPublicKey k)
  then show ?thesis using assms pod.dec_enc [of k 32 k]
    by (intro exI [of _ TX_EXTRA_TAG_PUBKEY] exI [of _ k])
      (auto simp: ok_field_def visit_field_def addTransactionPublicKeyToExtra_def parse_field_def extra_tags
        ser_pod_def read_write_simps)
next
  case (ExtraNonce n)
  then show ?thesis using assms
    by (intro exI [of _ TX_EXTRA_NONCE] exI [of _ "of_nat (length n) # n"])
      (simp add: ok_field_def visit_field_def addExtraNonceToTransactionExtra_def TX_EXTRA_NONCE_MAX_COUNT_def nonce_back)
next
  case (ExtraMergeMiningTag d r)
  then obtain b where "ser_mm_tag d r = Inr b" "\<forall>rest. des_mm_tag (b @ rest) = Inr (f, rest)"
    using assms mm_tag_back [of r d] by (auto simp: ok_field_def)
  with ExtraMergeMiningTag show ?thesis
    by (intro exI [of _ TX_EXTRA_MERGE_MINING_TAG] exI [of _ b])
      (simp add: visit_field_def appendMergeMiningTagToExtra_def toBinaryArray_def parse_field_def extra_tags
        read_write_simps)
next
  case (ExtraMessage m)
  then obtain b where "ser_string m = Inr b" "\<forall>rest. des_string (b @ rest) = Inr (m, rest)"
    using assms str.reads by (auto simp: ok_field_def)
  with ExtraMessage show ?thesis
    by (intro exI [of _ TX_EXTRA_MESSAGE_TAG] exI [of _ b])
      (simp add: visit_field_def append_message_to_extra_def toBinaryArray_def parse_field_def extra_tags
        read_write_simps)
next
  case (ExtraTTL ttl)
  have "readVarint 64 (write_varint ttl @ rest) = Inr (ttl, rest)" for rest
    using readVarint_write [of ttl 64 rest] by (simp add: writeVarint_eq)
  with ExtraTTL show ?thesis
    by (intro exI [of _ TX_EXTRA_TTL]
        exI [of _ "write_varint (of_nat (length (write_varint ttl))) @ write_varint ttl"])
      (simp add: visit_field_def appendTTLToExtra_def get_varint_data_def parse_field_def extra_tags
        ttl_size_back read_write_simps Let_def)
qed (use assms in \<open>simp add: ok_field_def\<close>)

lemma fields_back:
  "list_all ok_field fs \<Longrightarrow>
    \<exists>b. (\<forall>extra more. writeTransactionExtra extra (fs @ more) = writeTransactionExtra (extra @ b) more) \<and>
      (\<forall>rest. parse_loop (b @ rest) = (fst (parse_loop rest), fs @ snd (parse_loop rest)))"
proof (induction fs)
  case (Cons f fs)
  then obtain b where b: "\<forall>extra more. writeTransactionExtra extra (fs @ more) = writeTransactionExtra (extra @ b) more"
    "\<forall>rest. parse_loop (b @ rest) = (fst (parse_loop rest), fs @ snd (parse_loop rest))" by auto
  obtain c d where "\<forall>extra. visit_field extra f = (True, extra @ c # d)"
    "\<forall>rest. parse_field c (d @ rest) = Inr (Some f, rest)"
    using field_back [of f] Cons.prems by auto
  with b show ?case by (intro exI [of _ "c # d @ b"]) simp
qed (auto simp: exI [of _ "[]"] intro!: exI [of _ "[]"])

lemma parseTransactionExtra_eq: "parseTransactionExtra extra = parse_loop extra"
  by (simp add: parseTransactionExtra_def)

lemma extra_back:
  assumes "ok_fields fs"
  shows "\<exists>b. writeTransactionExtra [] fs = (True, b) \<and> parseTransactionExtra b = (True, fs)"
  using assms unfolding ok_fields_def
proof (elim disjE exE conjE)
  assume "list_all ok_field fs"
  from fields_back [OF this] obtain b where
    "\<forall>extra more. writeTransactionExtra extra (fs @ more) = writeTransactionExtra (extra @ b) more"
    "\<forall>rest. parse_loop (b @ rest) = (fst (parse_loop rest), fs @ snd (parse_loop rest))" by blast
  from this(1) [rule_format, of "[]" "[]"] this(2) [rule_format, of "[]"] show ?thesis
    by (simp add: parseTransactionExtra_eq)
next
  fix gs n
  assume fs: "fs = gs @ [ExtraPadding n]" "list_all ok_field gs" "n \<noteq> 0" "unat n \<le> 255"
  from fields_back [OF fs(2)] obtain b where
    b: "\<forall>extra more. writeTransactionExtra extra (gs @ more) = writeTransactionExtra (extra @ b) more"
    "\<forall>rest. parse_loop (b @ rest) = (fst (parse_loop rest), gs @ snd (parse_loop rest))" by blast
  obtain k where k: "unat n = Suc k" using fs(3) by (cases "unat n") (auto simp: unat_eq_0)
  have "of_nat (Suc k) = n" by (simp flip: k del: of_nat_Suc)
  then have "parse_loop (replicate (unat n) 0) = (True, [ExtraPadding n])"
    using padding_zeros [of 1 k] fs(4) k
    by (simp add: parse_field_def extra_tags read_write_simps)
  with b(1) [rule_format, of "[]" "[ExtraPadding n]"] b(2) [rule_format, of "replicate (unat n) 0"] show ?thesis
    using fs(1,4) by (simp add: visit_field_def TX_EXTRA_PADDING_MAX_COUNT_def parseTransactionExtra_eq)
qed

lemma payment_id_back:
  assumes "length h = 32"
  shows "\<exists>b. createTxExtraWithPaymentId (toHex h) [] = (True, b) \<and> getPaymentIdFromTxExtra b = Some h"
proof -
  have p: "parsePaymentId (toHex h) = Some h"
    using podFromHex_toHex [of h "replicate HASH_SIZE 0"] assms by (simp add: parsePaymentId_def HASH_SIZE_def)
  define f where "f = ExtraNonce (setPaymentIdToTransactionExtraNonce h)"
  have "list_all ok_field [f]"
    using assms by (simp add: f_def ok_field_def setPaymentIdToTransactionExtraNonce_def)
  then obtain b where b: "writeTransactionExtra [] [f] = (True, b)" "parseTransactionExtra b = (True, [f])"
    using extra_back [of "[f]"] unfolding ok_fields_def by blast
  then have "createTxExtraWithPaymentId (toHex h) [] = (True, b)"
    by (auto simp: createTxExtraWithPaymentId_def p f_def visit_field_def split: prod.splits if_splits)
  with b(2) assms show ?thesis
    by (simp add: getPaymentIdFromTxExtra_def f_def getPaymentIdFromTransactionExtraNonce_def HASH_SIZE_def
        setPaymentIdToTransactionExtraNonce_def)
qed

text \<open>C38. Extra fields within the limits, padding last, are all written and parsed back to the same
  fields, and the payment identifier put into an extra field from its hexadecimal form is found
  there.\<close>

theorem extra_roundtrip:
  "(ok_fields fs \<longrightarrow>
      (\<exists>extra. writeTransactionExtra [] fs = (True, extra) \<and> parseTransactionExtra extra = (True, fs))) \<and>
   (length h = 32 \<longrightarrow>
      (\<exists>extra. createTxExtraWithPaymentId (toHex h) [] = (True, extra) \<and> getPaymentIdFromTxExtra extra = Some h))"
  using extra_back [of fs] payment_id_back [of h] by blast

theorem extra_roundtrip_witness:
  "\<exists>extra. writeTransactionExtra [] [ExtraPublicKey (replicate 32 5), ExtraTTL 300, ExtraPadding 2] = (True, extra) \<and>
     parseTransactionExtra extra = (True, [ExtraPublicKey (replicate 32 5), ExtraTTL 300, ExtraPadding 2])"
proof -
  have "ok_fields ([ExtraPublicKey (replicate 32 5), ExtraTTL 300] @ [ExtraPadding 2])"
    unfolding ok_fields_def by (auto simp: ok_field_def)
  with extra_roundtrip [of "[ExtraPublicKey (replicate 32 5), ExtraTTL 300, ExtraPadding 2]" "[]"]
  show ?thesis by simp
qed

text \<open>A byte that is no tag is passed over, and the fields read before a failure are still used: the key
  is found in an extra field that does not parse.\<close>

lemma extra_unknown_tag_skipped: "parseTransactionExtra (7 # bs) = parseTransactionExtra bs"
  by (simp add: parseTransactionExtra_eq parse_field_def extra_tags ret_def split: prod.split)

lemma extra_key_of_malformed:
  assumes "length k = 32"
  shows "fst (parseTransactionExtra ([1] @ k @ [0, 9])) = False \<and>
    getTransactionPublicKeyFromExtra ([1] @ k @ [0, 9]) = k"
  using assms
  by (simp add: parseTransactionExtra_eq getTransactionPublicKeyFromExtra_def parse_field_def extra_tags
      des_pod_def read_bytes_def read_write_simps TX_EXTRA_PADDING_MAX_COUNT_def)

end
