(* ===== verification/BlockchainIndices.thy ===== *)
theory BlockchainIndices
  imports MultiIndex TransactionExtra
begin

text \<open>
  The auxiliary indices of \<^verbatim>\<open>src/CryptoNoteCore/BlockchainIndices.cpp\<close>: transactions by payment
  identifier, blocks and transactions by timestamp, the running count of transactions by height, and
  orphan blocks by height. The multimaps provide \<open>multi_index\<close>, so a block that is pushed and popped
  leaves them as they were; the range queries are exact; the running count is the sum over the blocks.
\<close>

definition base_height :: "Block \<Rightarrow> u32 result" where
  "base_height b =
     (case tx_inputs (bl_baseTransaction b) of [] \<Rightarrow> Inl OutOfRange
      | BaseInput h # _ \<Rightarrow> Inr h
      | _ \<Rightarrow> Inl BadGet)"

section \<open>Payment identifiers\<close>

type_synonym payment_index = "(hash \<times> hash) list"

definition getPaymentId :: "Transaction \<Rightarrow> hash option" where
  "getPaymentId tx =
     (case find_nonce (snd (parseTransactionExtra (tx_extra tx))) of None \<Rightarrow> None
      | Some n \<Rightarrow> getPaymentIdFromTransactionExtraNonce n)"

definition pii_add :: "Transaction \<Rightarrow> payment_index \<Rightarrow> bool \<times> payment_index" where
  "pii_add tx ix =
     (let transactionHash = getObjectHash ser_Transaction tx in
      case getPaymentId tx of None \<Rightarrow> (False, ix)
      | Some paymentId \<Rightarrow> (True, um_emplace paymentId transactionHash ix))"

definition pii_remove :: "Transaction \<Rightarrow> payment_index \<Rightarrow> bool \<times> payment_index" where
  "pii_remove tx ix =
     (let transactionHash = getObjectHash ser_Transaction tx in
      case getPaymentId tx of None \<Rightarrow> (False, ix)
      | Some paymentId \<Rightarrow> erase_match paymentId transactionHash ix)"

definition pii_find :: "hash \<Rightarrow> payment_index \<Rightarrow> hash list \<Rightarrow> bool \<times> hash list" where
  "pii_find paymentId ix hashes =
     (equal_range paymentId ix \<noteq> [], hashes @ equal_range paymentId ix)"

section \<open>Timestamps\<close>

type_synonym timestamp_index = "(u64 \<times> hash) list"

definition tbi_add :: "u64 \<Rightarrow> hash \<Rightarrow> timestamp_index \<Rightarrow> bool \<times> timestamp_index" where
  "tbi_add timestamp h ix = (True, mm_emplace timestamp h ix)"

definition tbi_remove :: "u64 \<Rightarrow> hash \<Rightarrow> timestamp_index \<Rightarrow> bool \<times> timestamp_index" where
  "tbi_remove timestamp h ix = erase_match timestamp h ix"

text \<open>Positions of \<^verbatim>\<open>lower_bound\<close> and \<^verbatim>\<open>upper_bound\<close>, and the loop that copies up to the limit and
  counts in 32 bits.\<close>

definition mm_lower :: "u64 \<Rightarrow> timestamp_index \<Rightarrow> nat" where
  "mm_lower t ix = length (takeWhile (\<lambda>e. fst e < t) ix)"

definition mm_upper :: "u64 \<Rightarrow> timestamp_index \<Rightarrow> nat" where
  "mm_upper t ix = length (takeWhile (\<lambda>e. fst e \<le> t) ix)"

fun copy_hashes :: "(u32 \<Rightarrow> bool) \<Rightarrow> u32 \<Rightarrow> timestamp_index \<Rightarrow> hash list \<Rightarrow> u32 \<times> hash list" where
  "copy_hashes below n [] hashes = (n, hashes)"
| "copy_hashes below n (e # es) hashes =
     (if below n then copy_hashes below (n + 1) es (hashes @ [snd e]) else (n, hashes))"

definition tbi_find :: "u64 \<Rightarrow> u64 \<Rightarrow> u32 \<Rightarrow> timestamp_index \<Rightarrow> hash list \<Rightarrow> u32 \<Rightarrow> bool \<times> hash list \<times> u32" where
  "tbi_find timestampBegin timestampEnd hashesNumberLimit ix hashes within =
     (if timestampBegin > timestampEnd then (False, hashes, within)
      else let b = mm_lower timestampBegin ix; e = mm_upper timestampEnd ix;
               within = of_nat (e - b);
               (n, hashes) = copy_hashes (\<lambda>n. n < hashesNumberLimit) 0 (drop b (take e ix)) hashes
           in (n > 0, hashes, within))"

definition tti_add :: "u64 \<Rightarrow> hash \<Rightarrow> timestamp_index \<Rightarrow> bool \<times> timestamp_index" where
  "tti_add timestamp h ix = (True, mm_emplace timestamp h ix)"

definition tti_remove :: "u64 \<Rightarrow> hash \<Rightarrow> timestamp_index \<Rightarrow> bool \<times> timestamp_index" where
  "tti_remove timestamp h ix = erase_match timestamp h ix"

definition tti_find :: "u64 \<Rightarrow> u64 \<Rightarrow> u64 \<Rightarrow> timestamp_index \<Rightarrow> hash list \<Rightarrow> u64 \<Rightarrow> bool \<times> hash list \<times> u64" where
  "tti_find timestampBegin timestampEnd hashesNumberLimit ix hashes within =
     (if timestampBegin > timestampEnd then (False, hashes, within)
      else let b = mm_lower timestampBegin ix; e = mm_upper timestampEnd ix;
               e = (if timestampEnd = 0 \<and> e = b \<and> b = 0 \<and> ix \<noteq> [] then e + 1 else e);
               within = ucast (of_nat (e - b) :: u32);
               (n, hashes) = copy_hashes (\<lambda>n. ucast n < hashesNumberLimit) 0 (drop b (take e ix)) hashes
           in (n > 0, hashes, within))"

section \<open>Numbers of generated transactions\<close>

record generated_index =
  gi_index :: "(u32 \<times> u64) list"
  gi_lastGeneratedTxNumber :: u64

definition gti_new :: generated_index where
  "gti_new = \<lparr>gi_index = [], gi_lastGeneratedTxNumber = 0\<rparr>"

definition gti_add :: "Block \<Rightarrow> generated_index \<Rightarrow> (bool \<times> generated_index) result" where
  "gti_add b g =
     bind_res (base_height b) (\<lambda>blockHeight.
       if of_nat (length (gi_index g)) \<noteq> (ucast blockHeight :: usize) then Inr (False, g)
       else let m = of_nat (length (bl_transactionHashes b)) + 1 in
         if map_of (gi_index g) blockHeight = None
         then Inr (True, \<lparr>gi_index = gi_index g @ [(blockHeight, gi_lastGeneratedTxNumber g + m)],
                          gi_lastGeneratedTxNumber = gi_lastGeneratedTxNumber g + m\<rparr>)
         else Inr (False, g))"

definition gti_remove :: "Block \<Rightarrow> generated_index \<Rightarrow> (bool \<times> generated_index) result" where
  "gti_remove b g =
     bind_res (base_height b) (\<lambda>blockHeight.
       if (ucast blockHeight :: usize) \<noteq> of_nat (length (gi_index g)) - 1 then Inr (False, g)
       else assert_res (map_of (gi_index g) blockHeight \<noteq> None)
        (let ix = filter (\<lambda>e. fst e \<noteq> blockHeight) (gi_index g) in
         if blockHeight \<noteq> 0
         then (case map_of ix (blockHeight - 1) of None \<Rightarrow> Inl AssertFailed
               | Some n \<Rightarrow> Inr (True, \<lparr>gi_index = ix, gi_lastGeneratedTxNumber = n\<rparr>))
         else Inr (True, \<lparr>gi_index = ix, gi_lastGeneratedTxNumber = 0\<rparr>)))"

definition gti_find :: "u32 \<Rightarrow> generated_index \<Rightarrow> u64 option" where
  "gti_find height g = map_of (gi_index g) height"

definition gti_clear :: "generated_index \<Rightarrow> generated_index" where
  "gti_clear g = g\<lparr>gi_index := []\<rparr>"

section \<open>Orphan blocks\<close>

type_synonym orphan_index = "(u32 \<times> hash) list"

definition obi_add :: "Block \<Rightarrow> orphan_index \<Rightarrow> (bool \<times> orphan_index) result" where
  "obi_add b ix =
     bind_res (get_block_hash b) (\<lambda>blockHash. bind_res (base_height b) (\<lambda>blockHeight.
       Inr (True, um_emplace blockHeight blockHash ix)))"

definition obi_remove :: "Block \<Rightarrow> orphan_index \<Rightarrow> (bool \<times> orphan_index) result" where
  "obi_remove b ix =
     bind_res (get_block_hash b) (\<lambda>blockHash. bind_res (base_height b) (\<lambda>blockHeight.
       Inr (erase_match blockHeight blockHash ix)))"

definition obi_find :: "u32 \<Rightarrow> orphan_index \<Rightarrow> hash list \<Rightarrow> bool \<times> hash list" where
  "obi_find height ix hashes = (equal_range height ix \<noteq> [], hashes @ equal_range height ix)"

section \<open>The multimaps\<close>

definition payment_entries :: "Transaction \<Rightarrow> (hash \<times> hash) multiset" where
  "payment_entries tx =
     (case getPaymentId tx of None \<Rightarrow> {#} | Some p \<Rightarrow> {#(p, getObjectHash ser_Transaction tx)#})"

definition orphan_entries :: "Block \<Rightarrow> (u32 \<times> hash) multiset" where
  "orphan_entries b =
     (case (get_block_hash b, base_height b) of (Inr x, Inr h) \<Rightarrow> {#(h, x)#} | _ \<Rightarrow> {#})"

text \<open>A block without a height is refused with an exception and the index stays as it is.\<close>

definition kept :: "'s \<Rightarrow> (bool \<times> 's) result \<Rightarrow> bool \<times> 's" where
  "kept s r = (case r of Inl _ \<Rightarrow> (False, s) | Inr x \<Rightarrow> x)"

lemma erase_match_mset:
  "mset (snd (erase_match k v m)) = mset m - {#(k, v)#}"
  "fst (erase_match k v m) \<longleftrightarrow> {#(k, v)#} \<subseteq># mset m"
  by (simp_all add: erase_match_eq)

interpretation pay: lookup_index pii_add pii_remove payment_entries mset "\<lambda>_. True" equal_range
  by unfold_locales
    (auto simp: pii_add_def pii_remove_def payment_entries_def Let_def erase_match_mset mset_equal_range
      split: option.split)

interpretation tsb: multi_index "\<lambda>(t, h). tbi_add t h" "\<lambda>(t, h). tbi_remove t h" "\<lambda>e. {#e#}" mset
    "\<lambda>ix. sorted (map fst ix)"
  by unfold_locales
    (auto simp: tbi_add_def tbi_remove_def erase_match_eq intro: sorted_mm_emplace sorted_erase)

interpretation tst: multi_index "\<lambda>(t, h). tti_add t h" "\<lambda>(t, h). tti_remove t h" "\<lambda>e. {#e#}" mset
    "\<lambda>ix. sorted (map fst ix)"
  by unfold_locales
    (auto simp: tti_add_def tti_remove_def erase_match_eq intro: sorted_mm_emplace sorted_erase)

interpretation orp: lookup_index "\<lambda>b ix. kept ix (obi_add b ix)" "\<lambda>b ix. kept ix (obi_remove b ix)"
    orphan_entries mset "\<lambda>_. True" equal_range
  by unfold_locales
    (auto simp: kept_def obi_add_def obi_remove_def orphan_entries_def bind_res_def erase_match_eq mset_equal_range
      split: sum.splits)

section \<open>Range queries\<close>

definition in_range :: "u64 \<Rightarrow> u64 \<Rightarrow> u64 \<times> hash \<Rightarrow> bool" where
  "in_range b e x \<longleftrightarrow> b \<le> fst x \<and> fst x \<le> e"

lemma range_slice:
  assumes "sorted (map fst ix)" "b \<le> e"
  shows "drop (mm_lower b ix) (take (mm_upper e ix) ix) = filter (in_range b e) ix \<and>
    mm_upper e ix - mm_lower b ix = length (filter (in_range b e) ix)"
  using assms(1)
proof (induction ix)
  case (Cons x ix)
  consider "fst x < b" | "b \<le> fst x" "fst x \<le> e" | "e < fst x" using assms(2) by force
  then show ?case
  proof cases
    case 1
    then have "fst x \<le> e" using assms(2) by simp
    with 1 Cons show ?thesis by (simp add: mm_lower_def mm_upper_def in_range_def)
  next
    case 2
    have "mm_lower b ix = 0"
      using Cons.prems 2(1) by (cases ix) (auto simp: mm_lower_def)
    moreover have "sorted (map fst ix)" using Cons.prems by simp
    ultimately have "take (mm_upper e ix) ix = filter (in_range b e) ix" "mm_upper e ix = length (filter (in_range b e) ix)"
      using Cons.IH by (metis drop0, metis diff_zero)
    moreover have "mm_lower b (x # ix) = 0" "mm_upper e (x # ix) = Suc (mm_upper e ix)"
      using 2 by (simp_all add: mm_lower_def mm_upper_def)
    moreover have "in_range b e x" using 2 by (simp add: in_range_def)
    ultimately show ?thesis by simp
  next
    case 3
    then have "filter (in_range b e) (x # ix) = []"
      using Cons.prems by (auto simp: in_range_def filter_empty_conv)
    moreover have "mm_upper e (x # ix) = 0" using 3 by (simp add: mm_upper_def)
    ultimately show ?thesis by simp
  qed
qed (simp add: mm_lower_def mm_upper_def)

lemma copy_hashes_take:
  assumes "\<And>m. below m \<longleftrightarrow> unat m < limit" "unat n + length es < 2 ^ 32" "unat n \<le> limit"
  shows "copy_hashes below n es hs =
    (n + of_nat (min (limit - unat n) (length es)), hs @ take (limit - unat n) (map snd es))"
  using assms(2,3)
proof (induction es arbitrary: n hs)
  case (Cons x es)
  show ?case
  proof (cases "below n")
    case True
    then have l: "unat n < limit" using assms(1) by simp
    have n1: "unat (n + 1) = Suc (unat n)"
      using Cons.prems(1) by (simp add: unat_word_ariths)
    obtain k where k: "limit - unat n = Suc k" using l by (cases "limit - unat n") auto
    then have "limit - unat (n + 1) = k" using n1 by simp
    with Cons.IH [of "n + 1" "hs @ [snd x]"] Cons.prems l n1 k True show ?thesis
      by (simp add: algebra_simps)
  next
    case False
    then have "limit - unat n = 0" using assms(1) by simp
    with False show ?thesis by simp
  qed
qed simp

section \<open>The running count\<close>

text \<open>The index after blocks with \<open>cs\<close> transactions each.\<close>

definition generated_state :: "u64 list \<Rightarrow> generated_index" where
  "generated_state cs =
     \<lparr>gi_index = map (\<lambda>i. (of_nat i, sum_list (take (Suc i) cs))) [0..<length cs],
      gi_lastGeneratedTxNumber = sum_list cs\<rparr>"

lemma u32_of_nat_inject: "i < 2 ^ 32 \<Longrightarrow> j < 2 ^ 32 \<Longrightarrow> (of_nat i :: u32) = of_nat j \<longleftrightarrow> i = j"
  by (metis unat_of_nat_u32)

lemma generated_lookup:
  assumes "length cs \<le> 2 ^ 32" "i < 2 ^ 32"
  shows "map_of (gi_index (generated_state cs)) (of_nat i) =
    (if i < length cs then Some (sum_list (take (Suc i) cs)) else None)"
proof -
  have "map_of (map (\<lambda>i. (of_nat i :: u32, f i)) [0..<n]) (of_nat i) = (if i < n then Some (f i) else None)"
    if "n \<le> 2 ^ 32" for n and f :: "nat \<Rightarrow> u64"
    using that assms(2) by (induction n) (auto simp: u32_of_nat_inject map_add_def less_Suc_eq split: option.splits)
  then show ?thesis using assms(1) by (simp add: generated_state_def)
qed

lemma generated_add:
  assumes "base_height b = Inr (of_nat (length cs))" "length cs < 2 ^ 32"
  shows "gti_add b (generated_state cs) =
    Inr (True, generated_state (cs @ [of_nat (length (bl_transactionHashes b)) + 1]))"
proof -
  have "(ucast (of_nat (length cs) :: u32) :: usize) = of_nat (length cs)"
    using assms(2) by (simp add: word_unat_eq_iff unat_of_nat)
  moreover have "map_of (gi_index (generated_state cs)) (of_nat (length cs)) = None"
    using generated_lookup [of cs "length cs"] assms(2) by simp
  moreover have "length (gi_index (generated_state cs)) = length cs" by (simp add: generated_state_def)
  ultimately show ?thesis
    by (simp add: gti_add_def assms(1) Let_def) (simp add: generated_state_def)
qed

lemma generated_remove:
  assumes "base_height b = Inr (of_nat (length cs))" "length cs < 2 ^ 32"
  shows "gti_remove b (generated_state (cs @ [m])) = Inr (True, generated_state cs)"
proof -
  have "(ucast (of_nat (length cs) :: u32) :: usize) = of_nat (length cs)"
    using assms(2) by (simp add: word_unat_eq_iff unat_of_nat)
  moreover have "map_of (gi_index (generated_state (cs @ [m]))) (of_nat (length cs)) \<noteq> None"
    using generated_lookup [of "cs @ [m]" "length cs"] assms(2) by simp
  moreover have "length (gi_index (generated_state (cs @ [m]))) = Suc (length cs)" by (simp add: generated_state_def)
  moreover have "filter (\<lambda>e. fst e \<noteq> of_nat (length cs)) (gi_index (generated_state (cs @ [m]))) = gi_index (generated_state cs)"
    using assms(2) by (auto simp: generated_state_def filter_map o_def u32_of_nat_inject intro!: filter_True)
  moreover have "map_of (gi_index (generated_state cs)) (of_nat (length cs) - 1) = Some (sum_list cs)" if ne: "cs \<noteq> []"
  proof -
    obtain k where k: "length cs = Suc k" using ne by (cases cs) auto
    with generated_lookup [of cs k] assms(2) show ?thesis by simp
  qed
  moreover have "(of_nat (length cs) :: u32) = 0 \<longleftrightarrow> cs = []"
    using u32_of_nat_inject [of "length cs" 0] assms(2) by simp
  ultimately show ?thesis
    by (cases "cs = []") (auto simp: gti_remove_def assms(1) Let_def, auto simp: generated_state_def)
qed

text \<open>C39. Removing what was added to the payment and timestamp indices, in any order, restores their
  entries, and every removal of something that was added reports success.\<close>

theorem indices_undo:
  assumes "mset ys = mset xs" "mset us = mset ts" "sorted (map fst tix)"
  shows "mset (fold (\<lambda>tx ix. snd (pii_remove tx ix)) ys (fold (\<lambda>tx ix. snd (pii_add tx ix)) xs pix)) = mset pix \<and>
    mset (fold (\<lambda>(t, h) ix. snd (tbi_remove t h ix)) us (fold (\<lambda>(t, h) ix. snd (tbi_add t h ix)) ts tix)) = mset tix \<and>
    (\<forall>tx \<in> set xs. getPaymentId tx \<noteq> None \<longrightarrow>
      fst (pii_remove tx (fold (\<lambda>tx ix. snd (pii_add tx ix)) xs pix))) \<and>
    (\<forall>(t, h) \<in> set ts. fst (tbi_remove t h (fold (\<lambda>(t, h) ix. snd (tbi_add t h ix)) ts tix)))"
proof (intro conjI)
  have e: "(\<lambda>e s. snd (case e of (t, h) \<Rightarrow> tbi_add t h s)) = (\<lambda>(t, h) ix. snd (tbi_add t h ix))"
    "(\<lambda>e s. snd (case e of (t, h) \<Rightarrow> tbi_remove t h s)) = (\<lambda>(t, h) ix. snd (tbi_remove t h ix))"
    by (simp_all add: fun_eq_iff split: prod.split)
  show "mset (fold (\<lambda>tx ix. snd (pii_remove tx ix)) ys (fold (\<lambda>tx ix. snd (pii_add tx ix)) xs pix)) = mset pix"
    using pay.undo [OF TrueI assms(1), of pix] by (simp add: pay.add_all_def pay.remove_all_def)
  show "mset (fold (\<lambda>(t, h) ix. snd (tbi_remove t h ix)) us (fold (\<lambda>(t, h) ix. snd (tbi_add t h ix)) ts tix)) = mset tix"
    using tsb.undo [OF assms(3,2)] by (simp add: tsb.add_all_def tsb.remove_all_def e case_prod_app)
  show "\<forall>tx \<in> set xs. getPaymentId tx \<noteq> None \<longrightarrow>
      fst (pii_remove tx (fold (\<lambda>tx ix. snd (pii_add tx ix)) xs pix))"
    using pay.undo_reports [OF TrueI] by (fastforce simp: pay.add_all_def payment_entries_def)
  show "\<forall>(t, h) \<in> set ts. fst (tbi_remove t h (fold (\<lambda>(t, h) ix. snd (tbi_add t h ix)) ts tix))"
    using tsb.undo_reports [OF assms(3)] by (fastforce simp: tsb.add_all_def e case_prod_app)
qed

theorem indices_undo_witness:
  "mset (snd (tbi_remove 5 [1] (snd (tbi_remove 3 [2] (snd (tbi_add 5 [1] (snd (tbi_add 3 [2] [(4, [9])])))))))) =
    {#(4, [9])#}"
  using indices_undo [of "[]" "[]" "[(3, [2]), (5, [1])]" "[(3, [2]), (5, [1])]" "[(4, [9])]" "[]"] by simp

text \<open>A query of the block index by timestamps gives the hashes of exactly the blocks of that range, in
  the order of the timestamps and up to the limit, and the number of blocks in the range.\<close>

theorem timestamp_range_exact:
  assumes "sorted (map fst ix)" "length ix < 2 ^ 32" "b \<le> e"
  shows "tbi_find b e limit ix hashes within =
    (let found = filter (\<lambda>x. b \<le> fst x \<and> fst x \<le> e) ix
     in (found \<noteq> [] \<and> limit \<noteq> 0, hashes @ take (unat limit) (map snd found), of_nat (length found)))"
proof -
  define found where "found = filter (in_range b e) ix"
  have f: "filter (\<lambda>x. b \<le> fst x \<and> fst x \<le> e) ix = found"
    by (simp add: found_def in_range_def [abs_def])
  have l: "length found < 2 ^ 32" using assms(2) le_less_trans [OF length_filter_le] by (simp add: found_def)
  have c: "copy_hashes (\<lambda>n. n < limit) 0 found hashes =
      (of_nat (min (unat limit) (length found)), hashes @ take (unat limit) (map snd found))"
    using copy_hashes_take [of "\<lambda>n. n < limit" "unat limit" 0 found hashes] l by (simp add: word_less_nat_alt)
  have "min (unat limit) (length found) < 2 ^ 32" using l by (simp add: min.strict_coboundedI2)
  then have "unat (of_nat (min (unat limit) (length found)) :: u32) = min (unat limit) (length found)"
    by (rule unat_of_nat_u32)
  then have "(of_nat (min (unat limit) (length found)) :: u32) > 0 \<longleftrightarrow> found \<noteq> [] \<and> limit \<noteq> 0"
    by (auto simp: word_less_nat_alt unat_eq_0 unat_gt_0)
  with range_slice [OF assms(1,3)] c assms(3) show ?thesis
    by (auto simp: tbi_find_def f found_def [symmetric] Let_def)
qed

theorem timestamp_range_exact_example:
  "tbi_find 3 5 1 [(2, [9]), (3, [7]), (5, [8]), (6, [6])] [] 0 = (True, [[7]], 2)"
  using timestamp_range_exact [of "[(2, [9]), (3, [7]), (5, [8]), (6, [6])]" 3 5 1 "[]" 0] by simp

text \<open>Clearing the running count keeps the last number, so a rebuilt index does not start from zero.\<close>

lemma generated_clear_keeps_last:
  "gti_find 0 (generated_state [4]) = Some 4 \<and>
   (\<forall>b. base_height b = Inr 0 \<and> bl_transactionHashes b = [] \<longrightarrow>
     map_sum id (\<lambda>(_, g). gti_find 0 g) (gti_add b (gti_clear (generated_state [4]))) = Inr (Some 5))"
  by (simp add: gti_find_def generated_state_def gti_clear_def gti_add_def)

end
