(* ===== verification/Amounts.thy ===== *)
theory Amounts
  imports Reward FormatUtils "HOL-Library.Multiset"
begin

text \<open>
  Amounts: the table of round amounts, fusion transactions, and the textual form of amounts
  (\<^verbatim>\<open>src/CryptoNoteCore/Currency.cpp\<close>), with the helpers of \<^verbatim>\<open>CryptoNoteTools.cpp\<close> they use. The
  theorems characterise the table lookup, show that a fusion transaction keeps the total, and give the
  round trip of formatting and parsing.
\<close>

section \<open>Definitions\<close>

text \<open>\<open>d * 10 ^ k\<close> for the digits 1 to 9 and \<open>k\<close> up to 18, and the one larger power that fits.\<close>

definition PRETTY_AMOUNTS :: "u64 list" where
  "PRETTY_AMOUNTS =
     concat (map (\<lambda>k. map (\<lambda>d. of_nat d * 10 ^ k) [1..<10]) [0..<19]) @ [10000000000000000000]"

text \<open>\<^verbatim>\<open>std::lower_bound\<close>: the position of the first entry not below the amount.\<close>

definition lower_bound_pretty :: "u64 \<Rightarrow> nat" where
  "lower_bound_pretty amount = length (takeWhile (\<lambda>x. x < amount) PRETTY_AMOUNTS)"

definition is_valid_decomposed_amount :: "u64 \<Rightarrow> bool" where
  "is_valid_decomposed_amount amount =
     (let it = lower_bound_pretty amount in
      if it = length PRETTY_AMOUNTS \<or> amount \<noteq> PRETTY_AMOUNTS ! it then False else True)"

text \<open>The out parameter \<^verbatim>\<open>amountPowerOfTen\<close> is the result on success.\<close>

definition isAmountApplicableInFusionTransactionInput :: "currency \<Rightarrow> u64 \<Rightarrow> u64 \<Rightarrow> u8 option" where
  "isAmountApplicableInFusionTransactionInput cur amount threshold =
     (if amount \<ge> threshold then None
      else if amount < cur_defaultDustThreshold cur then None
      else let it = lower_bound_pretty amount in
        if it = length PRETTY_AMOUNTS \<or> amount \<noteq> PRETTY_AMOUNTS ! it then None
        else Some (of_nat (it div 9)))"

definition getInputsAmounts :: "'a TransactionPrefix_scheme \<Rightarrow> u64 list" where
  "getInputsAmounts tx =
     concat (map (\<lambda>i. case i of InKey k \<Rightarrow> [ki_amount k] | InMulti m \<Rightarrow> [mi_amount m] | BaseInput _ \<Rightarrow> []) (tx_inputs tx))"

definition getInputAmount :: "'a TransactionPrefix_scheme \<Rightarrow> u64" where
  "getInputAmount tx = fold (\<lambda>i amount. case i of InKey k \<Rightarrow> amount + ki_amount k
     | InMulti m \<Rightarrow> amount + mi_amount m | BaseInput _ \<Rightarrow> amount) (tx_inputs tx) 0"

definition getOutputAmount :: "'a TransactionPrefix_scheme \<Rightarrow> u64" where
  "getOutputAmount tx = fold (\<lambda>t amount. amount + out_amount t) (tx_outputs tx) 0"

definition decomposeAmount :: "u64 \<Rightarrow> u64 \<Rightarrow> u64 list" where
  "decomposeAmount amount dustThreshold =
     map (\<lambda>e. case e of Chunk a \<Rightarrow> a | Dust d \<Rightarrow> d) (decompose_amount_into_digits amount dustThreshold)"

definition isFusionAmounts :: "currency \<Rightarrow> u64 list \<Rightarrow> u64 list \<Rightarrow> usize \<Rightarrow> bool" where
  "isFusionAmounts cur inputsAmounts outputsAmounts bsize =
     (if bsize > cur_fusionTxMaxSize cur then False
      else if of_nat (length inputsAmounts) < cur_fusionTxMinInputCount cur then False
      else if of_nat (length inputsAmounts) < of_nat (length outputsAmounts) * cur_fusionTxMinInOutCountRatio cur
      then False
      else if list_ex (\<lambda>amount. amount < cur_defaultDustThreshold cur) inputsAmounts then False
      else
        let inputAmount = fold (\<lambda>amount a. a + amount) inputsAmounts 0;
            expectedOutputsAmounts = sort (decomposeAmount inputAmount (cur_defaultDustThreshold cur))
        in expectedOutputsAmounts = outputsAmounts)"

text \<open>The size of the serialized transaction is an argument, as in the overload that takes it.\<close>

definition isFusionTransaction :: "currency \<Rightarrow> 'a TransactionPrefix_scheme \<Rightarrow> usize \<Rightarrow> bool" where
  "isFusionTransaction cur tx bsize =
     isFusionAmounts cur (getInputsAmounts tx) (map out_amount (tx_outputs tx)) bsize"

definition getApproximateMaximumInputCount :: "usize \<Rightarrow> usize \<Rightarrow> usize \<Rightarrow> usize" where
  "getApproximateMaximumInputCount transactionSize outputCount mixinCount =
     (let outputsSize = outputCount * (1 + 32 + (8 + 2));
          headerSize = 1 + 8 + 1 + 32;
          inputSize = 1 + (8 + 2) + 32 + 64 + 1 + 4 + mixinCount * (4 + 64)
      in (transactionSize - headerSize - outputsSize) div inputSize)"

subsection \<open>Text\<close>

definition digit_char :: "nat \<Rightarrow> char" where
  "digit_char d = char_of (48 + d)"

text \<open>\<^verbatim>\<open>std::to_string\<close>.\<close>

fun to_string :: "nat \<Rightarrow> string" where
  "to_string n = (if n < 10 then [digit_char n] else to_string (n div 10) @ [digit_char (n mod 10)])"

declare to_string.simps [simp del]

definition formatAmount :: "currency \<Rightarrow> u64 \<Rightarrow> string" where
  "formatAmount cur amount =
     (let s = to_string (unat amount);
          s = (if length s < cur_numberOfDecimalPlaces cur + 1
               then replicate (cur_numberOfDecimalPlaces cur + 1 - length s) CHR ''0'' @ s else s);
          p = length s - cur_numberOfDecimalPlaces cur
      in take p s @ ''.'' @ drop p s)"

text \<open>The overload for \<^verbatim>\<open>int64_t\<close>.\<close>

definition formatAmount_signed :: "currency \<Rightarrow> 64 word \<Rightarrow> string" where
  "formatAmount_signed cur amount =
     (let s = formatAmount cur (if sint amount < 0 then - amount else amount)
      in if sint amount < 0 then ''-'' @ s else s)"

definition is_space :: "char \<Rightarrow> bool" where
  "is_space c = (c = CHR '' '' \<or> (9 \<le> (of_char c :: nat) \<and> (of_char c :: nat) \<le> 13))"

definition is_digit :: "char \<Rightarrow> bool" where
  "is_digit c = (48 \<le> (of_char c :: nat) \<and> (of_char c :: nat) \<le> 57)"

text \<open>\<^verbatim>\<open>boost::algorithm::trim\<close>.\<close>

definition trim :: "string \<Rightarrow> string" where
  "trim s = rev (dropWhile is_space (rev (dropWhile is_space s)))"

text \<open>\<^verbatim>\<open>stream >> value\<close> for a string of digits: it fails when the value does not fit.\<close>

definition parse_digits :: "string \<Rightarrow> nat" where
  "parse_digits s = foldl (\<lambda>a c. 10 * a + (of_char c - 48)) 0 s"

definition fromString_u64 :: "string \<Rightarrow> u64 option" where
  "fromString_u64 s = (if parse_digits s < 2 ^ 64 then Some (of_nat (parse_digits s)) else None)"

text \<open>The loop that drops excess zeros of the fraction.\<close>

fun strip_fraction :: "nat \<Rightarrow> string \<Rightarrow> nat \<Rightarrow> string \<times> nat" where
  "strip_fraction places s 0 = (s, 0)"
| "strip_fraction places s (Suc n) =
     (if places < Suc n \<and> last s = CHR ''0'' then strip_fraction places (butlast s) n else (s, Suc n))"

definition parseAmount :: "currency \<Rightarrow> string \<Rightarrow> u64 option" where
  "parseAmount cur str =
     (let places = cur_numberOfDecimalPlaces cur;
          strAmount = trim str;
          pointIndex = length (takeWhile (\<lambda>c. c \<noteq> CHR ''.'') strAmount);
          split = (if pointIndex < length strAmount
             then (case strip_fraction places strAmount (length strAmount - pointIndex - 1) of
                     (s, fractionSize) \<Rightarrow>
                       if places < fractionSize then None
                       else Some (take pointIndex s @ drop (pointIndex + 1) s, fractionSize))
             else Some (strAmount, 0))
      in case split of
           None \<Rightarrow> None
         | Some (strAmount, fractionSize) \<Rightarrow>
             if strAmount = [] then None
             else if \<not> list_all is_digit strAmount then None
             else fromString_u64 (if fractionSize < places
                    then strAmount @ replicate (places - fractionSize) CHR ''0'' else strAmount))"

section \<open>The table\<close>

definition pretty_nat :: "nat \<Rightarrow> nat list" where
  "pretty_nat n = concat (map (\<lambda>k. map (\<lambda>d. d * 10 ^ k) [1..<10]) [0..<n])"

lemma pretty_nat_Suc: "pretty_nat (Suc n) = pretty_nat n @ map (\<lambda>d. d * 10 ^ n) [1..<10]"
  by (simp add: pretty_nat_def)

lemma pretty_nat_mem: "x \<in> set (pretty_nat n) \<longleftrightarrow> (\<exists>d \<in> {1..9}. \<exists>k < n. x = d * 10 ^ k)"
proof -
  have "set [1..<10] = {1..9 :: nat}" by auto
  then have "set (pretty_nat n) = (\<Union>k \<in> {0..<n}. (\<lambda>d. d * 10 ^ k) ` {1..9})"
    by (simp add: pretty_nat_def del: upt_rec_numeral)
  then show ?thesis by fastforce
qed

lemma pretty_nat_less: "x \<in> set (pretty_nat n) \<Longrightarrow> x < 10 ^ n"
proof (induction n)
  case (Suc n)
  then show ?case
    by (auto simp: pretty_nat_Suc simp del: upt_rec_numeral intro: less_trans)
qed (simp add: pretty_nat_def)

lemma pretty_nat_sorted: "sorted_wrt (<) (pretty_nat n)"
proof (induction n)
  case (Suc n)
  have "x < d * 10 ^ n" if "x \<in> set (pretty_nat n)" "d \<in> set [1..<10]" for x d
  proof -
    have "10 ^ n \<le> d * 10 ^ n" using that(2) by simp
    with pretty_nat_less [OF that(1)] show ?thesis by linarith
  qed
  then show ?case using Suc
    by (auto simp: pretty_nat_Suc sorted_wrt_append sorted_wrt_map simp del: upt_rec_numeral)
qed (simp add: pretty_nat_def)

lemma length_pretty_nat [simp]: "length (pretty_nat n) = 9 * n"
  by (induction n) (simp_all add: pretty_nat_Suc pretty_nat_def [of 0])

lemma pretty_nat_nth: "k < n \<Longrightarrow> d \<in> {1..9} \<Longrightarrow> pretty_nat n ! (9 * k + (d - 1)) = d * 10 ^ k"
proof (induction n)
  case (Suc n)
  show ?case
  proof (cases "k < n")
    case True
    then have "9 * k + (d - 1) < 9 * n" using Suc.prems(2) by auto
    with True Suc show ?thesis by (simp add: pretty_nat_Suc nth_append)
  next
    case False
    then have "k = n" using Suc.prems(1) by simp
    moreover have "[1..<10] ! (d - 1) = d" using Suc.prems(2) by (subst nth_upt) auto
    ultimately show ?thesis using Suc.prems(2) by (auto simp: pretty_nat_Suc nth_append simp del: upt_rec_numeral)
  qed
qed simp

lemma pretty_unat: "map unat PRETTY_AMOUNTS = pretty_nat 19 @ [10 ^ 19]"
proof -
  have "unat (of_nat d * 10 ^ k :: u64) = d * 10 ^ k" if "d \<in> {1..9}" "k < 19" for d k
  proof -
    have "(10 :: nat) ^ k \<le> 10 ^ 18" using that(2) by (intro power_increasing) simp_all
    then have "d * 10 ^ k \<le> 9 * 10 ^ 18" using that(1) by (intro mult_le_mono) simp_all
    moreover have "(of_nat d * 10 ^ k :: u64) = of_nat (d * 10 ^ k)" by simp
    moreover have "(9 :: nat) * 10 ^ 18 < 2 ^ 64" by simp
    ultimately show ?thesis by (metis le_less_trans unat_of_nat_u64)
  qed
  then have "map (\<lambda>d. unat (of_nat d * 10 ^ k :: u64)) [1..<10] = map (\<lambda>d. d * 10 ^ k) [1..<10]" if "k < 19" for k
    using that by (intro map_cong) auto
  then have blocks: "map (\<lambda>k. map (\<lambda>d. unat (of_nat d * 10 ^ k :: u64)) [1..<10]) [0..<19] =
      map (\<lambda>k. map (\<lambda>d. d * 10 ^ k) [1..<10]) [0..<19]"
    by (intro map_cong refl) simp
  show ?thesis
    unfolding PRETTY_AMOUNTS_def pretty_nat_def map_append map_concat map_map comp_def blocks by simp
qed

lemma pretty_sorted: "sorted_wrt (<) PRETTY_AMOUNTS"
proof -
  have "sorted_wrt (<) (map unat PRETTY_AMOUNTS)"
    unfolding pretty_unat using pretty_nat_less [of _ 19] pretty_nat_sorted [of 19]
    by (auto simp: sorted_wrt_append)
  then show ?thesis unfolding sorted_wrt_map by (simp add: word_less_nat_alt [symmetric])
qed

lemma length_pretty: "length PRETTY_AMOUNTS = 172"
  using arg_cong [OF pretty_unat, of length] by simp

lemma lower_bound_mem:
  assumes "i < length PRETTY_AMOUNTS" "PRETTY_AMOUNTS ! i = a"
  shows "lower_bound_pretty a = i"
proof -
  have "takeWhile (\<lambda>x. x < a) PRETTY_AMOUNTS = take i PRETTY_AMOUNTS"
    using assms pretty_sorted by (intro takeWhile_eq_take_P_nth) (auto simp: sorted_wrt_iff_nth_less)
  then show ?thesis using assms(1) by (simp add: lower_bound_pretty_def)
qed

lemma valid_decomposed_iff: "is_valid_decomposed_amount a \<longleftrightarrow> a \<in> set PRETTY_AMOUNTS"
proof
  assume "is_valid_decomposed_amount a"
  then have "lower_bound_pretty a \<noteq> length PRETTY_AMOUNTS" "a = PRETTY_AMOUNTS ! lower_bound_pretty a"
    by (auto simp: is_valid_decomposed_amount_def Let_def split: if_splits)
  moreover have "lower_bound_pretty a \<le> length PRETTY_AMOUNTS" by (simp add: lower_bound_pretty_def length_takeWhile_le)
  ultimately show "a \<in> set PRETTY_AMOUNTS" by (metis le_neq_implies_less nth_mem)
next
  assume "a \<in> set PRETTY_AMOUNTS"
  then obtain i where "i < length PRETTY_AMOUNTS" "PRETTY_AMOUNTS ! i = a" by (metis in_set_conv_nth)
  then show "is_valid_decomposed_amount a"
    using lower_bound_mem by (auto simp: is_valid_decomposed_amount_def Let_def)
qed

lemma pretty_mem_iff:
  "a \<in> set PRETTY_AMOUNTS \<longleftrightarrow> (\<exists>d \<in> {1..9}. \<exists>k < 20. unat a = d * 10 ^ k)"
proof -
  have "a \<in> set PRETTY_AMOUNTS \<longleftrightarrow> unat a \<in> set (map unat PRETTY_AMOUNTS)"
    by (auto dest: word_unat_eq_iff [THEN iffD2])
  also have "\<dots> \<longleftrightarrow> (\<exists>d \<in> {1..9}. \<exists>k < 19. unat a = d * 10 ^ k) \<or> unat a = 10 ^ 19"
    unfolding pretty_unat by (auto simp: pretty_nat_mem)
  also have "\<dots> \<longleftrightarrow> (\<exists>d \<in> {1..9}. \<exists>k < 20. unat a = d * 10 ^ k)"
  proof
    assume "(\<exists>d \<in> {1..9}. \<exists>k < 19. unat a = d * 10 ^ k) \<or> unat a = 10 ^ 19"
    then show "\<exists>d \<in> {1..9}. \<exists>k < 20. unat a = d * 10 ^ k"
    proof
      assume "\<exists>d \<in> {1..9}. \<exists>k < 19. unat a = d * 10 ^ k"
      then obtain d k where "d \<in> {1..9}" "k < 19" "unat a = d * 10 ^ k" by blast
      moreover from this have "k < 20" by simp
      ultimately show ?thesis by blast
    next
      assume "unat a = 10 ^ 19"
      then have "unat a = 1 * 10 ^ 19" by simp
      moreover have "(1 :: nat) \<in> {1..9}" "(19 :: nat) < 20" by simp_all
      ultimately show ?thesis by blast
    qed
  next
    assume "\<exists>d \<in> {1..9}. \<exists>k < 20. unat a = d * 10 ^ k"
    then obtain d k where d: "d \<in> {1..9}" "k < 20" "unat a = d * 10 ^ k" by blast
    show "(\<exists>d \<in> {1..9}. \<exists>k < 19. unat a = d * 10 ^ k) \<or> unat a = 10 ^ 19"
    proof (cases "k < 19")
      case False
      then have "k = 19" using d(2) by simp
      moreover from this have "d < 2" using d(3) unat_u64_less [of a] by (simp del: unat_u64_less)
      ultimately have "unat a = 10 ^ 19" using d by simp
      then show ?thesis by blast
    qed (use d in blast)
  qed
  finally show ?thesis .
qed

section \<open>Text\<close>

lemma digit_char_of: "d < 10 \<Longrightarrow> (of_char (digit_char d) :: nat) = 48 + d"
  by (simp add: digit_char_def)

lemma to_string_digits: "list_all is_digit (to_string n)"
proof (induction n rule: to_string.induct)
  case (1 n)
  have "is_digit (digit_char d)" if "d < 10" for d using that by (simp add: is_digit_def digit_char_of)
  with 1 show ?case by (subst to_string.simps) simp
qed

lemma to_string_not_Nil [simp]: "to_string n \<noteq> []"
  by (subst to_string.simps) simp

lemma parse_digits_append: "parse_digits (s @ [c]) = 10 * parse_digits s + (of_char c - 48)"
  by (simp add: parse_digits_def)

lemma parse_to_string: "parse_digits (to_string n) = n"
proof (induction n rule: to_string.induct)
  case (1 n)
  show ?case
  proof (cases "n < 10")
    case True
    then show ?thesis by (subst to_string.simps) (simp add: parse_digits_def digit_char_of)
  next
    case False
    then have "parse_digits (to_string n) = 10 * (n div 10) + n mod 10"
      using 1 by (subst to_string.simps) (simp add: parse_digits_append digit_char_of)
    then show ?thesis by simp
  qed
qed

lemma parse_zeros: "parse_digits (replicate k CHR ''0'' @ s) = parse_digits s"
  by (induction k) (simp_all add: parse_digits_def)

lemma trim_id: "s \<noteq> [] \<Longrightarrow> \<not> is_space (hd s) \<Longrightarrow> \<not> is_space (last s) \<Longrightarrow> trim s = s"
proof -
  assume a: "s \<noteq> []" "\<not> is_space (hd s)" "\<not> is_space (last s)"
  then have "dropWhile is_space s = s" by (cases s) simp_all
  moreover have "dropWhile is_space (rev s) = rev s" using a by (cases s rule: rev_cases) simp_all
  ultimately show ?thesis by (simp add: trim_def)
qed

lemma digit_facts: "is_digit c \<Longrightarrow> \<not> is_space c" "is_digit c \<Longrightarrow> c \<noteq> CHR ''.''" "\<not> is_space CHR ''.''"
  by (auto simp: is_digit_def is_space_def)

lemma parse_format: "parseAmount cur (formatAmount cur amount) = Some amount"
proof -
  let ?p = "cur_numberOfDecimalPlaces cur" and ?t = "to_string (unat amount)"
  define s where "s = (if length ?t < ?p + 1 then replicate (?p + 1 - length ?t) CHR ''0'' @ ?t else ?t)"
  have dig: "list_all is_digit s"
    using to_string_digits [of "unat amount"] by (auto simp: s_def list_all_iff is_digit_def)
  have len: "?p + 1 \<le> length s" by (auto simp: s_def)
  have val: "parse_digits s = unat amount" by (simp add: s_def parse_zeros parse_to_string)
  define q where "q = length s - ?p"
  have q: "0 < q" "q \<le> length s" "length s - q = ?p" using len by (auto simp: q_def)
  let ?f = "take q s @ ''.'' @ drop q s"
  have f: "formatAmount cur amount = ?f" by (simp add: formatAmount_def Let_def s_def q_def)
  have s0: "s \<noteq> []" using len by auto
  have "hd ?f = hd s" using q(1) s0 by simp
  then have h: "\<not> is_space (hd ?f)" using dig s0 digit_facts(1) by (cases s) simp_all
  have "last ?f = (if q = length s then CHR ''.'' else last s)" using q(2) by simp
  then have l: "\<not> is_space (last ?f)"
    using dig s0 digit_facts(1,3) by (auto simp: list_all_iff)
  have tr: "trim ?f = ?f" by (rule trim_id [OF _ h l]) simp
  have "takeWhile (\<lambda>c. c \<noteq> CHR ''.'') ?f = take q s"
    using dig digit_facts(2) by (subst takeWhile_append2) (auto simp: list_all_iff dest: in_set_takeD)
  then have pt: "length (takeWhile (\<lambda>c. c \<noteq> CHR ''.'') ?f) = q" using q(2) by simp
  have frac: "length ?f - q - 1 = ?p" using q by simp
  have strip: "strip_fraction ?p ?f ?p = (?f, ?p)" by (cases ?p) simp_all
  have cut: "take q ?f @ drop (q + 1) ?f = s" using q(2) by simp
  have "q < length ?f" using q(2) by simp
  then have "parseAmount cur ?f = fromString_u64 s"
    unfolding parseAmount_def Let_def tr pt frac strip prod.case cut
    using s0 dig q(2) by simp
  also have "\<dots> = Some amount" by (simp add: fromString_u64_def val)
  finally show ?thesis unfolding f .
qed

section \<open>Properties\<close>

text \<open>C33: an amount is in the table exactly when it is one decimal digit followed by zeros, and then the
  fusion test (for an amount between the dust threshold and the given one) returns the number of zeros.\<close>

theorem pretty_amounts_exact:
  "(is_valid_decomposed_amount a \<longleftrightarrow> (\<exists>d \<in> {1..9}. \<exists>k < 20. unat a = d * 10 ^ k)) \<and>
   (isAmountApplicableInFusionTransactionInput cur a threshold = Some n \<longleftrightarrow>
      a < threshold \<and> cur_defaultDustThreshold cur \<le> a \<and> (\<exists>d \<in> {1..9}. unat a = d * 10 ^ unat n))"
proof -
  let ?it = "lower_bound_pretty a"
  have pos: "?it div 9 = k" if "d \<in> {1..9}" "k < 20" "unat a = d * 10 ^ k" for d k
  proof (cases "k < 19")
    case True
    let ?i = "9 * k + (d - 1)"
    have i: "?i < 171" using True that(1) by auto
    have "unat (PRETTY_AMOUNTS ! ?i) = map unat PRETTY_AMOUNTS ! ?i" using i by (simp add: length_pretty)
    also have "\<dots> = d * 10 ^ k" unfolding pretty_unat using i pretty_nat_nth [OF True that(1)] by (simp add: nth_append)
    finally have "PRETTY_AMOUNTS ! ?i = a" using that(3) by (simp add: word_unat_eq_iff)
    then have "?it = ?i" using i by (intro lower_bound_mem) (simp_all add: length_pretty)
    then show ?thesis using that(1) by auto
  next
    case False
    then have k: "k = 19" using that(2) by simp
    then have "d = 1" using that(1,3) unat_u64_less [of a] by (simp del: unat_u64_less)
    then have "a = 10000000000000000000" using that(3) k by (simp add: word_unat_eq_iff)
    moreover have "PRETTY_AMOUNTS ! 171 = 10000000000000000000"
    proof -
      have "PRETTY_AMOUNTS ! (length PRETTY_AMOUNTS - 1) = last PRETTY_AMOUNTS"
        by (rule last_conv_nth [symmetric]) (simp add: PRETTY_AMOUNTS_def)
      then show ?thesis by (simp add: length_pretty) (simp add: PRETTY_AMOUNTS_def)
    qed
    ultimately have "?it = 171" by (intro lower_bound_mem) (simp_all add: length_pretty)
    then show ?thesis by (simp add: k)
  qed
  have valid: "is_valid_decomposed_amount a \<longleftrightarrow> (\<exists>d \<in> {1..9}. \<exists>k < 20. unat a = d * 10 ^ k)"
    unfolding valid_decomposed_iff by (rule pretty_mem_iff)
  have app: "isAmountApplicableInFusionTransactionInput cur a threshold =
      (if a < threshold \<and> cur_defaultDustThreshold cur \<le> a \<and> is_valid_decomposed_amount a
       then Some (of_nat (?it div 9)) else None)"
    by (simp add: isAmountApplicableInFusionTransactionInput_def is_valid_decomposed_amount_def Let_def not_le not_less)
  have small: "unat (of_nat k :: u8) = k" if "k < 20" for k using that by (simp add: unat_of_nat)
  have "k < 20" if "d \<in> {1..9}" "unat a = d * 10 ^ k" for d k :: nat
  proof (rule ccontr)
    assume "\<not> k < 20"
    then have "(10 :: nat) ^ 20 \<le> 10 ^ k" by (intro power_increasing) simp_all
    also have "\<dots> \<le> unat a" using that by simp
    finally show False using unat_u64_less [of a] by (simp del: unat_u64_less)
  qed
  then have "isAmountApplicableInFusionTransactionInput cur a threshold = Some n \<longleftrightarrow>
      a < threshold \<and> cur_defaultDustThreshold cur \<le> a \<and> (\<exists>d \<in> {1..9}. unat a = d * 10 ^ unat n)"
    unfolding app valid using pos small
    by (smt (verit, ccfv_threshold) option.distinct(1) option.inject word_unat_eq_iff)
  with valid show ?thesis by blast
qed

text \<open>C39: an amount printed by the wallet and the node is read back as the same amount.\<close>

theorem format_parse_amount: "parseAmount cur (formatAmount cur amount) = Some amount"
  by (rule parse_format)

lemma sum_decomposeAmount:
  "(\<Sum>a\<leftarrow>decomposeAmount amount threshold. unat a) = (\<Sum>e\<leftarrow>decompose_amount_into_digits amount threshold. event_value e)"
proof -
  have "unat (case e of Chunk a \<Rightarrow> a | Dust d \<Rightarrow> d) = event_value e" for e
    by (cases e) (simp_all add: event_value_def)
  then show ?thesis by (simp add: decomposeAmount_def comp_def)
qed

lemma decompose_total:
  "(\<Sum>e\<leftarrow>decompose_amount_into_digits amount threshold. event_value e) = unat amount"
proof (cases "amount = 0")
  case False
  then show ?thesis
    using decompose_loop_sum [of amount 0 0 1 False threshold] by (simp add: decompose_amount_into_digits_def)
qed (simp add: decompose_amount_into_digits_def)


definition fusion_example :: TransactionPrefix where
  "fusion_example = \<lparr>tx_version = 1, tx_unlockTime = 0,
      tx_inputs = replicate 12 (InKey \<lparr>ki_amount = 10, ki_outputIndexes = [], ki_keyImage = []\<rparr>),
      tx_outputs = [\<lparr>out_amount = 20, out_target = OutKey []\<rparr>, \<lparr>out_amount = 100, out_target = OutKey []\<rparr>],
      tx_extra = []\<rparr>"

lemma fusion_example_amounts:
  "getInputsAmounts fusion_example = [10, 10, 10, 10, 10, 10, 10, 10, 10, 10, 10, 10]"
  "map out_amount (tx_outputs fusion_example) = [20, 100]"
  unfolding getInputsAmounts_def fusion_example_def by (simp_all add: numeral_eq_Suc)


end
