(* ===== verification/TransactionPool.thy ===== *)
theory TransactionPool
  imports BlockchainIndices Amounts Interest FormatUtils "HOL-Library.Product_Lexorder" "HOL-Library.Sublist"
begin

text \<open>
  The pool of transactions that wait for a block, \<^verbatim>\<open>src/CryptoNoteCore/TransactionPool.cpp\<close>. The
  validator of \<^verbatim>\<open>src/CryptoNoteCore/ITransactionValidator.h\<close>, an interface with virtual functions,
  is a record of functions that may change from call to call. The theorems show that every pool the
  operations can reach records exactly the inputs its transactions spend, that transactions received
  from the network never conflict, that taking a transaction undoes adding it, and that a block template
  holds transactions that can stand together in one block within the size limits.
\<close>

section \<open>Data\<close>

record BlockInfo =
  bi_height :: u32
  bi_id :: hash

definition bi_clear :: BlockInfo where
  "bi_clear = \<lparr>bi_height = 0, bi_id = NULL_HASH\<rparr>"

definition bi_empty :: "BlockInfo \<Rightarrow> bool" where
  "bi_empty b \<longleftrightarrow> bi_id b = NULL_HASH"

record tx_verification_context =
  tvc_should_be_relayed :: bool
  tvc_verification_failed :: bool
  tvc_verification_impossible :: bool
  tvc_added_to_pool :: bool
  tvc_tx_fee_too_small :: bool

text \<open>The reference arguments of the interface are arguments and results.\<close>

record ITransactionValidator =
  v_checkTransactionInputs :: "Transaction \<Rightarrow> BlockInfo \<Rightarrow> (bool \<times> BlockInfo) result"
  v_checkTransactionInputs_failed :: "Transaction \<Rightarrow> BlockInfo \<Rightarrow> BlockInfo \<Rightarrow> (bool \<times> BlockInfo \<times> BlockInfo) result"
  v_haveSpentKeyImages :: "Transaction \<Rightarrow> bool"
  v_checkTransactionSize :: "usize \<Rightarrow> bool"

record TransactionDetails =
  td_maxUsedBlock :: BlockInfo
  td_lastFailedBlock :: BlockInfo
  td_id :: hash
  td_tx :: Transaction
  td_blobSize :: usize
  td_fee :: u64
  td_keptByBlock :: bool
  td_receiveTime :: u64

text \<open>\<^verbatim>\<open>m_transactions\<close> is listed in the order of insertion. Its hashed index iterates in an order the
  library does not specify, for which this order stands; its ordered index is \<open>fee_index\<close> below.\<close>

record tx_memory_pool =
  mp_spent_key_images :: "key_image \<rightharpoonup> hash set"
  mp_spentOutputs :: "(u64 \<times> u64) set"
  mp_transactions :: "TransactionDetails list"
  mp_recentlyDeletedTransactions :: "hash \<rightharpoonup> u64"
  mp_paymentIdIndex :: payment_index
  mp_timestampIndex :: timestamp_index
  mp_ttlIndex :: "hash \<rightharpoonup> u64"
  mp_lastWorkedTime :: u64

definition new_pool :: tx_memory_pool where
  "new_pool = \<lparr>mp_spent_key_images = Map.empty, mp_spentOutputs = {}, mp_transactions = [],
     mp_recentlyDeletedTransactions = Map.empty, mp_paymentIdIndex = [], mp_timestampIndex = [],
     mp_ttlIndex = Map.empty, mp_lastWorkedTime = 0\<rparr>"

section \<open>Spent inputs\<close>

definition GlobalOutput :: "MultisignatureInput \<Rightarrow> u64 \<times> u64" where
  "GlobalOutput m = (mi_amount m, ucast (mi_outputIndex m))"

fun have_spent :: "tx_memory_pool \<Rightarrow> TransactionInput list \<Rightarrow> bool" where
  "have_spent p [] = False"
| "have_spent p (i # is) =
     (case i of
        InKey k \<Rightarrow> if mp_spent_key_images p (ki_keyImage k) \<noteq> None then True else have_spent p is
      | InMulti m \<Rightarrow> if GlobalOutput m \<in> mp_spentOutputs p then True else have_spent p is
      | _ \<Rightarrow> have_spent p is)"

definition haveSpentInputs :: "tx_memory_pool \<Rightarrow> Transaction \<Rightarrow> bool" where
  "haveSpentInputs p tx = have_spent p (tx_inputs tx)"

text \<open>Looking up \<^verbatim>\<open>m_spent_key_images[...]\<close> creates an empty entry that an early return leaves behind.\<close>

fun add_inputs :: "hash \<Rightarrow> bool \<Rightarrow> TransactionInput list \<Rightarrow> tx_memory_pool \<Rightarrow> (bool \<times> tx_memory_pool) result" where
  "add_inputs txid keptByBlock [] p = Inr (True, p)"
| "add_inputs txid keptByBlock (i # is) p =
     (case i of
        InKey k \<Rightarrow>
          let ki = ki_keyImage k;
              kei_image_set = (case mp_spent_key_images p ki of None \<Rightarrow> {} | Some s \<Rightarrow> s);
              touched = p\<lparr>mp_spent_key_images := (mp_spent_key_images p)(ki \<mapsto> kei_image_set)\<rparr>
          in if \<not> (keptByBlock \<or> kei_image_set = {}) then Inr (False, touched)
             else if txid \<in> kei_image_set then Inr (False, touched)
             else add_inputs txid keptByBlock is
                    (p\<lparr>mp_spent_key_images := (mp_spent_key_images p)(ki \<mapsto> insert txid kei_image_set)\<rparr>)
      | InMulti m \<Rightarrow>
          if \<not> keptByBlock
          then assert_res (GlobalOutput m \<notin> mp_spentOutputs p)
                 (add_inputs txid keptByBlock is (p\<lparr>mp_spentOutputs := insert (GlobalOutput m) (mp_spentOutputs p)\<rparr>))
          else add_inputs txid keptByBlock is p
      | _ \<Rightarrow> add_inputs txid keptByBlock is p)"

definition addTransactionInputs :: "hash \<Rightarrow> Transaction \<Rightarrow> bool \<Rightarrow> tx_memory_pool \<Rightarrow> (bool \<times> tx_memory_pool) result" where
  "addTransactionInputs txid tx keptByBlock p = add_inputs txid keptByBlock (tx_inputs tx) p"

fun remove_inputs :: "hash \<Rightarrow> bool \<Rightarrow> TransactionInput list \<Rightarrow> tx_memory_pool \<Rightarrow> (bool \<times> tx_memory_pool) result" where
  "remove_inputs txid keptByBlock [] p = Inr (True, p)"
| "remove_inputs txid keptByBlock (i # is) p =
     (case i of
        InKey k \<Rightarrow>
          (case mp_spent_key_images p (ki_keyImage k) of
             None \<Rightarrow> Inr (False, p)
           | Some key_image_set \<Rightarrow>
               if key_image_set = {} then Inr (False, p)
               else if txid \<notin> key_image_set then Inr (False, p)
               else let rest = key_image_set - {txid} in
                 remove_inputs txid keptByBlock is
                   (p\<lparr>mp_spent_key_images := (mp_spent_key_images p)
                        (ki_keyImage k := (if rest = {} then None else Some rest))\<rparr>))
      | InMulti m \<Rightarrow>
          if \<not> keptByBlock
          then assert_res (GlobalOutput m \<in> mp_spentOutputs p)
                 (remove_inputs txid keptByBlock is (p\<lparr>mp_spentOutputs := mp_spentOutputs p - {GlobalOutput m}\<rparr>))
          else remove_inputs txid keptByBlock is p
      | _ \<Rightarrow> remove_inputs txid keptByBlock is p)"

definition removeTransactionInputs :: "hash \<Rightarrow> Transaction \<Rightarrow> bool \<Rightarrow> tx_memory_pool \<Rightarrow> (bool \<times> tx_memory_pool) result" where
  "removeTransactionInputs txid tx keptByBlock p = remove_inputs txid keptByBlock (tx_inputs tx) p"

section \<open>Adding and removing\<close>

fun find_ttl :: "TransactionExtraField list \<Rightarrow> u64 option" where
  "find_ttl [] = None"
| "find_ttl (f # fs) = (case f of ExtraTTL t \<Rightarrow> Some t | _ \<Rightarrow> find_ttl fs)"

definition tx_ttl :: "Transaction \<Rightarrow> u64" where
  "tx_ttl tx = (case find_ttl (snd (parseTransactionExtra (tx_extra tx))) of None \<Rightarrow> 0 | Some t \<Rightarrow> t)"

text \<open>What \<^verbatim>\<open>std::move\<close> leaves of a transaction that was inserted: its vectors are empty.\<close>

definition moved_from :: "Transaction \<Rightarrow> Transaction" where
  "moved_from tx = tx\<lparr>tx_inputs := [], tx_outputs := [], tx_extra := [], tx_signatures := []\<rparr>"

definition have_tx :: "tx_memory_pool \<Rightarrow> hash \<Rightarrow> bool" where
  "have_tx p txid \<longleftrightarrow> txid \<in> set (map td_id (mp_transactions p))"

text \<open>\<open>sysnow\<close> is \<^verbatim>\<open>time(nullptr)\<close> and \<open>now\<close> the time provider's time. The checks before the pool is
  changed: None when they pass, otherwise the verdict that is returned.\<close>

definition ttl_refused :: "currency \<Rightarrow> u64 \<Rightarrow> u64 \<Rightarrow> u64 \<Rightarrow> bool" where
  "ttl_refused cur sysnow ttl fee \<longleftrightarrow>
     (if ttl \<le> sysnow then True
      else if ttl - sysnow > cur_mempoolTxLiveTime cur + cur_blockFutureTimeLimit cur then True
      else fee \<noteq> 0)"

definition insert_tx ::
  "TransactionDetails \<Rightarrow> u64 \<Rightarrow> tx_memory_pool \<Rightarrow> tx_memory_pool" where
  "insert_tx txd ttl p =
     p\<lparr>mp_transactions := mp_transactions p @ [txd],
       mp_paymentIdIndex := snd (pii_add (moved_from (td_tx txd)) (mp_paymentIdIndex p)),
       mp_timestampIndex := snd (tti_add (td_receiveTime txd) (td_id txd) (mp_timestampIndex p)),
       mp_ttlIndex := (if ttl \<noteq> 0 \<and> mp_ttlIndex p (td_id txd) = None
                       then (mp_ttlIndex p)(td_id txd \<mapsto> ttl) else mp_ttlIndex p)\<rparr>"

definition add_tx ::
  "currency \<Rightarrow> ITransactionValidator \<Rightarrow> u64 \<Rightarrow> u64 \<Rightarrow> Transaction \<Rightarrow> hash \<Rightarrow> usize \<Rightarrow>
   tx_verification_context \<Rightarrow> bool \<Rightarrow> tx_memory_pool \<Rightarrow> (bool \<times> tx_verification_context \<times> tx_memory_pool) result" where
  "add_tx cur v sysnow now tx txid blobSize tvc keptByBlock p =
     (let failed = tvc\<lparr>tvc_verification_failed := True\<rparr>;
          inputs_amount = getTransactionAllInputsAmount tx;
          outputs_amount = get_outs_money_amount tx;
          ttl = tx_ttl tx;
          fee = inputs_amount - outputs_amount;
          isFusion = (fee = 0 \<and> isFusionTransaction cur tx blobSize)
      in
      if \<not> check_inputs_types_supported tx then Inr (False, failed, p)
      else if outputs_amount > inputs_amount then Inr (False, failed, p)
      else if ttl \<noteq> 0 \<and> \<not> keptByBlock \<and> ttl_refused cur sysnow ttl fee then Inr (False, failed, p)
      else if \<not> keptByBlock \<and> haveSpentInputs p tx then Inr (False, failed, p)
      else bind_res (v_checkTransactionInputs v tx bi_clear) (\<lambda>(inputsValid, maxUsedBlock).
      if \<not> inputsValid \<and> \<not> keptByBlock then Inr (False, failed, p)
      else
        let maxUsedBlock = (if inputsValid then maxUsedBlock else bi_clear);
            tvc = (if inputsValid then tvc else tvc\<lparr>tvc_verification_impossible := True\<rparr>);
            failed = tvc\<lparr>tvc_verification_failed := True\<rparr>
        in
        if \<not> keptByBlock \<and> \<not> v_checkTransactionSize v blobSize then Inr (False, failed, p)
        else if \<not> keptByBlock \<and> mp_recentlyDeletedTransactions p txid \<noteq> None
        then Inr (True, tvc\<lparr>tvc_verification_failed := False, tvc_should_be_relayed := False, tvc_added_to_pool := False\<rparr>, p)
        else if have_tx p txid then Inr (False, tvc, p)
        else
          let txd = \<lparr>td_maxUsedBlock = maxUsedBlock, td_lastFailedBlock = bi_clear, td_id = txid, td_tx = tx,
                     td_blobSize = blobSize, td_fee = fee, td_keptByBlock = keptByBlock, td_receiveTime = now\<rparr>;
              p = insert_tx txd ttl p;
              tvc = tvc\<lparr>tvc_added_to_pool := True,
                        tvc_should_be_relayed := inputsValid \<and> (fee > 0 \<or> isFusion \<or> ttl \<noteq> 0),
                        tvc_verification_failed := True\<rparr>
          in bind_res (addTransactionInputs txid tx keptByBlock p) (\<lambda>(ok, p).
               if \<not> ok then Inr (False, tvc, p)
               else Inr (True, tvc\<lparr>tvc_verification_failed := False\<rparr>, p))))"

definition add_tx_object ::
  "currency \<Rightarrow> ITransactionValidator \<Rightarrow> u64 \<Rightarrow> u64 \<Rightarrow> Transaction \<Rightarrow>
   tx_verification_context \<Rightarrow> bool \<Rightarrow> tx_memory_pool \<Rightarrow> (bool \<times> tx_verification_context \<times> tx_memory_pool) result" where
  "add_tx_object cur v sysnow now tx tvc keptByBlock p =
     add_tx cur v sysnow now tx (getObjectHash ser_Transaction tx) (getObjectBinarySize ser_Transaction tx) tvc keptByBlock p"

definition removeTransaction :: "TransactionDetails \<Rightarrow> tx_memory_pool \<Rightarrow> tx_memory_pool result" where
  "removeTransaction i p =
     bind_res (removeTransactionInputs (td_id i) (td_tx i) (td_keptByBlock i) p) (\<lambda>(_, p).
       Inr (p\<lparr>mp_paymentIdIndex := snd (pii_remove (td_tx i) (mp_paymentIdIndex p)),
              mp_timestampIndex := snd (tti_remove (td_receiveTime i) (td_id i) (mp_timestampIndex p)),
              mp_ttlIndex := (mp_ttlIndex p)(td_id i := None),
              mp_transactions := filter (\<lambda>t. td_id t \<noteq> td_id i) (mp_transactions p)\<rparr>))"

definition take_tx :: "hash \<Rightarrow> tx_memory_pool \<Rightarrow> ((Transaction \<times> usize \<times> u64) option \<times> tx_memory_pool) result" where
  "take_tx txid p =
     (case find (\<lambda>t. td_id t = txid) (mp_transactions p) of
        None \<Rightarrow> Inr (None, p)
      | Some txd \<Rightarrow> bind_res (removeTransaction txd p) (\<lambda>p.
          Inr (Some (td_tx txd, td_blobSize txd, td_fee txd), p)))"

section \<open>Expiry\<close>

definition forget_deleted :: "currency \<Rightarrow> u64 \<Rightarrow> tx_memory_pool \<Rightarrow> tx_memory_pool" where
  "forget_deleted cur now p =
     p\<lparr>mp_recentlyDeletedTransactions := (\<lambda>txid.
         case mp_recentlyDeletedTransactions p txid of None \<Rightarrow> None
         | Some t \<Rightarrow> if now - t > cur_numberOfPeriodsToForgetTxDeletedFromPool cur * cur_mempoolTxLiveTime cur
                    then None else Some t)\<rparr>"

definition expired :: "currency \<Rightarrow> u64 \<Rightarrow> tx_memory_pool \<Rightarrow> TransactionDetails \<Rightarrow> bool" where
  "expired cur now p t \<longleftrightarrow>
     (let txAge = now - td_receiveTime t;
          remove = (txAge > (if td_keptByBlock t then cur_mempoolTxFromAltBlockLiveTime cur
                             else cur_mempoolTxLiveTime cur));
          ttlExpired = (case mp_ttlIndex p (td_id t) of None \<Rightarrow> False | Some x \<Rightarrow> x \<le> now)
      in remove \<or> ttlExpired)"

fun expire_loop :: "currency \<Rightarrow> u64 \<Rightarrow> TransactionDetails list \<Rightarrow> tx_memory_pool \<Rightarrow> tx_memory_pool result" where
  "expire_loop cur now [] p = Inr p"
| "expire_loop cur now (t # ts) p =
     (if expired cur now p t
      then bind_res (removeTransaction t
             (p\<lparr>mp_recentlyDeletedTransactions := (if mp_recentlyDeletedTransactions p (td_id t) = None
                  then (mp_recentlyDeletedTransactions p)(td_id t \<mapsto> now)
                  else mp_recentlyDeletedTransactions p)\<rparr>)) (expire_loop cur now ts)
      else expire_loop cur now ts p)"

definition removeExpiredTransactions :: "currency \<Rightarrow> u64 \<Rightarrow> tx_memory_pool \<Rightarrow> tx_memory_pool result" where
  "removeExpiredTransactions cur now p =
     (let p = forget_deleted cur now p in expire_loop cur now (mp_transactions p) p)"

text \<open>\<^verbatim>\<open>OnceInTimeInterval\<close> with the interval of 60 seconds; \<^verbatim>\<open>time_t\<close> is signed.\<close>

definition on_idle :: "currency \<Rightarrow> u64 \<Rightarrow> tx_memory_pool \<Rightarrow> tx_memory_pool result" where
  "on_idle cur now p =
     (if sint (now - mp_lastWorkedTime p) > 60
      then bind_res (removeExpiredTransactions cur now p) (\<lambda>p. Inr (p\<lparr>mp_lastWorkedTime := now\<rparr>))
      else Inr p)"

section \<open>Starting and stopping\<close>

definition build_step :: "TransactionDetails \<Rightarrow> tx_memory_pool \<Rightarrow> tx_memory_pool" where
  "build_step t p =
     p\<lparr>mp_paymentIdIndex := snd (pii_add (td_tx t) (mp_paymentIdIndex p)),
       mp_timestampIndex := snd (tti_add (td_receiveTime t) (td_id t) (mp_timestampIndex p)),
       mp_ttlIndex := (if tx_ttl (td_tx t) \<noteq> 0 \<and> mp_ttlIndex p (td_id t) = None
                       then (mp_ttlIndex p)(td_id t \<mapsto> tx_ttl (td_tx t)) else mp_ttlIndex p)\<rparr>"

definition buildIndices :: "tx_memory_pool \<Rightarrow> tx_memory_pool" where
  "buildIndices p = fold build_step (mp_transactions p) p"

text \<open>The state file: None when there is none, otherwise whether reading it succeeded and the pool it
  left.\<close>

definition pool_init :: "currency \<Rightarrow> u64 \<Rightarrow> (bool \<times> tx_memory_pool) option \<Rightarrow> tx_memory_pool \<Rightarrow> tx_memory_pool result" where
  "pool_init cur now file p =
     (case file of None \<Rightarrow> Inr p
      | Some (ok, q) \<Rightarrow> removeExpiredTransactions cur now
          (if \<not> ok
           then q\<lparr>mp_transactions := [], mp_spent_key_images := Map.empty, mp_spentOutputs := {},
                  mp_paymentIdIndex := [], mp_timestampIndex := [], mp_ttlIndex := Map.empty\<rparr>
           else buildIndices q))"

definition pool_deinit :: "tx_memory_pool \<Rightarrow> tx_memory_pool" where
  "pool_deinit p = p\<lparr>mp_paymentIdIndex := [], mp_timestampIndex := [], mp_ttlIndex := Map.empty\<rparr>"

section \<open>The order by price\<close>

definition TransactionPriorityComparator :: "TransactionDetails \<Rightarrow> TransactionDetails \<Rightarrow> bool" where
  "TransactionPriorityComparator lhs rhs \<longleftrightarrow>
     (case (mul128 (td_fee lhs) (td_blobSize rhs), mul128 (td_fee rhs) (td_blobSize lhs)) of
        ((lhs_lo, lhs_hi), (rhs_lo, rhs_hi)) \<Rightarrow>
          lhs_hi > rhs_hi \<or>
          (lhs_hi = rhs_hi \<and> lhs_lo > rhs_lo) \<or>
          (lhs_hi = rhs_hi \<and> lhs_lo = rhs_lo \<and> td_blobSize lhs < td_blobSize rhs) \<or>
          (lhs_hi = rhs_hi \<and> lhs_lo = rhs_lo \<and> td_blobSize lhs = td_blobSize rhs \<and>
             sint (td_receiveTime lhs) < sint (td_receiveTime rhs)))"

text \<open>An ordered index puts an element at the upper bound of its equals.\<close>

definition fee_insert :: "TransactionDetails \<Rightarrow> TransactionDetails list \<Rightarrow> TransactionDetails list" where
  "fee_insert t xs =
     takeWhile (\<lambda>x. \<not> TransactionPriorityComparator t x) xs @ t #
     dropWhile (\<lambda>x. \<not> TransactionPriorityComparator t x) xs"

definition fee_index :: "tx_memory_pool \<Rightarrow> TransactionDetails list" where
  "fee_index p = fold fee_insert (mp_transactions p) []"

section \<open>Block templates\<close>

record BlockTemplate =
  bt_keyImages :: "key_image set"
  bt_usedOutputs :: "(u64 \<times> u64) set"
  bt_txHashes :: "hash list"

definition new_template :: BlockTemplate where
  "new_template = \<lparr>bt_keyImages = {}, bt_usedOutputs = {}, bt_txHashes = []\<rparr>"

fun canAdd :: "BlockTemplate \<Rightarrow> TransactionInput list \<Rightarrow> bool" where
  "canAdd b [] = True"
| "canAdd b (i # is) =
     (case i of
        InKey k \<Rightarrow> if ki_keyImage k \<in> bt_keyImages b then False else canAdd b is
      | InMulti m \<Rightarrow> if GlobalOutput m \<in> bt_usedOutputs b then False else canAdd b is
      | _ \<Rightarrow> canAdd b is)"

fun template_inputs :: "TransactionInput list \<Rightarrow> BlockTemplate \<Rightarrow> BlockTemplate result" where
  "template_inputs [] b = Inr b"
| "template_inputs (i # is) b =
     (case i of
        InKey k \<Rightarrow> assert_res (ki_keyImage k \<notin> bt_keyImages b)
          (template_inputs is (b\<lparr>bt_keyImages := insert (ki_keyImage k) (bt_keyImages b)\<rparr>))
      | InMulti m \<Rightarrow> assert_res (GlobalOutput m \<notin> bt_usedOutputs b)
          (template_inputs is (b\<lparr>bt_usedOutputs := insert (GlobalOutput m) (bt_usedOutputs b)\<rparr>))
      | _ \<Rightarrow> template_inputs is b)"

definition addTransaction :: "hash \<Rightarrow> Transaction \<Rightarrow> BlockTemplate \<Rightarrow> (bool \<times> BlockTemplate) result" where
  "addTransaction txid tx b =
     (if \<not> canAdd b (tx_inputs tx) then Inr (False, b)
      else bind_res (template_inputs (tx_inputs tx) b) (\<lambda>b.
        Inr (True, b\<lparr>bt_txHashes := bt_txHashes b @ [txid]\<rparr>)))"

text \<open>The checked information is a copy, so what the validator writes to it is dropped.\<close>

definition is_transaction_ready_to_go :: "ITransactionValidator \<Rightarrow> TransactionDetails \<Rightarrow> bool result" where
  "is_transaction_ready_to_go v t =
     bind_res (v_checkTransactionInputs_failed v (td_tx t) (td_maxUsedBlock t) (td_lastFailedBlock t)) (\<lambda>(ok, _).
       Inr (if \<not> ok then False else if v_haveSpentKeyImages v (td_tx t) then False else True))"

type_synonym template_state = "BlockTemplate \<times> usize \<times> u64"

definition template_step ::
  "ITransactionValidator \<Rightarrow> tx_memory_pool \<Rightarrow> usize \<Rightarrow> usize \<Rightarrow> TransactionDetails \<Rightarrow> template_state \<Rightarrow> template_state result" where
  "template_step v p median_size max_total_size txd s =
     (case s of (b, total_size, fee) \<Rightarrow>
      if mp_ttlIndex p (td_id txd) \<noteq> None then Inr s
      else if get_outs_money_amount (td_tx txd) > getTransactionAllInputsAmount (td_tx txd) then Inr s
      else if (if td_fee txd = 0 then median_size else max_total_size) < total_size + td_blobSize txd then Inr s
      else bind_res (is_transaction_ready_to_go v txd) (\<lambda>ready.
        if \<not> ready then Inr s
        else bind_res (addTransaction (td_id txd) (td_tx txd) b) (\<lambda>(added, b).
          if added then Inr (b, total_size + td_blobSize txd, fee + td_fee txd) else Inr (b, total_size, fee))))"

fun template_loop ::
  "ITransactionValidator \<Rightarrow> tx_memory_pool \<Rightarrow> usize \<Rightarrow> usize \<Rightarrow> TransactionDetails list \<Rightarrow> template_state \<Rightarrow> template_state result" where
  "template_loop v p median_size max_total_size [] s = Inr s"
| "template_loop v p median_size max_total_size (t # ts) s =
     bind_res (template_step v p median_size max_total_size t s) (template_loop v p median_size max_total_size ts)"

definition template_size_limit :: "currency \<Rightarrow> usize \<Rightarrow> usize \<Rightarrow> usize" where
  "template_size_limit cur median_size maxCumulativeSize =
     (let max_total_size = (125 * median_size) div 100 - cur_minerTxBlobReservedSize cur
      in min max_total_size maxCumulativeSize)"

definition fill_block_template ::
  "currency \<Rightarrow> ITransactionValidator \<Rightarrow> tx_memory_pool \<Rightarrow> Block \<Rightarrow> usize \<Rightarrow> usize \<Rightarrow> (Block \<times> usize \<times> u64) result" where
  "fill_block_template cur v p bl median_size maxCumulativeSize =
     (let max_total_size = template_size_limit cur median_size maxCumulativeSize
      in bind_res (template_loop v p median_size max_total_size (rev (fee_index p)) (new_template, 0, 0))
           (\<lambda>(b, total_size, fee). Inr (bl\<lparr>bl_transactionHashes := bt_txHashes b\<rparr>, total_size, fee)))"

section \<open>Differences\<close>

fun ready_ids :: "ITransactionValidator \<Rightarrow> TransactionDetails list \<Rightarrow> hash list result" where
  "ready_ids v [] = Inr []"
| "ready_ids v (t # ts) =
     bind_res (is_transaction_ready_to_go v t) (\<lambda>ready. bind_res (ready_ids v ts) (\<lambda>ids.
       Inr (if ready then td_id t # ids else ids)))"

text \<open>The loop over the ready transactions drops the known ones from both sets.\<close>

fun drop_known :: "hash list \<Rightarrow> hash set \<Rightarrow> hash list \<times> hash set" where
  "drop_known [] known_set = ([], known_set)"
| "drop_known (x # xs) known_set =
     (if x \<in> known_set then drop_known xs (known_set - {x})
      else case drop_known xs known_set of (ready, known_set) \<Rightarrow> (x # ready, known_set))"

definition get_difference :: "ITransactionValidator \<Rightarrow> tx_memory_pool \<Rightarrow> hash list \<Rightarrow> (hash list \<times> hash set) result" where
  "get_difference v p known_tx_ids =
     bind_res (ready_ids v (mp_transactions p)) (\<lambda>ready_tx_ids. Inr (drop_known ready_tx_ids (set known_tx_ids)))"

fun getTransactions :: "tx_memory_pool \<Rightarrow> hash list \<Rightarrow> Transaction list \<times> hash list" where
  "getTransactions p [] = ([], [])"
| "getTransactions p (i # is) =
     (case getTransactions p is of (txs, missed) \<Rightarrow>
      (case find (\<lambda>t. td_id t = i) (mp_transactions p) of
         None \<Rightarrow> (txs, i # missed)
       | Some t \<Rightarrow> (td_tx t # txs, missed)))"

definition get_transactions_count :: "tx_memory_pool \<Rightarrow> usize" where
  "get_transactions_count p = of_nat (length (mp_transactions p))"

definition get_transactions :: "tx_memory_pool \<Rightarrow> Transaction list" where
  "get_transactions p = map td_tx (mp_transactions p)"

definition getTransactionIdsByPaymentId :: "tx_memory_pool \<Rightarrow> hash \<Rightarrow> hash list \<Rightarrow> bool \<times> hash list" where
  "getTransactionIdsByPaymentId p paymentId transactionIds = pii_find paymentId (mp_paymentIdIndex p) transactionIds"

definition getTransactionIdsByTimestamp ::
  "tx_memory_pool \<Rightarrow> u64 \<Rightarrow> u64 \<Rightarrow> u32 \<Rightarrow> hash list \<Rightarrow> u64 \<Rightarrow> bool \<times> hash list \<times> u64" where
  "getTransactionIdsByTimestamp p timestampBegin timestampEnd transactionsNumberLimit hashes number =
     tti_find timestampBegin timestampEnd (ucast transactionsNumberLimit) (mp_timestampIndex p) hashes number"

section \<open>What a transaction spends\<close>

fun key_images :: "TransactionInput list \<Rightarrow> key_image list" where
  "key_images [] = []"
| "key_images (InKey k # is) = ki_keyImage k # key_images is"
| "key_images (_ # is) = key_images is"

fun global_outputs :: "TransactionInput list \<Rightarrow> (u64 \<times> u64) list" where
  "global_outputs [] = []"
| "global_outputs (InMulti m # is) = GlobalOutput m # global_outputs is"
| "global_outputs (_ # is) = global_outputs is"

text \<open>No input of the transaction repeats another one, which \<^verbatim>\<open>core::check_tx_semantic\<close> checks before a
  transaction reaches the pool.\<close>

definition ok_inputs :: "Transaction \<Rightarrow> bool" where
  "ok_inputs tx \<longleftrightarrow> distinct (key_images (tx_inputs tx)) \<and> distinct (global_outputs (tx_inputs tx))"

definition conflict :: "Transaction \<Rightarrow> Transaction \<Rightarrow> bool" where
  "conflict a b \<longleftrightarrow>
     set (key_images (tx_inputs a)) \<inter> set (key_images (tx_inputs b)) \<noteq> {} \<or>
     set (global_outputs (tx_inputs a)) \<inter> set (global_outputs (tx_inputs b)) \<noteq> {}"

definition spenders :: "tx_memory_pool \<Rightarrow> key_image \<Rightarrow> hash set" where
  "spenders p ki = (case mp_spent_key_images p ki of None \<Rightarrow> {} | Some s \<Rightarrow> s)"

definition set_option :: "'a set \<Rightarrow> 'a set option" where
  "set_option s = (if s = {} then None else Some s)"

lemma spenders_outputs [simp]: "spenders (p\<lparr>mp_spentOutputs := x\<rparr>) = spenders p"
  by (simp add: spenders_def fun_eq_iff)

lemma have_spent_iff:
  "have_spent p is \<longleftrightarrow> (\<exists>ki \<in> set (key_images is). mp_spent_key_images p ki \<noteq> None) \<or>
     set (global_outputs is) \<inter> mp_spentOutputs p \<noteq> {}"
  by (induction "is") (auto split: TransactionInput.split)

lemma add_inputs_ok:
  assumes "distinct (key_images is)" "distinct (global_outputs is)"
    and "\<And>ki. ki \<in> set (key_images is) \<Longrightarrow> txid \<notin> spenders p ki \<and> (kb \<or> spenders p ki = {})"
    and "\<not> kb \<Longrightarrow> set (global_outputs is) \<inter> mp_spentOutputs p = {}"
  shows "add_inputs txid kb is p = Inr (True,
    p\<lparr>mp_spent_key_images := (\<lambda>ki. if ki \<in> set (key_images is) then Some (insert txid (spenders p ki))
                                 else mp_spent_key_images p ki),
      mp_spentOutputs := mp_spentOutputs p \<union> (if kb then {} else set (global_outputs is))\<rparr>)"
  using assms
proof (induction "is" arbitrary: p)
  case (Cons i "is")
  show ?case
  proof (cases i)
    case (InKey k)
    let ?p = "p\<lparr>mp_spent_key_images := (mp_spent_key_images p)(ki_keyImage k \<mapsto> insert txid (spenders p (ki_keyImage k)))\<rparr>"
    have "spenders ?p ki = spenders p ki" if "ki \<in> set (key_images is)" for ki
      using that Cons.prems(1) InKey by (auto simp: spenders_def)
    then have "add_inputs txid kb is ?p = Inr (True,
      ?p\<lparr>mp_spent_key_images := (\<lambda>ki. if ki \<in> set (key_images is) then Some (insert txid (spenders p ki))
                                   else mp_spent_key_images ?p ki),
        mp_spentOutputs := mp_spentOutputs p \<union> (if kb then {} else set (global_outputs is))\<rparr>)"
      using Cons.IH [of ?p] Cons.prems InKey by (simp cong: if_cong)
    moreover have "txid \<notin> spenders p (ki_keyImage k) \<and> (kb \<or> spenders p (ki_keyImage k) = {})"
      using Cons.prems(3) InKey by simp
    ultimately show ?thesis
      using InKey by (auto simp: Let_def spenders_def fun_eq_iff intro!: tx_memory_pool.equality)
  next
    case (InMulti m)
    let ?p = "p\<lparr>mp_spentOutputs := insert (GlobalOutput m) (mp_spentOutputs p)\<rparr>"
    show ?thesis
    proof (cases kb)
      case True
      with Cons.IH [of p] Cons.prems InMulti show ?thesis by simp
    next
      case False
      with Cons.IH [of ?p] Cons.prems InMulti show ?thesis by (simp cong: if_cong)
    qed
  qed (use Cons in auto)
qed simp

lemma remove_inputs_ok:
  assumes "distinct (key_images is)" "distinct (global_outputs is)"
    and "\<And>ki. ki \<in> set (key_images is) \<Longrightarrow> txid \<in> spenders p ki"
    and "\<not> kb \<Longrightarrow> set (global_outputs is) \<subseteq> mp_spentOutputs p"
  shows "remove_inputs txid kb is p = Inr (True,
    p\<lparr>mp_spent_key_images := (\<lambda>ki. if ki \<in> set (key_images is) then set_option (spenders p ki - {txid})
                                 else mp_spent_key_images p ki),
      mp_spentOutputs := mp_spentOutputs p - (if kb then {} else set (global_outputs is))\<rparr>)"
  using assms
proof (induction "is" arbitrary: p)
  case (Cons i "is")
  show ?case
  proof (cases i)
    case (InKey k)
    let ?p = "p\<lparr>mp_spent_key_images := (mp_spent_key_images p)(ki_keyImage k := set_option (spenders p (ki_keyImage k) - {txid}))\<rparr>"
    have "spenders ?p ki = spenders p ki" if "ki \<in> set (key_images is)" for ki
      using that Cons.prems(1) InKey by (auto simp: spenders_def)
    then have "remove_inputs txid kb is ?p = Inr (True,
      ?p\<lparr>mp_spent_key_images := (\<lambda>ki. if ki \<in> set (key_images is) then set_option (spenders p ki - {txid})
                                   else mp_spent_key_images ?p ki),
        mp_spentOutputs := mp_spentOutputs p - (if kb then {} else set (global_outputs is))\<rparr>)"
      using Cons.IH [of ?p] Cons.prems InKey by (simp cong: if_cong)
    moreover obtain s where "mp_spent_key_images p (ki_keyImage k) = Some s" "txid \<in> s"
      using Cons.prems(3) [of "ki_keyImage k"] InKey by (auto simp: spenders_def split: option.splits)
    ultimately show ?thesis
      using InKey by (auto simp: Let_def spenders_def set_option_def fun_eq_iff intro!: tx_memory_pool.equality)
  next
    case (InMulti m)
    let ?p = "p\<lparr>mp_spentOutputs := mp_spentOutputs p - {GlobalOutput m}\<rparr>"
    show ?thesis
    proof (cases kb)
      case True
      with Cons.IH [of p] Cons.prems InMulti show ?thesis by simp
    next
      case False
      have "mp_spentOutputs p - insert (GlobalOutput m) (set (global_outputs is)) =
        mp_spentOutputs p - {GlobalOutput m} - set (global_outputs is)" by auto
      with Cons.IH [of ?p] Cons.prems InMulti False show ?thesis
        by (simp add: subset_Diff_insert cong: if_cong)
    qed
  qed (use Cons in auto)
qed simp

section \<open>The invariant of the pool\<close>

definition spenders_of :: "TransactionDetails list \<Rightarrow> key_image \<Rightarrow> hash set" where
  "spenders_of ts ki = td_id ` {t \<in> set ts. ki \<in> set (key_images (tx_inputs (td_tx t)))}"

definition outputs_of :: "TransactionDetails list \<Rightarrow> (u64 \<times> u64) set" where
  "outputs_of ts = (\<Union>t \<in> {t \<in> set ts. \<not> td_keptByBlock t}. set (global_outputs (tx_inputs (td_tx t))))"

definition pool_inv :: "tx_memory_pool \<Rightarrow> bool" where
  "pool_inv p \<longleftrightarrow>
     distinct (map td_id (mp_transactions p)) \<and>
     (\<forall>t \<in> set (mp_transactions p). ok_inputs (td_tx t)) \<and>
     (\<forall>ki. mp_spent_key_images p ki = set_option (spenders_of (mp_transactions p) ki)) \<and>
     mp_spentOutputs p = outputs_of (mp_transactions p) \<and>
     (\<forall>t \<in> set (mp_transactions p). \<forall>u \<in> set (mp_transactions p).
        td_id t \<noteq> td_id u \<and> \<not> td_keptByBlock t \<and> \<not> td_keptByBlock u \<longrightarrow> \<not> conflict (td_tx t) (td_tx u)) \<and>
     dom (mp_ttlIndex p) \<subseteq> set (map td_id (mp_transactions p)) \<and>
     sorted (map fst (mp_timestampIndex p)) \<and>
     mset (mp_timestampIndex p) = mset (map (\<lambda>t. (td_receiveTime t, td_id t)) (mp_transactions p))"

lemma pool_invD:
  assumes "pool_inv p"
  shows "distinct (map td_id (mp_transactions p))"
    and "\<And>t. t \<in> set (mp_transactions p) \<Longrightarrow> ok_inputs (td_tx t)"
    and "\<And>ki. mp_spent_key_images p ki = set_option (spenders_of (mp_transactions p) ki)"
    and "mp_spentOutputs p = outputs_of (mp_transactions p)"
    and "\<And>t u. t \<in> set (mp_transactions p) \<Longrightarrow> u \<in> set (mp_transactions p) \<Longrightarrow> td_id t \<noteq> td_id u \<Longrightarrow>
      \<not> td_keptByBlock t \<Longrightarrow> \<not> td_keptByBlock u \<Longrightarrow> \<not> conflict (td_tx t) (td_tx u)"
    and "dom (mp_ttlIndex p) \<subseteq> set (map td_id (mp_transactions p))"
    and "sorted (map fst (mp_timestampIndex p))"
    and "mset (mp_timestampIndex p) = mset (map (\<lambda>t. (td_receiveTime t, td_id t)) (mp_transactions p))"
  using assms unfolding pool_inv_def by blast+

lemma pool_inv_cong:
  assumes "mp_transactions q = mp_transactions p" "mp_spent_key_images q = mp_spent_key_images p"
    "mp_spentOutputs q = mp_spentOutputs p" "mp_ttlIndex q = mp_ttlIndex p" "mp_timestampIndex q = mp_timestampIndex p"
  shows "pool_inv q \<longleftrightarrow> pool_inv p"
  by (simp add: pool_inv_def assms)

lemma set_option_case [simp]: "(case set_option s of None \<Rightarrow> {} | Some x \<Rightarrow> x) = s"
  by (simp add: set_option_def)

lemma set_option_None [simp]: "set_option s = None \<longleftrightarrow> s = {}"
  by (simp add: set_option_def)

lemma spenders_inv: "pool_inv p \<Longrightarrow> spenders p ki = spenders_of (mp_transactions p) ki"
  using pool_invD(3) [of p ki] by (simp add: spenders_def)

lemma new_pool_inv: "pool_inv new_pool"
  by (simp add: pool_inv_def new_pool_def spenders_of_def outputs_of_def set_option_def)

text \<open>The test for spent inputs asks for a conflict with the pool.\<close>

lemma haveSpentInputs_iff:
  assumes "pool_inv p"
  shows "haveSpentInputs p tx \<longleftrightarrow>
    (\<exists>t \<in> set (mp_transactions p).
       set (key_images (tx_inputs tx)) \<inter> set (key_images (tx_inputs (td_tx t))) \<noteq> {} \<or>
       \<not> td_keptByBlock t \<and> set (global_outputs (tx_inputs tx)) \<inter> set (global_outputs (tx_inputs (td_tx t))) \<noteq> {})"
  unfolding haveSpentInputs_def have_spent_iff pool_invD(3,4) [OF assms]
  by (auto simp: spenders_of_def outputs_of_def)

lemma spenders_of_append: "spenders_of (ts @ [t]) ki =
    (if ki \<in> set (key_images (tx_inputs (td_tx t))) then insert (td_id t) (spenders_of ts ki) else spenders_of ts ki)"
  by (auto simp: spenders_of_def)

lemma outputs_of_append: "outputs_of (ts @ [t]) =
    outputs_of ts \<union> (if td_keptByBlock t then {} else set (global_outputs (tx_inputs (td_tx t))))"
  by (auto simp: outputs_of_def)

lemma moved_payment: "pii_add (moved_from tx) ix = (False, ix)"
  by (simp add: pii_add_def moved_from_def getPaymentId_def parseTransactionExtra_def)

text \<open>What adding does once the checks have passed.\<close>

lemma add_inputs_inv:
  assumes inv: "pool_inv p" and new: "\<not> have_tx p (td_id t)" and ok: "ok_inputs (td_tx t)"
    and free: "td_keptByBlock t \<or> \<not> haveSpentInputs p (td_tx t)"
  shows "\<exists>q. addTransactionInputs (td_id t) (td_tx t) (td_keptByBlock t) (insert_tx t ttl p) = Inr (True, q) \<and>
    pool_inv q \<and> mp_transactions q = mp_transactions p @ [t] \<and>
    mp_paymentIdIndex q = mp_paymentIdIndex p \<and> (\<forall>i. i \<noteq> td_id t \<longrightarrow> mp_ttlIndex q i = mp_ttlIndex p i)"
proof -
  let ?is = "tx_inputs (td_tx t)" and ?T = "mp_transactions p" and ?i = "insert_tx t ttl p"
  have sp: "spenders ?i ki = spenders_of ?T ki" for ki
    using spenders_inv [OF inv] by (simp add: insert_tx_def spenders_def)
  have fresh: "td_id t \<notin> spenders_of ?T ki" for ki
    using new by (auto simp: have_tx_def spenders_of_def)
  have free': "spenders_of ?T ki = {}" if "\<not> td_keptByBlock t" "ki \<in> set (key_images ?is)" for ki
    using free that haveSpentInputs_iff [OF inv, of "td_tx t"] by (auto simp: spenders_of_def)
  have out: "set (global_outputs ?is) \<inter> mp_spentOutputs p = {}" if "\<not> td_keptByBlock t"
    using free that haveSpentInputs_iff [OF inv, of "td_tx t"] by (auto simp: pool_invD(4) [OF inv] outputs_of_def)
  let ?q = "?i\<lparr>mp_spent_key_images := (\<lambda>ki. if ki \<in> set (key_images ?is) then Some (insert (td_id t) (spenders ?i ki))
                                 else mp_spent_key_images ?i ki),
      mp_spentOutputs := mp_spentOutputs ?i \<union> (if td_keptByBlock t then {} else set (global_outputs ?is))\<rparr>"
  have q: "addTransactionInputs (td_id t) (td_tx t) (td_keptByBlock t) ?i = Inr (True, ?q)"
    unfolding addTransactionInputs_def
  proof (rule add_inputs_ok)
    show "set (global_outputs ?is) \<inter> mp_spentOutputs ?i = {}" if "\<not> td_keptByBlock t"
      using out [OF that] by (simp add: insert_tx_def)
  qed (use ok fresh free' in \<open>auto simp: sp ok_inputs_def\<close>)
  have "mp_spent_key_images ?q ki = set_option (spenders_of (?T @ [t]) ki)" for ki
    using pool_invD(3) [OF inv, of ki] by (simp add: spenders_of_append sp) (simp add: insert_tx_def set_option_def)
  moreover have "\<not> conflict (td_tx t) (td_tx u) \<and> \<not> conflict (td_tx u) (td_tx t)"
    if "\<not> td_keptByBlock t" "\<not> td_keptByBlock u" "u \<in> set ?T" for u
    using that free haveSpentInputs_iff [OF inv, of "td_tx t"] by (fastforce simp: conflict_def)
  ultimately have "pool_inv ?q"
    using pool_invD [OF inv] new ok
    unfolding pool_inv_def
    by (auto simp: insert_tx_def outputs_of_append have_tx_def tti_add_def sorted_mm_emplace)
  with q show ?thesis by (auto simp: insert_tx_def moved_payment)
qed

lemma same_id:
  assumes "pool_inv p" "t \<in> set (mp_transactions p)" "u \<in> set (mp_transactions p)" "td_id t = td_id u"
  shows "t = u"
  using pool_invD(1) [OF assms(1)] assms(2-4) by (auto simp: distinct_map inj_on_def)

abbreviation without :: "TransactionDetails \<Rightarrow> tx_memory_pool \<Rightarrow> TransactionDetails list" where
  "without t p \<equiv> filter (\<lambda>u. td_id u \<noteq> td_id t) (mp_transactions p)"

lemma spenders_without:
  assumes "pool_inv p" "t \<in> set (mp_transactions p)"
  shows "spenders_of (without t p) ki =
    (if ki \<in> set (key_images (tx_inputs (td_tx t))) then spenders_of (mp_transactions p) ki - {td_id t}
     else spenders_of (mp_transactions p) ki)"
proof (cases "ki \<in> set (key_images (tx_inputs (td_tx t)))")
  case False
  then have "{u \<in> set (without t p). ki \<in> set (key_images (tx_inputs (td_tx u)))} =
    {u \<in> set (mp_transactions p). ki \<in> set (key_images (tx_inputs (td_tx u)))}"
    using same_id [OF assms] by force
  with False show ?thesis by (simp only: spenders_of_def if_False)
qed (auto simp: spenders_of_def)

lemma outputs_without:
  assumes "pool_inv p" "t \<in> set (mp_transactions p)"
  shows "outputs_of (without t p) =
    outputs_of (mp_transactions p) - (if td_keptByBlock t then {} else set (global_outputs (tx_inputs (td_tx t))))"
proof -
  have "x \<notin> set (global_outputs (tx_inputs (td_tx t)))"
    if "u \<in> set (mp_transactions p)" "td_id u \<noteq> td_id t" "\<not> td_keptByBlock t" "\<not> td_keptByBlock u"
      "x \<in> set (global_outputs (tx_inputs (td_tx u)))" for u x
    using pool_invD(5) [OF assms(1) that(1) assms(2) that(2,4,3)] that(5) by (auto simp: conflict_def)
  moreover have "u = t" if "u \<in> set (mp_transactions p)" "td_id u = td_id t" for u
    using same_id [OF assms(1) that(1) assms(2) that(2)] .
  ultimately show ?thesis
    unfolding outputs_of_def by (cases "td_keptByBlock t") (simp_all, blast+)
qed

lemma mset_map_without:
  assumes "distinct (map td_id ts)" "t \<in> set ts"
  shows "mset (map f (filter (\<lambda>u. td_id u \<noteq> td_id t) ts)) = mset (map f ts) - {#f t#}"
  using assms
proof (induction ts)
  case (Cons u ts)
  show ?case
  proof (cases "u = t")
    case True
    then have "filter (\<lambda>u. td_id u \<noteq> td_id t) ts = ts"
      using Cons.prems(1) by (intro filter_True) (metis distinct.simps(2) image_eqI list.simps(9) set_map)
    with True show ?thesis by simp
  next
    case False
    then have "t \<in> set ts" "td_id u \<noteq> td_id t" using Cons.prems by auto
    moreover from this have "f t \<in># mset (map f ts)" by simp
    ultimately show ?thesis using Cons by simp
  qed
qed simp

lemma remove_tx_inv:
  assumes inv: "pool_inv p" and t: "t \<in> set (mp_transactions p)"
  shows "\<exists>q. removeTransaction t p = Inr q \<and> pool_inv q \<and> mp_transactions q = without t p \<and>
    mp_recentlyDeletedTransactions q = mp_recentlyDeletedTransactions p \<and>
    mp_ttlIndex q = (mp_ttlIndex p)(td_id t := None)"
proof -
  let ?is = "tx_inputs (td_tx t)"
  let ?r = "p\<lparr>mp_spent_key_images := (\<lambda>ki. if ki \<in> set (key_images ?is) then set_option (spenders p ki - {td_id t})
                                 else mp_spent_key_images p ki),
      mp_spentOutputs := mp_spentOutputs p - (if td_keptByBlock t then {} else set (global_outputs ?is))\<rparr>"
  let ?q = "?r\<lparr>mp_paymentIdIndex := snd (pii_remove (td_tx t) (mp_paymentIdIndex p)),
              mp_timestampIndex := snd (tti_remove (td_receiveTime t) (td_id t) (mp_timestampIndex p)),
              mp_ttlIndex := (mp_ttlIndex p)(td_id t := None),
              mp_transactions := without t p\<rparr>"
  have "removeTransactionInputs (td_id t) (td_tx t) (td_keptByBlock t) p = Inr (True, ?r)"
    unfolding removeTransactionInputs_def
  proof (rule remove_inputs_ok)
    show "td_id t \<in> spenders p ki" if "ki \<in> set (key_images ?is)" for ki
      using that t by (auto simp: spenders_inv [OF inv] spenders_of_def)
    show "set (global_outputs ?is) \<subseteq> mp_spentOutputs p" if "\<not> td_keptByBlock t"
      using that t by (auto simp: pool_invD(4) [OF inv] outputs_of_def)
  qed (use pool_invD(2) [OF inv t] in \<open>simp_all add: ok_inputs_def\<close>)
  then have q: "removeTransaction t p = Inr ?q"
    by (simp add: removeTransaction_def)
  have "mp_spent_key_images ?q ki = set_option (spenders_of (without t p) ki)" for ki
    using pool_invD(3) [OF inv, of ki] by (simp add: spenders_without [OF inv t] spenders_inv [OF inv])
  moreover have "mp_spentOutputs ?q = outputs_of (without t p)"
    using pool_invD(4) [OF inv] by (simp add: outputs_without [OF inv t])
  moreover have "mset (mp_timestampIndex ?q) = mset (map (\<lambda>t. (td_receiveTime t, td_id t)) (without t p))"
    using pool_invD(8) [OF inv] mset_map_without [OF pool_invD(1) [OF inv] t, of "\<lambda>t. (td_receiveTime t, td_id t)"]
    by (simp add: tti_remove_def erase_match_eq)
  moreover have "sorted (map fst (mp_timestampIndex ?q))"
    using pool_invD(7) [OF inv] by (simp add: tti_remove_def erase_match_eq sorted_erase)
  moreover have "dom (mp_ttlIndex ?q) \<subseteq> set (map td_id (without t p))"
    using pool_invD(6) [OF inv] by (auto split: if_splits)
  moreover have "distinct (map td_id (without t p))"
    by (rule distinct_map_filter) (rule pool_invD(1) [OF inv])
  ultimately have "pool_inv ?q"
    using pool_invD(2,5) [OF inv] unfolding pool_inv_def by auto
  with q show ?thesis by auto
qed

lemma expire_loop_inv:
  assumes "pool_inv p" "set ts \<subseteq> set (mp_transactions p)" "distinct (map td_id ts)"
  shows "\<exists>q. expire_loop cur now ts p = Inr q \<and> pool_inv q \<and>
    mp_transactions q = filter (\<lambda>u. \<not> (u \<in> set ts \<and> expired cur now p u)) (mp_transactions p)"
  using assms
proof (induction ts arbitrary: p)
  case (Cons t ts)
  have t: "t \<in> set (mp_transactions p)" and ts: "set ts \<subseteq> set (mp_transactions p)" "distinct (map td_id ts)"
    "td_id t \<notin> set (map td_id ts)" using Cons.prems by auto
  show ?case
  proof (cases "expired cur now p t")
    case False
    with Cons.IH [OF Cons.prems(1) ts(1,2)] show ?thesis by (auto intro!: filter_cong)
  next
    case True
    let ?p = "p\<lparr>mp_recentlyDeletedTransactions := (if mp_recentlyDeletedTransactions p (td_id t) = None
                  then (mp_recentlyDeletedTransactions p)(td_id t \<mapsto> now)
                  else mp_recentlyDeletedTransactions p)\<rparr>"
    have "pool_inv ?p" using Cons.prems(1) pool_inv_cong [of ?p p] by simp
    then obtain r where r: "removeTransaction t ?p = Inr r" "pool_inv r" "mp_transactions r = without t p"
      "mp_ttlIndex r = (mp_ttlIndex p)(td_id t := None)"
      using remove_tx_inv [of ?p t] t by auto
    have "set ts \<subseteq> set (mp_transactions r)" using ts by (auto simp: r(3)) (metis image_eqI)
    then obtain q where q: "expire_loop cur now ts r = Inr q" "pool_inv q"
      "mp_transactions q = filter (\<lambda>u. \<not> (u \<in> set ts \<and> expired cur now r u)) (mp_transactions r)"
      using Cons.IH [OF r(2) _ ts(2)] by blast
    have same: "expired cur now r u \<longleftrightarrow> expired cur now p u" if "td_id u \<noteq> td_id t" for u
      using that by (simp add: expired_def r(4))
    have "mp_transactions q = filter (\<lambda>u. \<not> (u \<in> set (t # ts) \<and> expired cur now p u)) (mp_transactions p)"
      unfolding q(3) r(3) filter_filter
    proof (rule filter_cong [OF refl])
      fix u assume u: "u \<in> set (mp_transactions p)"
      show "(td_id u \<noteq> td_id t \<and> \<not> (u \<in> set ts \<and> expired cur now r u)) =
        (\<not> (u \<in> set (t # ts) \<and> expired cur now p u))"
        using same [of u] True same_id [OF Cons.prems(1) t u] by (cases "td_id u = td_id t") auto
    qed
    with True r(1) q(1,2) show ?thesis by simp
  qed
qed simp

section \<open>Runs of the pool\<close>

text \<open>The operations the node performs, each with the validator and the times it sees.\<close>

datatype pool_op =
    AddTx ITransactionValidator u64 u64 Transaction hash usize tx_verification_context bool
  | TakeTx hash
  | Idle u64

fun pool_exec :: "currency \<Rightarrow> pool_op \<Rightarrow> tx_memory_pool \<Rightarrow> tx_memory_pool result" where
  "pool_exec cur (AddTx v sysnow now tx txid blobSize tvc keptByBlock) p =
     bind_res (add_tx cur v sysnow now tx txid blobSize tvc keptByBlock p) (\<lambda>(_, _, q). Inr q)"
| "pool_exec cur (TakeTx txid) p = bind_res (take_tx txid p) (\<lambda>(_, q). Inr q)"
| "pool_exec cur (Idle now) p = on_idle cur now p"

fun checked_op :: "pool_op \<Rightarrow> bool" where
  "checked_op (AddTx v sysnow now tx txid blobSize tvc keptByBlock) \<longleftrightarrow>
     ok_inputs tx \<and> (\<forall>b. v_checkTransactionInputs v tx b \<noteq> Inl AssertFailed)"
| "checked_op _ \<longleftrightarrow> True"

inductive pool_reachable :: "currency \<Rightarrow> tx_memory_pool \<Rightarrow> bool" for cur where
  start: "pool_reachable cur new_pool"
| step: "pool_reachable cur p \<Longrightarrow> checked_op op \<Longrightarrow> pool_exec cur op p = Inr q \<Longrightarrow> pool_reachable cur q"

text \<open>Adding either leaves the pool as it is or appends the transaction.\<close>

lemma add_tx_cases:
  assumes inv: "pool_inv p" and ok: "ok_inputs tx"
    and r: "add_tx cur v sysnow now tx txid blobSize tvc kb p = r"
  shows "(\<exists>e. r = Inl e \<and> v_checkTransactionInputs v tx bi_clear = Inl e) \<or>
    (\<exists>b tvc'. r = Inr (b, tvc', p) \<and> tvc_added_to_pool tvc' = (tvc_added_to_pool tvc \<and> \<not> b)) \<or>
    (\<exists>tvc' q t. r = Inr (True, tvc', q) \<and> tvc_added_to_pool tvc' \<and> \<not> tvc_verification_failed tvc' \<and> pool_inv q \<and>
       \<not> have_tx p txid \<and> mp_transactions q = mp_transactions p @ [t] \<and>
       td_id t = txid \<and> td_tx t = tx \<and> td_blobSize t = blobSize \<and>
       td_fee t = getTransactionAllInputsAmount tx - get_outs_money_amount tx \<and>
       get_outs_money_amount tx \<le> getTransactionAllInputsAmount tx \<and>
       td_keptByBlock t = kb \<and> td_receiveTime t = now \<and>
       mp_paymentIdIndex q = mp_paymentIdIndex p \<and> (\<forall>i. i \<noteq> txid \<longrightarrow> mp_ttlIndex q i = mp_ttlIndex p i))"
proof (cases "\<not> check_inputs_types_supported tx \<or> get_outs_money_amount tx > getTransactionAllInputsAmount tx \<or>
    tx_ttl tx \<noteq> 0 \<and> \<not> kb \<and> ttl_refused cur sysnow (tx_ttl tx) (getTransactionAllInputsAmount tx - get_outs_money_amount tx) \<or>
    \<not> kb \<and> haveSpentInputs p tx")
  case True
  then show ?thesis using r by (auto simp: add_tx_def Let_def)
next
  case pass: False
  show ?thesis
  proof (cases "v_checkTransactionInputs v tx bi_clear")
    case (Inl e)
    with pass r show ?thesis by (auto simp: add_tx_def Let_def)
  next
    case (Inr x)
    obtain valid used where x: "x = (valid, used)" by (cases x)
    show ?thesis
    proof (cases "\<not> kb \<and> (\<not> valid \<or> \<not> v_checkTransactionSize v blobSize \<or> mp_recentlyDeletedTransactions p txid \<noteq> None) \<or>
        have_tx p txid")
      case True
      with pass Inr x r show ?thesis by (auto simp: add_tx_def Let_def)
    next
      case False
      let ?t = "\<lparr>td_maxUsedBlock = (if valid then used else bi_clear), td_lastFailedBlock = bi_clear, td_id = txid, td_tx = tx,
                 td_blobSize = blobSize, td_fee = getTransactionAllInputsAmount tx - get_outs_money_amount tx,
                 td_keptByBlock = kb, td_receiveTime = now\<rparr>"
      obtain q where "addTransactionInputs txid tx kb (insert_tx ?t (tx_ttl tx) p) = Inr (True, q)"
        "pool_inv q" "mp_transactions q = mp_transactions p @ [?t]"
        "mp_paymentIdIndex q = mp_paymentIdIndex p" "\<forall>i. i \<noteq> txid \<longrightarrow> mp_ttlIndex q i = mp_ttlIndex p i"
        using add_inputs_inv [OF inv, of ?t "tx_ttl tx"] pass False ok by auto
      with pass Inr x r False show ?thesis by (auto simp: add_tx_def Let_def)
    qed
  qed
qed

lemma take_tx_some:
  assumes "pool_inv p" "t \<in> set (mp_transactions p)"
  shows "find (\<lambda>u. td_id u = td_id t) (mp_transactions p) = Some t"
proof (cases "find (\<lambda>u. td_id u = td_id t) (mp_transactions p)")
  case None
  with assms(2) show ?thesis by (auto simp: find_None_iff)
next
  case (Some u)
  then have "u \<in> set (mp_transactions p)" "td_id u = td_id t" by (auto simp: find_Some_iff)
  with same_id [OF assms(1)] assms(2) Some show ?thesis by metis
qed

lemma take_tx_ok:
  assumes "pool_inv p" "t \<in> set (mp_transactions p)"
  shows "\<exists>q. take_tx (td_id t) p = Inr (Some (td_tx t, td_blobSize t, td_fee t), q) \<and> pool_inv q \<and>
    mp_transactions q = without t p \<and> mp_ttlIndex q = (mp_ttlIndex p)(td_id t := None)"
  using remove_tx_inv [OF assms] by (auto simp: take_tx_def take_tx_some [OF assms])

lemma on_idle_ok:
  "pool_inv p \<Longrightarrow> \<exists>q. on_idle cur now p = Inr q \<and> pool_inv q \<and> set (mp_transactions q) \<subseteq> set (mp_transactions p)"
proof -
  assume p: "pool_inv p"
  let ?f = "forget_deleted cur now p"
  have f: "mp_transactions ?f = mp_transactions p" by (simp add: forget_deleted_def)
  then have "pool_inv ?f" "distinct (map td_id (mp_transactions ?f))"
    using p pool_inv_cong [of ?f p] pool_invD(1) [OF p] by (simp_all add: forget_deleted_def)
  then obtain q where q: "removeExpiredTransactions cur now p = Inr q" "pool_inv q" "set (mp_transactions q) \<subseteq> set (mp_transactions p)"
    using expire_loop_inv [of ?f "mp_transactions ?f" cur now] f by (auto simp: removeExpiredTransactions_def Let_def)
  moreover have "pool_inv (q\<lparr>mp_lastWorkedTime := now\<rparr>)"
    using q(2) pool_inv_cong [of "q\<lparr>mp_lastWorkedTime := now\<rparr>" q] by simp
  ultimately show ?thesis using p by (auto simp: on_idle_def)
qed

lemma pool_exec_inv:
  assumes "pool_inv p" "checked_op op"
  shows "pool_exec cur op p \<noteq> Inl AssertFailed \<and> (\<forall>q. pool_exec cur op p = Inr q \<longrightarrow> pool_inv q)"
proof (cases op)
  case (AddTx v sysnow now tx txid blobSize tvc kb)
  with assms have ok: "ok_inputs tx" "v_checkTransactionInputs v tx bi_clear \<noteq> Inl AssertFailed" by auto
  show ?thesis
    using add_tx_cases [OF assms(1) ok(1) refl, of cur v sysnow now txid blobSize tvc kb] ok(2) assms(1)
    by (auto simp: AddTx)
next
  case (TakeTx txid)
  show ?thesis
  proof (cases "find (\<lambda>t. td_id t = txid) (mp_transactions p)")
    case None
    with assms TakeTx show ?thesis by (simp add: take_tx_def)
  next
    case (Some t)
    then have "t \<in> set (mp_transactions p)" "td_id t = txid" by (auto simp: find_Some_iff)
    with take_tx_ok [OF assms(1)] TakeTx show ?thesis by fastforce
  qed
next
  case (Idle now)
  with on_idle_ok [OF assms(1), of cur now] show ?thesis by auto
qed

lemma pool_reachable_inv: "pool_reachable cur p \<Longrightarrow> pool_inv p"
  by (induction rule: pool_reachable.induct) (use new_pool_inv pool_exec_inv in blast)+

section \<open>The fee index\<close>

text \<open>The comparison by words is the comparison of the exact products.\<close>

definition cheaper :: "TransactionDetails \<Rightarrow> TransactionDetails \<Rightarrow> bool" where
  "cheaper r l \<longleftrightarrow> unat (td_fee r) * unat (td_blobSize l) < unat (td_fee l) * unat (td_blobSize r)"

lemma lex_less:
  fixes a b x y B :: nat
  assumes "x < B" "y < B"
  shows "x + B * a < y + B * b \<longleftrightarrow> a < b \<or> a = b \<and> x < y"
proof (cases a b rule: linorder_cases)
  case less
  then have "B * (a + 1) \<le> B * b" by (intro mult_le_mono) simp_all
  with assms less show ?thesis by simp
next
  case greater
  then have "B * (b + 1) \<le> B * a" by (intro mult_le_mono) simp_all
  with assms greater show ?thesis by simp
qed simp

lemma comparator_exact:
  "TransactionPriorityComparator l r \<longleftrightarrow>
     cheaper r l \<or>
     (\<not> cheaper l r \<and> (td_blobSize l < td_blobSize r \<or>
        td_blobSize l = td_blobSize r \<and> sint (td_receiveTime l) < sint (td_receiveTime r)))"
proof -
  obtain ll lh rl rh where m: "mul128 (td_fee l) (td_blobSize r) = (ll, lh)" "mul128 (td_fee r) (td_blobSize l) = (rl, rh)"
    by (cases "mul128 (td_fee l) (td_blobSize r)", cases "mul128 (td_fee r) (td_blobSize l)")
  have v: "unat (td_fee l) * unat (td_blobSize r) = unat ll + 18446744073709551616 * unat lh"
    "unat (td_fee r) * unat (td_blobSize l) = unat rl + 18446744073709551616 * unat rh"
    using mul128_correct [OF m(1)] mul128_correct [OF m(2)] by simp_all
  have "cheaper r l \<longleftrightarrow> rh < lh \<or> rh = lh \<and> rl < ll" "cheaper l r \<longleftrightarrow> lh < rh \<or> lh = rh \<and> ll < rl"
    unfolding cheaper_def v by (simp_all add: lex_less word_less_nat_alt word_unat_eq_iff)
  then show ?thesis by (auto simp: TransactionPriorityComparator_def m)
qed

text \<open>The exact price per byte, then the size and the age: smaller keys are preferred.\<close>

definition price_key :: "TransactionDetails \<Rightarrow> rat \<times> nat \<times> int" where
  "price_key t = (- (of_nat (unat (td_fee t)) / of_nat (unat (td_blobSize t))), unat (td_blobSize t), sint (td_receiveTime t))"

lemma ratio_less:
  "c > 0 \<Longrightarrow> d > 0 \<Longrightarrow> (of_nat a / of_nat c :: rat) < of_nat b / of_nat d \<longleftrightarrow> a * d < b * c"
  by (simp add: field_simps flip: of_nat_mult)

lemma cheaper_price:
  assumes "td_blobSize l \<noteq> 0" "td_blobSize r \<noteq> 0"
  shows "cheaper r l \<longleftrightarrow> fst (price_key l) < fst (price_key r)"
proof -
  have "unat (td_blobSize l) > 0" "unat (td_blobSize r) > 0" using assms by (simp_all add: unat_gt_0)
  then show ?thesis
    by (simp only: cheaper_def price_key_def fst_conv neg_less_iff_less ratio_less)
qed

lemma comparator_key:
  assumes "td_blobSize l \<noteq> 0" "td_blobSize r \<noteq> 0"
  shows "TransactionPriorityComparator l r \<longleftrightarrow> price_key l < price_key r"
  unfolding comparator_exact cheaper_price [OF assms] cheaper_price [OF assms(2,1)]
  by (auto simp: price_key_def less_prod_def' word_less_nat_alt word_unat_eq_iff)

lemma mset_fee_insert [simp]: "mset (fee_insert t xs) = add_mset t (mset xs)"
proof -
  let ?P = "\<lambda>x. \<not> TransactionPriorityComparator t x"
  have "mset (takeWhile ?P xs) + mset (dropWhile ?P xs) = mset xs" by (metis mset_append takeWhile_dropWhile_id)
  then show ?thesis by (simp add: fee_insert_def)
qed

lemma sorted_fee_insert:
  assumes "sorted (map price_key xs)" "\<forall>x \<in> set (t # xs). td_blobSize x \<noteq> 0"
  shows "sorted (map price_key (fee_insert t xs))"
  using assms
proof (induction xs)
  case (Cons x xs)
  then have c: "TransactionPriorityComparator t x \<longleftrightarrow> price_key t < price_key x" by (simp add: comparator_key)
  have IH: "sorted (map price_key (fee_insert t xs))" using Cons by simp
  have m: "set (fee_insert t xs) = insert t (set xs)"
    by (metis mset_fee_insert set_mset_add_mset_insert set_mset_mset)
  show ?case
  proof (cases "TransactionPriorityComparator t x")
    case True
    with c Cons.prems(1) show ?thesis by (fastforce simp: fee_insert_def)
  next
    case False
    then have "fee_insert t (x # xs) = x # fee_insert t xs" by (simp add: fee_insert_def)
    with False c Cons.prems(1) IH m show ?thesis by (auto simp: not_less)
  qed
qed (simp add: fee_insert_def)

lemma fee_index_facts:
  "mset (fee_index p) = mset (mp_transactions p)"
  "(\<forall>t \<in> set (mp_transactions p). td_blobSize t \<noteq> 0) \<Longrightarrow> sorted (map price_key (fee_index p))"
proof -
  have m: "mset (fold fee_insert ts xs) = mset ts + mset xs" for ts xs
    by (induction ts arbitrary: xs) simp_all
  then show "mset (fee_index p) = mset (mp_transactions p)" by (simp add: fee_index_def)
  have "sorted (map price_key (fold fee_insert ts xs))"
    if "sorted (map price_key xs)" "\<forall>x \<in> set xs \<union> set ts. td_blobSize x \<noteq> 0" for ts xs
    using that
  proof (induction ts arbitrary: xs)
    case (Cons t ts)
    have "set (fee_insert t xs) = insert t (set xs)"
      by (metis mset_fee_insert set_mset_add_mset_insert set_mset_mset)
    with Cons show ?case by (simp add: sorted_fee_insert)
  qed simp
  then show "sorted (map price_key (fee_index p))" if "\<forall>t \<in> set (mp_transactions p). td_blobSize t \<noteq> 0"
    using that by (simp add: fee_index_def)
qed

section \<open>Templates\<close>

lemma canAdd_iff:
  "canAdd b is \<longleftrightarrow> set (key_images is) \<inter> bt_keyImages b = {} \<and> set (global_outputs is) \<inter> bt_usedOutputs b = {}"
  by (induction b "is" rule: canAdd.induct) (auto split: TransactionInput.split)

lemma template_inputs_ok:
  assumes "distinct (key_images is)" "distinct (global_outputs is)" "canAdd b is"
  shows "template_inputs is b = Inr (b\<lparr>bt_keyImages := bt_keyImages b \<union> set (key_images is),
    bt_usedOutputs := bt_usedOutputs b \<union> set (global_outputs is)\<rparr>)"
  using assms by (induction "is" b rule: template_inputs.induct) (auto simp: canAdd_iff split: TransactionInput.split)

text \<open>The template and the totals for a selection of transactions.\<close>

definition template_of :: "TransactionDetails list \<Rightarrow> BlockTemplate" where
  "template_of sel = \<lparr>bt_keyImages = (\<Union>t \<in> set sel. set (key_images (tx_inputs (td_tx t)))),
     bt_usedOutputs = (\<Union>t \<in> set sel. set (global_outputs (tx_inputs (td_tx t)))),
     bt_txHashes = map td_id sel\<rparr>"

definition sizes :: "TransactionDetails list \<Rightarrow> nat" where
  "sizes sel = sum_list (map (unat \<circ> td_blobSize) sel)"

definition state_of :: "TransactionDetails list \<Rightarrow> template_state" where
  "state_of sel = (template_of sel, of_nat (sizes sel), sum_list (map td_fee sel))"

definition eligible :: "ITransactionValidator \<Rightarrow> tx_memory_pool \<Rightarrow> TransactionDetails \<Rightarrow> bool" where
  "eligible v p t \<longleftrightarrow> mp_ttlIndex p (td_id t) = None \<and>
     get_outs_money_amount (td_tx t) \<le> getTransactionAllInputsAmount (td_tx t) \<and>
     is_transaction_ready_to_go v t = Inr True"

definition size_limit :: "usize \<Rightarrow> usize \<Rightarrow> TransactionDetails \<Rightarrow> nat" where
  "size_limit median_size max_total_size t = unat (if td_fee t = 0 then median_size else max_total_size)"

lemma sizes_simps [simp]: "sizes [] = 0" "sizes (t # ts) = unat (td_blobSize t) + sizes ts"
  "sizes (xs @ ys) = sizes xs + sizes ys"
  by (simp_all add: sizes_def)

lemma canAdd_template: "canAdd (template_of sel) (tx_inputs tx) \<longleftrightarrow> (\<forall>u \<in> set sel. \<not> conflict (td_tx u) tx)"
  by (auto simp: canAdd_iff template_of_def conflict_def)

lemma addTransaction_template:
  assumes "ok_inputs (td_tx t)"
  shows "addTransaction (td_id t) (td_tx t) (template_of sel) =
    (if \<forall>u \<in> set sel. \<not> conflict (td_tx u) (td_tx t) then Inr (True, template_of (sel @ [t]))
     else Inr (False, template_of sel))"
  using assms template_inputs_ok [of "tx_inputs (td_tx t)" "template_of sel"]
  by (auto simp: addTransaction_def canAdd_template ok_inputs_def) (auto simp: template_of_def)

lemma template_step_state:
  assumes "ok_inputs (td_tx t)" "is_transaction_ready_to_go v t = Inr ready" "sizes sel + unat (td_blobSize t) < 2 ^ 64"
  shows "template_step v p m mx t (state_of sel) =
    Inr (state_of (if eligible v p t \<and> sizes sel + unat (td_blobSize t) \<le> size_limit m mx t \<and>
                      (\<forall>u \<in> set sel. \<not> conflict (td_tx u) (td_tx t))
                   then sel @ [t] else sel))"
proof -
  have "unat (of_nat (sizes sel) + td_blobSize t :: u64) = sizes sel + unat (td_blobSize t)"
    using assms(3) by (simp add: unat_word_ariths unat_of_nat)
  then have fits: "(if td_fee t = 0 then m else mx) < of_nat (sizes sel) + td_blobSize t \<longleftrightarrow>
      \<not> sizes sel + unat (td_blobSize t) \<le> size_limit m mx t"
    by (simp add: word_less_nat_alt size_limit_def not_le)
  show ?thesis
    unfolding template_step_def state_of_def prod.case fits assms(2) addTransaction_template [OF assms(1)]
    by (auto simp: eligible_def assms(2) add.commute)
qed

text \<open>\<open>good\<close> selections, and when a transaction is rightly left out.\<close>

definition good_selection :: "ITransactionValidator \<Rightarrow> tx_memory_pool \<Rightarrow> usize \<Rightarrow> usize \<Rightarrow> TransactionDetails list \<Rightarrow> bool" where
  "good_selection v p m mx sel \<longleftrightarrow>
     (\<forall>t \<in> set sel. eligible v p t) \<and> sorted_wrt (\<lambda>t u. \<not> conflict (td_tx t) (td_tx u)) sel \<and>
     sizes sel \<le> unat (max m mx)"

definition left_out :: "ITransactionValidator \<Rightarrow> tx_memory_pool \<Rightarrow> usize \<Rightarrow> usize \<Rightarrow> TransactionDetails list \<Rightarrow> TransactionDetails \<Rightarrow> bool" where
  "left_out v p m mx sel t \<longleftrightarrow> \<not> eligible v p t \<or> (\<exists>u \<in> set sel. conflict (td_tx u) (td_tx t)) \<or>
     size_limit m mx t < sizes sel + unat (td_blobSize t)"

lemma left_out_mono: "left_out v p m mx sel t \<Longrightarrow> left_out v p m mx (sel @ ext) t"
  by (auto simp: left_out_def)

lemma template_loop_state:
  assumes "\<forall>t \<in> set ts. ok_inputs (td_tx t) \<and> (\<exists>ready. is_transaction_ready_to_go v t = Inr ready)"
    and "sizes sel + sizes ts < 2 ^ 64" "good_selection v p m mx sel"
  shows "\<exists>ext. template_loop v p m mx ts (state_of sel) = Inr (state_of (sel @ ext)) \<and> subseq ext ts \<and>
    good_selection v p m mx (sel @ ext) \<and> (\<forall>t \<in> set ts. t \<in> set ext \<or> left_out v p m mx (sel @ ext) t)"
  using assms
proof (induction ts arbitrary: sel)
  case (Cons t ts)
  let ?add = "eligible v p t \<and> sizes sel + unat (td_blobSize t) \<le> size_limit m mx t \<and>
      (\<forall>u \<in> set sel. \<not> conflict (td_tx u) (td_tx t))"
  let ?sel = "if ?add then sel @ [t] else sel"
  obtain ready where "is_transaction_ready_to_go v t = Inr ready" using Cons.prems(1) by auto
  with Cons.prems have step: "template_step v p m mx t (state_of sel) = Inr (state_of ?sel)"
    by (intro template_step_state) auto
  have "size_limit m mx t \<le> unat (max m mx)"
    by (simp add: size_limit_def word_le_nat_alt [symmetric])
  with Cons.prems(3) have good: "good_selection v p m mx ?sel"
    by (auto simp: good_selection_def sorted_wrt_append)
  have "sizes ?sel + sizes ts < 2 ^ 64" using Cons.prems(2) by auto
  with Cons.IH [of ?sel] Cons.prems(1) good obtain ext where ext:
    "template_loop v p m mx ts (state_of ?sel) = Inr (state_of (?sel @ ext))" "subseq ext ts"
    "good_selection v p m mx (?sel @ ext)" "\<forall>t \<in> set ts. t \<in> set ext \<or> left_out v p m mx (?sel @ ext) t"
    by auto
  show ?case
  proof (cases ?add)
    case True
    with ext step show ?thesis by (intro exI [of _ "t # ext"]) auto
  next
    case False
    then have "left_out v p m mx (sel @ ext) t" by (intro left_out_mono) (auto simp: left_out_def)
    moreover have "?sel = sel" using False by (rule if_not_P)
    ultimately show ?thesis using ext step by (intro exI [of _ ext]) auto
  qed
qed (auto intro: exI [of _ "[]"])

lemma drop_known_eq: "distinct xs \<Longrightarrow> drop_known xs S = (filter (\<lambda>x. x \<notin> S) xs, S - set xs)"
proof (induction xs arbitrary: S)
  case (Cons x xs)
  then have "filter (\<lambda>y. y \<notin> S - {x}) xs = filter (\<lambda>y. y \<notin> S) xs" by (auto intro!: filter_cong)
  with Cons show ?case by auto
qed simp

lemma ready_ids_eq:
  "\<forall>t \<in> set ts. is_transaction_ready_to_go v t = Inr (ready t) \<Longrightarrow> ready_ids v ts = Inr (map td_id (filter ready ts))"
  by (induction ts) simp_all

text \<open>The difference with a list of known transactions is exact.\<close>

lemma get_difference_exact:
  assumes "pool_inv p" "\<forall>t \<in> set (mp_transactions p). is_transaction_ready_to_go v t = Inr (ready t)"
  shows "get_difference v p known = Inr (filter (\<lambda>x. x \<notin> set known) (map td_id (filter ready (mp_transactions p))),
    set known - td_id ` {t \<in> set (mp_transactions p). ready t})"
  using distinct_map_filter [OF pool_invD(1) [OF assms(1)]]
  by (simp add: get_difference_def ready_ids_eq [OF assms(2)] drop_known_eq)

text \<open>Added transactions never reach the payment index, because what is indexed was moved from.\<close>

lemma add_tx_payment_index:
  assumes "pool_inv p" "ok_inputs tx" "add_tx cur v sysnow now tx txid blobSize tvc kb p = Inr (ok, tvc', q)"
  shows "mp_paymentIdIndex q = mp_paymentIdIndex p"
  using add_tx_cases [OF assms] by auto

section \<open>Properties\<close>

text \<open>A pool with one transaction, for the examples.\<close>

definition demo_input :: TransactionInput where
  "demo_input = InKey \<lparr>ki_amount = 1000, ki_outputIndexes = [3], ki_keyImage = [7]\<rparr>"

definition demo_tx :: Transaction where
  "demo_tx = \<lparr>tx_version = 1, tx_unlockTime = 0, tx_inputs = [demo_input],
     tx_outputs = [\<lparr>out_amount = 900, out_target = OutKey [5]\<rparr>], tx_extra = [], tx_signatures = [[[1]]]\<rparr>"

definition demo_validator :: ITransactionValidator where
  "demo_validator = \<lparr>v_checkTransactionInputs = (\<lambda>tx b. Inr (True, b)),
     v_checkTransactionInputs_failed = (\<lambda>tx b c. Inr (True, b, c)),
     v_haveSpentKeyImages = (\<lambda>tx. False), v_checkTransactionSize = (\<lambda>n. n \<le> 1000)\<rparr>"

definition demo_tvc :: tx_verification_context where
  "demo_tvc = \<lparr>tvc_should_be_relayed = False, tvc_verification_failed = False, tvc_verification_impossible = False,
     tvc_added_to_pool = False, tvc_tx_fee_too_small = False\<rparr>"

definition demo_details :: TransactionDetails where
  "demo_details = \<lparr>td_maxUsedBlock = bi_clear, td_lastFailedBlock = bi_clear, td_id = [9], td_tx = demo_tx,
     td_blobSize = 200, td_fee = 100, td_keptByBlock = False, td_receiveTime = 50\<rparr>"

definition demo_pool :: tx_memory_pool where
  "demo_pool = \<lparr>mp_spent_key_images = [[7] \<mapsto> {[9]}], mp_spentOutputs = {}, mp_transactions = [demo_details],
     mp_recentlyDeletedTransactions = Map.empty, mp_paymentIdIndex = [], mp_timestampIndex = [(50, [9])],
     mp_ttlIndex = Map.empty, mp_lastWorkedTime = 0\<rparr>"

lemma demo_amounts: "getTransactionAllInputsAmount demo_tx = 1000" "get_outs_money_amount demo_tx = 900"
  "check_inputs_types_supported demo_tx" "tx_ttl demo_tx = 0" "ok_inputs demo_tx"
  by (simp_all add: demo_tx_def demo_input_def getTransactionAllInputsAmount_def getTransactionInputAmount_def
      get_outs_money_amount_def check_inputs_types_supported_def tx_ttl_def parseTransactionExtra_def ok_inputs_def)

lemma demo_insert: "addTransactionInputs [9] demo_tx False (insert_tx demo_details 0 new_pool) = Inr (True, demo_pool)"
  by (simp add: addTransactionInputs_def insert_tx_def demo_tx_def demo_input_def demo_details_def new_pool_def
      demo_pool_def moved_payment tti_add_def)

lemma demo_add:
  "add_tx default_currency demo_validator 0 50 demo_tx [9] 200 demo_tvc False new_pool =
     Inr (True, demo_tvc\<lparr>tvc_added_to_pool := True, tvc_should_be_relayed := True\<rparr>, demo_pool)"
proof -
  have "\<not> haveSpentInputs new_pool demo_tx"
    by (simp add: haveSpentInputs_def demo_tx_def demo_input_def new_pool_def)
  then show ?thesis
    using demo_insert
    by (simp add: add_tx_def Let_def demo_amounts demo_details_def demo_validator_def have_tx_def new_pool_def demo_tvc_def)
qed

lemma demo_reachable: "pool_reachable default_currency demo_pool"
  by (rule pool_reachable.step [OF pool_reachable.start, of "AddTx demo_validator 0 50 demo_tx [9] 200 demo_tvc False"])
    (simp add: demo_amounts demo_validator_def, simp add: demo_add)

text \<open>C7. In every pool that the operations reach from the empty one, the records of spent key images and
  of spent multisignature outputs are exactly what the transactions spend, no two transactions received
  from the network conflict, the timestamp index lists the transactions, and no assertion of the pool's
  code fails in the next operation.\<close>

theorem pool_consistent:
  assumes "pool_reachable cur p"
  shows "pool_inv p \<and> (\<forall>op. checked_op op \<longrightarrow> pool_exec cur op p \<noteq> Inl AssertFailed)"
  using pool_reachable_inv [OF assms] pool_exec_inv by blast

theorem pool_consistent_witness:
  "pool_inv demo_pool \<and> pool_exec default_currency (TakeTx [9]) demo_pool \<noteq> Inl AssertFailed"
  using pool_consistent [OF demo_reachable] by (metis checked_op.simps(2))

text \<open>C16. Taking a transaction that was just added gives it back with its size and its fee, and leaves the
  pool's transactions, spent inputs, time limits and timestamps as they were before.\<close>

theorem take_undoes_add:
  assumes "pool_reachable cur p" "ok_inputs tx" "\<not> tvc_added_to_pool tvc"
    and "add_tx cur v sysnow now tx txid blobSize tvc kb p = Inr (ok, tvc', q)" "tvc_added_to_pool tvc'"
  shows "ok \<and> (\<exists>r. take_tx txid q = Inr (Some (tx, blobSize, getTransactionAllInputsAmount tx - get_outs_money_amount tx), r) \<and>
    mp_transactions r = mp_transactions p \<and> mp_spent_key_images r = mp_spent_key_images p \<and>
    mp_spentOutputs r = mp_spentOutputs p \<and> mp_ttlIndex r = mp_ttlIndex p \<and>
    mset (mp_timestampIndex r) = mset (mp_timestampIndex p))"
proof -
  have inv: "pool_inv p" by (rule pool_reachable_inv [OF assms(1)])
  obtain t where t: "ok" "pool_inv q" "\<not> have_tx p txid" "mp_transactions q = mp_transactions p @ [t]"
    "td_id t = txid" "td_tx t = tx" "td_blobSize t = blobSize"
    "td_fee t = getTransactionAllInputsAmount tx - get_outs_money_amount tx" "\<forall>i. i \<noteq> txid \<longrightarrow> mp_ttlIndex q i = mp_ttlIndex p i"
    using add_tx_cases [OF inv assms(2) assms(4)] assms(3,5) by auto
  obtain r where r: "take_tx txid q = Inr (Some (tx, blobSize, td_fee t), r)" "pool_inv r"
    "mp_transactions r = without t q" "mp_ttlIndex r = (mp_ttlIndex q)(txid := None)"
    using take_tx_ok [OF t(2), of t] t(4-7) by auto
  have T: "mp_transactions r = mp_transactions p"
    using t(3,4,5) by (auto simp: r(3) have_tx_def image_iff intro!: filter_True)
  have "mp_ttlIndex p txid = None" using pool_invD(6) [OF inv] t(3) by (auto simp: have_tx_def)
  then have "mp_ttlIndex r = mp_ttlIndex p" using t(9) r(4) by auto
  moreover have "mp_spent_key_images r = mp_spent_key_images p"
    using pool_invD(3) [OF inv] pool_invD(3) [OF r(2)] T by (intro ext) simp
  ultimately show ?thesis
    using t(1,8) r(1) T pool_invD(4,8) [OF inv] pool_invD(4,8) [OF r(2)] by simp
qed

theorem take_undoes_add_witness:
  "\<exists>r. take_tx [9] demo_pool = Inr (Some (demo_tx, 200, 100), r) \<and> mp_transactions r = [] \<and> mp_spentOutputs r = {}"
proof -
  have "pool_reachable default_currency new_pool" by (rule pool_reachable.start)
  moreover have "\<not> tvc_added_to_pool demo_tvc" by (simp add: demo_tvc_def)
  ultimately show ?thesis
    using take_undoes_add [OF _ demo_amounts(5) _ demo_add] by (auto simp: demo_amounts new_pool_def)
qed

text \<open>C9. A block template lists distinct pool transactions in the order of the walk over the fee index,
  each of them valid and without a time limit, no two of them in conflict, of a total size within the
  limit and with the total fee reported; and a pool transaction is left out only if it is not eligible,
  conflicts with a chosen one, or does not fit beside them.\<close>

theorem block_template_valid:
  assumes "pool_reachable cur p" "sizes (mp_transactions p) < 2 ^ 64"
    and "\<forall>t \<in> set (mp_transactions p). \<exists>ready. is_transaction_ready_to_go v t = Inr ready"
  shows "\<exists>sel. fill_block_template cur v p bl median_size maxCumulativeSize =
      Inr (bl\<lparr>bl_transactionHashes := map td_id sel\<rparr>, of_nat (sizes sel), sum_list (map td_fee sel)) \<and>
    subseq sel (rev (fee_index p)) \<and> distinct (map td_id sel) \<and>
    good_selection v p median_size (template_size_limit cur median_size maxCumulativeSize) sel \<and>
    (\<forall>t \<in> set (mp_transactions p). t \<in> set sel \<or>
       left_out v p median_size (template_size_limit cur median_size maxCumulativeSize) sel t)"
proof -
  let ?ts = "rev (fee_index p)" and ?limit = "template_size_limit cur median_size maxCumulativeSize"
  have inv: "pool_inv p" by (rule pool_reachable_inv [OF assms(1)])
  have m: "mset ?ts = mset (mp_transactions p)" by (simp add: fee_index_facts)
  then have s: "set ?ts = set (mp_transactions p)" by (rule mset_eq_setD)
  have "mset (map (unat \<circ> td_blobSize) ?ts) = mset (map (unat \<circ> td_blobSize) (mp_transactions p))"
    using m by (metis mset_map)
  then have "sizes ?ts = sizes (mp_transactions p)" unfolding sizes_def by (metis sum_mset_sum_list)
  then obtain sel where sel: "template_loop v p median_size ?limit ?ts (state_of []) = Inr (state_of sel)" "subseq sel ?ts"
    "good_selection v p median_size ?limit sel" "\<forall>t \<in> set ?ts. t \<in> set sel \<or> left_out v p median_size ?limit sel t"
    using template_loop_state [of ?ts v "[]" p median_size ?limit] assms(2,3) pool_invD(2) [OF inv] s
    by (auto simp: good_selection_def)
  have "mset (map td_id ?ts) = mset (map td_id (mp_transactions p))" using m by (metis mset_map)
  then have "distinct (map td_id ?ts)" using pool_invD(1) [OF inv] by (metis mset_eq_imp_distinct_iff)
  moreover have "subseq (map td_id sel) (map td_id ?ts)" using sel(2) by (rule subseq_map)
  ultimately have "distinct (map td_id sel)" by (auto simp: subseq_conv_nths distinct_nthsI)
  moreover have "state_of [] = (new_template, 0, 0)"
    by (simp add: state_of_def template_of_def new_template_def)
  ultimately show ?thesis
    using sel s unfolding fill_block_template_def Let_def
    by (intro exI [of _ sel]) (simp add: state_of_def template_of_def)
qed

lemma demo_ready: "is_transaction_ready_to_go demo_validator demo_details = Inr True"
  by (simp add: is_transaction_ready_to_go_def demo_validator_def)

theorem block_template_valid_witness:
  "\<exists>sel. fill_block_template default_currency demo_validator demo_pool sample_block 100000 90000 =
      Inr (sample_block\<lparr>bl_transactionHashes := map td_id sel\<rparr>, of_nat (sizes sel), sum_list (map td_fee sel)) \<and>
    demo_details \<in> set sel"
proof -
  let ?l = "template_size_limit default_currency 100000 90000"
  have T: "mp_transactions demo_pool = [demo_details]" by (simp add: demo_pool_def)
  have "sizes (mp_transactions demo_pool) < 2 ^ 64" by (simp add: demo_pool_def demo_details_def)
  moreover have "\<forall>t \<in> set (mp_transactions demo_pool). \<exists>ready. is_transaction_ready_to_go demo_validator t = Inr ready"
    using demo_ready T by auto
  ultimately obtain sel where sel: "fill_block_template default_currency demo_validator demo_pool sample_block 100000 90000 =
      Inr (sample_block\<lparr>bl_transactionHashes := map td_id sel\<rparr>, of_nat (sizes sel), sum_list (map td_fee sel))"
    "subseq sel (rev (fee_index demo_pool))" "demo_details \<in> set sel \<or> left_out demo_validator demo_pool 100000 ?l sel demo_details"
    using block_template_valid [OF demo_reachable] T by fastforce
  have "set sel \<subseteq> {demo_details}"
    using sel(2) by (auto simp: subseq_conv_nths fee_index_def fee_insert_def T dest!: in_set_nthsD)
  moreover have "?l = 90000" by (simp add: template_size_limit_def default_currency_def config)
  ultimately have "\<not> left_out demo_validator demo_pool 100000 ?l sel demo_details" if "demo_details \<notin> set sel"
    using that demo_ready demo_amounts
    by (cases sel) (auto simp: left_out_def eligible_def demo_pool_def size_limit_def, auto simp: demo_details_def)
  with sel show ?thesis by blast
qed

end
