(* ===== verification/Loops.thy ===== *)
theory Loops
  imports Prelude
begin

text \<open>
  Loops whose body can fail: over a list, and by a 16-bit counter that is compared with a size, as the
  chain's code writes its loops over transactions and outputs. Such a counter wraps before it reaches a
  size above 65535, and the loop does not end; below that it is the loop over the list of indices.
\<close>

fun fold_res :: "('a \<Rightarrow> 's \<Rightarrow> 's result) \<Rightarrow> 'a list \<Rightarrow> 's \<Rightarrow> 's result" where
  "fold_res f [] s = Inr s"
| "fold_res f (x # xs) s = bind_res (f x s) (fold_res f xs)"

text \<open>The counter takes 65536 values, so a loop that has not ended after 65537 tests does not end when its
  body leaves the counter alone.\<close>

fun u16_loop :: "nat \<Rightarrow> nat \<Rightarrow> (u16 \<Rightarrow> 's \<Rightarrow> 's result) \<Rightarrow> u16 \<Rightarrow> 's \<Rightarrow> 's result" where
  "u16_loop 0 n body i s = Inl NoReturn"
| "u16_loop (Suc k) n body i s =
     (if unat i < n then bind_res (body i s) (u16_loop k n body (i + 1)) else Inr s)"

definition for_u16 :: "nat \<Rightarrow> (u16 \<Rightarrow> 's \<Rightarrow> 's result) \<Rightarrow> 's \<Rightarrow> 's result" where
  "for_u16 n body s = u16_loop 65537 n body 0 s"

lemma fold_res_append: "fold_res f (xs @ ys) s = bind_res (fold_res f xs s) (fold_res f ys)"
  by (induction xs arbitrary: s) (auto simp: bind_res_def split: sum.split)

lemma fold_res_cong: "(\<And>x s. x \<in> set xs \<Longrightarrow> f x s = g x s) \<Longrightarrow> fold_res f xs s = fold_res g xs s"
  by (induction xs arbitrary: s) (auto simp: bind_res_def split: sum.split)

lemma fold_res_inv:
  assumes "fold_res f xs s = Inr t" "P s" "\<And>x s t. x \<in> set xs \<Longrightarrow> P s \<Longrightarrow> f x s = Inr t \<Longrightarrow> P t"
  shows "P t"
  using assms by (induction xs arbitrary: s) (auto simp: bind_res_Inr)

text \<open>Undoing a loop step by step, in the reverse order.\<close>

lemma fold_res_undo:
  assumes "fold_res f xs s = Inr t" "P s"
    and step: "\<And>x s t. x \<in> set xs \<Longrightarrow> P s \<Longrightarrow> f x s = Inr t \<Longrightarrow> P t \<and> g x t = Inr s"
  shows "fold_res g (rev xs) t = Inr s"
  using assms
proof (induction xs arbitrary: s)
  case (Cons x xs)
  then obtain u where u: "f x s = Inr u" "fold_res f xs u = Inr t" by (auto simp: bind_res_Inr)
  with Cons.prems have "P u" "g x u = Inr s" by auto
  moreover have "fold_res g (rev xs) t = Inr u"
    by (rule Cons.IH [OF u(2) \<open>P u\<close>]) (use Cons.prems(3) in auto)
  ultimately show ?case by (simp add: fold_res_append)
qed simp

lemma unat_of_nat_u16: "n < 2 ^ 16 \<Longrightarrow> unat (of_nat n :: u16) = n"
  by (simp add: unat_of_nat)

lemma u16_loop_eq:
  assumes "n \<le> 65535" "i \<le> n" "n - i < k"
  shows "u16_loop k n body (of_nat i) s = fold_res (\<lambda>j. body (of_nat j)) [i..<n] s"
  using assms
proof (induction k arbitrary: i s)
  case (Suc k)
  have i: "unat (of_nat i :: u16) = i" using Suc.prems by (intro unat_of_nat_u16) simp
  show ?case
  proof (cases "i < n")
    case True
    then have "u16_loop k n body (of_nat (Suc i)) t = fold_res (\<lambda>j. body (of_nat j)) [Suc i..<n] t" for t
      using Suc.prems by (intro Suc.IH) auto
    then have "u16_loop k n body (of_nat i + 1) = fold_res (\<lambda>j. body (of_nat j)) [Suc i..<n]"
      by (simp add: fun_eq_iff add.commute)
    with True i show ?thesis by (simp add: upt_conv_Cons)
  next
    case False
    with i show ?thesis using Suc.prems by simp
  qed
qed simp

lemma for_u16_eq: "n < 2 ^ 16 \<Longrightarrow> for_u16 n body s = fold_res (\<lambda>j. body (of_nat j)) [0..<n] s"
  using u16_loop_eq [of n 0 65537 body s] by (simp add: for_u16_def)

lemma unat_u16_less [simp]: "unat (x :: u16) < 65536"
  using unsigned_less [of x] by simp

lemma u16_loop_wraps:
  assumes "2 ^ 16 \<le> n" "\<And>i s. \<exists>t. body i s = Inr t"
  shows "u16_loop k n body i s = Inl NoReturn"
  using assms
proof (induction k arbitrary: i s)
  case (Suc k)
  have "unat i < n" using unat_u16_less [of i] assms(1) by (simp del: unat_u16_less)
  moreover obtain t where "body i s = Inr t" using assms(2) by blast
  ultimately show ?case using Suc by simp
qed simp

lemma for_u16_wraps: "2 ^ 16 \<le> n \<Longrightarrow> (\<And>i s. \<exists>t. body i s = Inr t) \<Longrightarrow> for_u16 n body s = Inl NoReturn"
  unfolding for_u16_def by (rule u16_loop_wraps)

lemma u16_loop_none:
  assumes "2 ^ 16 \<le> n"
  shows "u16_loop k n body i s \<noteq> Inr t"
proof (induction k arbitrary: i s)
  case (Suc k)
  have "unat i < n" using unat_u16_less [of i] assms by (simp del: unat_u16_less)
  with Suc show ?case by (auto simp: bind_res_Inr)
qed simp

lemma for_u16_Inr: "for_u16 n body s = Inr t \<Longrightarrow> n < 2 ^ 16"
  using u16_loop_none [of n] by (metis for_u16_def linorder_not_le)

text \<open>A loop commutes with a change of the state that its body commutes with.\<close>

lemma bind_map_sum [simp]: "bind_res (map_sum id f r) g = bind_res r (\<lambda>x. g (f x))"
  by (cases r) simp_all

lemma map_sum_bind: "map_sum id f (bind_res r g) = bind_res r (\<lambda>x. map_sum id f (g x))"
  by (cases r) simp_all

lemma fold_res_map:
  "(\<And>x s. x \<in> set xs \<Longrightarrow> g x (f s) = map_sum id f (g x s)) \<Longrightarrow> fold_res g xs (f s) = map_sum id f (fold_res g xs s)"
  by (induction xs arbitrary: s) (simp_all add: map_sum_bind)

lemma u16_loop_map:
  "(\<And>i s. body i (f s) = map_sum id f (body i s)) \<Longrightarrow> u16_loop k n body i (f s) = map_sum id f (u16_loop k n body i s)"
  by (induction k arbitrary: i s) (simp_all add: map_sum_bind)

lemma for_u16_map:
  "(\<And>i s. body i (f s) = map_sum id f (body i s)) \<Longrightarrow> for_u16 n body (f s) = map_sum id f (for_u16 n body s)"
  unfolding for_u16_def by (rule u16_loop_map)

section \<open>Binary search\<close>

text \<open>\<^verbatim>\<open>std::lower_bound\<close> from position \<open>first\<close> over \<open>len\<close> elements, with the halving of the standard library;
  \<open>below i\<close> says that the element at \<open>i\<close> is below the value. It finds the boundary when the elements below
  the value come first, and some position otherwise.\<close>

function lower_bound :: "(nat \<Rightarrow> bool) \<Rightarrow> nat \<Rightarrow> nat \<Rightarrow> nat" where
  "lower_bound below first len =
     (if len = 0 then first
      else let half = len div 2; mid = first + half in
        if below mid then lower_bound below (mid + 1) (len - half - 1) else lower_bound below first half)"
  by pat_completeness auto
termination by (relation "measure (\<lambda>(_, _, len). len)") auto

declare lower_bound.simps [simp del]

lemma lower_bound_step:
  "lower_bound below first 0 = first"
  "0 < len \<Longrightarrow> below (first + len div 2) \<Longrightarrow>
    lower_bound below first len = lower_bound below (first + len div 2 + 1) (len - len div 2 - 1)"
  "0 < len \<Longrightarrow> \<not> below (first + len div 2) \<Longrightarrow> lower_bound below first len = lower_bound below first (len div 2)"
  by (subst lower_bound.simps, simp add: Let_def)+

lemma lower_bound_boundary:
  assumes "\<And>i j. first \<le> i \<Longrightarrow> i \<le> j \<Longrightarrow> j < first + len \<Longrightarrow> below j \<Longrightarrow> below i"
  shows "(\<forall>i. first \<le> i \<longrightarrow> i < lower_bound below first len \<longrightarrow> below i) \<and>
    (\<forall>i. lower_bound below first len \<le> i \<longrightarrow> i < first + len \<longrightarrow> \<not> below i)"
  using assms
proof (induction below first len rule: lower_bound.induct)
  case (1 below first len)
  show ?case
  proof (cases "len = 0")
    case False
    let ?mid = "first + len div 2"
    show ?thesis
    proof (cases "below ?mid")
      case True
      have e: "lower_bound below first len = lower_bound below (?mid + 1) (len - len div 2 - 1)"
        using False True by (simp add: lower_bound_step(2))
      have "(\<forall>i. ?mid + 1 \<le> i \<longrightarrow> i < lower_bound below (?mid + 1) (len - len div 2 - 1) \<longrightarrow> below i) \<and>
        (\<forall>i. lower_bound below (?mid + 1) (len - len div 2 - 1) \<le> i \<longrightarrow> i < ?mid + 1 + (len - len div 2 - 1) \<longrightarrow> \<not> below i)"
        by (rule 1(1) [OF False refl refl True]) (rule 1(3), auto)
      moreover have "below i" if "first \<le> i" "i \<le> ?mid" for i using 1(3) [of i ?mid] that True False by simp
      moreover have "?mid + 1 + (len - len div 2 - 1) = first + len" using False by simp
      ultimately show ?thesis unfolding e by (metis Suc_eq_plus1 not_less_eq_eq)
    next
      case mid: False
      have e: "lower_bound below first len = lower_bound below first (len div 2)"
        using False mid by (simp add: lower_bound_step(3))
      have "(\<forall>i. first \<le> i \<longrightarrow> i < lower_bound below first (len div 2) \<longrightarrow> below i) \<and>
        (\<forall>i. lower_bound below first (len div 2) \<le> i \<longrightarrow> i < first + len div 2 \<longrightarrow> \<not> below i)"
        by (rule 1(2) [OF False refl refl mid]) (rule 1(3), auto)
      moreover have "\<not> below i" if "?mid \<le> i" "i < first + len" for i using 1(3) [of ?mid i] that mid by auto
      ultimately show ?thesis unfolding e by (meson not_less)
    qed
  qed (simp add: lower_bound_step(1))
qed

end
