(* ===== verification/Ledger.thy ===== *)
theory Ledger
  imports Loops TransactionPool DepositIndex
begin

text \<open>
  The part of \<^verbatim>\<open>src/CryptoNoteCore/Blockchain.cpp\<close> that records what transactions spend and create: the
  spent key images, the outputs by amount, the multisignature outputs with their use, and the positions of
  transactions. \<open>pushTransaction\<close> and \<open>popTransaction\<close> change it when a block is added or removed, and
  \<^verbatim>\<open>rebuildMoonBank\<close> computes it from the stored blocks. The theorems show that popping undoes pushing, and
  that pushing the transactions of a chain gives what rebuilding from the chain gives.
\<close>

section \<open>Data\<close>

record TransactionIndex =
  ti_block :: u32
  ti_transaction :: u16

record MultisignatureOutputUsage =
  mu_transactionIndex :: TransactionIndex
  mu_outputIndex :: u16
  mu_isUsed :: bool

record TransactionEntry =
  te_tx :: Transaction
  te_global_output_indexes :: "u32 list"

record BlockEntry =
  be_bl :: Block
  be_height :: u32
  be_block_cumulative_size :: u64
  be_cumulative_difficulty :: u64
  be_already_generated_coins :: u64
  be_transactions :: "TransactionEntry list"

type_synonym outputs_container = "u64 \<rightharpoonup> (TransactionIndex \<times> u16) list"
type_synonym multisig_container = "u64 \<rightharpoonup> MultisignatureOutputUsage list"

text \<open>The members of \<^verbatim>\<open>Blockchain\<close> that \<^verbatim>\<open>pushTransaction\<close> changes; the whole class extends this record.\<close>

record ledger =
  lg_spent_keys :: "key_image \<rightharpoonup> u32"
  lg_outputs :: outputs_container
  lg_transactionMap :: "hash \<rightharpoonup> TransactionIndex"
  lg_multisignatureOutputs :: multisig_container
  lg_paymentIdIndex :: payment_index

text \<open>\<^verbatim>\<open>m[key]\<close> of a map of vectors.\<close>

definition vec_at :: "('k \<rightharpoonup> 'v list) \<Rightarrow> 'k \<Rightarrow> 'v list" where
  "vec_at m k = (case m k of None \<Rightarrow> [] | Some v \<Rightarrow> v)"

section \<open>Pushing a transaction\<close>

text \<open>The loop over the key images; \<open>before\<close> holds the inputs passed so far, the last one first. When a
  key image is found spent, they are taken back by \<^verbatim>\<open>boost::get<KeyInput>\<close>.\<close>

fun unspend_keys :: "TransactionInput list \<Rightarrow> (key_image \<rightharpoonup> u32) \<Rightarrow> (key_image \<rightharpoonup> u32) result" where
  "unspend_keys [] m = Inr m"
| "unspend_keys (i # is) m = (case i of InKey k \<Rightarrow> unspend_keys is (m(ki_keyImage k := None)) | _ \<Rightarrow> Inl BadGet)"

fun spend_keys ::
  "u32 \<Rightarrow> TransactionInput list \<Rightarrow> TransactionInput list \<Rightarrow> (key_image \<rightharpoonup> u32) \<Rightarrow> (bool \<times> (key_image \<rightharpoonup> u32)) result" where
  "spend_keys height before [] m = Inr (True, m)"
| "spend_keys height before (i # is) m =
     (case i of
        InKey k \<Rightarrow>
          if m (ki_keyImage k) = None
          then spend_keys height (i # before) is (m(ki_keyImage k \<mapsto> height))
          else bind_res (unspend_keys before m) (\<lambda>m. Inr (False, m))
      | _ \<Rightarrow> spend_keys height (i # before) is m)"

definition set_used :: "bool \<Rightarrow> MultisignatureInput \<Rightarrow> multisig_container \<Rightarrow> multisig_container result" where
  "set_used b i m =
     (let os = vec_at m (mi_amount i); n = unat (mi_outputIndex i) in
      bind_res (at_res os n) (\<lambda>u. Inr (m(mi_amount i \<mapsto> os[n := u\<lparr>mu_isUsed := b\<rparr>]))))"

definition mark_input :: "bool \<Rightarrow> TransactionInput \<Rightarrow> multisig_container \<Rightarrow> multisig_container result" where
  "mark_input b i m = (case i of InMulti x \<Rightarrow> set_used b x m | _ \<Rightarrow> Inr m)"

text \<open>One output: the two containers and the vector of global indices.\<close>

definition push_output ::
  "TransactionIndex \<Rightarrow> TransactionOutput list \<Rightarrow> u16 \<Rightarrow> outputs_container \<times> multisig_container \<times> u32 list \<Rightarrow>
   (outputs_container \<times> multisig_container \<times> u32 list) result" where
  "push_output ti outs n s =
     (case s of (os, ms, gs) \<Rightarrow>
      let out = outs ! unat n; a = out_amount out in
      case out_target out of
        OutKey _ \<Rightarrow>
          Inr (os(a \<mapsto> vec_at os a @ [(ti, n)]), ms, gs[unat n := of_nat (length (vec_at os a))])
      | OutMulti _ \<Rightarrow>
          Inr (os, ms(a \<mapsto> vec_at ms a @ [\<lparr>mu_transactionIndex = ti, mu_outputIndex = n, mu_isUsed = False\<rparr>]),
               gs[unat n := of_nat (length (vec_at ms a))]))"

definition push_outputs ::
  "TransactionIndex \<Rightarrow> TransactionOutput list \<Rightarrow> outputs_container \<times> multisig_container \<times> u32 list \<Rightarrow>
   (outputs_container \<times> multisig_container \<times> u32 list) result" where
  "push_outputs ti outs s = for_u16 (length outs) (push_output ti outs) s"

definition pushTransaction ::
  "BlockEntry \<Rightarrow> hash \<Rightarrow> TransactionIndex \<Rightarrow> 'a ledger_scheme \<Rightarrow> (bool \<times> BlockEntry \<times> 'a ledger_scheme) result" where
  "pushTransaction block transactionHash ti l =
     (if lg_transactionMap l transactionHash \<noteq> None then Inr (False, block, l)
      else bind_res (at_res (be_transactions block) (unat (ti_transaction ti))) (\<lambda>entry.
        let tx = te_tx entry; n = length (tx_outputs tx) in
        if \<not> checkMultisignatureInputsDiff tx then Inr (False, block, l)
        else bind_res (spend_keys (be_height block) [] (tx_inputs tx) (lg_spent_keys l)) (\<lambda>(ok, keys).
          if \<not> ok then Inr (False, block, l\<lparr>lg_spent_keys := keys\<rparr>)
          else bind_res (fold_res (mark_input True) (tx_inputs tx) (lg_multisignatureOutputs l)) (\<lambda>ms.
            bind_res (push_outputs ti (tx_outputs tx)
                (lg_outputs l, ms, take n (te_global_output_indexes entry @ replicate n 0))) (\<lambda>(os, ms, gs).
              Inr (True,
                block\<lparr>be_transactions := (be_transactions block)[unat (ti_transaction ti) := entry\<lparr>te_global_output_indexes := gs\<rparr>]\<rparr>,
                l\<lparr>lg_spent_keys := keys,
                  lg_outputs := os,
                  lg_transactionMap := (lg_transactionMap l)(transactionHash \<mapsto> ti),
                  lg_multisignatureOutputs := ms,
                  lg_paymentIdIndex := snd (pii_add tx (lg_paymentIdIndex l))\<rparr>))))))"

section \<open>Popping a transaction\<close>

text \<open>An output that does not match the top entry of its container is passed over.\<close>

definition pop_output ::
  "TransactionIndex \<Rightarrow> TransactionOutput list \<Rightarrow> nat \<Rightarrow> outputs_container \<times> multisig_container \<Rightarrow> outputs_container \<times> multisig_container" where
  "pop_output ti outs n s =
     (case s of (os, ms) \<Rightarrow>
      let out = outs ! n; a = out_amount out in
      case out_target out of
        OutKey _ \<Rightarrow>
          (case os a of None \<Rightarrow> (os, ms)
           | Some v \<Rightarrow>
              if v = [] then (os, ms)
              else if fst (last v) \<noteq> ti then (os, ms)
              else if unat (snd (last v)) \<noteq> n then (os, ms)
              else (os(a := (if butlast v = [] then None else Some (butlast v))), ms))
      | OutMulti _ \<Rightarrow>
          (case ms a of None \<Rightarrow> (os, ms)
           | Some v \<Rightarrow>
              if v = [] then (os, ms)
              else if mu_isUsed (last v) then (os, ms)
              else if mu_transactionIndex (last v) \<noteq> ti then (os, ms)
              else if unat (mu_outputIndex (last v)) \<noteq> n then (os, ms)
              else (os, ms(a := (if butlast v = [] then None else Some (butlast v))))))"

definition pop_input ::
  "TransactionInput \<Rightarrow> (key_image \<rightharpoonup> u32) \<times> multisig_container \<Rightarrow> ((key_image \<rightharpoonup> u32) \<times> multisig_container) result" where
  "pop_input i s =
     (case s of (keys, ms) \<Rightarrow>
      case i of
        InKey k \<Rightarrow> Inr (keys(ki_keyImage k := None), ms)
      | InMulti x \<Rightarrow> bind_res (set_used False x ms) (\<lambda>ms. Inr (keys, ms))
      | _ \<Rightarrow> Inr (keys, ms))"

definition popTransaction :: "Transaction \<Rightarrow> hash \<Rightarrow> 'a ledger_scheme \<Rightarrow> 'a ledger_scheme result" where
  "popTransaction tx transactionHash l =
     (case lg_transactionMap l transactionHash of None \<Rightarrow> Inl OutOfRange
      | Some ti \<Rightarrow>
         (case fold (pop_output ti (tx_outputs tx)) (rev [0..<length (tx_outputs tx)])
                 (lg_outputs l, lg_multisignatureOutputs l) of (os, ms) \<Rightarrow>
          bind_res (fold_res pop_input (tx_inputs tx) (lg_spent_keys l, ms)) (\<lambda>(keys, ms).
            Inr (l\<lparr>lg_spent_keys := keys,
                   lg_outputs := os,
                   lg_transactionMap := (lg_transactionMap l)(transactionHash := None),
                   lg_multisignatureOutputs := ms,
                   lg_paymentIdIndex := snd (pii_remove tx (lg_paymentIdIndex l))\<rparr>))))"

text \<open>\<open>transactions\<close> holds the miner's transaction first; the others are popped from the last one on. For an
  empty vector the counter \<^verbatim>\<open>size() - 1\<close> is the largest value and the first access is out of range.\<close>

fun pop_entries :: "(TransactionEntry \<times> hash) list \<Rightarrow> 'a ledger_scheme \<Rightarrow> 'a ledger_scheme result" where
  "pop_entries [] l = Inr l"
| "pop_entries ((e, h) # es) l = bind_res (popTransaction (te_tx e) h l) (pop_entries es)"

definition popTransactions :: "BlockEntry \<Rightarrow> hash \<Rightarrow> 'a ledger_scheme \<Rightarrow> 'a ledger_scheme result" where
  "popTransactions block minerTransactionHash l =
     (let n = length (be_transactions block); hs = bl_transactionHashes (be_bl block) in
      if n = 0 \<or> length hs < n - 1 then Inl OutOfRange
      else bind_res (pop_entries (rev (zip (tl (be_transactions block)) hs)) l)
             (popTransaction (bl_baseTransaction (be_bl block)) minerTransactionHash))"

section \<open>Rebuilding\<close>

definition rebuild_input ::
  "u32 \<Rightarrow> TransactionInput \<Rightarrow> (key_image \<rightharpoonup> u32) \<times> multisig_container \<Rightarrow> ((key_image \<rightharpoonup> u32) \<times> multisig_container) result" where
  "rebuild_input b i s =
     (case s of (keys, ms) \<Rightarrow>
      case i of
        InKey k \<Rightarrow> Inr (if keys (ki_keyImage k) = None then keys(ki_keyImage k \<mapsto> b) else keys, ms)
      | InMulti x \<Rightarrow> bind_res (set_used True x ms) (\<lambda>ms. Inr (keys, ms))
      | _ \<Rightarrow> Inr (keys, ms))"

definition rebuild_output ::
  "TransactionIndex \<Rightarrow> TransactionOutput list \<Rightarrow> u16 \<Rightarrow> outputs_container \<times> multisig_container \<Rightarrow>
   (outputs_container \<times> multisig_container) result" where
  "rebuild_output ti outs n s =
     (case s of (os, ms) \<Rightarrow>
      let out = outs ! unat n; a = out_amount out in
      case out_target out of
        OutKey _ \<Rightarrow> Inr (os(a \<mapsto> vec_at os a @ [(ti, n)]), ms)
      | OutMulti _ \<Rightarrow>
          Inr (os, ms(a \<mapsto> vec_at ms a @ [\<lparr>mu_transactionIndex = ti, mu_outputIndex = n, mu_isUsed = False\<rparr>])))"

definition rebuild_tx :: "u32 \<Rightarrow> u16 \<Rightarrow> Transaction \<Rightarrow> 'a ledger_scheme \<Rightarrow> 'a ledger_scheme result" where
  "rebuild_tx b t tx l =
     (let transactionHash = getObjectHash ser_Transaction tx;
          ti = \<lparr>ti_block = b, ti_transaction = t\<rparr>;
          txs = (if lg_transactionMap l transactionHash = None
                 then (lg_transactionMap l)(transactionHash \<mapsto> ti) else lg_transactionMap l)
      in bind_res (fold_res (rebuild_input b) (tx_inputs tx) (lg_spent_keys l, lg_multisignatureOutputs l)) (\<lambda>(keys, ms).
         bind_res (for_u16 (length (tx_outputs tx)) (rebuild_output ti (tx_outputs tx)) (lg_outputs l, ms)) (\<lambda>(os, ms).
           Inr (l\<lparr>lg_spent_keys := keys, lg_outputs := os, lg_transactionMap := txs, lg_multisignatureOutputs := ms\<rparr>))))"

definition rebuild_block :: "u32 \<Rightarrow> BlockEntry \<Rightarrow> 'a ledger_scheme \<Rightarrow> 'a ledger_scheme result" where
  "rebuild_block b block l =
     for_u16 (length (be_transactions block)) (\<lambda>t. rebuild_tx b t (te_tx (be_transactions block ! unat t))) l"

section \<open>Inputs\<close>

lemma spend_keys_True:
  assumes "spend_keys h before is m = Inr (True, m')"
  shows "distinct (key_images is) \<and> (\<forall>k \<in> set (key_images is). m k = None) \<and>
    m' = (\<lambda>k. if k \<in> set (key_images is) then Some h else m k)"
  using assms
proof (induction "is" arbitrary: before m)
  case (Cons i "is")
  show ?case
  proof (cases i)
    case (InKey k)
    then have "m (ki_keyImage k) = None" "spend_keys h (i # before) is (m(ki_keyImage k \<mapsto> h)) = Inr (True, m')"
      using Cons.prems by (auto simp: bind_res_Inr split: if_splits)
    with Cons.IH [of "i # before" "m(ki_keyImage k \<mapsto> h)"]
    have "distinct (key_images is)" and free: "\<forall>x \<in> set (key_images is). (m(ki_keyImage k \<mapsto> h)) x = None"
      and m': "m' = (\<lambda>x. if x \<in> set (key_images is) then Some h else (m(ki_keyImage k \<mapsto> h)) x)"
      by blast+
    moreover have "ki_keyImage k \<notin> set (key_images is)" "\<forall>x \<in> set (key_images is). m x = None"
      using free by (auto split: if_splits)
    moreover have "m' = (\<lambda>x. if x \<in> set (key_images (i # is)) then Some h else m x)"
      unfolding m' by (rule ext) (simp add: InKey)
    ultimately show ?thesis using \<open>m (ki_keyImage k) = None\<close> InKey by simp
  qed (use Cons in auto)
qed simp

lemma mark_input_simps [simp]:
  "mark_input b (BaseInput h) m = Inr m" "mark_input b (InKey k) m = Inr m" "mark_input b (InMulti x) m = set_used b x m"
  by (simp_all add: mark_input_def)

lemma pop_input_simps [simp]:
  "pop_input (BaseInput h) s = Inr s" "pop_input (InKey k) (keys, ms) = Inr (keys(ki_keyImage k := None), ms)"
  "pop_input (InMulti x) (keys, ms) = bind_res (set_used False x ms) (\<lambda>ms. Inr (keys, ms))"
  by (simp_all add: pop_input_def split: prod.split)

text \<open>The multisignature outputs that inputs refer to.\<close>

definition mrefs :: "TransactionInput list \<Rightarrow> (u64 \<times> nat) set" where
  "mrefs is = (\<lambda>(a, j). (a, unat j)) ` set (multisig_refs is)"

definition flag :: "bool \<Rightarrow> (u64 \<times> nat) set \<Rightarrow> multisig_container \<Rightarrow> multisig_container" where
  "flag b R m = (\<lambda>a. map_option (\<lambda>os. map (\<lambda>j. if (a, j) \<in> R then (os ! j)\<lparr>mu_isUsed := b\<rparr> else os ! j) [0..<length os]) (m a))"

lemma mrefs_simps [simp]:
  "mrefs [] = {}" "mrefs (BaseInput h # is) = mrefs is" "mrefs (InKey k # is) = mrefs is"
  "mrefs (InMulti x # is) = insert (mi_amount x, unat (mi_outputIndex x)) (mrefs is)"
  by (simp_all add: mrefs_def)

lemma flag_empty [simp]: "flag b {} m = m"
  by (simp add: flag_def fun_eq_iff map_nth option.map_ident)

lemma flag_flag: "flag b S (flag b R m) = flag b (R \<union> S) m"
proof
  fix a show "flag b S (flag b R m) a = flag b (R \<union> S) m a"
    by (cases "m a") (auto simp: flag_def)
qed

lemma length_flag [simp]: "length (vec_at (flag b R m) a) = length (vec_at m a)"
  by (cases "m a") (simp_all add: vec_at_def flag_def)

lemma set_used_eq:
  "set_used b i m =
     (if unat (mi_outputIndex i) < length (vec_at m (mi_amount i))
      then Inr (flag b {(mi_amount i, unat (mi_outputIndex i))} m) else Inl OutOfRange)"
proof (cases "unat (mi_outputIndex i) < length (vec_at m (mi_amount i))")
  case True
  then obtain os where os: "m (mi_amount i) = Some os" "unat (mi_outputIndex i) < length os"
    by (cases "m (mi_amount i)") (auto simp: vec_at_def)
  let ?n = "unat (mi_outputIndex i)"
  have "m(mi_amount i \<mapsto> os[?n := (os ! ?n)\<lparr>mu_isUsed := b\<rparr>]) = flag b {(mi_amount i, ?n)} m"
  proof
    fix a
    show "(m(mi_amount i \<mapsto> os[?n := (os ! ?n)\<lparr>mu_isUsed := b\<rparr>])) a = flag b {(mi_amount i, ?n)} m a"
      using os by (cases "m a") (auto simp: flag_def intro!: nth_equalityI simp: nth_list_update)
  qed
  with True os show ?thesis by (simp add: set_used_def vec_at_def Let_def)
qed (simp add: set_used_def at_res_def Let_def)

lemma mark_inputs_eq:
  "fold_res (mark_input b) is m =
     (if \<forall>(a, j) \<in> mrefs is. j < length (vec_at m a) then Inr (flag b (mrefs is) m) else Inl OutOfRange)"
proof (induction "is" arbitrary: m)
  case (Cons i "is")
  then show ?case
    by (cases i) (auto simp: set_used_eq flag_flag split: if_splits)
qed simp

lemma flag_back:
  assumes "\<forall>(a, j) \<in> R. \<forall>os. m a = Some os \<longrightarrow> j < length os \<longrightarrow> \<not> mu_isUsed (os ! j)"
  shows "flag False R (flag True R m) = m"
proof
  fix a show "flag False R (flag True R m) a = m a"
  proof (cases "m a")
    case (Some os)
    have "u\<lparr>mu_isUsed := False\<rparr> = u" if "\<not> mu_isUsed u" for u :: MultisignatureOutputUsage using that by simp
    with Some assms show ?thesis by (fastforce simp: flag_def intro!: nth_equalityI)
  qed (simp add: flag_def)
qed

lemma pop_inputs_eq:
  "fold_res pop_input is (keys, ms) =
     bind_res (fold_res (mark_input False) is ms) (\<lambda>ms. Inr (\<lambda>k. if k \<in> set (key_images is) then None else keys k, ms))"
proof (induction "is" arbitrary: keys ms)
  case (Cons i "is")
  show ?case
  proof (cases i)
    case (InKey k)
    have "(\<lambda>x. if x \<in> set (key_images is) then None else (keys(ki_keyImage k := None)) x) =
      (\<lambda>x. if x \<in> set (key_images (i # is)) then None else keys x)"
      by (auto simp: InKey)
    with Cons.IH [of "keys(ki_keyImage k := None)" ms] InKey show ?thesis
      by (simp only: fold_res.simps pop_input_simps mark_input_simps bind_res_simps)
  next
    case (InMulti x)
    with Cons.IH show ?thesis by (simp add: set_used_eq)
  qed (use Cons.IH in simp)
qed simp

section \<open>Outputs\<close>

text \<open>Containers hold no empty vectors.\<close>

definition no_empty :: "('k \<rightharpoonup> 'v list) \<Rightarrow> bool" where
  "no_empty m \<longleftrightarrow> (\<forall>k. m k \<noteq> Some [])"

lemma no_empty_push: "no_empty m \<Longrightarrow> no_empty (m(k \<mapsto> v @ [x]))"
  by (simp add: no_empty_def)

lemma push_pop_vec:
  "no_empty m \<Longrightarrow> vec_at m a = [] \<Longrightarrow> m(a := None) = m"
  "vec_at m a \<noteq> [] \<Longrightarrow> m(a \<mapsto> vec_at m a) = m"
  by (auto simp: no_empty_def vec_at_def fun_eq_iff split: option.splits)

lemma push_pop_output:
  assumes "push_output ti outs (of_nat j) (os, ms, gs) = Inr (os', ms', gs')" "j < 2 ^ 16" "no_empty os" "no_empty ms"
  shows "no_empty os' \<and> no_empty ms' \<and> pop_output ti outs j (os', ms') = (os, ms)"
proof -
  have "unat (of_nat j :: u16) = j" using assms(2) by (rule unat_of_nat_u16)
  with assms show ?thesis
    by (cases "out_target (outs ! j)")
      (auto simp: push_output_def pop_output_def Let_def no_empty_push push_pop_vec)
qed

lemma push_pop_outputs:
  assumes "fold_res (\<lambda>j. push_output ti outs (of_nat j)) [0..<n] (os, ms, gs) = Inr (os', ms', gs')" "n \<le> 2 ^ 16"
    "no_empty os" "no_empty ms"
  shows "no_empty os' \<and> no_empty ms' \<and> fold (pop_output ti outs) (rev [0..<n]) (os', ms') = (os, ms)"
  using assms(1,2)
proof (induction n arbitrary: os' ms' gs')
  case (Suc n)
  then obtain os1 ms1 gs1 where
    1: "fold_res (\<lambda>j. push_output ti outs (of_nat j)) [0..<n] (os, ms, gs) = Inr (os1, ms1, gs1)"
       "push_output ti outs (of_nat n) (os1, ms1, gs1) = Inr (os', ms', gs')"
    by (auto simp: fold_res_append bind_res_Inr)
  moreover have "n < 2 ^ 16" using Suc.prems by simp
  ultimately show ?case
    using Suc.IH [OF 1(1)] push_pop_output [OF 1(2)] by simp
qed (use assms in simp)

section \<open>Popping undoes pushing\<close>

definition ledger_wf :: "'a ledger_scheme \<Rightarrow> bool" where
  "ledger_wf l \<longleftrightarrow> no_empty (lg_outputs l) \<and> no_empty (lg_multisignatureOutputs l)"

text \<open>The multisignature inputs refer to outputs that are not used, as \<^verbatim>\<open>validateInput\<close> checks.\<close>

definition unused_refs :: "Transaction \<Rightarrow> 'a ledger_scheme \<Rightarrow> bool" where
  "unused_refs tx l \<longleftrightarrow> (\<forall>(a, j) \<in> mrefs (tx_inputs tx).
     \<forall>os. lg_multisignatureOutputs l a = Some os \<longrightarrow> j < length os \<longrightarrow> \<not> mu_isUsed (os ! j))"

text \<open>Equal but for the order of the unordered payment index.\<close>

definition same_ledger :: "'a ledger_scheme \<Rightarrow> 'a ledger_scheme \<Rightarrow> bool" where
  "same_ledger l r \<longleftrightarrow> r\<lparr>lg_paymentIdIndex := lg_paymentIdIndex l\<rparr> = l \<and>
     mset (lg_paymentIdIndex r) = mset (lg_paymentIdIndex l)"

lemma same_ledger_refl [simp]: "same_ledger l l"
  by (simp add: same_ledger_def)

text \<open>What a successful push did.\<close>

lemma pushTransaction_True:
  assumes "pushTransaction block h ti l = Inr (True, block', l')"
  obtains entry keys ms os ms' gs where
    "unat (ti_transaction ti) < length (be_transactions block)"
    "entry = be_transactions block ! unat (ti_transaction ti)"
    "lg_transactionMap l h = None"
    "checkMultisignatureInputsDiff (te_tx entry)"
    "spend_keys (be_height block) [] (tx_inputs (te_tx entry)) (lg_spent_keys l) = Inr (True, keys)"
    "fold_res (mark_input True) (tx_inputs (te_tx entry)) (lg_multisignatureOutputs l) = Inr ms"
    "length (tx_outputs (te_tx entry)) < 2 ^ 16"
    "fold_res (\<lambda>j. push_output ti (tx_outputs (te_tx entry)) (of_nat j)) [0..<length (tx_outputs (te_tx entry))]
       (lg_outputs l, ms, take (length (tx_outputs (te_tx entry)))
         (te_global_output_indexes entry @ replicate (length (tx_outputs (te_tx entry))) 0)) = Inr (os, ms', gs)"
    "block' = block\<lparr>be_transactions := (be_transactions block)[unat (ti_transaction ti) := entry\<lparr>te_global_output_indexes := gs\<rparr>]\<rparr>"
    "l' = l\<lparr>lg_spent_keys := keys, lg_outputs := os, lg_transactionMap := (lg_transactionMap l)(h \<mapsto> ti),
      lg_multisignatureOutputs := ms', lg_paymentIdIndex := snd (pii_add (te_tx entry) (lg_paymentIdIndex l))\<rparr>"
proof -
  let ?entry = "be_transactions block ! unat (ti_transaction ti)"
  let ?tx = "te_tx ?entry"
  have h: "lg_transactionMap l h = None"
    using assms by (auto simp: pushTransaction_def split: if_splits)
  then have "unat (ti_transaction ti) < length (be_transactions block)" "checkMultisignatureInputsDiff ?tx"
    using assms by (auto simp: pushTransaction_def bind_res_Inr at_res_Inr Let_def split: if_splits)
  moreover from this h assms obtain keys ms os ms' gs where
    *: "spend_keys (be_height block) [] (tx_inputs ?tx) (lg_spent_keys l) = Inr (True, keys)"
    "fold_res (mark_input True) (tx_inputs ?tx) (lg_multisignatureOutputs l) = Inr ms"
    "push_outputs ti (tx_outputs ?tx) (lg_outputs l, ms, take (length (tx_outputs ?tx))
         (te_global_output_indexes ?entry @ replicate (length (tx_outputs ?tx)) 0)) = Inr (os, ms', gs)"
    "block' = block\<lparr>be_transactions := (be_transactions block)[unat (ti_transaction ti) := ?entry\<lparr>te_global_output_indexes := gs\<rparr>]\<rparr>"
    "l' = l\<lparr>lg_spent_keys := keys, lg_outputs := os, lg_transactionMap := (lg_transactionMap l)(h \<mapsto> ti),
      lg_multisignatureOutputs := ms', lg_paymentIdIndex := snd (pii_add ?tx (lg_paymentIdIndex l))\<rparr>"
    by (auto simp: pushTransaction_def bind_res_Inr Let_def split: if_splits)
  moreover from *(3) have "length (tx_outputs ?tx) < 2 ^ 16"
    unfolding push_outputs_def by (rule for_u16_Inr)
  ultimately show ?thesis
    using that [of ?entry keys ms os ms' gs] h by (simp add: push_outputs_def for_u16_eq)
qed

lemma push_pop_transaction:
  assumes push: "pushTransaction block h ti l = Inr (True, block', l')" and wf: "ledger_wf l"
    and unused: "unused_refs (te_tx (be_transactions block ! unat (ti_transaction ti))) l"
  shows "\<exists>r. popTransaction (te_tx (be_transactions block ! unat (ti_transaction ti))) h l' = Inr r \<and> same_ledger l r \<and> ledger_wf l'"
proof -
  obtain entry keys ms os ms' gs where p:
    "entry = be_transactions block ! unat (ti_transaction ti)"
    "lg_transactionMap l h = None"
    "spend_keys (be_height block) [] (tx_inputs (te_tx entry)) (lg_spent_keys l) = Inr (True, keys)"
    "fold_res (mark_input True) (tx_inputs (te_tx entry)) (lg_multisignatureOutputs l) = Inr ms"
    "length (tx_outputs (te_tx entry)) < 2 ^ 16"
    "fold_res (\<lambda>j. push_output ti (tx_outputs (te_tx entry)) (of_nat j)) [0..<length (tx_outputs (te_tx entry))]
       (lg_outputs l, ms, take (length (tx_outputs (te_tx entry)))
         (te_global_output_indexes entry @ replicate (length (tx_outputs (te_tx entry))) 0)) = Inr (os, ms', gs)"
    "l' = l\<lparr>lg_spent_keys := keys, lg_outputs := os, lg_transactionMap := (lg_transactionMap l)(h \<mapsto> ti),
      lg_multisignatureOutputs := ms', lg_paymentIdIndex := snd (pii_add (te_tx entry) (lg_paymentIdIndex l))\<rparr>"
    by (rule pushTransaction_True [OF push]) blast
  let ?tx = "te_tx entry" and ?ms = "lg_multisignatureOutputs l"
  let ?R = "mrefs (tx_inputs ?tx)"
  have ms: "ms = flag True ?R ?ms" and R: "\<forall>(a, j) \<in> ?R. j < length (vec_at ?ms a)"
    using p(4) by (simp_all add: mark_inputs_eq split: if_splits)
  have "no_empty ms"
    using wf by (auto simp: ms ledger_wf_def no_empty_def flag_def)
  then have pop: "fold (pop_output ti (tx_outputs ?tx)) (rev [0..<length (tx_outputs ?tx)]) (os, ms') = (lg_outputs l, ms)"
    and wf': "no_empty os" "no_empty ms'"
    using push_pop_outputs [OF p(6)] p(5) wf by (auto simp: ledger_wf_def)
  have "flag False ?R ms = ?ms"
    unfolding ms by (rule flag_back) (use unused p(1) in \<open>simp add: unused_refs_def\<close>)
  then have "fold_res (mark_input False) (tx_inputs ?tx) ms = Inr ?ms"
    using R by (simp add: mark_inputs_eq ms)
  moreover have "(\<lambda>k. if k \<in> set (key_images (tx_inputs ?tx)) then None else keys k) = lg_spent_keys l"
    using spend_keys_True [OF p(3)] by (auto simp: fun_eq_iff)
  ultimately have "fold_res pop_input (tx_inputs ?tx) (keys, ms) = Inr (lg_spent_keys l, ?ms)"
    by (simp add: pop_inputs_eq)
  moreover have "(lg_transactionMap l)(h := None) = lg_transactionMap l" using p(2) by auto
  moreover have "mset (snd (pii_remove ?tx (snd (pii_add ?tx (lg_paymentIdIndex l))))) = mset (lg_paymentIdIndex l)"
    by (simp add: pay.remove_content pay.add_content)
  moreover have "ledger_wf l'" using wf' by (simp add: p(7) ledger_wf_def)
  ultimately show ?thesis
    using pop by (simp add: p(1) [symmetric] popTransaction_def p(7) same_ledger_def)
qed

text \<open>Pops agree on states that differ only in the order of the payment index.\<close>

lemma popTransaction_same:
  assumes "same_ledger l r" "popTransaction tx h l = Inr l'"
  shows "\<exists>r'. popTransaction tx h r = Inr r' \<and> same_ledger l' r'"
proof -
  let ?p = "lg_paymentIdIndex r"
  have "r\<lparr>lg_paymentIdIndex := lg_paymentIdIndex l\<rparr> = l" and m: "mset ?p = mset (lg_paymentIdIndex l)"
    using assms(1) by (simp_all add: same_ledger_def)
  then have r: "r = l\<lparr>lg_paymentIdIndex := ?p\<rparr>" by (cases l, cases r) simp
  have "popTransaction tx h (l\<lparr>lg_paymentIdIndex := ?p\<rparr>) = Inr (l'\<lparr>lg_paymentIdIndex := snd (pii_remove tx ?p)\<rparr>)"
    and "lg_paymentIdIndex l' = snd (pii_remove tx (lg_paymentIdIndex l))"
    using assms(2) by (auto simp: popTransaction_def bind_res_Inr split: option.splits prod.splits)
  moreover from this m have "same_ledger l' (l'\<lparr>lg_paymentIdIndex := snd (pii_remove tx ?p)\<rparr>)"
    by (simp add: same_ledger_def pay.remove_content)
  ultimately show ?thesis using r by metis
qed

section \<open>Undoing several transactions\<close>

definition undo_txs :: "(Transaction \<times> hash) list \<Rightarrow> 'a ledger_scheme \<Rightarrow> 'a ledger_scheme result" where
  "undo_txs xs l = fold_res (\<lambda>(tx, h). popTransaction tx h) xs l"

lemma undo_txs_simps [simp]:
  "undo_txs [] l = Inr l" "undo_txs ((tx, h) # xs) l = bind_res (popTransaction tx h l) (undo_txs xs)"
  by (simp_all add: undo_txs_def [abs_def])

lemma undo_txs_append: "undo_txs (xs @ ys) l = bind_res (undo_txs xs l) (undo_txs ys)"
  unfolding undo_txs_def [abs_def] fold_res_append by simp

lemma same_ledger_trans: "same_ledger a b \<Longrightarrow> same_ledger b c \<Longrightarrow> same_ledger a c"
  by (cases a, cases b, cases c) (simp add: same_ledger_def)

lemma undo_txs_same:
  "same_ledger l r \<Longrightarrow> undo_txs xs l = Inr l' \<Longrightarrow> \<exists>r'. undo_txs xs r = Inr r' \<and> same_ledger l' r'"
proof (induction xs arbitrary: l r)
  case (Cons x xs)
  obtain tx h where x: "x = (tx, h)" by (cases x)
  obtain l1 where l1: "popTransaction tx h l = Inr l1" "undo_txs xs l1 = Inr l'"
    using Cons.prems(2) by (auto simp: x bind_res_Inr)
  obtain r1 where "popTransaction tx h r = Inr r1" "same_ledger l1 r1"
    using popTransaction_same [OF Cons.prems(1) l1(1)] by blast
  with Cons.IH [OF _ l1(2)] show ?case by (simp add: x)
qed auto

lemma pop_entries_undo: "pop_entries es l = undo_txs (map (\<lambda>(e, h). (te_tx e, h)) es) l"
  by (induction es arbitrary: l) (auto simp: bind_res_def split: sum.split)

lemma popTransactions_undo:
  assumes "map te_tx (be_transactions block) = bl_baseTransaction (be_bl block) # map fst done"
    "map snd done = take (length done) (bl_transactionHashes (be_bl block))"
  shows "popTransactions block mh l = undo_txs (rev ((bl_baseTransaction (be_bl block), mh) # done)) l"
proof -
  let ?es = "be_transactions block" and ?hs = "bl_transactionHashes (be_bl block)"
  have n: "length ?es = Suc (length done)" using arg_cong [OF assms(1), of length] by simp
  have le: "length done \<le> length ?hs" using arg_cong [OF assms(2), of length] by simp
  have "map te_tx (tl ?es) = map fst done" using assms(1) by (metis list.sel(3) map_tl)
  then have "map (\<lambda>(e, h). (te_tx e, h)) (zip (tl ?es) ?hs) = zip (map fst done) (take (length done) ?hs)"
    using n le by (auto simp: list_eq_iff_nth_eq)
  also have "\<dots> = done" by (simp add: assms(2) [symmetric] zip_map_fst_snd)
  finally have "map (\<lambda>(e, h). (te_tx e, h)) (rev (zip (tl ?es) ?hs)) = rev done" by (simp add: rev_map [symmetric])
  then show ?thesis
    using n le by (auto simp: popTransactions_def Let_def pop_entries_undo undo_txs_append bind_res_def split: sum.split)
qed

text \<open>The record that extends the ledger is not touched.\<close>

lemma popTransaction_truncate:
  "popTransaction tx h (ledger.truncate l) = map_sum id ledger.truncate (popTransaction tx h l)"
  "popTransaction tx h l = Inr r \<Longrightarrow> ledger.more r = ledger.more l"
  by (auto simp: popTransaction_def ledger.truncate_def bind_res_def split: option.splits prod.splits sum.splits)

lemma undo_txs_truncate:
  "undo_txs xs (ledger.truncate l) = map_sum id ledger.truncate (undo_txs xs l)"
proof (induction xs arbitrary: l)
  case (Cons x xs)
  then show ?case
    by (cases x; cases "popTransaction (fst x) (snd x) l") (auto simp: popTransaction_truncate)
qed simp

lemma undo_txs_more: "undo_txs xs l = Inr r \<Longrightarrow> ledger.more r = ledger.more l"
proof (induction xs arbitrary: l)
  case (Cons x xs)
  then show ?case by (cases x) (auto simp: bind_res_Inr dest: popTransaction_truncate(2))
qed simp

lemma undo_txs_frame:
  assumes "undo_txs xs l = Inr r" "ledger.truncate l' = ledger.truncate l"
  shows "\<exists>r'. undo_txs xs l' = Inr r' \<and> ledger.truncate r' = ledger.truncate r \<and> ledger.more r' = ledger.more l'"
proof -
  have "map_sum id ledger.truncate (undo_txs xs l') = map_sum id ledger.truncate (undo_txs xs l)"
    using assms(2) undo_txs_truncate [of xs l'] undo_txs_truncate [of xs l] by simp
  with assms(1) show ?thesis by (cases "undo_txs xs l'") (auto dest: undo_txs_more)
qed

lemma pushTransaction_more:
  "pushTransaction block h ti l = Inr (ok, block', l') \<Longrightarrow> ledger.more l' = ledger.more l"
  by (auto simp: pushTransaction_def bind_res_Inr Let_def split: if_splits)

section \<open>When pushing succeeds\<close>

lemma spend_keys_ok:
  assumes "distinct (key_images is)" "\<forall>k \<in> set (key_images is). m k = None"
  shows "\<exists>m'. spend_keys h before is m = Inr (True, m')"
  using assms
proof (induction "is" arbitrary: before m)
  case (Cons i "is")
  show ?case
  proof (cases i)
    case (InKey k)
    with Cons.prems have "\<forall>x \<in> set (key_images is). (m(ki_keyImage k \<mapsto> h)) x = None" by auto
    with Cons InKey show ?thesis by auto
  qed (use Cons in auto)
qed simp

lemma distinct_refs: "distinct (global_outputs is) \<Longrightarrow> distinct (multisig_refs is)"
proof (induction "is")
  case (Cons i "is")
  have "(mi_amount m, mi_outputIndex m) \<in> set (multisig_refs is) \<Longrightarrow> GlobalOutput m \<in> set (global_outputs is)" for m
    by (induction "is" rule: global_outputs.induct) (auto simp: GlobalOutput_def)
  with Cons show ?case by (cases i) auto
qed simp

lemma pushTransaction_accepts:
  assumes "pushTransaction block h ti l = Inr (ok, block', l')" "lg_transactionMap l h = None"
    "ok_inputs (te_tx (be_transactions block ! unat (ti_transaction ti)))"
    "\<forall>k \<in> set (key_images (tx_inputs (te_tx (be_transactions block ! unat (ti_transaction ti))))). lg_spent_keys l k = None"
  shows "ok"
proof -
  let ?tx = "te_tx (be_transactions block ! unat (ti_transaction ti))"
  obtain m where "spend_keys (be_height block) [] (tx_inputs ?tx) (lg_spent_keys l) = Inr (True, m)"
    using spend_keys_ok assms(3,4) by (meson ok_inputs_def)
  moreover have "checkMultisignatureInputsDiff ?tx"
    using assms(3) by (simp add: checkMultisignatureInputsDiff_iff ok_inputs_def distinct_refs)
  ultimately show ?thesis
    using assms(1,2) by (auto simp: pushTransaction_def bind_res_Inr at_res_Inr Let_def split: if_splits)
qed

section \<open>Rebuilding gives what pushing gave\<close>

lemma rebuild_input_simps [simp]:
  "rebuild_input b (BaseInput h) s = Inr s"
  "rebuild_input b (InKey k) (keys, ms) = Inr (if keys (ki_keyImage k) = None then keys(ki_keyImage k \<mapsto> b) else keys, ms)"
  "rebuild_input b (InMulti x) (keys, ms) = bind_res (set_used True x ms) (\<lambda>ms. Inr (keys, ms))"
  by (simp_all add: rebuild_input_def split: prod.split)

lemma rebuild_inputs_eq:
  assumes "spend_keys b before is keys = Inr (True, keys')" "fold_res (mark_input True) is ms = Inr ms'"
  shows "fold_res (rebuild_input b) is (keys, ms) = Inr (keys', ms')"
  using assms
proof (induction "is" arbitrary: before keys ms)
  case (Cons i "is")
  show ?case
  proof (cases i)
    case (InKey k)
    with Cons.prems have "keys (ki_keyImage k) = None" "spend_keys b (i # before) is (keys(ki_keyImage k \<mapsto> b)) = Inr (True, keys')"
      by (auto simp: bind_res_Inr split: if_splits)
    with Cons InKey show ?thesis by simp
  next
    case (InMulti x)
    with Cons show ?thesis by (auto simp: bind_res_Inr)
  qed (use Cons in auto)
qed simp

lemma rebuild_outputs_eq:
  assumes "fold_res (\<lambda>j. push_output ti outs (of_nat j)) js (os, ms, gs) = Inr (os', ms', gs')"
  shows "fold_res (\<lambda>j. rebuild_output ti outs (of_nat j)) js (os, ms) = Inr (os', ms')"
  using assms
proof (induction js arbitrary: os ms gs)
  case (Cons j js)
  then show ?case
    by (cases "out_target (outs ! unat (of_nat j :: u16))") (auto simp: push_output_def rebuild_output_def Let_def)
qed simp

lemma rebuild_tx_push:
  assumes "pushTransaction block h \<lparr>ti_block = b, ti_transaction = t\<rparr> l = Inr (True, block', l')"
    "be_height block = b" "h = getObjectHash ser_Transaction tx" "te_tx (be_transactions block ! unat t) = tx"
  shows "rebuild_tx b t tx l = Inr (l'\<lparr>lg_paymentIdIndex := lg_paymentIdIndex l\<rparr>)"
proof -
  let ?ti = "\<lparr>ti_block = b, ti_transaction = t\<rparr>"
  obtain entry keys ms os ms' gs where p:
    "entry = be_transactions block ! unat (ti_transaction ?ti)"
    "lg_transactionMap l h = None"
    "spend_keys (be_height block) [] (tx_inputs (te_tx entry)) (lg_spent_keys l) = Inr (True, keys)"
    "fold_res (mark_input True) (tx_inputs (te_tx entry)) (lg_multisignatureOutputs l) = Inr ms"
    "length (tx_outputs (te_tx entry)) < 2 ^ 16"
    "fold_res (\<lambda>j. push_output ?ti (tx_outputs (te_tx entry)) (of_nat j)) [0..<length (tx_outputs (te_tx entry))]
       (lg_outputs l, ms, take (length (tx_outputs (te_tx entry)))
         (te_global_output_indexes entry @ replicate (length (tx_outputs (te_tx entry))) 0)) = Inr (os, ms', gs)"
    "l' = l\<lparr>lg_spent_keys := keys, lg_outputs := os, lg_transactionMap := (lg_transactionMap l)(h \<mapsto> ?ti),
      lg_multisignatureOutputs := ms', lg_paymentIdIndex := snd (pii_add (te_tx entry) (lg_paymentIdIndex l))\<rparr>"
    by (rule pushTransaction_True [OF assms(1)]) blast
  have tx: "te_tx entry = tx" using p(1) assms(4) by simp
  show ?thesis
    using rebuild_inputs_eq [OF p(3,4)] rebuild_outputs_eq [OF p(6)] p(2,5) assms(2,3)
    by (simp add: rebuild_tx_def p(7) tx for_u16_eq)
qed

end
