(* ===== verification/UpgradeDetector.thy ===== *)
theory UpgradeDetector
  imports Reward Loops
begin

text \<open>
  The detector of protocol upgrades, \<^verbatim>\<open>src/CryptoNoteCore/UpgradeDetector.h\<close>: blocks vote with their
  minor version, and an upgrade is settled at the first height where the votes in a sliding window reach
  the threshold. The detector is told of every block pushed to and popped from the chain. The theorems
  give its state as a function of the chain, and popping as the inverse of pushing.
\<close>

section \<open>Definitions\<close>

definition UNDEF_HEIGHT :: u32 where "UNDEF_HEIGHT = 0xFFFFFFFF"

record upgrade_detector =
  ud_targetVersion :: u8
  ud_votingCompleteHeight :: u32

definition new_detector :: "u8 \<Rightarrow> upgrade_detector" where
  "new_detector v = \<lparr>ud_targetVersion = v, ud_votingCompleteHeight = UNDEF_HEIGHT\<rparr>"

definition maxUpgradeDistance :: "currency \<Rightarrow> u32" where
  "maxUpgradeDistance cur = 7 * cur_upgradeWindow cur"

definition calculateUpgradeHeight :: "currency \<Rightarrow> u32 \<Rightarrow> u32" where
  "calculateUpgradeHeight cur voteCompleteHeight = voteCompleteHeight + cur_upgradeWindow cur"

text \<open>The comparison \<^verbatim>\<open>version == m_targetVersion - 1\<close> is one of the type \<^verbatim>\<open>int\<close>.\<close>

definition before_target :: "upgrade_detector \<Rightarrow> u8 \<Rightarrow> bool" where
  "before_target d v \<longleftrightarrow> unat v + 1 = unat (ud_targetVersion d)"

definition votes_for :: "upgrade_detector \<Rightarrow> 'a BlockHeader_scheme \<Rightarrow> bool" where
  "votes_for d b \<longleftrightarrow> before_target d (bl_majorVersion b) \<and> bl_minorVersion b = BLOCK_MINOR_VERSION_1"

fun count_votes :: "upgrade_detector \<Rightarrow> 'a BlockHeader_scheme list \<Rightarrow> nat list \<Rightarrow> usize \<Rightarrow> usize result" where
  "count_votes d blocks [] voteCounter = Inr voteCounter"
| "count_votes d blocks (i # is) voteCounter =
     bind_res (at_res blocks i) (\<lambda>b. count_votes d blocks is (voteCounter + (if votes_for d b then 1 else 0)))"

definition getNumberOfVotes :: "currency \<Rightarrow> 'a BlockHeader_scheme list \<Rightarrow> upgrade_detector \<Rightarrow> u32 \<Rightarrow> usize result" where
  "getNumberOfVotes cur blocks d height =
     (if height < cur_upgradeVotingWindow cur - 1 then Inr 0
      else count_votes d blocks [unat (height + 1 - cur_upgradeVotingWindow cur)..<Suc (unat height)] 0)"

definition isVotingComplete :: "currency \<Rightarrow> 'a BlockHeader_scheme list \<Rightarrow> upgrade_detector \<Rightarrow> u32 \<Rightarrow> bool result" where
  "isVotingComplete cur blocks d height =
     assert_res (Reward.upgradeHeight cur (ud_targetVersion d) = UNDEF_HEIGHT) (
     assert_res (cur_upgradeVotingWindow cur > 1) (
     assert_res (cur_upgradeVotingThreshold cur > 0 \<and> cur_upgradeVotingThreshold cur \<le> 100) (
       bind_res (getNumberOfVotes cur blocks d height) (\<lambda>voteCounter.
         Inr (ucast (cur_upgradeVotingThreshold cur * cur_upgradeVotingWindow cur) \<le> 100 * voteCounter)))))"

fun find_complete :: "currency \<Rightarrow> 'a BlockHeader_scheme list \<Rightarrow> upgrade_detector \<Rightarrow> nat list \<Rightarrow> u32 result" where
  "find_complete cur blocks d [] = Inr UNDEF_HEIGHT"
| "find_complete cur blocks d (i # is) =
     bind_res (isVotingComplete cur blocks d (of_nat i)) (\<lambda>c.
       if c then Inr (of_nat i) else find_complete cur blocks d is)"

definition findVotingCompleteHeight :: "currency \<Rightarrow> 'a BlockHeader_scheme list \<Rightarrow> upgrade_detector \<Rightarrow> u32 \<Rightarrow> u32 result" where
  "findVotingCompleteHeight cur blocks d probableUpgradeHeight =
     assert_res (Reward.upgradeHeight cur (ud_targetVersion d) = UNDEF_HEIGHT)
       (let probableVotingCompleteHeight =
              (if probableUpgradeHeight > maxUpgradeDistance cur then probableUpgradeHeight - maxUpgradeDistance cur else 0)
        in find_complete cur blocks d [unat probableVotingCompleteHeight..<Suc (unat probableUpgradeHeight)])"

text \<open>The method \<^verbatim>\<open>upgradeHeight\<close> of the detector.\<close>

definition detected_height :: "currency \<Rightarrow> upgrade_detector \<Rightarrow> u32" where
  "detected_height cur d =
     (if Reward.upgradeHeight cur (ud_targetVersion d) = UNDEF_HEIGHT
      then (if ud_votingCompleteHeight d = UNDEF_HEIGHT then UNDEF_HEIGHT
            else calculateUpgradeHeight cur (ud_votingCompleteHeight d))
      else Reward.upgradeHeight cur (ud_targetVersion d))"

definition lower_bound_version :: "u8 \<Rightarrow> 'a BlockHeader_scheme list \<Rightarrow> nat" where
  "lower_bound_version v blocks = lower_bound (\<lambda>i. bl_majorVersion (blocks ! i) < v) 0 (length blocks)"

definition ud_init :: "currency \<Rightarrow> 'a BlockHeader_scheme list \<Rightarrow> upgrade_detector \<Rightarrow> (bool \<times> upgrade_detector) result" where
  "ud_init cur blocks d =
     (let h = Reward.upgradeHeight cur (ud_targetVersion d) in
      if h = UNDEF_HEIGHT then
        if blocks = [] then Inr (True, d\<lparr>ud_votingCompleteHeight := UNDEF_HEIGHT\<rparr>)
        else if before_target d (bl_majorVersion (last blocks)) then
          bind_res (findVotingCompleteHeight cur blocks d (of_nat (length blocks - 1))) (\<lambda>v.
            Inr (True, d\<lparr>ud_votingCompleteHeight := v\<rparr>))
        else if ud_targetVersion d \<le> bl_majorVersion (last blocks) then
          (let it = lower_bound_version (ud_targetVersion d) blocks in
           if it = length blocks \<or> bl_majorVersion (blocks ! it) \<noteq> ud_targetVersion d then Inr (False, d)
           else bind_res (findVotingCompleteHeight cur blocks d (of_nat it)) (\<lambda>v.
             Inr (v \<noteq> UNDEF_HEIGHT, d\<lparr>ud_votingCompleteHeight := v\<rparr>)))
        else Inr (True, d\<lparr>ud_votingCompleteHeight := UNDEF_HEIGHT\<rparr>)
      else if blocks = [] then Inr (True, d)
      else if of_nat (length blocks) \<le> (ucast (h + 1) :: u64) then
        Inr (\<not> bl_majorVersion (last blocks) \<ge> ud_targetVersion d, d)
      else bind_res (at_res blocks (unat (h + 1))) (\<lambda>b. Inr (bl_majorVersion b = ud_targetVersion d, d)))"

definition blockPushed :: "currency \<Rightarrow> 'a BlockHeader_scheme list \<Rightarrow> upgrade_detector \<Rightarrow> upgrade_detector result" where
  "blockPushed cur blocks d =
     assert_res (blocks \<noteq> [])
       (let h = Reward.upgradeHeight cur (ud_targetVersion d);
            n = (of_nat (length blocks) :: u64);
            major = bl_majorVersion (last blocks)
        in
        if h \<noteq> UNDEF_HEIGHT then
          if n \<le> ucast (h + 1) then assert_res (major < ud_targetVersion d) (Inr d)
          else assert_res (major \<ge> ud_targetVersion d) (Inr d)
        else if ud_votingCompleteHeight d \<noteq> UNDEF_HEIGHT then
          assert_res (n > ucast (ud_votingCompleteHeight d))
           (if n \<le> ucast (detected_height cur d) then assert_res (before_target d major) (Inr d)
            else if n = ucast (detected_height cur d + 1) then assert_res (before_target d major) (Inr d)
            else assert_res (major = ud_targetVersion d) (Inr d))
        else
          let lastBlockHeight = (of_nat (length blocks - 1) :: u32) in
          bind_res (isVotingComplete cur blocks d lastBlockHeight) (\<lambda>c.
            Inr (if c then d\<lparr>ud_votingCompleteHeight := lastBlockHeight\<rparr> else d)))"

definition blockPopped :: "currency \<Rightarrow> 'a BlockHeader_scheme list \<Rightarrow> upgrade_detector \<Rightarrow> upgrade_detector result" where
  "blockPopped cur blocks d =
     (if ud_votingCompleteHeight d \<noteq> UNDEF_HEIGHT then
        assert_res (Reward.upgradeHeight cur (ud_targetVersion d) = UNDEF_HEIGHT)
         (if of_nat (length blocks) = (ucast (ud_votingCompleteHeight d) :: u64)
          then Inr (d\<lparr>ud_votingCompleteHeight := UNDEF_HEIGHT\<rparr>)
          else assert_res (of_nat (length blocks) > (ucast (ud_votingCompleteHeight d) :: u64)) (Inr d))
      else Inr d)"

section \<open>Votes\<close>

lemma count_votes_eq:
  assumes "\<forall>i \<in> set is. i < length blocks"
  shows "count_votes d blocks is c = Inr (c + of_nat (length (filter (\<lambda>i. votes_for d (blocks ! i)) is)))"
  using assms by (induction "is" arbitrary: c) (simp_all add: algebra_simps)

text \<open>The number of votes in the window that ends at a height, and the settled heights.\<close>

definition votes :: "currency \<Rightarrow> 'a BlockHeader_scheme list \<Rightarrow> upgrade_detector \<Rightarrow> nat \<Rightarrow> nat" where
  "votes cur blocks d h =
     (let w = unat (cur_upgradeVotingWindow cur) in
      if h + 1 < w then 0 else length (filter (votes_for d) (take w (drop (h + 1 - w) blocks))))"

definition settled :: "currency \<Rightarrow> 'a BlockHeader_scheme list \<Rightarrow> upgrade_detector \<Rightarrow> nat \<Rightarrow> bool" where
  "settled cur blocks d h \<longleftrightarrow>
     unat (cur_upgradeVotingThreshold cur) * unat (cur_upgradeVotingWindow cur) \<le> 100 * votes cur blocks d h"

definition sane_voting :: "currency \<Rightarrow> upgrade_detector \<Rightarrow> bool" where
  "sane_voting cur d \<longleftrightarrow>
     Reward.upgradeHeight cur (ud_targetVersion d) = UNDEF_HEIGHT \<and> 1 < unat (cur_upgradeVotingWindow cur) \<and>
     0 < unat (cur_upgradeVotingThreshold cur) \<and> unat (cur_upgradeVotingThreshold cur) \<le> 100 \<and>
     unat (cur_upgradeVotingThreshold cur) * unat (cur_upgradeVotingWindow cur) < 2 ^ 32"

lemma filter_upt_drop:
  "b \<le> length xs \<Longrightarrow> length (filter (\<lambda>i. P (xs ! i)) [a..<b]) = length (filter P (take (b - a) (drop a xs)))"
proof -
  assume "b \<le> length xs"
  then have "take (b - a) (drop a xs) = map ((!) xs) [a..<b]"
    by (auto intro!: nth_equalityI)
  then show ?thesis by (simp add: filter_map o_def)
qed

lemma getNumberOfVotes_eq:
  assumes "1 < unat (cur_upgradeVotingWindow cur)" "h < length blocks" "length blocks < 2 ^ 32"
  shows "getNumberOfVotes cur blocks d (of_nat h) = Inr (of_nat (votes cur blocks d h))"
proof -
  let ?w = "cur_upgradeVotingWindow cur"
  have h: "unat (of_nat h :: u32) = h" using assms by (simp add: unat_of_nat_u32)
  have w1: "unat (?w - 1) = unat ?w - 1"
    using assms(1) by (simp add: unat_sub word_le_nat_alt)
  show ?thesis
  proof (cases "h + 1 < unat ?w")
    case True
    then have "(of_nat h :: u32) < ?w - 1" by (simp add: word_less_nat_alt h w1)
    with True show ?thesis by (simp add: getNumberOfVotes_def votes_def)
  next
    case False
    have "unat (of_nat h + 1 :: u32) = h + 1" using assms h by (simp add: unat_word_ariths)
    then have "unat (of_nat h + 1 - ?w) = h + 1 - unat ?w"
      using False by (simp add: unat_sub word_le_nat_alt)
    moreover have "\<not> (of_nat h :: u32) < ?w - 1" using False by (simp add: word_less_nat_alt h w1)
    moreover have "Suc h - (Suc h - unat ?w) = unat ?w" using False by simp
    ultimately show ?thesis
      using assms False filter_upt_drop [of "Suc h" blocks "votes_for d" "Suc h - unat ?w"]
      by (simp add: getNumberOfVotes_def votes_def Let_def h count_votes_eq del: upt_Suc)
  qed
qed

lemma votes_le: "votes cur blocks d h \<le> unat (cur_upgradeVotingWindow cur)"
  by (auto simp: votes_def Let_def intro: order_trans [OF length_filter_le])

lemma isVotingComplete_eq:
  assumes "sane_voting cur d" "h < length blocks" "length blocks < 2 ^ 32"
  shows "isVotingComplete cur blocks d (of_nat h) = Inr (settled cur blocks d h)"
proof -
  let ?w = "cur_upgradeVotingWindow cur" and ?t = "cur_upgradeVotingThreshold cur"
  have v: "votes cur blocks d h < 2 ^ 32"
    by (rule le_less_trans [OF votes_le]) simp
  have "unat (100 * of_nat (votes cur blocks d h) :: u64) = 100 * votes cur blocks d h"
    using v by (simp add: unat_word_ariths unat_of_nat)
  moreover have "unat (?t * ?w) = unat ?t * unat ?w"
    using assms(1) by (simp add: sane_voting_def unat_word_ariths)
  moreover have "?w > 1" "?t > 0" "?t \<le> 100"
    using assms(1) by (simp_all add: sane_voting_def word_less_nat_alt word_le_nat_alt)
  ultimately show ?thesis
    using assms getNumberOfVotes_eq [of cur h blocks d]
    by (simp add: isVotingComplete_def sane_voting_def settled_def word_le_nat_alt)
qed

lemma votes_append: "h < length blocks \<Longrightarrow> votes cur (blocks @ ext) d h = votes cur blocks d h"
  by (auto simp: votes_def Let_def)

lemma settled_append: "h < length blocks \<Longrightarrow> settled cur (blocks @ ext) d h = settled cur blocks d h"
  by (simp add: settled_def votes_append)

lemma votes_cong: "ud_targetVersion e = ud_targetVersion d \<Longrightarrow> settled cur blocks e h = settled cur blocks d h"
  by (simp add: settled_def votes_def votes_for_def [abs_def] before_target_def Let_def)

section \<open>The state as a function of the chain\<close>

definition first_settled :: "currency \<Rightarrow> 'a BlockHeader_scheme list \<Rightarrow> upgrade_detector \<Rightarrow> u32" where
  "first_settled cur blocks d =
     (case find (settled cur blocks d) [0..<length blocks] of None \<Rightarrow> UNDEF_HEIGHT | Some h \<Rightarrow> of_nat h)"

lemma find_snoc: "find P (xs @ [x]) = (case find P xs of None \<Rightarrow> if P x then Some x else None | Some y \<Rightarrow> Some y)"
  by (induction xs) auto

lemma find_cong_set: "(\<And>x. x \<in> set xs \<Longrightarrow> P x = Q x) \<Longrightarrow> find P xs = find Q xs"
  by (induction xs) auto

lemma first_settled_snoc:
  "first_settled cur (blocks @ [b]) d =
     (case find (settled cur blocks d) [0..<length blocks] of
        None \<Rightarrow> if settled cur (blocks @ [b]) d (length blocks) then of_nat (length blocks) else UNDEF_HEIGHT
      | Some h \<Rightarrow> of_nat h)"
proof -
  have "find (settled cur (blocks @ [b]) d) [0..<length blocks] = find (settled cur blocks d) [0..<length blocks]"
    by (rule find_cong_set) (simp add: settled_append)
  then show ?thesis by (simp add: first_settled_def find_snoc split: option.split)
qed

lemma undef_not_height: "n < 2 ^ 32 - 1 \<Longrightarrow> of_nat n \<noteq> UNDEF_HEIGHT"
proof
  assume "n < 2 ^ 32 - 1" "of_nat n = UNDEF_HEIGHT"
  then have "unat (of_nat n :: u32) = unat UNDEF_HEIGHT" by simp
  with \<open>n < 2 ^ 32 - 1\<close> show False by (simp add: UNDEF_HEIGHT_def unat_of_nat_u32)
qed

lemma first_settled_cases:
  assumes "length blocks < 2 ^ 32 - 1"
  shows "first_settled cur blocks d = UNDEF_HEIGHT \<and> find (settled cur blocks d) [0..<length blocks] = None \<or>
    (\<exists>h < length blocks. find (settled cur blocks d) [0..<length blocks] = Some h \<and> settled cur blocks d h \<and>
      first_settled cur blocks d = of_nat h \<and> first_settled cur blocks d \<noteq> UNDEF_HEIGHT)"
proof (cases "find (settled cur blocks d) [0..<length blocks]")
  case None
  then show ?thesis by (simp add: first_settled_def)
next
  case (Some h)
  then have "h < length blocks" "settled cur blocks d h" by (auto simp: find_Some_iff)
  moreover from this(1) have "(of_nat h :: u32) \<noteq> UNDEF_HEIGHT" using assms by (intro undef_not_height) simp
  ultimately show ?thesis using Some by (simp add: first_settled_def)
qed

definition detector_of :: "currency \<Rightarrow> u8 \<Rightarrow> 'a BlockHeader_scheme list \<Rightarrow> upgrade_detector" where
  "detector_of cur v blocks =
     \<lparr>ud_targetVersion = v, ud_votingCompleteHeight = first_settled cur blocks (new_detector v)\<rparr>"

lemma detector_of_Nil: "detector_of cur v [] = new_detector v"
  by (simp add: detector_of_def new_detector_def first_settled_def)

lemma unat_ucast_len: "h < 2 ^ 32 \<Longrightarrow> (ucast (of_nat h :: u32) :: u64) = of_nat h"
  by (simp add: word_unat_eq_iff unat_of_nat)

lemma pushed_tracks:
  assumes sane: "sane_voting cur (new_detector v)" and len: "Suc (length blocks) < 2 ^ 32 - 1"
    and push: "blockPushed cur (blocks @ [b]) (detector_of cur v blocks) = Inr d"
  shows "d = detector_of cur v (blocks @ [b])"
proof -
  let ?d = "detector_of cur v blocks"
  have undef: "Reward.upgradeHeight cur (ud_targetVersion ?d) = UNDEF_HEIGHT" and sane': "sane_voting cur ?d"
    using sane by (simp_all add: sane_voting_def detector_of_def new_detector_def)
  have s: "settled cur (blocks @ [b]) ?d h = settled cur (blocks @ [b]) (new_detector v) h" for h
    by (rule votes_cong) (simp add: detector_of_def new_detector_def)
  consider "first_settled cur blocks (new_detector v) = UNDEF_HEIGHT" "find (settled cur blocks (new_detector v)) [0..<length blocks] = None"
    | h where "find (settled cur blocks (new_detector v)) [0..<length blocks] = Some h"
      "first_settled cur blocks (new_detector v) = of_nat h" "first_settled cur blocks (new_detector v) \<noteq> UNDEF_HEIGHT"
    using first_settled_cases [of blocks cur "new_detector v"] len by auto
  then show ?thesis
  proof cases
    case 1
    have "isVotingComplete cur (blocks @ [b]) ?d (of_nat (length blocks)) =
        Inr (settled cur (blocks @ [b]) (new_detector v) (length blocks))"
      using isVotingComplete_eq [OF sane', of "length blocks" "blocks @ [b]"] len by (simp add: s)
    with push undef 1 show ?thesis
      by (auto simp: blockPushed_def detector_of_def first_settled_snoc Let_def)
  next
    case (2 h)
    then have "first_settled cur (blocks @ [b]) (new_detector v) = first_settled cur blocks (new_detector v)"
      by (simp add: first_settled_snoc)
    with push undef 2(3) show ?thesis
      by (auto simp: blockPushed_def detector_of_def Let_def assert_res_Inr split: if_splits)
  qed
qed

lemma popped_tracks:
  assumes sane: "sane_voting cur (new_detector v)" and len: "Suc (length blocks) < 2 ^ 32 - 1"
  shows "blockPopped cur blocks (detector_of cur v (blocks @ [b])) = Inr (detector_of cur v blocks)"
proof -
  let ?n = "new_detector v" and ?d = "detector_of cur v (blocks @ [b])"
  have undef: "Reward.upgradeHeight cur (ud_targetVersion ?d) = UNDEF_HEIGHT"
    using sane by (simp add: sane_voting_def detector_of_def new_detector_def)
  have lt: "(of_nat i :: u64) < of_nat j \<longleftrightarrow> i < j" "(of_nat i :: u64) = of_nat j \<longleftrightarrow> i = j"
    if "i < 2 ^ 32" "j < 2 ^ 32" for i j
    using that by (simp_all add: word_less_nat_alt word_unat_eq_iff unat_of_nat)
  show ?thesis
  proof (cases "find (settled cur blocks ?n) [0..<length blocks]")
    case None
    then have u: "first_settled cur blocks ?n = UNDEF_HEIGHT" by (simp add: first_settled_def)
    have "of_nat (length blocks) \<noteq> UNDEF_HEIGHT" using len by (intro undef_not_height) simp
    with None u undef len show ?thesis
      by (auto simp: blockPopped_def detector_of_def first_settled_snoc unat_ucast_len)
  next
    case (Some h)
    then have h: "h < length blocks" by (auto simp: find_Some_iff)
    then have ne: "(of_nat h :: u32) \<noteq> UNDEF_HEIGHT" using len by (intro undef_not_height) simp
    have f: "first_settled cur (blocks @ [b]) ?n = of_nat h" "first_settled cur blocks ?n = of_nat h"
      using Some by (simp_all add: first_settled_snoc) (simp add: first_settled_def)
    have "(ucast (of_nat h :: u32) :: u64) = of_nat h" "(of_nat h :: u64) < of_nat (length blocks)"
      "(of_nat (length blocks) :: u64) \<noteq> of_nat h"
      using h len lt [of h "length blocks"] lt [of "length blocks" h] by (simp_all add: unat_ucast_len)
    with ne f undef show ?thesis by (simp add: blockPopped_def detector_of_def)
  qed
qed

text \<open>Whatever the detector knows already, popping takes back what pushing did.\<close>

definition detector_ok :: "currency \<Rightarrow> nat \<Rightarrow> upgrade_detector \<Rightarrow> bool" where
  "detector_ok cur n d \<longleftrightarrow> ud_votingCompleteHeight d \<noteq> UNDEF_HEIGHT \<longrightarrow>
     Reward.upgradeHeight cur (ud_targetVersion d) = UNDEF_HEIGHT \<and> unat (ud_votingCompleteHeight d) < n"

lemma blockPopped_blockPushed:
  assumes ok: "detector_ok cur (length blocks) d" and len: "Suc (length blocks) < 2 ^ 32"
    and push: "blockPushed cur (blocks @ [b]) d = Inr d'"
  shows "blockPopped cur blocks d' = Inr d" "detector_ok cur (Suc (length blocks)) d'"
proof -
  have lt: "(ucast (v :: u32) :: u64) < of_nat (length blocks) \<longleftrightarrow> unat v < length blocks"
    "of_nat (length blocks) = (ucast v :: u64) \<longleftrightarrow> unat v = length blocks" for v
    using len by (auto simp: word_less_nat_alt word_unat_eq_iff unat_of_nat unat_ucast_len)
  have ne: "(of_nat (length blocks) :: u32) \<noteq> UNDEF_HEIGHT" using len by (intro undef_not_height) simp
  have u: "unat (of_nat (length blocks) :: u32) = length blocks" using len by (simp add: unat_of_nat)
  show "blockPopped cur blocks d' = Inr d" "detector_ok cur (Suc (length blocks)) d'"
    using ok push ne lt u
    by (auto simp: blockPushed_def blockPopped_def detector_ok_def Let_def bind_res_Inr assert_res_Inr split: if_splits)
qed

text \<open>C27. While the upgrade is decided by votes, the detector that is told of the blocks one by one holds
  the first height at which the votes of the window reach the threshold; telling it that the last block
  was popped gives the detector of the shorter chain again; and before that height no assertion fails.\<close>

theorem upgrade_detector_tracks:
  assumes "sane_voting cur (new_detector v)" "Suc (length blocks) < 2 ^ 32 - 1"
  shows "(\<forall>d. blockPushed cur (blocks @ [b]) (detector_of cur v blocks) = Inr d \<longrightarrow>
      d = detector_of cur v (blocks @ [b]) \<and> blockPopped cur blocks d = Inr (detector_of cur v blocks)) \<and>
    (first_settled cur blocks (new_detector v) = UNDEF_HEIGHT \<longrightarrow>
      (\<exists>d. blockPushed cur (blocks @ [b]) (detector_of cur v blocks) = Inr d))"
proof (intro conjI allI impI)
  fix d assume "blockPushed cur (blocks @ [b]) (detector_of cur v blocks) = Inr d"
  then show "d = detector_of cur v (blocks @ [b])" by (rule pushed_tracks [OF assms])
  then show "blockPopped cur blocks d = Inr (detector_of cur v blocks)" by (simp add: popped_tracks [OF assms])
next
  assume u: "first_settled cur blocks (new_detector v) = UNDEF_HEIGHT"
  have "sane_voting cur (detector_of cur v blocks)"
    using assms(1) by (simp add: sane_voting_def detector_of_def new_detector_def)
  then have "isVotingComplete cur (blocks @ [b]) (detector_of cur v blocks) (of_nat (length blocks)) =
      Inr (settled cur (blocks @ [b]) (detector_of cur v blocks) (length blocks))"
    and "Reward.upgradeHeight cur v = UNDEF_HEIGHT"
    using isVotingComplete_eq [of cur _ "length blocks" "blocks @ [b]"] assms(2)
    by (simp_all add: sane_voting_def detector_of_def)
  with u show "\<exists>d. blockPushed cur (blocks @ [b]) (detector_of cur v blocks) = Inr d"
    by (simp add: blockPushed_def Let_def detector_of_def)
qed

definition voting_block :: BlockHeader where
  "voting_block = \<lparr>bl_majorVersion = 2, bl_minorVersion = 1, bl_nonce = 0, bl_timestamp = 0, bl_previousBlockHash = []\<rparr>"

theorem upgrade_detector_tracks_witness:
  "blockPushed (default_currency\<lparr>cur_upgradeVotingWindow := 2\<rparr>) ([voting_block] @ [voting_block])
      (detector_of (default_currency\<lparr>cur_upgradeVotingWindow := 2\<rparr>) 3 [voting_block]) =
    Inr (detector_of (default_currency\<lparr>cur_upgradeVotingWindow := 2\<rparr>) 3 ([voting_block] @ [voting_block])) \<and>
   first_settled (default_currency\<lparr>cur_upgradeVotingWindow := 2\<rparr>) [voting_block, voting_block] (new_detector 3) = 1"
proof -
  let ?cur = "default_currency\<lparr>cur_upgradeVotingWindow := 2\<rparr>"
  have "sane_voting ?cur (new_detector 3)"
    by (simp add: sane_voting_def new_detector_def default_currency_def Reward.upgradeHeight_def
        BLOCK_MAJOR_VERSION_2_def UNDEF_HEIGHT_def)
  moreover have "first_settled ?cur [voting_block] (new_detector 3) = UNDEF_HEIGHT"
    by (simp add: first_settled_def settled_def votes_def default_currency_def)
  moreover have "first_settled ?cur [voting_block, voting_block] (new_detector 3) = 1"
    by (simp add: first_settled_def settled_def votes_def default_currency_def votes_for_def before_target_def
        new_detector_def voting_block_def BLOCK_MINOR_VERSION_1_def)
  ultimately show ?thesis
    using upgrade_detector_tracks [of ?cur 3 "[voting_block]" voting_block] by auto
qed

end
