(* ===== verification/ChainRules.thy ===== *)
theory ChainRules
  imports Ledger UpgradeDetector BlockIndex Checkpoints Difficulty Lwma
begin

text \<open>
  The state of the block chain and the rules a block and its transactions have to meet, from
  \<^verbatim>\<open>src/CryptoNoteCore/Blockchain.h\<close> and \<^verbatim>\<open>src/CryptoNoteCore/Blockchain.cpp\<close>: unlock times, ring and
  multisignature inputs, outputs, timestamps, versions, sizes, the miner's transaction and the difficulty.
  The theorems say what the checks guarantee of what they accept.
\<close>

section \<open>State\<close>

record blockchain = ledger +
  bc_blocks :: "BlockEntry list"
  bc_blockIndex :: block_index
  bc_depositIndex :: deposit_index
  bc_upgradeDetectorV2 :: upgrade_detector
  bc_timestampIndex :: timestamp_index
  bc_generatedTransactionsIndex :: generated_index
  bc_orthanBlocksIndex :: orphan_index
  bc_alternative_chains :: "(hash \<times> BlockEntry) list"
  bc_checkpoints :: checkpoints
  bc_current_block_cumul_sz_limit :: usize

text \<open>What the chain takes from outside the modelled code: the clock, the checkpoints read from DNS records, the
  elliptic curve operations and the slow hashes of \<^verbatim>\<open>src/crypto\<close>. The difficulty function asserts that it gets at most 61 timestamps, while
  a longer chain passes up to 121 of them; \<open>env_difficulty_asserts\<close> says whether that assertion is compiled in.\<close>

record environment =
  env_now :: u64
  env_check_key :: "public_key \<Rightarrow> bool"
  env_check_signature :: "hash \<Rightarrow> public_key \<Rightarrow> signature \<Rightarrow> bool"
  env_check_ring_signature :: "hash \<Rightarrow> key_image \<Rightarrow> public_key list \<Rightarrow> signature list \<Rightarrow> bool"
  env_scalarmultKey :: "key_image \<Rightarrow> key_image \<Rightarrow> key_image"
  env_cn_slow_hash :: "bytes \<Rightarrow> hash"
  env_cn_moonbank_slow_hash_v0 :: "bytes \<Rightarrow> hash"
  env_difficulty_asserts :: bool
  env_load_checkpoints_from_dns :: "checkpoints \<Rightarrow> checkpoints"

definition getCurrentBlockchainHeight :: "blockchain \<Rightarrow> u32" where
  "getCurrentBlockchainHeight c = of_nat (length (bc_blocks c))"

definition isInCheckpointZone :: "blockchain \<Rightarrow> u32 \<Rightarrow> bool" where
  "isInCheckpointZone c height = is_in_checkpoint_zone height (bc_checkpoints c)"

definition have_tx_keyimg_as_spent :: "'a ledger_scheme \<Rightarrow> key_image \<Rightarrow> bool" where
  "have_tx_keyimg_as_spent c ki \<longleftrightarrow> lg_spent_keys c ki \<noteq> None"

definition haveTransaction :: "'a ledger_scheme \<Rightarrow> hash \<Rightarrow> bool" where
  "haveTransaction c txid \<longleftrightarrow> lg_transactionMap c txid \<noteq> None"

definition haveTransactionKeyImagesAsSpent :: "'a ledger_scheme \<Rightarrow> Transaction \<Rightarrow> bool" where
  "haveTransactionKeyImagesAsSpent c tx =
     list_ex (\<lambda>i. case i of InKey k \<Rightarrow> have_tx_keyimg_as_spent c (ki_keyImage k) | _ \<Rightarrow> False) (tx_inputs tx)"

definition transactionByIndex :: "blockchain \<Rightarrow> TransactionIndex \<Rightarrow> TransactionEntry result" where
  "transactionByIndex c ti =
     bind_res (at_res (bc_blocks c) (unat (ti_block ti))) (\<lambda>b. at_res (be_transactions b) (unat (ti_transaction ti)))"

definition getBlockIdByHeight :: "blockchain \<Rightarrow> u32 \<Rightarrow> hash result" where
  "getBlockIdByHeight c height = assert_res (height < size_bi (bc_blockIndex c)) (getBlockId height (bc_blockIndex c))"

definition tailId :: "blockchain \<Rightarrow> hash result" where
  "tailId c = (if bc_blocks c = [] then Inr NULL_HASH else getTailId (bc_blockIndex c))"

definition haveBlock :: "blockchain \<Rightarrow> hash \<Rightarrow> bool" where
  "haveBlock c h =
     (if hasBlock h (bc_blockIndex c) then True
      else if map_of (bc_alternative_chains c) h \<noteq> None then True else False)"

definition checkTransactionSize :: "currency \<Rightarrow> blockchain \<Rightarrow> usize \<Rightarrow> bool" where
  "checkTransactionSize cur c blobSize =
     (if blobSize \<ge> bc_current_block_cumul_sz_limit c - cur_minerTxBlobReservedSize cur then False else True)"

section \<open>Transactions\<close>

definition is_tx_spendtime_unlocked :: "currency \<Rightarrow> environment \<Rightarrow> blockchain \<Rightarrow> u64 \<Rightarrow> bool" where
  "is_tx_spendtime_unlocked cur env c unlock_time =
     (if unlock_time < ucast (cur_maxBlockHeight cur)
      then ucast (getCurrentBlockchainHeight c - 1) + cur_lockedTxAllowedDeltaBlocks cur \<ge> unlock_time
      else env_now env + cur_lockedTxAllowedDeltaSeconds cur \<ge> unlock_time)"

text \<open>\<^verbatim>\<open>scanOutputKeysForIndexes\<close> with the visitor of \<^verbatim>\<open>check_tx_input\<close>: the result, the collected keys and
  the largest block, which is updated at the last index.\<close>

definition handle_output :: "currency \<Rightarrow> environment \<Rightarrow> blockchain \<Rightarrow> Transaction \<Rightarrow> TransactionOutput \<Rightarrow> public_key option" where
  "handle_output cur env c tx out =
     (if \<not> is_tx_spendtime_unlocked cur env c (tx_unlockTime tx) then None
      else case out_target out of OutKey key \<Rightarrow> Some key | _ \<Rightarrow> None)"

fun scan_outputs ::
  "currency \<Rightarrow> environment \<Rightarrow> blockchain \<Rightarrow> (TransactionIndex \<times> u16) list \<Rightarrow> u32 list \<Rightarrow> public_key list \<Rightarrow> u32 \<Rightarrow>
   (bool \<times> public_key list \<times> u32) result" where
  "scan_outputs cur env c outs [] keys pmax = Inr (True, keys, pmax)"
| "scan_outputs cur env c outs (i # is) keys pmax =
     (if unat i \<ge> length outs then Inr (False, keys, pmax)
      else bind_res (transactionByIndex c (fst (outs ! unat i))) (\<lambda>entry.
        let n = unat (snd (outs ! unat i)) in
        if \<not> n < length (tx_outputs (te_tx entry)) then Inr (False, keys, pmax)
        else case handle_output cur env c (te_tx entry) (tx_outputs (te_tx entry) ! n) of
          None \<Rightarrow> Inr (False, keys, pmax)
        | Some key \<Rightarrow>
            let pmax = (if is = [] \<and> pmax < ti_block (fst (outs ! unat i)) then ti_block (fst (outs ! unat i)) else pmax)
            in scan_outputs cur env c outs is (keys @ [key]) pmax))"

definition scanOutputKeysForIndexes ::
  "currency \<Rightarrow> environment \<Rightarrow> blockchain \<Rightarrow> KeyInput \<Rightarrow> u32 \<Rightarrow> (bool \<times> public_key list \<times> u32) result" where
  "scanOutputKeysForIndexes cur env c txin pmax =
     (case lg_outputs c (ki_amount txin) of
        None \<Rightarrow> Inr (False, [], pmax)
      | Some outs \<Rightarrow>
          if ki_outputIndexes txin = [] then Inr (False, [], pmax)
          else scan_outputs cur env c outs (relative_output_offsets_to_absolute (ki_outputIndexes txin)) [] pmax)"

definition KEY_IMAGE_I :: key_image where
  "KEY_IMAGE_I = 1 # replicate 31 0"

definition KEY_IMAGE_L :: key_image where
  "KEY_IMAGE_L = [0xed, 0xd3, 0xf5, 0x5c, 0x1a, 0x63, 0x12, 0x58, 0xd6, 0x9c, 0xf7, 0xa2, 0xde, 0xf9, 0xde, 0x14,
     0x00, 0x00, 0x00, 0x00, 0x00, 0x00, 0x00, 0x00, 0x00, 0x00, 0x00, 0x00, 0x00, 0x00, 0x00, 0x10]"

definition check_tx_input ::
  "currency \<Rightarrow> environment \<Rightarrow> blockchain \<Rightarrow> KeyInput \<Rightarrow> hash \<Rightarrow> signature list \<Rightarrow> u32 \<Rightarrow> (bool \<times> u32) result" where
  "check_tx_input cur env c txin tx_prefix_hash sig pmax =
     bind_res (scanOutputKeysForIndexes cur env c txin pmax) (\<lambda>(ok, output_keys, pmax).
       if \<not> ok then Inr (False, pmax)
       else if length (ki_outputIndexes txin) \<noteq> length output_keys then Inr (False, pmax)
       else if length sig \<noteq> length output_keys then Inr (False, pmax)
       else if isInCheckpointZone c (getCurrentBlockchainHeight c) then Inr (True, pmax)
       else if env_scalarmultKey env (ki_keyImage txin) KEY_IMAGE_L \<noteq> KEY_IMAGE_I then Inr (False, pmax)
       else Inr (env_check_ring_signature env tx_prefix_hash (ki_keyImage txin) output_keys sig, pmax))"

text \<open>The loop that matches the signatures, in order, with the keys of the output.\<close>

fun match_signatures :: "environment \<Rightarrow> hash \<Rightarrow> signature list \<Rightarrow> public_key list \<Rightarrow> bool" where
  "match_signatures env h [] keys = True"
| "match_signatures env h (s # ss) [] = False"
| "match_signatures env h (s # ss) (k # ks) =
     (if env_check_signature env h k s then match_signatures env h ss ks else match_signatures env h (s # ss) ks)"

definition validateInput ::
  "currency \<Rightarrow> environment \<Rightarrow> blockchain \<Rightarrow> MultisignatureInput \<Rightarrow> hash \<Rightarrow> signature list \<Rightarrow> bool result" where
  "validateInput cur env c input transactionPrefixHash transactionSignatures =
     assert_res (unat (mi_signatureCount input) = length transactionSignatures)
      (case lg_multisignatureOutputs c (mi_amount input) of
         None \<Rightarrow> Inr False
       | Some usages \<Rightarrow>
          if unat (mi_outputIndex input) \<ge> length usages then Inr False
          else let u = usages ! unat (mi_outputIndex input) in
            if mu_isUsed u then Inr False
            else bind_res (transactionByIndex c (mu_transactionIndex u)) (\<lambda>entry.
              if \<not> is_tx_spendtime_unlocked cur env c (tx_unlockTime (te_tx entry)) then Inr False
              else bind_res (at_res (tx_outputs (te_tx entry)) (unat (mu_outputIndex u))) (\<lambda>out.
                assert_res (out_amount out = mi_amount input)
                 (case out_target out of
                    OutKey _ \<Rightarrow> Inl AssertFailed
                  | OutMulti output \<Rightarrow>
                      if mi_signatureCount input \<noteq> mo_requiredSignatureCount output then Inr False
                      else if mi_term input \<noteq> mo_term output then Inr False
                      else if mo_term output \<noteq> 0 \<and>
                              ti_block (mu_transactionIndex u) + mo_term output > getCurrentBlockchainHeight c then Inr False
                      else Inr (match_signatures env transactionPrefixHash transactionSignatures (mo_keys output))))))"

fun check_inputs ::
  "currency \<Rightarrow> environment \<Rightarrow> blockchain \<Rightarrow> hash \<Rightarrow> signature list list \<Rightarrow> TransactionInput list \<Rightarrow> nat \<Rightarrow> u32 \<Rightarrow> (bool \<times> u32) result" where
  "check_inputs cur env c tx_prefix_hash sigs [] inputIndex pmax = Inr (True, pmax)"
| "check_inputs cur env c tx_prefix_hash sigs (txin # ins) inputIndex pmax =
     assert_res (inputIndex < length sigs)
      (case txin of
         InKey k \<Rightarrow>
           if ki_outputIndexes k = [] then Inr (False, pmax)
           else if have_tx_keyimg_as_spent c (ki_keyImage k) then Inr (False, pmax)
           else bind_res (if isInCheckpointZone c (getCurrentBlockchainHeight c) then Inr (True, pmax)
                          else check_tx_input cur env c k tx_prefix_hash (sigs ! inputIndex) pmax) (\<lambda>(ok, pmax).
             if \<not> ok then Inr (False, pmax) else check_inputs cur env c tx_prefix_hash sigs ins (inputIndex + 1) pmax)
       | InMulti m \<Rightarrow>
           bind_res (if isInCheckpointZone c (getCurrentBlockchainHeight c) then Inr True
                     else validateInput cur env c m tx_prefix_hash (sigs ! inputIndex)) (\<lambda>ok.
             if \<not> ok then Inr (False, pmax) else check_inputs cur env c tx_prefix_hash sigs ins (inputIndex + 1) pmax)
       | _ \<Rightarrow> Inr (False, pmax))"

text \<open>The overloads of \<^verbatim>\<open>checkTransactionInputs\<close>: by the largest block height, by the block that holds it, and
  the two of the validator interface.\<close>

definition checkTransactionInputs :: "currency \<Rightarrow> environment \<Rightarrow> blockchain \<Rightarrow> Transaction \<Rightarrow> (bool \<times> u32) result" where
  "checkTransactionInputs cur env c tx =
     check_inputs cur env c (getObjectHash ser_prefix tx) (tx_signatures tx) (tx_inputs tx) 0 0"

definition checkTransactionInputs_block ::
  "currency \<Rightarrow> environment \<Rightarrow> blockchain \<Rightarrow> Transaction \<Rightarrow> BlockInfo \<Rightarrow> (bool \<times> BlockInfo) result" where
  "checkTransactionInputs_block cur env c tx used =
     bind_res (checkTransactionInputs cur env c tx) (\<lambda>(res, h).
       let used = used\<lparr>bi_height := h\<rparr> in
       if \<not> res then Inr (False, used)
       else if \<not> unat h < length (bc_blocks c) then Inr (False, used)
       else bind_res (get_block_hash (be_bl (bc_blocks c ! unat h))) (\<lambda>i. Inr (True, used\<lparr>bi_id := i\<rparr>)))"

definition check_tx_outputs :: "currency \<Rightarrow> Transaction \<Rightarrow> bool" where
  "check_tx_outputs cur tx =
     list_all (\<lambda>out. case out_target out of
         OutMulti m \<Rightarrow>
           if tx_version tx < TRANSACTION_VERSION_2 then False
           else if mo_term m \<noteq> 0 then
             (if mo_term m < cur_depositMinTerm cur \<or> mo_term m > cur_depositMaxTerm cur then False
              else if out_amount out < cur_depositMinAmount cur then False else True)
           else True
       | OutKey _ \<Rightarrow> True) (tx_outputs tx)"

definition v_check :: "currency \<Rightarrow> environment \<Rightarrow> blockchain \<Rightarrow> Transaction \<Rightarrow> BlockInfo \<Rightarrow> (bool \<times> BlockInfo) result" where
  "v_check cur env c tx maxUsedBlock =
     bind_res (checkTransactionInputs_block cur env c tx maxUsedBlock) (\<lambda>(ok, used). Inr (ok \<and> check_tx_outputs cur tx, used))"

definition tail_info :: "blockchain \<Rightarrow> BlockInfo result" where
  "tail_info c = assert_res (bc_blocks c \<noteq> [])
     (bind_res (tailId c) (\<lambda>h. Inr \<lparr>bi_height = getCurrentBlockchainHeight c - 1, bi_id = h\<rparr>))"

definition v_recheck ::
  "currency \<Rightarrow> environment \<Rightarrow> blockchain \<Rightarrow> Transaction \<Rightarrow> BlockInfo \<Rightarrow> BlockInfo \<Rightarrow> (bool \<times> BlockInfo \<times> BlockInfo) result" where
  "v_recheck cur env c tx maxUsedBlock lastFailed =
     (let check = bind_res (tail_info c) (\<lambda>tail.
            bind_res (checkTransactionInputs_block cur env c tx maxUsedBlock) (\<lambda>(ok, used).
              Inr (ok, used, if ok then lastFailed else tail)))
      in
      if bi_empty maxUsedBlock then
        bind_res (if \<not> bi_empty lastFailed \<and> getCurrentBlockchainHeight c > bi_height lastFailed
                  then bind_res (getBlockIdByHeight c (bi_height lastFailed)) (\<lambda>h. Inr (h = bi_id lastFailed))
                  else Inr False) (\<lambda>broken.
          if broken then Inr (False, maxUsedBlock, lastFailed) else check)
      else if bi_height maxUsedBlock \<ge> getCurrentBlockchainHeight c then Inr (False, maxUsedBlock, lastFailed)
      else bind_res (getBlockIdByHeight c (bi_height maxUsedBlock)) (\<lambda>h.
        if h \<noteq> bi_id maxUsedBlock then
          bind_res (getBlockIdByHeight c (bi_height lastFailed)) (\<lambda>f.
            if bi_id lastFailed = f then Inr (False, maxUsedBlock, lastFailed) else check)
        else Inr (True, maxUsedBlock, lastFailed)))"

text \<open>The chain as the pool's validator.\<close>

definition chain_validator :: "currency \<Rightarrow> environment \<Rightarrow> blockchain \<Rightarrow> ITransactionValidator" where
  "chain_validator cur env c =
     \<lparr>v_checkTransactionInputs = v_check cur env c,
      v_checkTransactionInputs_failed = v_recheck cur env c,
      v_haveSpentKeyImages = haveTransactionKeyImagesAsSpent c,
      v_checkTransactionSize = checkTransactionSize cur c\<rparr>"

section \<open>Blocks\<close>

definition medianValue :: "u64 list \<Rightarrow> u64" where
  "medianValue v =
     (if v = [] then 0
      else if length v = 1 then v ! 0
      else let n = length v div 2; v = sort v in
        if length v mod 2 \<noteq> 0 then v ! n else (v ! (n - 1) + v ! n) div 2)"

definition check_block_timestamp :: "currency \<Rightarrow> u64 list \<Rightarrow> Block \<Rightarrow> bool" where
  "check_block_timestamp cur timestamps b =
     (if length timestamps < cur_timestampCheckWindow cur then True
      else if bl_timestamp b < medianValue timestamps then False else True)"

definition check_block_timestamp_main :: "currency \<Rightarrow> environment \<Rightarrow> blockchain \<Rightarrow> Block \<Rightarrow> bool" where
  "check_block_timestamp_main cur env c b =
     (if bl_timestamp b > env_now env + cur_blockFutureTimeLimit cur then False
      else let n = length (bc_blocks c);
               offset = (if n \<le> cur_timestampCheckWindow cur then 0 else n - cur_timestampCheckWindow cur)
           in check_block_timestamp cur (map (bl_timestamp \<circ> be_bl) (drop offset (bc_blocks c))) b)"

text \<open>The \<^verbatim>\<open>do\<close> loop down from the given height; the height is below the number of blocks.\<close>

fun timestamps_down :: "BlockEntry list \<Rightarrow> nat \<Rightarrow> nat \<Rightarrow> u64 list" where
  "timestamps_down blocks stop 0 = [bl_timestamp (be_bl (blocks ! 0))]"
| "timestamps_down blocks stop (Suc h) =
     bl_timestamp (be_bl (blocks ! Suc h)) # (if h \<noteq> stop then timestamps_down blocks stop h else [])"

definition complete_timestamps_vector :: "currency \<Rightarrow> blockchain \<Rightarrow> nat \<Rightarrow> u64 list \<Rightarrow> bool \<times> u64 list" where
  "complete_timestamps_vector cur c start_top_height timestamps =
     (if length timestamps \<ge> cur_timestampCheckWindow cur then (True, timestamps)
      else let need_elements = cur_timestampCheckWindow cur - length timestamps in
        if \<not> start_top_height < length (bc_blocks c) then (False, timestamps)
        else let stop_offset = (if start_top_height > need_elements then start_top_height - need_elements else 0)
             in (True, timestamps @ timestamps_down (bc_blocks c) stop_offset start_top_height))"

definition get_block_major_version_for_height :: "currency \<Rightarrow> blockchain \<Rightarrow> u64 \<Rightarrow> u8" where
  "get_block_major_version_for_height cur c height =
     (if height > ucast (detected_height cur (bc_upgradeDetectorV2 c)) then ud_targetVersion (bc_upgradeDetectorV2 c)
      else BLOCK_MAJOR_VERSION_1)"

definition checkBlockVersion :: "currency \<Rightarrow> blockchain \<Rightarrow> Block \<Rightarrow> bool" where
  "checkBlockVersion cur c b =
     (if bl_majorVersion b \<noteq> get_block_major_version_for_height cur c (ucast (get_block_height b)) then False else True)"

definition checkCumulativeBlockSize :: "currency \<Rightarrow> usize \<Rightarrow> u64 \<Rightarrow> bool result" where
  "checkCumulativeBlockSize cur cumulativeBlockSize height =
     bind_res (maxBlockCumulativeSize cur height) (\<lambda>m. Inr (if cumulativeBlockSize > m then False else True))"

definition getBackwardBlocksSize :: "blockchain \<Rightarrow> nat \<Rightarrow> nat \<Rightarrow> bool \<times> u64 list" where
  "getBackwardBlocksSize c from_height num =
     (if \<not> from_height < length (bc_blocks c) then (False, [])
      else let start_offset = (from_height + 1) - min (from_height + 1) num
           in (True, map (\<lambda>i. be_block_cumulative_size (bc_blocks c ! i)) [start_offset..<from_height + 1]))"

definition get_last_n_blocks_sizes :: "blockchain \<Rightarrow> nat \<Rightarrow> bool \<times> u64 list" where
  "get_last_n_blocks_sizes c num =
     (if bc_blocks c = [] then (True, []) else getBackwardBlocksSize c (length (bc_blocks c) - 1) num)"

definition update_next_comulative_size_limit :: "currency \<Rightarrow> blockchain \<Rightarrow> blockchain" where
  "update_next_comulative_size_limit cur c =
     (let median = medianValue (snd (get_last_n_blocks_sizes c (cur_rewardBlocksWindow cur)));
          median = (if median \<le> cur_blockGrantedFullRewardZone cur then cur_blockGrantedFullRewardZone cur else median)
      in c\<lparr>bc_current_block_cumul_sz_limit := median * 2\<rparr>)"

definition prevalidate_miner_transaction :: "currency \<Rightarrow> environment \<Rightarrow> Block \<Rightarrow> u32 \<Rightarrow> bool result" where
  "prevalidate_miner_transaction cur env b height =
     (let tx = bl_baseTransaction b in
      if length (tx_inputs tx) \<noteq> 1 then Inr False
      else if length (tx_signatures tx) > 1 then Inr False
      else case tx_inputs tx ! 0 of
        BaseInput index \<Rightarrow>
          if index \<noteq> height then Inr False
          else if tx_unlockTime tx \<noteq> ucast height + cur_minedMoneyUnlockWindow cur then Inr False
          else bind_res (check_outs_valid (env_check_key env) (tx_version tx) False (tx_outputs tx)) (\<lambda>(ok, _).
            if \<not> ok then Inr False
            else if \<not> check_outs_overflow tx then Inr False
            else Inr True)
      | _ \<Rightarrow> Inr False)"

text \<open>The result with the reward and the change of the emission.\<close>

definition validate_miner_transaction ::
  "currency \<Rightarrow> blockchain \<Rightarrow> Block \<Rightarrow> u32 \<Rightarrow> usize \<Rightarrow> u64 \<Rightarrow> u64 \<Rightarrow> (bool \<times> u64 \<times> u64) result" where
  "validate_miner_transaction cur c b height cumulativeBlockSize alreadyGeneratedCoins fee =
     (let minerReward = fold (\<lambda>o1 r. r + out_amount o1) (tx_outputs (bl_baseTransaction b)) 0;
          blocksSizeMedian = medianValue (snd (get_last_n_blocks_sizes c (cur_rewardBlocksWindow cur)))
      in bind_res (getBlockReward cur blocksSizeMedian cumulativeBlockSize alreadyGeneratedCoins fee height) (\<lambda>r.
         case r of None \<Rightarrow> Inr (False, 0, 0)
         | Some (reward, emissionChange) \<Rightarrow>
             Inr (if minerReward > reward then (if height < 290700 then True else False)
                  else if minerReward < reward then (if height < 290700 then True else False)
                  else True, reward, emissionChange)))"

section \<open>Difficulty\<close>

definition lwma :: "currency \<Rightarrow> environment \<Rightarrow> u64 list \<Rightarrow> u64 list \<Rightarrow> u64 result" where
  "lwma cur env timestamps cumulative_difficulties =
     (if env_difficulty_asserts env then LWMA3Difficulty cur timestamps cumulative_difficulties
      else Inr (LWMA3_body timestamps cumulative_difficulties))"

definition getDifficultyForNextBlock :: "currency \<Rightarrow> environment \<Rightarrow> blockchain \<Rightarrow> u64 result" where
  "getDifficultyForNextBlock cur env c =
     (let n = length (bc_blocks c);
          offset = n - min n DIFFICULTY_BLOCKS_COUNT;
          offset = (if offset = 0 then 1 else offset);
          bs = drop offset (bc_blocks c)
      in lwma cur env (map (bl_timestamp \<circ> be_bl) bs) (map be_cumulative_difficulty bs))"

text \<open>\<open>alt_chain\<close> from the block after the main chain to the last one. The number of blocks looked at is a
  block version.\<close>

definition get_next_difficulty_for_alternative_chain ::
  "currency \<Rightarrow> environment \<Rightarrow> blockchain \<Rightarrow> BlockEntry list \<Rightarrow> u64 result" where
  "get_next_difficulty_for_alternative_chain cur env c alt_chain =
     (let n = length alt_chain;
          DFC = unat (get_block_major_version_for_height cur c (ucast (of_nat n :: u32)));
          bs = drop (n - min n DFC) alt_chain
      in lwma cur env (map (bl_timestamp \<circ> be_bl) bs) (map be_cumulative_difficulty bs))"

definition get_block_longhash :: "environment \<Rightarrow> Block \<Rightarrow> hash option result" where
  "get_block_longhash env b =
     bind_res (get_block_hashing_blob b) (\<lambda>bd.
       Inr (case bd of None \<Rightarrow> None
            | Some bd \<Rightarrow> Some (if bl_majorVersion b \<ge> 2 then env_cn_moonbank_slow_hash_v0 env bd else env_cn_slow_hash env bd)))"

definition checkProofOfWork :: "environment \<Rightarrow> Block \<Rightarrow> u64 \<Rightarrow> bool result" where
  "checkProofOfWork env block currentDifficulty =
     bind_res (get_block_longhash env block) (\<lambda>h.
       Inr (case h of None \<Rightarrow> False | Some proofOfWork \<Rightarrow> check_hash proofOfWork currentDifficulty))"

section \<open>Deposits\<close>

definition block_deposit :: "BlockEntry \<Rightarrow> s64" where
  "block_deposit block =
     fold (\<lambda>e deposit.
       let deposit = fold (\<lambda>i d. case i of InMulti m \<Rightarrow> if mi_term m > 0 then d - mi_amount m else d | _ \<Rightarrow> d)
             (tx_inputs (te_tx e)) deposit
       in fold (\<lambda>out d. case out_target out of OutMulti m \<Rightarrow> if mo_term m > 0 then d + out_amount out else d | _ \<Rightarrow> d)
             (tx_outputs (te_tx e)) deposit) (be_transactions block) 0"

definition pushToDepositIndex :: "BlockEntry \<Rightarrow> u64 \<Rightarrow> blockchain \<Rightarrow> blockchain result" where
  "pushToDepositIndex block interest c =
     bind_res (DepositIndex.pushBlock (block_deposit block) interest (bc_depositIndex c)) (\<lambda>d. Inr (c\<lparr>bc_depositIndex := d\<rparr>))"

section \<open>Queries\<close>

text \<open>The walk from an alternative block back to the main chain: the entries passed, and the first block
  that is not among the alternative ones. It passes each entry at most once, or it does not end.\<close>

fun alt_walk :: "nat \<Rightarrow> (hash \<times> BlockEntry) list \<Rightarrow> hash \<Rightarrow> ((hash \<times> BlockEntry) list \<times> hash) result" where
  "alt_walk 0 alts h = Inl NoReturn"
| "alt_walk (Suc k) alts h =
     (case map_of alts h of None \<Rightarrow> Inr ([], h)
      | Some e \<Rightarrow> bind_res (alt_walk k alts (bl_previousBlockHash (be_bl e))) (\<lambda>(walked, ancestor).
          Inr ((h, e) # walked, ancestor)))"

definition alternative_walk :: "blockchain \<Rightarrow> hash \<Rightarrow> ((hash \<times> BlockEntry) list \<times> hash) result" where
  "alternative_walk c h = alt_walk (Suc (length (bc_alternative_chains c))) (bc_alternative_chains c) h"

function pick_doubling :: "nat \<Rightarrow> 'a list \<Rightarrow> 'a list" where
  "pick_doubling i xs = (if 0 < i \<and> i \<le> length xs then xs ! (i - 1) # pick_doubling (i * 2) xs else [])"
  by pat_completeness auto
termination by (relation "measure (\<lambda>(i, xs). Suc (length xs) - i)") auto

declare pick_doubling.simps [simp del]

definition doBuildSparseChain :: "blockchain \<Rightarrow> hash \<Rightarrow> hash list result" where
  "doBuildSparseChain c startBlockId =
     assert_res (size_bi (bc_blockIndex c) \<noteq> 0)
      (if hasBlock startBlockId (bc_blockIndex c) then buildSparseChain startBlockId (bc_blockIndex c)
       else assert_res (map_of (bc_alternative_chains c) startBlockId \<noteq> None)
        (bind_res (alternative_walk c startBlockId) (\<lambda>(walked, ancestor).
          let sparseChain = pick_doubling 1 (map fst walked) in
          assert_res (sparseChain \<noteq> []) (assert_res (hasBlock ancestor (bc_blockIndex c))
            (bind_res (buildSparseChain ancestor (bc_blockIndex c)) (\<lambda>m. Inr (sparseChain @ m)))))))"

definition getBlockByHash :: "blockchain \<Rightarrow> hash \<Rightarrow> Block option result" where
  "getBlockByHash c blockHash =
     (case getBlockHeight blockHash (bc_blockIndex c) of
        Some height \<Rightarrow> bind_res (at_res (bc_blocks c) (unat height)) (\<lambda>e. Inr (Some (be_bl e)))
      | None \<Rightarrow> Inr (map_option be_bl (map_of (bc_alternative_chains c) blockHash)))"

definition getAlreadyGeneratedCoins :: "blockchain \<Rightarrow> hash \<Rightarrow> u64 option result" where
  "getAlreadyGeneratedCoins c h =
     (case getBlockHeight h (bc_blockIndex c) of
        Some height \<Rightarrow> bind_res (at_res (bc_blocks c) (unat height)) (\<lambda>e. Inr (Some (be_already_generated_coins e)))
      | None \<Rightarrow> Inr (map_option be_already_generated_coins (map_of (bc_alternative_chains c) h)))"

definition getBlockSize :: "blockchain \<Rightarrow> hash \<Rightarrow> u64 option result" where
  "getBlockSize c h =
     (case getBlockHeight h (bc_blockIndex c) of
        Some height \<Rightarrow> bind_res (at_res (bc_blocks c) (unat height)) (\<lambda>e. Inr (Some (be_block_cumulative_size e)))
      | None \<Rightarrow> Inr (map_option be_block_cumulative_size (map_of (bc_alternative_chains c) h)))"

definition getCoinsInCirculation :: "blockchain \<Rightarrow> u64" where
  "getCoinsInCirculation c = (if bc_blocks c = [] then 0 else be_already_generated_coins (last (bc_blocks c)))"

definition difficultyAtHeight :: "blockchain \<Rightarrow> nat \<Rightarrow> u64 result" where
  "difficultyAtHeight c height =
     bind_res (at_res (bc_blocks c) height) (\<lambda>current.
       if height < 1 then Inr (be_cumulative_difficulty current)
       else bind_res (at_res (bc_blocks c) (height - 1)) (\<lambda>previous.
         Inr (be_cumulative_difficulty current - be_cumulative_difficulty previous)))"

definition blockDifficulty :: "blockchain \<Rightarrow> nat \<Rightarrow> u64" where
  "blockDifficulty c i =
     (if \<not> i < length (bc_blocks c) then 0
      else if i = 0 then be_cumulative_difficulty (bc_blocks c ! i)
      else be_cumulative_difficulty (bc_blocks c ! i) - be_cumulative_difficulty (bc_blocks c ! (i - 1)))"

definition getMultisigOutputReference :: "blockchain \<Rightarrow> MultisignatureInput \<Rightarrow> (hash \<times> usize) option result" where
  "getMultisigOutputReference c txin =
     (case lg_multisignatureOutputs c (mi_amount txin) of None \<Rightarrow> Inr None
      | Some usages \<Rightarrow>
         if length usages \<le> unat (mi_outputIndex txin) then Inr None
         else let u = usages ! unat (mi_outputIndex txin) in
           bind_res (transactionByIndex c (mu_transactionIndex u)) (\<lambda>e.
             Inr (Some (getObjectHash ser_Transaction (te_tx e), ucast (mu_outputIndex u)))))"

definition get_out_by_msig_gindex :: "blockchain \<Rightarrow> u64 \<Rightarrow> u64 \<Rightarrow> MultisignatureOutput option result" where
  "get_out_by_msig_gindex c amount gindex =
     (case lg_multisignatureOutputs c amount of None \<Rightarrow> Inr None
      | Some usages \<Rightarrow>
         if length usages \<le> unat gindex then Inr None
         else let u = usages ! unat gindex in
           bind_res (transactionByIndex c (mu_transactionIndex u)) (\<lambda>e.
           bind_res (at_res (tx_outputs (te_tx e)) (unat (mu_outputIndex u))) (\<lambda>out.
             Inr (case out_target out of OutMulti m \<Rightarrow> Some m | _ \<Rightarrow> None))))"

definition getTransactionOutputGlobalIndexes :: "blockchain \<Rightarrow> hash \<Rightarrow> u32 list option result" where
  "getTransactionOutputGlobalIndexes c tx_id =
     (case lg_transactionMap c tx_id of None \<Rightarrow> Inr None
      | Some ti \<Rightarrow> bind_res (transactionByIndex c ti) (\<lambda>e.
          Inr (if te_global_output_indexes e = [] then None else Some (te_global_output_indexes e))))"

fun getBlockchainTransactions :: "blockchain \<Rightarrow> hash list \<Rightarrow> (Transaction list \<times> hash list) result" where
  "getBlockchainTransactions c [] = Inr ([], [])"
| "getBlockchainTransactions c (i # is) =
     bind_res (case lg_transactionMap c i of None \<Rightarrow> Inr None
               | Some ti \<Rightarrow> bind_res (transactionByIndex c ti) (\<lambda>e. Inr (Some (te_tx e)))) (\<lambda>found.
     bind_res (getBlockchainTransactions c is) (\<lambda>(txs, missed).
       Inr (case found of None \<Rightarrow> (txs, i # missed) | Some tx \<Rightarrow> (tx # txs, missed))))"

text \<open>The size of a block whose transactions are in the chain or in the pool, and whether all were found.\<close>

definition getBlockCumulativeSize :: "blockchain \<Rightarrow> tx_memory_pool \<Rightarrow> Block \<Rightarrow> (bool \<times> usize) result" where
  "getBlockCumulativeSize c p block =
     bind_res (getBlockchainTransactions c (bl_transactionHashes block)) (\<lambda>(txs, missed).
       case getTransactions p missed of (pool_txs, missed) \<Rightarrow>
         Inr (missed = [],
              fold (\<lambda>tx n. n + getObjectBinarySize ser_Transaction tx) (txs @ pool_txs)
                (getObjectBinarySize ser_Transaction (bl_baseTransaction block))))"

definition getLowerBound :: "currency \<Rightarrow> blockchain \<Rightarrow> u64 \<Rightarrow> nat \<Rightarrow> u32 option result" where
  "getLowerBound cur c timestamp startOffset =
     assert_res (startOffset < length (bc_blocks c))
      (let t = timestamp - cur_blockFutureTimeLimit cur;
           n = lower_bound (\<lambda>i. bl_timestamp (be_bl (bc_blocks c ! i)) < t) startOffset (length (bc_blocks c) - startOffset)
       in Inr (if n = length (bc_blocks c) then None else Some (of_nat n)))"

fun find_allowed :: "currency \<Rightarrow> u32 \<Rightarrow> (TransactionIndex \<times> u16) list \<Rightarrow> nat \<Rightarrow> nat" where
  "find_allowed cur height outs 0 = 0"
| "find_allowed cur height outs (Suc i) =
     (if ucast (ti_block (fst (outs ! i))) + cur_minedMoneyUnlockWindow cur \<le> ucast height then Suc i
      else find_allowed cur height outs i)"

definition find_end_of_allowed_index :: "currency \<Rightarrow> blockchain \<Rightarrow> (TransactionIndex \<times> u16) list \<Rightarrow> nat" where
  "find_end_of_allowed_index cur c amount_outs =
     (if amount_outs = [] then 0 else find_allowed cur (getCurrentBlockchainHeight c) amount_outs (length amount_outs))"

fun check_points_loop :: "blockchain \<Rightarrow> u32 list \<Rightarrow> u32 \<Rightarrow> (bool \<times> u32) result" where
  "check_points_loop c [] lastValid = Inr (True, lastValid)"
| "check_points_loop c (h # hs) lastValid =
     (if length (bc_blocks c) \<le> unat h then Inr (True, lastValid)
      else bind_res (getBlockIdByHeight c h) (\<lambda>i.
        if check_block h i (bc_checkpoints c) then check_points_loop c hs h else Inr (False, lastValid)))"

definition checkCheckpoints :: "blockchain \<Rightarrow> u32 \<Rightarrow> (bool \<times> u32) result" where
  "checkCheckpoints c lastValidCheckpointHeight =
     check_points_loop c (getCheckpointHeights (bc_checkpoints c)) lastValidCheckpointHeight"

section \<open>What the checks guarantee\<close>

text \<open>Accepted inputs are not spent yet; outside the checkpoint zone the multisignature inputs refer to
  existing outputs that are not used.\<close>

lemma validateInput_True:
  assumes "validateInput cur env c m h sigs = Inr True"
  shows "\<exists>us. lg_multisignatureOutputs c (mi_amount m) = Some us \<and> unat (mi_outputIndex m) < length us \<and>
    \<not> mu_isUsed (us ! unat (mi_outputIndex m))"
  using assms by (auto simp: validateInput_def assert_res_Inr Let_def split: option.splits if_splits)

lemma check_inputs_True:
  assumes "check_inputs cur env c h sigs ins i pmax = Inr (True, q)"
  shows "(\<forall>k \<in> set (key_images ins). lg_spent_keys c k = None) \<and>
    (\<not> isInCheckpointZone c (getCurrentBlockchainHeight c) \<longrightarrow>
      (\<forall>(a, j) \<in> mrefs ins. \<exists>us. lg_multisignatureOutputs c a = Some us \<and> j < length us \<and> \<not> mu_isUsed (us ! j)))"
  using assms
proof (induction ins arbitrary: i pmax)
  case (Cons txin ins)
  show ?case
  proof (cases txin)
    case (InKey k)
    define e where "e = (if isInCheckpointZone c (getCurrentBlockchainHeight c) then Inr (True, pmax)
      else check_tx_input cur env c k h (sigs ! i) pmax)"
    have free: "lg_spent_keys c (ki_keyImage k) = None" and
      "bind_res e (\<lambda>(ok, pmax). if \<not> ok then Inr (False, pmax) else check_inputs cur env c h sigs ins (i + 1) pmax) = Inr (True, q)"
      using Cons.prems InKey
      by (simp_all add: assert_res_Inr have_tx_keyimg_as_spent_def e_def [symmetric] split: if_split_asm)
    then obtain r where "check_inputs cur env c h sigs ins (i + 1) r = Inr (True, q)"
      by (auto simp: bind_res_Inr split: if_split_asm)
    from Cons.IH [OF this] InKey free show ?thesis by simp
  next
    case (InMulti m)
    define e where "e = (if isInCheckpointZone c (getCurrentBlockchainHeight c) then Inr True
      else validateInput cur env c m h (sigs ! i))"
    have "bind_res e (\<lambda>ok. if \<not> ok then Inr (False, pmax) else check_inputs cur env c h sigs ins (i + 1) pmax) = Inr (True, q)"
      using Cons.prems InMulti by (simp add: assert_res_Inr e_def [symmetric])
    then have e: "e = Inr True" and rest: "check_inputs cur env c h sigs ins (i + 1) pmax = Inr (True, q)"
      by (auto simp: bind_res_Inr split: if_split_asm)
    have "\<exists>us. lg_multisignatureOutputs c (mi_amount m) = Some us \<and> unat (mi_outputIndex m) < length us \<and>
        \<not> mu_isUsed (us ! unat (mi_outputIndex m))" if "\<not> isInCheckpointZone c (getCurrentBlockchainHeight c)"
      using that e by (intro validateInput_True) (simp add: e_def)
    with Cons.IH [OF rest] InMulti show ?thesis by simp
  next
    case (BaseInput n)
    with Cons.prems show ?thesis by (simp add: assert_res_Inr)
  qed
qed simp

section \<open>The difficulty of alternative blocks\<close>

text \<open>As long as block versions are at most 10, the number of blocks looked at is too, and the difficulty
  asked of an alternative block is 1 or 100, whatever the difficulty of the main chain.\<close>

lemma alternative_difficulty:
  assumes "get_next_difficulty_for_alternative_chain cur env c alt_chain = Inr d"
    "unat (ud_targetVersion (bc_upgradeDetectorV2 c)) \<le> 10"
  shows "d = 1 \<or> d = 100"
proof -
  define m where "m = unat (get_block_major_version_for_height cur c (ucast (of_nat (length alt_chain) :: u32)))"
  have "m \<le> 10" using assms(2) by (simp add: m_def get_block_major_version_for_height_def BLOCK_MAJOR_VERSION_1_def)
  moreover define bs where "bs = drop (length alt_chain - min (length alt_chain) m) alt_chain"
  ultimately have "length bs \<le> 10" by simp
  moreover have "lwma cur env (map (bl_timestamp \<circ> be_bl) bs) (map be_cumulative_difficulty bs) = Inr d"
    using assms(1) by (simp add: get_next_difficulty_for_alternative_chain_def Let_def bs_def m_def)
  ultimately show ?thesis
    by (auto simp: lwma_def LWMA3Difficulty_def LWMA3_body_def assert_res_Inr split: if_splits)
qed

section \<open>The walk along an alternative chain\<close>

lemma alt_walk_more: "alt_walk k alts h = Inr r \<Longrightarrow> k \<le> m \<Longrightarrow> alt_walk m alts h = Inr r"
proof (induction k arbitrary: m h r)
  case (Suc k)
  then obtain m' where m: "m = Suc m'" "k \<le> m'" by (cases m) auto
  show ?case
  proof (cases "map_of alts h")
    case (Some e)
    with Suc.prems(1) obtain r' where "alt_walk k alts (bl_previousBlockHash (be_bl e)) = Inr r'"
      by (auto simp: bind_res_Inr)
    with Suc.IH [OF this m(2)] Suc.prems(1) Some show ?thesis by (simp add: m(1))
  qed (use Suc.prems m in simp)
qed simp

lemma alt_walk_unique: "alt_walk k alts h = Inr r \<Longrightarrow> alt_walk m alts h = Inr r' \<Longrightarrow> r = r'"
  by (metis alt_walk_more nle_le sum.inject(2))

lemma alt_walk_length: "alt_walk k alts h = Inr (w, a) \<Longrightarrow> alt_walk (Suc (length w)) alts h = Inr (w, a)"
proof (induction k arbitrary: h w)
  case (Suc k)
  show ?case
  proof (cases "map_of alts h")
    case (Some e)
    with Suc.prems obtain w' where "w = (h, e) # w'" "alt_walk k alts (bl_previousBlockHash (be_bl e)) = Inr (w', a)"
      by (auto simp: bind_res_Inr)
    with Suc.IH Some show ?thesis by simp
  qed (use Suc.prems in simp)
qed simp

text \<open>From a block passed on the way, the walk goes on the same way.\<close>

lemma alt_walk_suffix:
  "alt_walk k alts h = Inr (w, a) \<Longrightarrow> (x, e) \<in> set w \<Longrightarrow>
   map_of alts x = Some e \<and> (\<exists>m w'. alt_walk m alts x = Inr (w', a) \<and> length w' \<le> length w)"
proof (induction k arbitrary: h w)
  case (Suc k)
  have "map_of alts h \<noteq> None" using Suc.prems by (cases "map_of alts h") auto
  then obtain e1 where e1: "map_of alts h = Some e1" by blast
  then obtain w1 where w1: "w = (h, e1) # w1" "alt_walk k alts (bl_previousBlockHash (be_bl e1)) = Inr (w1, a)"
    using Suc.prems(1) by (auto simp: bind_res_Inr)
  show ?case
  proof (cases "(x, e) = (h, e1)")
    case True
    then show ?thesis using Suc.prems(1) e1 by (auto simp del: alt_walk.simps)
  next
    case False
    then show ?thesis using Suc.IH [OF w1(2)] Suc.prems(2) w1(1) by (auto intro: le_SucI)
  qed
qed simp

lemma alt_walk_distinct: "alt_walk k alts h = Inr (w, a) \<Longrightarrow> distinct (map fst w) \<and> map_of alts a = None"
proof (induction k arbitrary: h w)
  case (Suc k)
  show ?case
  proof (cases "map_of alts h")
    case (Some e)
    then obtain w' where w': "w = (h, e) # w'" "alt_walk k alts (bl_previousBlockHash (be_bl e)) = Inr (w', a)"
      using Suc.prems by (auto simp: bind_res_Inr)
    have "h \<notin> fst ` set w'"
    proof
      assume "h \<in> fst ` set w'"
      then obtain e' where "(h, e') \<in> set w'" by auto
      from alt_walk_suffix [OF w'(2) this] obtain m v where "alt_walk m alts h = Inr (v, a)" "length v \<le> length w'" by blast
      with alt_walk_unique [OF Suc.prems] w'(1) show False by fastforce
    qed
    with Suc.IH [OF w'(2)] w'(1) show ?thesis by simp
  qed (use Suc.prems in simp)
qed simp

lemma alt_walk_fuel:
  assumes "alt_walk k alts h = Inr (w, a)"
  shows "alt_walk (Suc (length alts)) alts h = Inr (w, a)"
proof -
  have "fst ` set w \<subseteq> fst ` set alts"
    using alt_walk_suffix [OF assms] by (force dest: map_of_SomeD)
  then have "card (fst ` set w) \<le> card (fst ` set alts)" by (rule card_mono [rotated]) simp
  also have "\<dots> \<le> length alts" using card_image_le [of "set alts" fst] card_length [of alts] by simp
  finally have "length w \<le> length alts"
    using alt_walk_distinct [OF assms] distinct_card [of "map fst w"] by simp
  then show ?thesis using alt_walk_more [OF alt_walk_length [OF assms]] by (metis Suc_le_mono)
qed

lemma alt_walk_returns:
  assumes "\<And>x e e'. map_of alts x = Some e \<Longrightarrow> map_of alts (bl_previousBlockHash (be_bl e)) = Some e' \<Longrightarrow> be_height e' < be_height e"
  shows "\<exists>k r. alt_walk k alts h = Inr r"
proof (cases "map_of alts h")
  case (Some e)
  have "map_of alts h = Some e \<Longrightarrow> \<exists>k r. alt_walk k alts h = Inr r"
  proof (induction "be_height e" arbitrary: h e rule: less_induct)
    case less
    show ?case
    proof (cases "map_of alts (bl_previousBlockHash (be_bl e))")
      case None
      then have "alt_walk (Suc (Suc 0)) alts h = Inr ([(h, e)], bl_previousBlockHash (be_bl e))" using less.prems by simp
      then show ?thesis by blast
    next
      case (Some e')
      then obtain k r where "alt_walk k alts (bl_previousBlockHash (be_bl e)) = Inr r"
        using less.hyps assms [OF less.prems Some] by blast
      then have "alt_walk (Suc k) alts h = Inr ((h, e) # fst r, snd r)" using less.prems by (simp add: case_prod_beta)
      then show ?thesis by blast
    qed
  qed
  with Some show ?thesis by blast
next
  case None
  then have "alt_walk (Suc 0) alts h = Inr ([], h)" by simp
  then show ?thesis by blast
qed

end
