(* ===== verification/Blockchain.thy ===== *)
theory Blockchain
  imports ChainRules
begin

text \<open>
  How blocks enter and leave the chain, \<^verbatim>\<open>src/CryptoNoteCore/Blockchain.cpp\<close>: pushing and popping a block
  with its transactions taken from and returned to the pool, alternative chains and the switch to one of
  them, rolling back and rebuilding. The state is the chain together with the pool. The theorems show that
  popping undoes pushing, that a rejected block leaves no trace unless it is rejected for its size, and
  that the records of a chain are those that rebuilding it from its blocks gives.
\<close>

section \<open>Transactions from and to the pool\<close>

type_synonym node = "blockchain \<times> tx_memory_pool"

record block_verification_context =
  bvc_added_to_main_chain :: bool
  bvc_verification_failed :: bool
  bvc_marked_as_orphaned :: bool
  bvc_already_exists :: bool
  bvc_switched_to_alt_chain :: bool

definition new_bvc :: block_verification_context where
  "new_bvc = \<lparr>bvc_added_to_main_chain = False, bvc_verification_failed = False, bvc_marked_as_orphaned = False,
     bvc_already_exists = False, bvc_switched_to_alt_chain = False\<rparr>"

definition new_tvc :: tx_verification_context where
  "new_tvc = \<lparr>tvc_should_be_relayed = False, tvc_verification_failed = False, tvc_verification_impossible = False,
     tvc_added_to_pool = False, tvc_tx_fee_too_small = False\<rparr>"

text \<open>\<^verbatim>\<open>add_tx(tx, context, true, height)\<close>, with the exception the callers throw when it fails.\<close>

definition return_tx :: "currency \<Rightarrow> environment \<Rightarrow> blockchain \<Rightarrow> Transaction \<Rightarrow> tx_memory_pool \<Rightarrow> tx_memory_pool result" where
  "return_tx cur env c tx p =
     bind_res (add_tx_object cur (chain_validator cur env c) (env_now env) (env_now env) tx new_tvc True p) (\<lambda>(ok, _, p).
       if ok then Inr p else Inl RuntimeError)"

text \<open>\<open>taken\<close> holds the transactions taken so far, the last one first.\<close>

fun load_loop ::
  "currency \<Rightarrow> environment \<Rightarrow> blockchain \<Rightarrow> hash list \<Rightarrow> Transaction list \<Rightarrow> tx_memory_pool \<Rightarrow> (Transaction list option \<times> tx_memory_pool) result" where
  "load_loop cur env c [] taken p = Inr (Some (rev taken), p)"
| "load_loop cur env c (h # hs) taken p =
     bind_res (take_tx h p) (\<lambda>(r, p).
       case r of
         Some (tx, _, _) \<Rightarrow> load_loop cur env c hs (tx # taken) p
       | None \<Rightarrow> bind_res (fold_res (return_tx cur env c) taken p) (\<lambda>p. Inr (None, p)))"

definition loadTransactions ::
  "currency \<Rightarrow> environment \<Rightarrow> blockchain \<Rightarrow> Block \<Rightarrow> tx_memory_pool \<Rightarrow> (Transaction list option \<times> tx_memory_pool) result" where
  "loadTransactions cur env c block p = load_loop cur env c (bl_transactionHashes block) [] p"

definition saveTransactions ::
  "currency \<Rightarrow> environment \<Rightarrow> blockchain \<Rightarrow> Transaction list \<Rightarrow> tx_memory_pool \<Rightarrow> tx_memory_pool result" where
  "saveTransactions cur env c transactions p = fold_res (return_tx cur env c) (rev transactions) p"

section \<open>Pushing a block\<close>

definition pushEntry :: "BlockEntry \<Rightarrow> blockchain \<Rightarrow> blockchain result" where
  "pushEntry block c =
     bind_res (get_block_hash (be_bl block)) (\<lambda>blockHash.
     bind_res (gti_add (be_bl block) (bc_generatedTransactionsIndex c)) (\<lambda>(_, generated).
       let blocks = bc_blocks c @ [block]; ids = snd (push_id blockHash (bc_blockIndex c)) in
       assert_res (ucast (size_bi ids) = (of_nat (length blocks) :: u64))
        (Inr (c\<lparr>bc_blocks := blocks,
                bc_blockIndex := ids,
                bc_timestampIndex := snd (tbi_add (bl_timestamp (be_bl block)) blockHash (bc_timestampIndex c)),
                bc_generatedTransactionsIndex := generated\<rparr>))))"

text \<open>The checks before the block's transactions are looked at: None when one fails without a verdict,
  otherwise the verdict and the difficulty.\<close>

definition push_checks :: "currency \<Rightarrow> environment \<Rightarrow> Block \<Rightarrow> hash \<Rightarrow> blockchain \<Rightarrow> (bool \<times> u64) option result" where
  "push_checks cur env blockData blockHash c =
     (if hasBlock blockHash (bc_blockIndex c) then Inr (Some (False, 0))
      else if \<not> checkBlockVersion cur c blockData then Inr (Some (False, 0))
      else if (case getBlockHeight blockHash (bc_blockIndex c) of None \<Rightarrow> False
               | Some height \<Rightarrow> getMergeMiningTagFromExtra (tx_extra (bl_baseTransaction blockData)) \<noteq> None \<and>
                   height \<ge> UPGRADE_HEIGHT_V2) then Inr None
      else bind_res (tailId c) (\<lambda>tail.
        if bl_previousBlockHash blockData \<noteq> tail then Inr (Some (False, 0))
        else if \<not> check_block_timestamp_main cur env c blockData then Inr (Some (False, 0))
        else bind_res (getDifficultyForNextBlock cur env c) (\<lambda>currentDifficulty.
          if currentDifficulty = 0 then Inr None
          else bind_res (if is_in_checkpoint_zone (getCurrentBlockchainHeight c) (bc_checkpoints c)
                         then Inr (check_block (getCurrentBlockchainHeight c) blockHash (bc_checkpoints c))
                         else checkProofOfWork env blockData currentDifficulty) (\<lambda>ok.
            if \<not> ok then Inr (Some (False, 0))
            else bind_res (prevalidate_miner_transaction cur env blockData (getCurrentBlockchainHeight c)) (\<lambda>ok.
              Inr (Some (ok, currentDifficulty)))))))"

text \<open>The running state of the loop over the transactions. A transaction that cannot be written has size 0
  here, where the source counts the bytes written before the failure.\<close>

record push_state =
  ps_block :: BlockEntry
  ps_transaction :: u16
  ps_size :: usize
  ps_fee :: u64
  ps_interest :: u64
  ps_chain :: blockchain

definition tx_blob_size :: "Transaction \<Rightarrow> usize" where
  "tx_blob_size tx = (case toBinaryArray ser_Transaction tx of None \<Rightarrow> 0 | Some ba \<Rightarrow> of_nat (length ba))"

definition block_tx_fee :: "Transaction \<Rightarrow> u64" where
  "block_tx_fee tx =
     (let in_amount = getTransactionAllInputsAmount tx; out_amount = getOutputAmount tx
      in if in_amount < out_amount then MINIMUM_FEE else in_amount - out_amount)"

definition block_tx_valid :: "currency \<Rightarrow> environment \<Rightarrow> Block \<Rightarrow> Transaction \<Rightarrow> blockchain \<Rightarrow> bool result" where
  "block_tx_valid cur env bl tx c =
     bind_res (checkTransactionInputs cur env c tx) (\<lambda>(inputs_ok, _).
       Inr (\<not> (bl_majorVersion bl = BLOCK_MAJOR_VERSION_1 \<and> tx_version tx > TRANSACTION_VERSION_1) \<and>
            inputs_ok \<and> check_tx_outputs cur tx))"

fun push_txs ::
  "currency \<Rightarrow> environment \<Rightarrow> hash \<Rightarrow> (Transaction \<times> hash) list \<Rightarrow> push_state \<Rightarrow> (bool \<times> push_state) result" where
  "push_txs cur env minerHash [] s = Inr (True, s)"
| "push_txs cur env minerHash ((tx, tx_id) # rest) s =
     bind_res (block_tx_valid cur env (be_bl (ps_block s)) tx (ps_chain s)) (\<lambda>valid.
       if \<not> valid
       then bind_res (popTransactions (ps_block s) minerHash (ps_chain s)) (\<lambda>c. Inr (False, s\<lparr>ps_chain := c\<rparr>))
       else
         let block = (ps_block s)\<lparr>be_transactions := be_transactions (ps_block s) @ [\<lparr>te_tx = tx, te_global_output_indexes = []\<rparr>]\<rparr>;
             t = ps_transaction s + 1
         in bind_res (pushTransaction block tx_id \<lparr>ti_block = be_height block, ti_transaction = t\<rparr> (ps_chain s)) (\<lambda>(_, block, c).
              push_txs cur env minerHash rest
                (s\<lparr>ps_block := block, ps_transaction := t, ps_size := ps_size s + tx_blob_size tx,
                   ps_fee := ps_fee s + block_tx_fee tx,
                   ps_interest := ps_interest s + calculateTotalTransactionInterest tx, ps_chain := c\<rparr>)))"

definition miner_entry :: "Block \<Rightarrow> u32 \<Rightarrow> BlockEntry" where
  "miner_entry blockData height =
     \<lparr>be_bl = blockData, be_height = height, be_block_cumulative_size = 0, be_cumulative_difficulty = 0,
      be_already_generated_coins = 0,
      be_transactions = [\<lparr>te_tx = bl_baseTransaction blockData, te_global_output_indexes = []\<rparr>]\<rparr>"

definition start_block :: "Block \<Rightarrow> blockchain \<Rightarrow> push_state result" where
  "start_block blockData c =
     (let height = getCurrentBlockchainHeight c in
      bind_res (pushTransaction (miner_entry blockData height) (getObjectHash ser_Transaction (bl_baseTransaction blockData))
          \<lparr>ti_block = height, ti_transaction = 0\<rparr> c) (\<lambda>(_, block, c).
        Inr \<lparr>ps_block = block, ps_transaction = 0,
             ps_size = getObjectBinarySize ser_Transaction (bl_baseTransaction blockData),
             ps_fee = 0, ps_interest = 0, ps_chain = c\<rparr>))"

definition finish_block :: "currency \<Rightarrow> u64 \<Rightarrow> u64 \<Rightarrow> push_state \<Rightarrow> blockchain result" where
  "finish_block cur currentDifficulty emissionChange s =
     (let c = ps_chain s;
          coins = (if bc_blocks c = [] then 0 else be_already_generated_coins (last (bc_blocks c)));
          block = (ps_block s)\<lparr>be_block_cumulative_size := ps_size s,
            be_cumulative_difficulty := (if bc_blocks c = [] then currentDifficulty
              else currentDifficulty + be_cumulative_difficulty (last (bc_blocks c))),
            be_already_generated_coins := coins + emissionChange + ps_interest s\<rparr>
      in bind_res (pushEntry block c) (\<lambda>c.
         bind_res (pushToDepositIndex block (ps_interest s) c) (\<lambda>c.
         bind_res (blockPushed cur (map be_bl (bc_blocks c)) (bc_upgradeDetectorV2 c)) (\<lambda>d.
           Inr (update_next_comulative_size_limit cur (c\<lparr>bc_upgradeDetectorV2 := d\<rparr>))))))"

definition pushBlock_txs ::
  "currency \<Rightarrow> environment \<Rightarrow> Block \<Rightarrow> Transaction list \<Rightarrow> hash \<Rightarrow> block_verification_context \<Rightarrow> blockchain \<Rightarrow>
   (bool \<times> block_verification_context \<times> blockchain) result" where
  "pushBlock_txs cur env blockData transactions blockHash bvc c =
     (let failed = bvc\<lparr>bvc_verification_failed := True\<rparr>;
          minerHash = getObjectHash ser_Transaction (bl_baseTransaction blockData)
      in bind_res (push_checks cur env blockData blockHash c) (\<lambda>verdict.
      case verdict of
        None \<Rightarrow> Inr (False, bvc, c)
      | Some (ok, currentDifficulty) \<Rightarrow>
        if \<not> ok then Inr (False, failed, c)
        else bind_res (start_block blockData c) (\<lambda>s.
             bind_res (push_txs cur env minerHash (zip transactions (bl_transactionHashes blockData)) s) (\<lambda>(valid, s).
             if \<not> valid then Inr (False, failed, ps_chain s)
             else bind_res (checkCumulativeBlockSize cur (ps_size s) (ucast (be_height (ps_block s)))) (\<lambda>size_ok.
             if \<not> size_ok then Inr (False, failed, ps_chain s)
             else let coins = (if bc_blocks c = [] then 0 else be_already_generated_coins (last (bc_blocks c))) in
               bind_res (validate_miner_transaction cur (ps_chain s) blockData (be_height (ps_block s)) (ps_size s) coins (ps_fee s))
                 (\<lambda>(miner_ok, reward, emissionChange).
               if \<not> miner_ok
               then bind_res (popTransactions (ps_block s) minerHash (ps_chain s)) (\<lambda>c. Inr (False, failed, c))
               else bind_res (finish_block cur currentDifficulty emissionChange s) (\<lambda>c.
                 Inr (True, bvc\<lparr>bvc_added_to_main_chain := True\<rparr>, c))))))))"

definition pushBlock ::
  "currency \<Rightarrow> environment \<Rightarrow> Block \<Rightarrow> hash \<Rightarrow> block_verification_context \<Rightarrow> node \<Rightarrow> (bool \<times> block_verification_context \<times> node) result" where
  "pushBlock cur env blockData blockHash bvc s =
     (case s of (c, p) \<Rightarrow>
      bind_res (loadTransactions cur env c blockData p) (\<lambda>(r, p).
        case r of
          None \<Rightarrow> Inr (False, bvc\<lparr>bvc_verification_failed := True\<rparr>, (c, p))
        | Some transactions \<Rightarrow>
            bind_res (pushBlock_txs cur env blockData transactions blockHash bvc c) (\<lambda>(ok, bvc, c).
              if \<not> ok
              then bind_res (saveTransactions cur env c transactions p) (\<lambda>p. Inr (False, bvc, (c, p)))
              else Inr (True, bvc, (c, p)))))"

section \<open>Popping a block\<close>

text \<open>Without the last block: what \<^verbatim>\<open>popBlock\<close> does to the chain after the transactions went to the pool.\<close>

definition pop_last_block :: "currency \<Rightarrow> hash \<Rightarrow> blockchain \<Rightarrow> blockchain result" where
  "pop_last_block cur blockHash c =
     (let block = last (bc_blocks c) in
      bind_res (popTransactions block (getObjectHash ser_Transaction (bl_baseTransaction (be_bl block))) c) (\<lambda>c.
      bind_res (gti_remove (be_bl block) (bc_generatedTransactionsIndex c)) (\<lambda>(_, generated).
      bind_res (DepositIndex.popBlock (bc_depositIndex c)) (\<lambda>deposits.
        let blocks = butlast (bc_blocks c); ids = pop_id (bc_blockIndex c) in
        assert_res (ucast (size_bi ids) = (of_nat (length blocks) :: u64))
         (bind_res (blockPopped cur (map be_bl blocks) (bc_upgradeDetectorV2 c)) (\<lambda>d.
            Inr (c\<lparr>bc_timestampIndex := snd (tbi_remove (bl_timestamp (be_bl block)) blockHash (bc_timestampIndex c)),
                   bc_generatedTransactionsIndex := generated,
                   bc_depositIndex := deposits,
                   bc_blocks := blocks,
                   bc_blockIndex := ids,
                   bc_upgradeDetectorV2 := d\<rparr>)))))))"

definition popBlock :: "currency \<Rightarrow> environment \<Rightarrow> hash \<Rightarrow> node \<Rightarrow> node result" where
  "popBlock cur env blockHash s =
     (case s of (c, p) \<Rightarrow>
      if bc_blocks c = [] then Inr (c, p)
      else if be_transactions (last (bc_blocks c)) = [] then Inl OutOfRange
      else bind_res (saveTransactions cur env c (map te_tx (tl (be_transactions (last (bc_blocks c))))) p) (\<lambda>p.
           bind_res (pop_last_block cur blockHash c) (\<lambda>c. Inr (c, p))))"

section \<open>Alternative chains\<close>

fun pop_times :: "currency \<Rightarrow> environment \<Rightarrow> nat \<Rightarrow> node \<Rightarrow> node result" where
  "pop_times cur env 0 s = Inr s"
| "pop_times cur env (Suc n) s =
     bind_res (get_block_hash (be_bl (last (bc_blocks (fst s))))) (\<lambda>h.
     bind_res (popBlock cur env h s) (pop_times cur env n))"

text \<open>The loop \<^verbatim>\<open>for (i = m_blocks.size() - 1; i >= height; i--)\<close>, whose unsigned counter passes below 0 when
  the height is 0 or the chain is empty, and then the last block of an empty chain is accessed.\<close>

definition pop_down_to :: "currency \<Rightarrow> environment \<Rightarrow> nat \<Rightarrow> node \<Rightarrow> node result" where
  "pop_down_to cur env height s =
     (if height = 0 \<or> bc_blocks (fst s) = [] then Inl OutOfRange
      else pop_times cur env (length (bc_blocks (fst s)) - height) s)"

text \<open>Pushing blocks one after the other; the result says whether all of them were added, and gives the
  blocks from the first rejected one on.\<close>

primrec push_chain :: "currency \<Rightarrow> environment \<Rightarrow> Block list \<Rightarrow> node \<Rightarrow> (Block list \<times> node) result" where
  "push_chain cur env [] s = Inr ([], s)"
| "push_chain cur env (b # bs) s =
     bind_res (get_block_hash b) (\<lambda>h.
     bind_res (pushBlock cur env b h new_bvc s) (\<lambda>(r, bvc, s).
       if r \<and> bvc_added_to_main_chain bvc then push_chain cur env bs s else Inr (b # bs, s)))"

definition rollback_blockchain_switching :: "currency \<Rightarrow> environment \<Rightarrow> Block list \<Rightarrow> nat \<Rightarrow> node \<Rightarrow> (bool \<times> node) result" where
  "rollback_blockchain_switching cur env original_chain rollback_height s =
     bind_res (pop_down_to cur env rollback_height s) (\<lambda>s.
     bind_res (push_chain cur env original_chain s) (\<lambda>(rejected, s). Inr (rejected = [], s)))"

definition forget_alternative :: "hash \<times> BlockEntry \<Rightarrow> node \<Rightarrow> node result" where
  "forget_alternative he s =
     (case s of (c, p) \<Rightarrow>
      bind_res (obi_remove (be_bl (snd he)) (bc_orthanBlocksIndex c)) (\<lambda>(_, orphans).
        Inr (c\<lparr>bc_orthanBlocksIndex := orphans,
               bc_alternative_chains := filter (\<lambda>e. fst e \<noteq> fst he) (bc_alternative_chains c)\<rparr>, p)))"

text \<open>Every transaction of the blocks that would be disconnected is in the alternative chain.\<close>

definition keeps_transactions :: "BlockEntry list \<Rightarrow> BlockEntry list \<Rightarrow> bool" where
  "keeps_transactions main alt =
     list_all (\<lambda>h. h \<in> set (concat (map (bl_transactionHashes \<circ> be_bl) alt)))
       (concat (map (bl_transactionHashes \<circ> be_bl) (rev main)))"

text \<open>The checks of an alternative block: whether a failure is a verdict on the block, and the new entry
  with the flag of a checkpoint. \<open>alt_chain\<close> runs from the block after the main chain to the predecessor.\<close>

definition alternative_checks ::
  "currency \<Rightarrow> environment \<Rightarrow> Block \<Rightarrow> hash \<Rightarrow> (hash \<times> BlockEntry) list \<Rightarrow> u32 option \<Rightarrow> blockchain \<Rightarrow>
   (bool \<times> (BlockEntry \<times> bool) option) result" where
  "alternative_checks cur env b blockHash alt_chain mainPrev c =
     (let timestamps = map (bl_timestamp \<circ> be_bl \<circ> snd) (rev alt_chain) in
      bind_res
       (if alt_chain \<noteq> [] then
          (let front = snd (hd alt_chain) in
           if \<not> length (bc_blocks c) > unat (be_height front) then Inr None
           else bind_res (at_res (bc_blocks c) (unat (be_height front - 1))) (\<lambda>e.
                bind_res (get_block_hash (be_bl e)) (\<lambda>h.
                  if h \<noteq> bl_previousBlockHash (be_bl front) then Inr None
                  else Inr (Some (snd (complete_timestamps_vector cur c (unat (be_height front - 1)) timestamps),
                                  be_height (snd (last alt_chain)) + 1, be_cumulative_difficulty (snd (last alt_chain)))))))
        else case mainPrev of
          None \<Rightarrow> Inr None
        | Some mainPrevHeight \<Rightarrow> bind_res (at_res (bc_blocks c) (unat mainPrevHeight)) (\<lambda>e.
            Inr (Some (snd (complete_timestamps_vector cur c (unat mainPrevHeight) timestamps),
                       mainPrevHeight + 1, be_cumulative_difficulty e)))) (\<lambda>start.
      case start of
        None \<Rightarrow> Inr (False, None)
      | Some (timestamps, height, difficulty) \<Rightarrow>
        if \<not> check_block_timestamp cur timestamps b then Inr (True, None)
        else case check_block_flag height blockHash (bc_checkpoints c) of (ok, is_a_checkpoint) \<Rightarrow>
        if \<not> ok then Inr (True, None)
        else if getMergeMiningTagFromExtra (tx_extra (bl_baseTransaction b)) \<noteq> None \<and> height \<ge> UPGRADE_HEIGHT_V2
        then Inr (False, None)
        else bind_res (get_next_difficulty_for_alternative_chain cur env c (map snd alt_chain)) (\<lambda>current_diff.
          if current_diff = 0 then Inr (False, None)
          else bind_res (checkProofOfWork env b current_diff) (\<lambda>ok.
            if \<not> ok then Inr (True, None)
            else bind_res (prevalidate_miner_transaction cur env b height) (\<lambda>ok.
              if \<not> ok then Inr (True, None)
              else Inr (False, Some (\<lparr>be_bl = b, be_height = height, be_block_cumulative_size = 0,
                be_cumulative_difficulty = difficulty + current_diff, be_already_generated_coins = 0,
                be_transactions = []\<rparr>, is_a_checkpoint)))))))"

text \<open>Switching and handling an alternative block call each other: a disconnected block is handled as an
  alternative one, which may switch again. \<open>handle\<close> is the handler; its first argument below bounds the
  depth of the recursion, and when that is used up the result is \<^term>\<open>NoReturn\<close>.\<close>

type_synonym handler = "Block \<Rightarrow> hash \<Rightarrow> block_verification_context \<Rightarrow> node \<Rightarrow> (bool \<times> block_verification_context \<times> node) result"

primrec handle_disconnected :: "handler \<Rightarrow> Block list \<Rightarrow> node \<Rightarrow> (bool \<times> node) result" where
  "handle_disconnected handle [] s = Inr (True, s)"
| "handle_disconnected handle (b # bs) s =
     bind_res (get_block_hash b) (\<lambda>h.
     bind_res (handle b h new_bvc s) (\<lambda>(r, _, s).
       if \<not> r then Inr (False, s) else handle_disconnected handle bs s))"

definition connect_alternative ::
  "handler \<Rightarrow> currency \<Rightarrow> environment \<Rightarrow> (hash \<times> BlockEntry) list \<Rightarrow> bool \<Rightarrow> nat \<Rightarrow> Block list \<Rightarrow> node \<Rightarrow> (bool \<times> node) result" where
  "connect_alternative handle cur env alt_chain discard split_height disconnected_chain s =
     bind_res (push_chain cur env (map (be_bl \<circ> snd) alt_chain) s) (\<lambda>(rejected, s).
     if rejected \<noteq> [] then
       bind_res (rollback_blockchain_switching cur env disconnected_chain split_height s) (\<lambda>(_, s).
       bind_res (fold_res forget_alternative (drop (length alt_chain - length rejected) alt_chain) s) (\<lambda>s.
         Inr (False, s)))
     else bind_res (if discard then Inr (True, s) else handle_disconnected handle disconnected_chain s) (\<lambda>(ok, s).
       if \<not> ok then
         bind_res (rollback_blockchain_switching cur env disconnected_chain split_height s) (\<lambda>(_, s). Inr (False, s))
       else bind_res (fold_res forget_alternative alt_chain s) (\<lambda>s. Inr (True, s))))"

definition switch_to_alternative_blockchain ::
  "handler \<Rightarrow> currency \<Rightarrow> environment \<Rightarrow> (hash \<times> BlockEntry) list \<Rightarrow> bool \<Rightarrow> node \<Rightarrow> (bool \<times> node) result" where
  "switch_to_alternative_blockchain handle cur env alt_chain discard s =
     (if alt_chain = [] then Inr (False, s)
      else let split_height = unat (be_height (snd (hd alt_chain))); blocks = bc_blocks (fst s) in
        if \<not> length blocks > split_height then Inr (False, s)
        else if \<not> keeps_transactions (drop split_height blocks) (map snd alt_chain) then Inr (False, s)
        else bind_res (pop_down_to cur env split_height s)
               (connect_alternative handle cur env alt_chain discard split_height (map be_bl (drop split_height blocks))))"

text \<open>The block is stored as an alternative one, and the chain switches when it is a checkpoint or has more
  work behind it.\<close>

definition store_alternative ::
  "handler \<Rightarrow> currency \<Rightarrow> environment \<Rightarrow> hash \<Rightarrow> block_verification_context \<Rightarrow> (hash \<times> BlockEntry) list \<Rightarrow> BlockEntry \<Rightarrow> bool \<Rightarrow>
   node \<Rightarrow> (bool \<times> block_verification_context \<times> node) result" where
  "store_alternative handle cur env blockHash bvc alt_chain bei is_a_checkpoint s =
     (case s of (c, p) \<Rightarrow>
      if map_of (bc_alternative_chains c) blockHash \<noteq> None then Inr (False, bvc, (c, p))
      else bind_res (obi_add (be_bl bei) (bc_orthanBlocksIndex c)) (\<lambda>(_, orphans).
        let c = c\<lparr>bc_alternative_chains := bc_alternative_chains c @ [(blockHash, bei)], bc_orthanBlocksIndex := orphans\<rparr>;
            reorganize = (is_a_checkpoint \<or> be_cumulative_difficulty (last (bc_blocks c)) < be_cumulative_difficulty bei)
        in
        if \<not> reorganize then Inr (True, bvc, (c, p))
        else bind_res (switch_to_alternative_blockchain handle cur env (alt_chain @ [(blockHash, bei)]) is_a_checkpoint (c, p)) (\<lambda>(r, s).
          Inr (r, if r then bvc\<lparr>bvc_added_to_main_chain := True, bvc_switched_to_alt_chain := True\<rparr>
                  else bvc\<lparr>bvc_verification_failed := True\<rparr>, s))))"

definition alternative_block ::
  "handler \<Rightarrow> currency \<Rightarrow> environment \<Rightarrow> Block \<Rightarrow> hash \<Rightarrow> block_verification_context \<Rightarrow> node \<Rightarrow>
   (bool \<times> block_verification_context \<times> node) result" where
  "alternative_block handle cur env b blockHash bvc s =
     (case s of (c, p) \<Rightarrow>
      let failed = bvc\<lparr>bvc_verification_failed := True\<rparr>; block_height = get_block_height b in
      if block_height = 0 then Inr (False, failed, s)
      else
        let c = c\<lparr>bc_checkpoints := env_load_checkpoints_from_dns env (bc_checkpoints c)\<rparr> in
        if \<not> is_alternative_block_allowed (getCurrentBlockchainHeight c) block_height (bc_checkpoints c)
        then Inr (False, failed, (c, p))
        else if \<not> checkBlockVersion cur c b then Inr (False, failed, (c, p))
        else bind_res (getBlockCumulativeSize c p b) (\<lambda>(_, cumulativeSize).
             bind_res (checkCumulativeBlockSize cur cumulativeSize (ucast block_height)) (\<lambda>size_ok.
             if \<not> size_ok then Inr (False, failed, (c, p))
             else
               let mainPrev = getBlockHeight (bl_previousBlockHash b) (bc_blockIndex c) in
               if map_of (bc_alternative_chains c) (bl_previousBlockHash b) = None \<and> mainPrev = None
               then Inr (True, bvc\<lparr>bvc_marked_as_orphaned := True\<rparr>, (c, p))
               else bind_res (alternative_walk c (bl_previousBlockHash b)) (\<lambda>(walked, _).
                 bind_res (alternative_checks cur env b blockHash (rev walked) mainPrev c) (\<lambda>(bad, r).
                 case r of
                   None \<Rightarrow> Inr (False, if bad then failed else bvc, (c, p))
                 | Some (bei, is_a_checkpoint) \<Rightarrow>
                     store_alternative handle cur env blockHash bvc (rev walked) bei is_a_checkpoint (c, p))))))"

primrec handle_alternative_block ::
  "nat \<Rightarrow> currency \<Rightarrow> environment \<Rightarrow> Block \<Rightarrow> hash \<Rightarrow> block_verification_context \<Rightarrow> node \<Rightarrow>
   (bool \<times> block_verification_context \<times> node) result" where
  "handle_alternative_block 0 cur env = (\<lambda>b blockHash bvc s. Inl NoReturn)"
| "handle_alternative_block (Suc k) cur env = alternative_block (handle_alternative_block k cur env) cur env"

definition addNewBlock ::
  "nat \<Rightarrow> currency \<Rightarrow> environment \<Rightarrow> Block \<Rightarrow> block_verification_context \<Rightarrow> node \<Rightarrow> (bool \<times> block_verification_context \<times> node) result" where
  "addNewBlock fuel cur env bl bvc s =
     bind_res (get_block_hashing_blob bl) (\<lambda>blob.
       if blob = None then Inr (False, bvc\<lparr>bvc_verification_failed := True\<rparr>, s)
       else bind_res (get_block_hash bl) (\<lambda>h.
         if haveBlock (fst s) h then Inr (False, bvc\<lparr>bvc_already_exists := True\<rparr>, s)
         else bind_res (tailId (fst s)) (\<lambda>tail.
           if bl_previousBlockHash bl \<noteq> tail
           then handle_alternative_block fuel cur env bl h (bvc\<lparr>bvc_added_to_main_chain := False\<rparr>) s
           else pushBlock cur env bl h bvc s)))"

section \<open>Rolling back and rebuilding\<close>

definition removeLastBlock :: "blockchain \<Rightarrow> (bool \<times> blockchain) result" where
  "removeLastBlock c =
     (if bc_blocks c = [] then Inr (False, c)
      else let block = last (bc_blocks c) in
        bind_res (popTransactions block (getObjectHash ser_Transaction (bl_baseTransaction (be_bl block))) c) (\<lambda>c.
        bind_res (getBlockIdByHeight c (be_height block)) (\<lambda>blockHash.
        bind_res (gti_remove (be_bl block) (bc_generatedTransactionsIndex c)) (\<lambda>(_, generated).
          let blocks = butlast (bc_blocks c); ids = pop_id (bc_blockIndex c) in
          assert_res (ucast (size_bi ids) = (of_nat (length blocks) :: u64))
           (Inr (True, c\<lparr>bc_timestampIndex := snd (tbi_remove (bl_timestamp (be_bl block)) blockHash (bc_timestampIndex c)),
                         bc_generatedTransactionsIndex := generated,
                         bc_blocks := blocks,
                         bc_blockIndex := ids\<rparr>))))))"

fun remove_blocks :: "nat \<Rightarrow> blockchain \<Rightarrow> blockchain result" where
  "remove_blocks 0 c = Inr c"
| "remove_blocks (Suc n) c = bind_res (removeLastBlock c) (\<lambda>(_, c). remove_blocks n c)"

definition rollbackBlockchainTo :: "u32 \<Rightarrow> blockchain \<Rightarrow> blockchain result" where
  "rollbackBlockchainTo height c = remove_blocks (length (bc_blocks c) - unat (height + 1)) c"

text \<open>\<^verbatim>\<open>rebuildMoonBank\<close>, block by block: the block index, the ledger and the deposit index, which is the
  only one that is not emptied first.\<close>

definition block_interest :: "BlockEntry \<Rightarrow> u64" where
  "block_interest block = fold (\<lambda>e i. i + calculateTotalTransactionInterest (te_tx e)) (be_transactions block) 0"

definition rebuild_entry :: "u32 \<Rightarrow> BlockEntry \<Rightarrow> blockchain \<Rightarrow> blockchain result" where
  "rebuild_entry b block c =
     bind_res (get_block_hash (be_bl block)) (\<lambda>blockHash.
     bind_res (rebuild_block b block (c\<lparr>bc_blockIndex := snd (push_id blockHash (bc_blockIndex c))\<rparr>))
       (pushToDepositIndex block (block_interest block)))"

definition rebuildMoonBank :: "blockchain \<Rightarrow> blockchain result" where
  "rebuildMoonBank c =
     fold_res (\<lambda>b. rebuild_entry (of_nat b) (bc_blocks c ! b)) [0..<length (bc_blocks c)]
       (c\<lparr>bc_blockIndex := clear_bi (bc_blockIndex c), lg_transactionMap := Map.empty, lg_spent_keys := Map.empty,
          lg_outputs := Map.empty, lg_multisignatureOutputs := Map.empty\<rparr>)"

definition resetAndSetGenesisBlock :: "nat \<Rightarrow> currency \<Rightarrow> environment \<Rightarrow> Block \<Rightarrow> node \<Rightarrow> (bool \<times> node) result" where
  "resetAndSetGenesisBlock fuel cur env b s =
     (case s of (c, p) \<Rightarrow>
      bind_res (addNewBlock fuel cur env b new_bvc
        (c\<lparr>bc_blocks := [], bc_blockIndex := clear_bi (bc_blockIndex c), lg_transactionMap := Map.empty,
           lg_spent_keys := Map.empty, bc_alternative_chains := [], lg_outputs := Map.empty,
           lg_paymentIdIndex := [], bc_timestampIndex := [],
           bc_generatedTransactionsIndex := gti_clear (bc_generatedTransactionsIndex c),
           bc_orthanBlocksIndex := []\<rparr>, p)) (\<lambda>(_, bvc, s).
        Inr (bvc_added_to_main_chain bvc \<and> \<not> bvc_verification_failed bvc, s)))"

section \<open>The loop over the transactions of a block\<close>

text \<open>What holds after the transactions \<open>done\<close> of a block were pushed onto the chain \<open>c0\<close>: taking them back
  gives \<open>c0\<close> again, and rebuilding from them gives the same ledger.\<close>

definition rebuild_txs :: "u32 \<Rightarrow> Transaction list \<Rightarrow> blockchain \<Rightarrow> blockchain result" where
  "rebuild_txs b txs c = fold_res (\<lambda>j. rebuild_tx b (of_nat j) (txs ! j)) [0..<length txs] c"

lemma rebuild_txs_snoc: "rebuild_txs b (txs @ [tx]) c = bind_res (rebuild_txs b txs c) (rebuild_tx b (of_nat (length txs)) tx)"
proof -
  have "fold_res (\<lambda>j. rebuild_tx b (of_nat j) ((txs @ [tx]) ! j)) [0..<length txs] c =
    fold_res (\<lambda>j. rebuild_tx b (of_nat j) (txs ! j)) [0..<length txs] c"
    by (rule fold_res_cong) (simp add: nth_append)
  then show ?thesis
    by (auto simp: rebuild_txs_def fold_res_append bind_res_def split: sum.split)
qed

lemma rebuild_tx_payment:
  "rebuild_tx b t tx (l\<lparr>lg_paymentIdIndex := x\<rparr>) = map_sum id (\<lambda>r. r\<lparr>lg_paymentIdIndex := x\<rparr>) (rebuild_tx b t tx l)"
  by (auto simp: rebuild_tx_def Let_def bind_res_def split: sum.split)

definition loop_inv :: "Block \<Rightarrow> hash \<Rightarrow> blockchain \<Rightarrow> (Transaction \<times> hash) list \<Rightarrow> push_state \<Rightarrow> bool" where
  "loop_inv bl mh c0 done s \<longleftrightarrow>
     be_bl (ps_block s) = bl \<and> be_height (ps_block s) = getCurrentBlockchainHeight c0 \<and>
     map te_tx (be_transactions (ps_block s)) = bl_baseTransaction bl # map fst done \<and>
     ps_transaction s = of_nat (length done) \<and>
     ledger.more (ps_chain s) = ledger.more c0 \<and> ledger_wf (ps_chain s) \<and>
     dom (lg_transactionMap (ps_chain s)) = dom (lg_transactionMap c0) \<union> set (mh # map snd done) \<and>
     (\<exists>r. undo_txs (rev ((bl_baseTransaction bl, mh) # done)) (ps_chain s) = Inr r \<and> same_ledger c0 r) \<and>
     ((\<forall>(tx, h) \<in> set ((bl_baseTransaction bl, mh) # done). h = getObjectHash ser_Transaction tx) \<longrightarrow>
       rebuild_txs (getCurrentBlockchainHeight c0) (bl_baseTransaction bl # map fst done) c0 =
         Inr ((ps_chain s)\<lparr>lg_paymentIdIndex := lg_paymentIdIndex c0\<rparr>)) \<and>
     ps_interest s = sum_list (map (calculateTotalTransactionInterest \<circ> fst) done) \<and>
     ps_size s = getObjectBinarySize ser_Transaction (bl_baseTransaction bl) + sum_list (map (tx_blob_size \<circ> fst) done)"

lemma loop_invD:
  assumes "loop_inv bl mh c0 done s"
  shows "be_bl (ps_block s) = bl" "be_height (ps_block s) = getCurrentBlockchainHeight c0"
    "map te_tx (be_transactions (ps_block s)) = bl_baseTransaction bl # map fst done"
    "ps_transaction s = of_nat (length done)" "ledger.more (ps_chain s) = ledger.more c0" "ledger_wf (ps_chain s)"
    "dom (lg_transactionMap (ps_chain s)) = dom (lg_transactionMap c0) \<union> set (mh # map snd done)"
    "\<exists>r. undo_txs (rev ((bl_baseTransaction bl, mh) # done)) (ps_chain s) = Inr r \<and> same_ledger c0 r"
    "\<forall>(tx, h) \<in> set ((bl_baseTransaction bl, mh) # done). h = getObjectHash ser_Transaction tx \<Longrightarrow>
       rebuild_txs (getCurrentBlockchainHeight c0) (bl_baseTransaction bl # map fst done) c0 =
         Inr ((ps_chain s)\<lparr>lg_paymentIdIndex := lg_paymentIdIndex c0\<rparr>)"
    "ps_interest s = sum_list (map (calculateTotalTransactionInterest \<circ> fst) done)"
    "ps_size s = getObjectBinarySize ser_Transaction (bl_baseTransaction bl) + sum_list (map (tx_blob_size \<circ> fst) done)"
  using assms unfolding loop_inv_def by blast+

text \<open>The chain's other members are the same, so the rules read the same chain.\<close>

lemma same_more:
  assumes "ledger.more c = ledger.more (c0 :: blockchain)"
  shows "bc_blocks c = bc_blocks c0" "bc_checkpoints c = bc_checkpoints c0"
    "getCurrentBlockchainHeight c = getCurrentBlockchainHeight c0"
    "isInCheckpointZone c h = isInCheckpointZone c0 h"
  using assms by (cases c; cases c0; simp add: getCurrentBlockchainHeight_def isInCheckpointZone_def)+

lemma pushed_dom:
  assumes "pushTransaction block h ti l = Inr (True, block', l')"
  shows "dom (lg_transactionMap l') = insert h (dom (lg_transactionMap l))"
  by (rule pushTransaction_True [OF assms]) simp

lemma pushed_block:
  assumes "pushTransaction block h ti l = Inr (True, block', l')"
  shows "be_bl block' = be_bl block" "be_height block' = be_height block"
    "map te_tx (be_transactions block') = map te_tx (be_transactions block)"
proof -
  obtain entry gs where b: "unat (ti_transaction ti) < length (be_transactions block)"
    "entry = be_transactions block ! unat (ti_transaction ti)"
    "block' = block\<lparr>be_transactions := (be_transactions block)[unat (ti_transaction ti) := entry\<lparr>te_global_output_indexes := gs\<rparr>]\<rparr>"
    by (rule pushTransaction_True [OF assms]) blast
  show "be_bl block' = be_bl block" "be_height block' = be_height block" by (simp_all add: b(3))
  have "(map te_tx (be_transactions block))[unat (ti_transaction ti) := te_tx entry] = map te_tx (be_transactions block)"
    using b(1,2) by (metis list_update_id nth_map)
  then show "map te_tx (be_transactions block') = map te_tx (be_transactions block)"
    by (simp add: b(3) map_update)
qed

text \<open>One transaction more.\<close>

lemma loop_step:
  assumes inv: "loop_inv bl mh c0 done s" and small: "length done < 65535"
    and zone: "\<not> isInCheckpointZone c0 (getCurrentBlockchainHeight c0)"
    and ok: "ok_inputs tx" and fresh: "h \<notin> dom (lg_transactionMap c0) \<union> set (mh # map snd done)"
    and valid: "block_tx_valid cur env bl tx (ps_chain s) = Inr True"
    and push: "pushTransaction ((ps_block s)\<lparr>be_transactions := be_transactions (ps_block s) @ [\<lparr>te_tx = tx, te_global_output_indexes = []\<rparr>]\<rparr>)
      h \<lparr>ti_block = be_height (ps_block s), ti_transaction = ps_transaction s + 1\<rparr> (ps_chain s) = Inr (b, block, c)"
  shows "loop_inv bl mh c0 (done @ [(tx, h)])
    (s\<lparr>ps_block := block, ps_transaction := ps_transaction s + 1, ps_size := ps_size s + tx_blob_size tx, ps_fee := fee,
       ps_interest := ps_interest s + calculateTotalTransactionInterest tx, ps_chain := c\<rparr>)"
proof -
  note I = loop_invD [OF inv]
  let ?b = "(ps_block s)\<lparr>be_transactions := be_transactions (ps_block s) @ [\<lparr>te_tx = tx, te_global_output_indexes = []\<rparr>]\<rparr>"
  let ?ti = "\<lparr>ti_block = be_height (ps_block s), ti_transaction = ps_transaction s + 1\<rparr>"
  have len: "length (be_transactions (ps_block s)) = Suc (length done)"
    using arg_cong [OF I(3), of length] by simp
  have t: "ps_transaction s + 1 = of_nat (Suc (length done))" by (simp add: I(4))
  then have "unat (ps_transaction s + 1) = Suc (length done)" using small unat_of_nat_u16 [of "Suc (length done)"] by (simp add: add.commute)
  then have e: "te_tx (be_transactions ?b ! unat (ps_transaction s + 1)) = tx" using len by (simp add: nth_append)
  obtain q where q: "check_inputs cur env (ps_chain s) (getObjectHash ser_prefix tx) (tx_signatures tx) (tx_inputs tx) 0 0 = Inr (True, q)"
    using valid by (auto simp: block_tx_valid_def checkTransactionInputs_def bind_res_Inr)
  have unused: "unused_refs tx (ps_chain s)"
    using check_inputs_True [OF q] zone by (fastforce simp: unused_refs_def same_more [OF I(5)])
  have free: "lg_transactionMap (ps_chain s) h = None" using fresh I(7) by blast
  have b: "b"
    using pushTransaction_accepts [OF push free] check_inputs_True [OF q] ok e by simp
  have bT: "b = True" using b by simp
  note push = push [unfolded bT]
  obtain r where r: "popTransaction tx h c = Inr r" "same_ledger (ps_chain s) r" "ledger_wf c"
    using push_pop_transaction [OF push I(6)] unused e by auto
  obtain r0 where r0: "undo_txs (rev ((bl_baseTransaction bl, mh) # done)) (ps_chain s) = Inr r0" "same_ledger c0 r0"
    using I(8) by blast
  obtain r' where "undo_txs (rev ((bl_baseTransaction bl, mh) # done)) r = Inr r'" "same_ledger c0 r'"
    using undo_txs_same [OF r(2) r0(1)] same_ledger_trans [OF r0(2)] by blast
  then have undo: "\<exists>r. undo_txs (rev ((bl_baseTransaction bl, mh) # done @ [(tx, h)])) c = Inr r \<and> same_ledger c0 r"
    by (simp add: r(1) undo_txs_append)
  have rebuild: "rebuild_txs (getCurrentBlockchainHeight c0) (bl_baseTransaction bl # map fst done @ [tx]) c0 =
      Inr (c\<lparr>lg_paymentIdIndex := lg_paymentIdIndex c0\<rparr>)"
    if "\<forall>(tx, h) \<in> set ((bl_baseTransaction bl, mh) # done @ [(tx, h)]). h = getObjectHash ser_Transaction tx"
  proof -
    have "rebuild_txs (getCurrentBlockchainHeight c0) (bl_baseTransaction bl # map fst done) c0 =
      Inr ((ps_chain s)\<lparr>lg_paymentIdIndex := lg_paymentIdIndex c0\<rparr>)"
      by (rule I(9)) (use that in auto)
    moreover have "rebuild_tx (getCurrentBlockchainHeight c0) (ps_transaction s + 1) tx (ps_chain s) =
        Inr (c\<lparr>lg_paymentIdIndex := lg_paymentIdIndex (ps_chain s)\<rparr>)"
      using rebuild_tx_push [OF push, of tx] that e I(2) by simp
    ultimately show ?thesis
      using rebuild_txs_snoc [of "getCurrentBlockchainHeight c0" "bl_baseTransaction bl # map fst done" tx c0]
      by (simp add: I(4) rebuild_tx_payment add.commute)
  qed
  have more: "ledger.more c = ledger.more c0" using pushTransaction_more [OF push] I(5) by simp
  have dom: "dom (lg_transactionMap c) = dom (lg_transactionMap c0) \<union> set (mh # map snd (done @ [(tx, h)]))"
    using pushed_dom [OF push] I(7) by auto
  show ?thesis
    unfolding loop_inv_def using pushed_block [OF push] I(1-3,10,11) t r(3) more dom undo rebuild by simp
qed

lemma start_block_inv:
  assumes start: "start_block bl c0 = Inr s" and wf: "ledger_wf c0" and base: "tx_inputs (bl_baseTransaction bl) = [BaseInput n]"
    and fresh: "lg_transactionMap c0 (getObjectHash ser_Transaction (bl_baseTransaction bl)) = None"
  shows "loop_inv bl (getObjectHash ser_Transaction (bl_baseTransaction bl)) c0 [] s"
proof -
  let ?mh = "getObjectHash ser_Transaction (bl_baseTransaction bl)" and ?h = "getCurrentBlockchainHeight c0"
  obtain b block c where push: "pushTransaction (miner_entry bl ?h) ?mh \<lparr>ti_block = ?h, ti_transaction = 0\<rparr> c0 = Inr (b, block, c)"
    and s: "ps_block s = block" "ps_transaction s = 0" "ps_chain s = c" "ps_interest s = 0"
      "ps_size s = getObjectBinarySize ser_Transaction (bl_baseTransaction bl)"
    using start by (auto simp: start_block_def Let_def bind_res_Inr)
  have e: "te_tx (be_transactions (miner_entry bl ?h) ! unat (ti_transaction \<lparr>ti_block = ?h, ti_transaction = 0\<rparr>)) = bl_baseTransaction bl"
    by (simp add: miner_entry_def)
  have keys: "key_images [BaseInput n] = []" "global_outputs [BaseInput n] = []" "mrefs [BaseInput n] = {}"
    by (simp_all add: mrefs_def)
  have "b" by (rule pushTransaction_accepts [OF push fresh]) (simp_all add: miner_entry_def base keys ok_inputs_def)
  then have bT: "b = True" by simp
  note push = push [unfolded bT]
  have "unused_refs (bl_baseTransaction bl) c0" by (simp add: unused_refs_def base keys)
  then obtain r where r: "popTransaction (bl_baseTransaction bl) ?mh c = Inr r" "same_ledger c0 r" "ledger_wf c"
    using push_pop_transaction [OF push wf] e by auto
  have "rebuild_tx ?h 0 (bl_baseTransaction bl) c0 = Inr (c\<lparr>lg_paymentIdIndex := lg_paymentIdIndex c0\<rparr>)"
    using rebuild_tx_push [OF push, of "bl_baseTransaction bl"] e by (simp add: miner_entry_def)
  then have "rebuild_txs ?h [bl_baseTransaction bl] c0 = Inr (c\<lparr>lg_paymentIdIndex := lg_paymentIdIndex c0\<rparr>)"
    by (simp add: rebuild_txs_def)
  then show ?thesis
    unfolding loop_inv_def using pushed_block [OF push] pushTransaction_more [OF push] pushed_dom [OF push] r s
    by (simp add: miner_entry_def)
qed

lemma push_txs_inv:
  assumes "push_txs cur env mh rest s = Inr (v, s')" "loop_inv bl mh c0 done s"
    "\<not> isInCheckpointZone c0 (getCurrentBlockchainHeight c0)"
    "length (done @ rest) \<le> 65535" "map snd (done @ rest) = bl_transactionHashes bl"
    "distinct (map snd (done @ rest))" "mh \<notin> snd ` set (done @ rest)" "dom (lg_transactionMap c0) \<inter> snd ` set (done @ rest) = {}"
    "\<forall>(tx, h) \<in> set rest. ok_inputs tx"
  shows "if v then loop_inv bl mh c0 (done @ rest) s' else same_ledger c0 (ps_chain s')"
  using assms
proof (induction rest arbitrary: s "done")
  case (Cons x rest)
  obtain tx h where x: "x = (tx, h)" by (cases x)
  note I = loop_invD [OF Cons.prems(2)]
  obtain valid where valid: "block_tx_valid cur env bl tx (ps_chain s) = Inr valid"
    using Cons.prems(1) I(1) by (auto simp: x bind_res_Inr)
  show ?case
  proof (cases valid)
    case False
    then obtain c where c: "popTransactions (ps_block s) mh (ps_chain s) = Inr c" and v: "\<not> v" "ps_chain s' = c"
      using Cons.prems(1) valid I(1) by (auto simp: x bind_res_Inr)
    have "map snd done = take (length done) (bl_transactionHashes (be_bl (ps_block s)))"
      by (simp add: I(1) Cons.prems(5) [symmetric])
    then have "popTransactions (ps_block s) mh (ps_chain s) = undo_txs (rev ((bl_baseTransaction bl, mh) # done)) (ps_chain s)"
      using popTransactions_undo [of "ps_block s" "done" mh "ps_chain s"] I(1,3) by simp
    then show ?thesis using I(8) c v by (metis sum.inject(2))
  next
    case True
    let ?b = "(ps_block s)\<lparr>be_transactions := be_transactions (ps_block s) @ [\<lparr>te_tx = tx, te_global_output_indexes = []\<rparr>]\<rparr>"
    obtain b block c where push: "pushTransaction ?b h \<lparr>ti_block = be_height (ps_block s), ti_transaction = ps_transaction s + 1\<rparr> (ps_chain s) = Inr (b, block, c)"
      and rest: "push_txs cur env mh rest (s\<lparr>ps_block := block, ps_transaction := ps_transaction s + 1, ps_size := ps_size s + tx_blob_size tx,
                   ps_fee := ps_fee s + block_tx_fee tx,
                   ps_interest := ps_interest s + calculateTotalTransactionInterest tx, ps_chain := c\<rparr>) = Inr (v, s')"
      using Cons.prems(1) valid True I(1) by (auto simp: x bind_res_Inr Let_def)
    have valid: "block_tx_valid cur env bl tx (ps_chain s) = Inr True" using valid True by simp
    have ok: "ok_inputs tx" "length done < 65535" "h \<notin> dom (lg_transactionMap c0) \<union> set (mh # map snd done)"
      using Cons.prems(4,6,7,8,9) by (auto simp: x)
    from loop_step [OF Cons.prems(2) ok(2) Cons.prems(3) ok(1,3) valid push]
    show ?thesis
      using Cons.IH [OF rest _ Cons.prems(3), of "done @ [x]"] Cons.prems(4-9) unfolding x append_Cons append_Nil append_assoc by simp
  qed
qed simp

end
