(* ===== verification/ChainHistory.thy ===== *)
theory ChainHistory
  imports Blockchain
begin

text \<open>What every chain built by pushing blocks satisfies, and what popping a block takes back.

  \<open>chain_inv\<close> ties the members of \<^verbatim>\<open>Blockchain\<close> to the list of its blocks: the block index, the
  deposit index, the timestamp index, the index of generated transactions, the upgrade detector, and the
  ledger of outputs and key images, which is the one \<^verbatim>\<open>rebuildMoonBank\<close> computes from the blocks.\<close>

section \<open>The ledger and indices that rebuilding computes\<close>

text \<open>The members that rebuilding writes, put into another chain.\<close>

definition transplant :: "blockchain \<Rightarrow> blockchain \<Rightarrow> blockchain" where
  "transplant x c =
     x\<lparr>lg_spent_keys := lg_spent_keys c, lg_outputs := lg_outputs c, lg_transactionMap := lg_transactionMap c,
       lg_multisignatureOutputs := lg_multisignatureOutputs c, bc_blockIndex := bc_blockIndex c,
       bc_depositIndex := bc_depositIndex c\<rparr>"

lemma rebuild_tx_transplant: "rebuild_tx b t tx (transplant x c) = map_sum id (transplant x) (rebuild_tx b t tx c)"
  by (auto simp: rebuild_tx_def transplant_def Let_def bind_res_def split: sum.split)

lemma rebuild_block_transplant: "rebuild_block b block (transplant x c) = map_sum id (transplant x) (rebuild_block b block c)"
  unfolding rebuild_block_def by (rule for_u16_map) (rule rebuild_tx_transplant)

lemma rebuild_entry_transplant: "rebuild_entry b block (transplant x c) = map_sum id (transplant x) (rebuild_entry b block c)"
proof -
  have 1: "(transplant x c)\<lparr>bc_blockIndex := snd (push_id h (bc_blockIndex (transplant x c)))\<rparr> =
      transplant x (c\<lparr>bc_blockIndex := snd (push_id h (bc_blockIndex c))\<rparr>)" for h
    by (simp add: transplant_def)
  have 2: "pushToDepositIndex block i (transplant x c) = map_sum id (transplant x) (pushToDepositIndex block i c)" for i c
    by (auto simp: pushToDepositIndex_def transplant_def bind_res_def split: sum.split)
  show ?thesis
    unfolding rebuild_entry_def 1 rebuild_block_transplant map_sum_bind by (simp add: 2)
qed

definition cleared :: "blockchain \<Rightarrow> blockchain" where
  "cleared c = c\<lparr>bc_blockIndex := [], lg_transactionMap := Map.empty, lg_spent_keys := Map.empty,
     lg_outputs := Map.empty, lg_multisignatureOutputs := Map.empty, bc_depositIndex := deposit_index_new\<rparr>"

lemma rebuild_cleared:
  "rebuildMoonBank (c\<lparr>bc_depositIndex := deposit_index_new\<rparr>) =
   fold_res (\<lambda>b. rebuild_entry (of_nat b) (bc_blocks c ! b)) [0..<length (bc_blocks c)] (cleared c)"
proof -
  have "c\<lparr>bc_depositIndex := deposit_index_new, bc_blockIndex := clear_bi (bc_blockIndex c), lg_transactionMap := Map.empty,
     lg_spent_keys := Map.empty, lg_outputs := Map.empty, lg_multisignatureOutputs := Map.empty\<rparr> = cleared c"
    by (simp add: cleared_def clear_bi_def)
  then show ?thesis by (simp add: rebuildMoonBank_def)
qed

lemma rebuild_snoc:
  assumes "rebuildMoonBank (c\<lparr>bc_depositIndex := deposit_index_new\<rparr>) = Inr c"
    "rebuild_entry (of_nat (length (bc_blocks c))) block c = Inr r" "bc_blocks c' = bc_blocks c @ [block]"
  shows "rebuildMoonBank (c'\<lparr>bc_depositIndex := deposit_index_new\<rparr>) = Inr (transplant c' r)"
proof -
  let ?f = "\<lambda>bs b. rebuild_entry (of_nat b) (bs ! b)"
  have "cleared c' = transplant c' (cleared c)" by (simp add: cleared_def transplant_def)
  moreover have "fold_res (?f (bc_blocks c @ [block])) [0..<length (bc_blocks c)] (transplant c' (cleared c)) =
      fold_res (?f (bc_blocks c)) [0..<length (bc_blocks c)] (transplant c' (cleared c))"
    by (rule fold_res_cong) (simp add: nth_append)
  moreover have "\<dots> = map_sum id (transplant c') (fold_res (?f (bc_blocks c)) [0..<length (bc_blocks c)] (cleared c))"
    by (rule fold_res_map) (rule rebuild_entry_transplant)
  ultimately show ?thesis
    using assms by (simp add: rebuild_cleared fold_res_append rebuild_entry_transplant)
qed

section \<open>What an accepted block changes\<close>

abbreviation tx_hash :: "Transaction \<Rightarrow> hash" where
  "tx_hash \<equiv> getObjectHash ser_Transaction"

text \<open>A block whose transactions are those its hashes name, none of them in the chain already, each with
  inputs that differ from one another, and a chain that is past the checkpoints, where inputs are checked.\<close>

definition sound_block :: "Block \<Rightarrow> Transaction list \<Rightarrow> blockchain \<Rightarrow> bool" where
  "sound_block bl txs c \<longleftrightarrow>
     \<not> isInCheckpointZone c (getCurrentBlockchainHeight c) \<and> length txs < 65535 \<and>
     bl_transactionHashes bl = map tx_hash txs \<and>
     distinct (map tx_hash (bl_baseTransaction bl # txs)) \<and>
     (\<forall>tx \<in> set (bl_baseTransaction bl # txs). lg_transactionMap c (tx_hash tx) = None) \<and>
     (\<forall>tx \<in> set txs. ok_inputs tx)"

abbreviation block_txs :: "Block \<Rightarrow> Transaction list \<Rightarrow> (Transaction \<times> hash) list" where
  "block_txs bl txs \<equiv> zip txs (bl_transactionHashes bl)"

lemma block_txs_map:
  assumes "sound_block bl txs c"
  shows "block_txs bl txs = map (\<lambda>tx. (tx, tx_hash tx)) txs" "map fst (block_txs bl txs) = txs"
    "map snd (block_txs bl txs) = bl_transactionHashes bl"
  using assms by (simp_all add: sound_block_def zip_map2 zip_same_conv_map o_def)

lemma popTransactions_block:
  assumes "sound_block bl txs c" "be_bl block = bl" "map te_tx (be_transactions block) = bl_baseTransaction bl # txs"
  shows "popTransactions block mh l = undo_txs (rev ((bl_baseTransaction bl, mh) # block_txs bl txs)) l"
proof -
  note B = block_txs_map [OF assms(1)]
  have "length (block_txs bl txs) = length (bl_transactionHashes bl)" using arg_cong [OF B(3), of length] by simp
  then have "map snd (block_txs bl txs) = take (length (block_txs bl txs)) (bl_transactionHashes bl)" unfolding B(3) by simp
  then show ?thesis
    using popTransactions_undo [of block "block_txs bl txs" mh l] assms(2,3) B(2) by simp
qed

lemma push_checks_base:
  assumes "push_checks cur env bl h c = Inr (Some (True, d))"
  shows "tx_inputs (bl_baseTransaction bl) = [BaseInput (getCurrentBlockchainHeight c)]"
proof -
  have "prevalidate_miner_transaction cur env bl (getCurrentBlockchainHeight c) = Inr True"
    using assms by (auto simp: push_checks_def bind_res_Inr split: if_splits)
  then show ?thesis
    by (auto simp: prevalidate_miner_transaction_def Let_def length_Suc_conv split: if_splits TransactionInput.splits)
qed

text \<open>The state of the loop when all transactions were pushed.\<close>

lemma pushed_loop:
  assumes checks: "push_checks cur env bl h c = Inr (Some (True, d))" and start: "start_block bl c = Inr s"
    and loop: "push_txs cur env (tx_hash (bl_baseTransaction bl)) (block_txs bl txs) s = Inr (v, s')"
    and sound: "sound_block bl txs c" and wf: "ledger_wf c"
  shows "if v then loop_inv bl (tx_hash (bl_baseTransaction bl)) c (block_txs bl txs) s' else same_ledger c (ps_chain s')"
proof -
  note B = block_txs_map [OF sound]
  have fresh: "lg_transactionMap c (tx_hash (bl_baseTransaction bl)) = None" using sound by (simp add: sound_block_def)
  note inv = start_block_inv [OF start wf push_checks_base [OF checks] fresh]
  have img: "snd ` set (block_txs bl txs) = tx_hash ` set txs" by (simp add: B(1) image_image)
  have free: "dom (lg_transactionMap c) \<inter> snd ` set ([] @ block_txs bl txs) = {}"
    using sound img by (auto simp: sound_block_def)
  show ?thesis
    using push_txs_inv [OF loop inv _ _ _ _ _ free] sound B img by (auto simp: sound_block_def)
qed

text \<open>The chain after an accepted block, member by member.\<close>

lemma finish_blockE:
  assumes fin: "finish_block cur d e s = Inr c'" and len: "length (bc_blockIndex (ps_chain s)) = length (bc_blocks (ps_chain s))"
    "Suc (length (bc_blocks (ps_chain s))) < 2 ^ 32"
  obtains block h n g di u lim where
    "be_bl block = be_bl (ps_block s)" "be_height block = be_height (ps_block s)" "be_transactions block = be_transactions (ps_block s)"
    "get_block_hash (be_bl block) = Inr h" "h \<notin> set (bc_blockIndex (ps_chain s))"
    "gti_add (be_bl block) (bc_generatedTransactionsIndex (ps_chain s)) = Inr (n, g)"
    "DepositIndex.pushBlock (block_deposit block) (ps_interest s) (bc_depositIndex (ps_chain s)) = Inr di"
    "blockPushed cur (map be_bl (bc_blocks (ps_chain s)) @ [be_bl block]) (bc_upgradeDetectorV2 (ps_chain s)) = Inr u"
    "c' = (ps_chain s)\<lparr>bc_blocks := bc_blocks (ps_chain s) @ [block], bc_blockIndex := bc_blockIndex (ps_chain s) @ [h],
       bc_timestampIndex := snd (tbi_add (bl_timestamp (be_bl block)) h (bc_timestampIndex (ps_chain s))),
       bc_generatedTransactionsIndex := g, bc_depositIndex := di, bc_upgradeDetectorV2 := u,
       bc_current_block_cumul_sz_limit := lim\<rparr>"
proof -
  let ?c = "ps_chain s"
  let ?coins = "if bc_blocks ?c = [] then 0 else be_already_generated_coins (last (bc_blocks ?c))"
  define block where "block = (ps_block s)\<lparr>be_block_cumulative_size := ps_size s,
      be_cumulative_difficulty := (if bc_blocks ?c = [] then d else d + be_cumulative_difficulty (last (bc_blocks ?c))),
      be_already_generated_coins := ?coins + e + ps_interest s\<rparr>"
  obtain c2 c3 u where c: "pushEntry block ?c = Inr c2" "pushToDepositIndex block (ps_interest s) c2 = Inr c3"
    "blockPushed cur (map be_bl (bc_blocks c3)) (bc_upgradeDetectorV2 c3) = Inr u"
    "c' = update_next_comulative_size_limit cur (c3\<lparr>bc_upgradeDetectorV2 := u\<rparr>)"
    using fin unfolding finish_block_def Let_def block_def [symmetric] by (auto simp: bind_res_Inr)
  obtain h n g where h: "get_block_hash (be_bl block) = Inr h"
    "gti_add (be_bl block) (bc_generatedTransactionsIndex ?c) = Inr (n, g)"
    "ucast (size_bi (snd (push_id h (bc_blockIndex ?c)))) = (of_nat (Suc (length (bc_blocks ?c))) :: u64)"
    and c2: "c2 = ?c\<lparr>bc_blocks := bc_blocks ?c @ [block], bc_blockIndex := snd (push_id h (bc_blockIndex ?c)),
      bc_timestampIndex := snd (tbi_add (bl_timestamp (be_bl block)) h (bc_timestampIndex ?c)), bc_generatedTransactionsIndex := g\<rparr>"
    using c(1) by (auto simp: pushEntry_def bind_res_Inr Let_def assert_res_Inr)
  have "h \<notin> set (bc_blockIndex ?c)"
  proof
    assume "h \<in> set (bc_blockIndex ?c)"
    then have "(ucast (of_nat (length (bc_blocks ?c)) :: u32) :: u64) = of_nat (Suc (length (bc_blocks ?c)))"
      using h(3) len(1) by (simp add: push_id_def size_bi_def)
    then show False using len(2) by (simp add: word_unat_eq_iff unat_of_nat unat_ucast_len del: of_nat_Suc)
  qed
  moreover obtain di where "DepositIndex.pushBlock (block_deposit block) (ps_interest s) (bc_depositIndex ?c) = Inr di"
    and "c3 = c2\<lparr>bc_depositIndex := di\<rparr>"
    using c(2) by (auto simp: pushToDepositIndex_def bind_res_Inr c2)
  ultimately show ?thesis
    using that [of block h n g di u "bc_current_block_cumul_sz_limit c'"] h(1,2) c(3,4) c2
    by (simp add: block_def push_id_def update_next_comulative_size_limit_def Let_def)
qed

section \<open>The invariant\<close>

definition block_count :: "BlockEntry \<Rightarrow> u64" where
  "block_count block = of_nat (length (bl_transactionHashes (be_bl block))) + 1"

definition chain_inv :: "currency \<Rightarrow> blockchain \<Rightarrow> bool" where
  "chain_inv cur c \<longleftrightarrow>
     ledger_wf c \<and>
     distinct (bc_blockIndex c) \<and> length (bc_blockIndex c) = length (bc_blocks c) \<and>
     sorted (map fst (bc_timestampIndex c)) \<and>
     mset (bc_timestampIndex c) = mset (zip (map (bl_timestamp \<circ> be_bl) (bc_blocks c)) (bc_blockIndex c)) \<and>
     bc_generatedTransactionsIndex c = generated_state (map block_count (bc_blocks c)) \<and>
     di_inv (bc_depositIndex c) \<and> unat (di_blockCount (bc_depositIndex c)) = length (bc_blocks c) \<and>
     detector_ok cur (length (bc_blocks c)) (bc_upgradeDetectorV2 c) \<and>
     rebuildMoonBank (c\<lparr>bc_depositIndex := deposit_index_new\<rparr>) = Inr c"

lemma chain_invD:
  assumes "chain_inv cur c"
  shows "ledger_wf c" "distinct (bc_blockIndex c)" "length (bc_blockIndex c) = length (bc_blocks c)"
    "sorted (map fst (bc_timestampIndex c))"
    "mset (bc_timestampIndex c) = mset (zip (map (bl_timestamp \<circ> be_bl) (bc_blocks c)) (bc_blockIndex c))"
    "bc_generatedTransactionsIndex c = generated_state (map block_count (bc_blocks c))"
    "di_inv (bc_depositIndex c)" "unat (di_blockCount (bc_depositIndex c)) = length (bc_blocks c)"
    "detector_ok cur (length (bc_blocks c)) (bc_upgradeDetectorV2 c)"
    "rebuildMoonBank (c\<lparr>bc_depositIndex := deposit_index_new\<rparr>) = Inr c"
  using assms unfolding chain_inv_def by blast+

text \<open>An empty chain.\<close>

definition empty_chain :: "checkpoints \<Rightarrow> u8 \<Rightarrow> usize \<Rightarrow> blockchain" where
  "empty_chain cps v limit =
     \<lparr>lg_spent_keys = Map.empty, lg_outputs = Map.empty, lg_transactionMap = Map.empty, lg_multisignatureOutputs = Map.empty,
      lg_paymentIdIndex = [], bc_blocks = [], bc_blockIndex = [], bc_depositIndex = deposit_index_new,
      bc_upgradeDetectorV2 = new_detector v, bc_timestampIndex = [], bc_generatedTransactionsIndex = generated_state [],
      bc_orthanBlocksIndex = [], bc_alternative_chains = [], bc_checkpoints = cps, bc_current_block_cumul_sz_limit = limit\<rparr>"

lemma empty_chain_inv: "chain_inv cur (empty_chain cps v limit)"
  by (simp add: chain_inv_def empty_chain_def ledger_wf_def no_empty_def deposit_index_new_def di_inv_def
      detector_ok_def new_detector_def rebuildMoonBank_def clear_bi_def)

text \<open>The rebuilt entry of the block that was just pushed.\<close>

lemma block_interest_eq:
  assumes "map te_tx (be_transactions block) = tx # txs" "tx_inputs tx = [BaseInput n]"
  shows "block_interest block = sum_list (map calculateTotalTransactionInterest txs)"
proof -
  have f: "fold (\<lambda>e i. i + calculateTotalTransactionInterest (te_tx e)) es a =
      a + sum_list (map calculateTotalTransactionInterest (map te_tx es))" for es and a :: u64
    by (induction es arbitrary: a) (simp_all add: algebra_simps)
  show ?thesis
    unfolding block_interest_def f assms(1) by (simp add: calculateTotalTransactionInterest_def assms(2))
qed

lemma rebuild_block_txs:
  assumes "length (be_transactions block) < 2 ^ 16"
  shows "rebuild_block b block c = rebuild_txs b (map te_tx (be_transactions block)) c"
proof -
  have "fold_res (\<lambda>j. rebuild_tx b (of_nat j) (te_tx (be_transactions block ! unat (of_nat j :: u16)))) [0..<length (be_transactions block)] c =
    fold_res (\<lambda>j. rebuild_tx b (of_nat j) (map te_tx (be_transactions block) ! j)) [0..<length (be_transactions block)] c"
    using assms by (intro fold_res_cong) (simp add: unat_of_nat_u16)
  then show ?thesis using assms by (simp add: rebuild_block_def rebuild_txs_def for_u16_eq)
qed

lemma rebuild_block_index:
  "rebuild_block b block (c\<lparr>bc_blockIndex := ids\<rparr>) = map_sum id (bc_blockIndex_update (\<lambda>_. ids)) (rebuild_block b block c)"
  unfolding rebuild_block_def
  by (rule for_u16_map) (auto simp: rebuild_tx_def Let_def bind_res_def split: sum.split)

lemma pushBlock_TrueE:
  assumes push: "pushBlock_txs cur env bl txs h0 bvc c = Inr (True, bvc', c')"
    and sound: "sound_block bl txs c" and wf: "ledger_wf c"
  obtains d e s where "tx_inputs (bl_baseTransaction bl) = [BaseInput (getCurrentBlockchainHeight c)]"
    "loop_inv bl (tx_hash (bl_baseTransaction bl)) c (block_txs bl txs) s" "finish_block cur d e s = Inr c'"
proof -
  obtain verdict where v: "push_checks cur env bl h0 c = Inr verdict"
    using push unfolding pushBlock_txs_def Let_def by (cases "push_checks cur env bl h0 c") simp_all
  obtain d where d: "verdict = Some (True, d)"
    using push v by (auto simp: pushBlock_txs_def Let_def split: option.split_asm if_split_asm)
  obtain s0 s e where p: "start_block bl c = Inr s0"
    "push_txs cur env (tx_hash (bl_baseTransaction bl)) (block_txs bl txs) s0 = Inr (True, s)" "finish_block cur d e s = Inr c'"
    using push by (simp add: pushBlock_txs_def Let_def v d) (auto simp: bind_res_Inr split: if_split_asm)
  note v = v [unfolded d]
  show ?thesis
    using that [OF push_checks_base [OF v] _ p(3)] pushed_loop [OF v p(1,2) sound wf] by simp
qed

lemma same_more_chain:
  assumes "ledger.more c = ledger.more (c0 :: blockchain)"
  shows "bc_blocks c = bc_blocks c0" "bc_blockIndex c = bc_blockIndex c0" "bc_depositIndex c = bc_depositIndex c0"
    "bc_upgradeDetectorV2 c = bc_upgradeDetectorV2 c0" "bc_timestampIndex c = bc_timestampIndex c0"
    "bc_generatedTransactionsIndex c = bc_generatedTransactionsIndex c0"
  using assms by (cases c; cases c0; simp)+

text \<open>What an accepted block changes, and how popping it starts.\<close>

lemma accepted_block:
  assumes push: "pushBlock_txs cur env bl txs h0 bvc c = Inr (True, bvc', c')"
    and sound: "sound_block bl txs c" and inv: "chain_inv cur c" and len: "Suc (length (bc_blocks c)) < 2 ^ 32 - 1"
  obtains l block h di u lim where
    "be_bl block = bl" "map te_tx (be_transactions block) = bl_baseTransaction bl # txs" "get_block_hash bl = Inr h"
    "h \<notin> set (bc_blockIndex c)" "base_height bl = Inr (of_nat (length (bc_blocks c)))"
    "DepositIndex.pushBlock (block_deposit block) (block_interest block) (bc_depositIndex c) = Inr di"
    "blockPushed cur (map be_bl (bc_blocks c) @ [bl]) (bc_upgradeDetectorV2 c) = Inr u"
    "ledger_wf l" "ledger.more l = ledger.more c"
    "rebuild_block (of_nat (length (bc_blocks c))) block c = Inr (l\<lparr>lg_paymentIdIndex := lg_paymentIdIndex c\<rparr>)"
    "\<exists>r. popTransactions block (tx_hash (bl_baseTransaction bl)) l = Inr r \<and> same_ledger c r"
    "c' = l\<lparr>bc_blocks := bc_blocks c @ [block], bc_blockIndex := bc_blockIndex c @ [h],
       bc_timestampIndex := snd (tbi_add (bl_timestamp bl) h (bc_timestampIndex c)),
       bc_generatedTransactionsIndex := generated_state (map block_count (bc_blocks c @ [block])),
       bc_depositIndex := di, bc_upgradeDetectorV2 := u, bc_current_block_cumul_sz_limit := lim\<rparr>"
proof -
  note V = chain_invD [OF inv] and B = block_txs_map [OF sound]
  let ?mh = "tx_hash (bl_baseTransaction bl)"
  obtain d e s where base: "tx_inputs (bl_baseTransaction bl) = [BaseInput (getCurrentBlockchainHeight c)]"
    and L: "loop_inv bl ?mh c (block_txs bl txs) s" and fin: "finish_block cur d e s = Inr c'"
    by (rule pushBlock_TrueE [OF push sound V(1)])
  note I = loop_invD [OF L] and M = same_more_chain [OF loop_invD(5) [OF L]]
  have len': "length (bc_blockIndex (ps_chain s)) = length (bc_blocks (ps_chain s))" "Suc (length (bc_blocks (ps_chain s))) < 2 ^ 32"
    using V(3) len by (simp_all add: M)
  obtain block h n g di u lim where F0: "be_bl block = be_bl (ps_block s)"
    "be_transactions block = be_transactions (ps_block s)"
    "get_block_hash (be_bl block) = Inr h" "h \<notin> set (bc_blockIndex (ps_chain s))"
    "gti_add (be_bl block) (bc_generatedTransactionsIndex (ps_chain s)) = Inr (n, g)"
    "DepositIndex.pushBlock (block_deposit block) (ps_interest s) (bc_depositIndex (ps_chain s)) = Inr di"
    "blockPushed cur (map be_bl (bc_blocks (ps_chain s)) @ [be_bl block]) (bc_upgradeDetectorV2 (ps_chain s)) = Inr u"
    "c' = (ps_chain s)\<lparr>bc_blocks := bc_blocks (ps_chain s) @ [block], bc_blockIndex := bc_blockIndex (ps_chain s) @ [h],
       bc_timestampIndex := snd (tbi_add (bl_timestamp (be_bl block)) h (bc_timestampIndex (ps_chain s))),
       bc_generatedTransactionsIndex := g, bc_depositIndex := di, bc_upgradeDetectorV2 := u,
       bc_current_block_cumul_sz_limit := lim\<rparr>"
    by (rule finish_blockE [OF fin len']) blast
  have bl: "be_bl block = bl" using F0(1) I(1) by simp
  note F = bl F0(2-8) [unfolded bl M]
  have txs: "map te_tx (be_transactions block) = bl_baseTransaction bl # txs" using F(2) I(3) B(2) by simp
  have bh: "base_height bl = Inr (of_nat (length (bc_blocks c)))" by (simp add: base_height_def base getCurrentBlockchainHeight_def)
  have "gti_add bl (bc_generatedTransactionsIndex c) = Inr (True, generated_state (map block_count (bc_blocks c @ [block])))"
    using generated_add [of bl "map block_count (bc_blocks c)"] bh V(6) len by (simp add: block_count_def [of block] F(1))
  then have g: "g = generated_state (map block_count (bc_blocks c @ [block]))" using F(5) by simp
  have "length (be_transactions block) = Suc (length txs)" using arg_cong [OF txs, of length] by simp
  then have "rebuild_block (of_nat (length (bc_blocks c))) block c =
      rebuild_txs (getCurrentBlockchainHeight c) (bl_baseTransaction bl # map fst (block_txs bl txs)) c"
    using sound txs B(2) by (simp add: rebuild_block_txs sound_block_def getCurrentBlockchainHeight_def)
  also have "\<dots> = Inr ((ps_chain s)\<lparr>lg_paymentIdIndex := lg_paymentIdIndex c\<rparr>)" by (rule I(9)) (auto simp: B(1))
  finally have rb: "rebuild_block (of_nat (length (bc_blocks c))) block c = Inr ((ps_chain s)\<lparr>lg_paymentIdIndex := lg_paymentIdIndex c\<rparr>)" .
  have undo: "popTransactions block ?mh (ps_chain s) = undo_txs (rev ((bl_baseTransaction bl, ?mh) # block_txs bl txs)) (ps_chain s)"
    by (rule popTransactions_block [OF sound F(1) txs])
  have intr: "ps_interest s = block_interest block"
    using I(10) block_interest_eq [OF txs base] by (simp add: B(1) o_def)
  show ?thesis
  proof (rule that [of block h di u "ps_chain s" lim])
    show "\<exists>r. popTransactions block ?mh (ps_chain s) = Inr r \<and> same_ledger c r" unfolding undo by (rule I(8))
    show "DepositIndex.pushBlock (block_deposit block) (block_interest block) (bc_depositIndex c) = Inr di"
      using F(6) intr by simp
  qed (rule F(1,3,4,7) F(8) [unfolded g] txs bh I(5,6) rb undo)+
qed

lemma push_keeps_inv:
  assumes push: "pushBlock_txs cur env bl txs h0 bvc c = Inr (True, bvc', c')"
    and sound: "sound_block bl txs c" and inv: "chain_inv cur c" and len: "Suc (length (bc_blocks c)) < 2 ^ 32 - 1"
  shows "chain_inv cur c'"
proof -
  note V = chain_invD [OF inv]
  obtain l block h di u lim where A: "be_bl block = bl" "get_block_hash bl = Inr h" "h \<notin> set (bc_blockIndex c)"
    "DepositIndex.pushBlock (block_deposit block) (block_interest block) (bc_depositIndex c) = Inr di"
    "blockPushed cur (map be_bl (bc_blocks c) @ [bl]) (bc_upgradeDetectorV2 c) = Inr u"
    "ledger_wf l" "ledger.more l = ledger.more c"
    "rebuild_block (of_nat (length (bc_blocks c))) block c = Inr (l\<lparr>lg_paymentIdIndex := lg_paymentIdIndex c\<rparr>)"
    "c' = l\<lparr>bc_blocks := bc_blocks c @ [block], bc_blockIndex := bc_blockIndex c @ [h],
       bc_timestampIndex := snd (tbi_add (bl_timestamp bl) h (bc_timestampIndex c)),
       bc_generatedTransactionsIndex := generated_state (map block_count (bc_blocks c @ [block])),
       bc_depositIndex := di, bc_upgradeDetectorV2 := u, bc_current_block_cumul_sz_limit := lim\<rparr>"
    by (rule accepted_block [OF push sound inv len]) blast
  have d: "di_inv di" "unat (di_blockCount di) = Suc (length (bc_blocks c))"
    using di.inv_push [of "bc_depositIndex c" "(block_deposit block, block_interest block)" di]
      di.count_push [of "bc_depositIndex c" "(block_deposit block, block_interest block)" di] A(4) V(7,8) len by simp_all
  have u: "detector_ok cur (Suc (length (bc_blocks c))) u"
    using blockPopped_blockPushed(2) [of cur "map be_bl (bc_blocks c)" "bc_upgradeDetectorV2 c" bl u] A(5) V(9) len by simp
  have t: "sorted (map fst (snd (tbi_add (bl_timestamp bl) h (bc_timestampIndex c))))"
    "mset (snd (tbi_add (bl_timestamp bl) h (bc_timestampIndex c))) = mset (bc_timestampIndex c) + {#(bl_timestamp bl, h)#}"
    using tsb.add_inv [OF V(4), of "(bl_timestamp bl, h)"] tsb.add_content [OF V(4), of "(bl_timestamp bl, h)"] by simp_all
  have "rebuild_entry (of_nat (length (bc_blocks c))) block c =
      Inr (l\<lparr>lg_paymentIdIndex := lg_paymentIdIndex c, bc_blockIndex := bc_blockIndex c @ [h], bc_depositIndex := di\<rparr>)"
    using A(3,4) same_more_chain(3) [OF A(7)]
    by (simp add: rebuild_entry_def A(1,2,8) push_id_def rebuild_block_index pushToDepositIndex_def)
  from rebuild_snoc [OF V(10) this, of c']
  have "rebuildMoonBank (c'\<lparr>bc_depositIndex := deposit_index_new\<rparr>) = Inr c'"
    by (simp add: A(9) transplant_def)
  then show ?thesis
    unfolding chain_inv_def using A(3,6) V(2,3,5) d u t
    by (simp add: A(9) ledger_wf_def A(1))
qed

section \<open>Popping takes back what pushing did\<close>

text \<open>The same chain, but for the order in the unordered payment index and among equal timestamps, and for the
  limit on the size of the next block, which popping does not compute again.\<close>

definition same_chain :: "blockchain \<Rightarrow> blockchain \<Rightarrow> bool" where
  "same_chain c r \<longleftrightarrow>
     lg_spent_keys r = lg_spent_keys c \<and> lg_outputs r = lg_outputs c \<and> lg_transactionMap r = lg_transactionMap c \<and>
     lg_multisignatureOutputs r = lg_multisignatureOutputs c \<and> mset (lg_paymentIdIndex r) = mset (lg_paymentIdIndex c) \<and>
     bc_blocks r = bc_blocks c \<and> bc_blockIndex r = bc_blockIndex c \<and> bc_depositIndex r = bc_depositIndex c \<and>
     bc_upgradeDetectorV2 r = bc_upgradeDetectorV2 c \<and>
     mset (bc_timestampIndex r) = mset (bc_timestampIndex c) \<and>
     sorted (map fst (bc_timestampIndex r)) = sorted (map fst (bc_timestampIndex c)) \<and>
     bc_generatedTransactionsIndex r = bc_generatedTransactionsIndex c \<and> bc_orthanBlocksIndex r = bc_orthanBlocksIndex c \<and>
     bc_alternative_chains r = bc_alternative_chains c \<and> bc_checkpoints r = bc_checkpoints c"

lemma same_chain_refl [simp]: "same_chain c c"
  by (simp add: same_chain_def)

lemma same_ledger_chain: "same_ledger c r \<Longrightarrow> same_chain c r"
  by (cases c, cases r) (simp add: same_ledger_def same_chain_def)

lemma inv_same_chain:
  assumes "chain_inv cur c" "same_chain c r"
  shows "chain_inv cur r"
proof -
  note V = chain_invD [OF assms(1)]
  let ?f = "\<lambda>b. rebuild_entry (of_nat b) (bc_blocks c ! b)"
  have "cleared r = transplant r (cleared c)" by (simp add: cleared_def transplant_def)
  moreover have "fold_res ?f [0..<length (bc_blocks c)] (transplant r (cleared c)) =
      map_sum id (transplant r) (fold_res ?f [0..<length (bc_blocks c)] (cleared c))"
    by (rule fold_res_map) (rule rebuild_entry_transplant)
  moreover have "transplant r c = r" using assms(2) by (simp add: same_chain_def transplant_def)
  ultimately have "rebuildMoonBank (r\<lparr>bc_depositIndex := deposit_index_new\<rparr>) = Inr r"
    using V(10) assms(2) by (simp add: rebuild_cleared same_chain_def)
  then show ?thesis
    using V assms(2) by (simp add: chain_inv_def same_chain_def ledger_wf_def)
qed

lemma popTransactions_eq:
  "popTransactions block mh l =
     (let n = length (be_transactions block); hs = bl_transactionHashes (be_bl block) in
      if n = 0 \<or> length hs < n - 1 then Inl OutOfRange
      else undo_txs (map (\<lambda>(e, h). (te_tx e, h)) (rev (zip (tl (be_transactions block)) hs)) @
             [(bl_baseTransaction (be_bl block), mh)]) l)"
  by (simp add: popTransactions_def Let_def pop_entries_undo undo_txs_append bind_res_def split: sum.split)

text \<open>Taking the transactions back depends on the ledger alone.\<close>

lemma popTransactions_frame:
  assumes "popTransactions block mh l = Inr r" "ledger.truncate l' = ledger.truncate l"
  shows "\<exists>r'. popTransactions block mh l' = Inr r' \<and> ledger.truncate r' = ledger.truncate r \<and> ledger.more r' = ledger.more l'"
  using assms(1) undo_txs_frame [OF _ assms(2)] by (auto simp: popTransactions_eq Let_def split: if_split_asm)

lemma popTransactions_same:
  assumes "popTransactions block mh l = Inr l'" "same_ledger l r"
  shows "\<exists>r'. popTransactions block mh r = Inr r' \<and> same_ledger l' r'"
  using assms(1) undo_txs_same [OF assms(2)] by (auto simp: popTransactions_eq Let_def split: if_split_asm)

lemma same_chain_truncate:
  assumes "same_ledger c r" "ledger.truncate r' = ledger.truncate r"
  shows "lg_spent_keys r' = lg_spent_keys c" "lg_outputs r' = lg_outputs c" "lg_transactionMap r' = lg_transactionMap c"
    "lg_multisignatureOutputs r' = lg_multisignatureOutputs c" "mset (lg_paymentIdIndex r') = mset (lg_paymentIdIndex c)"
  using assms by (cases c; cases r; cases r'; simp add: same_ledger_def ledger.truncate_def)+

lemma same_more_all:
  assumes "ledger.more c = ledger.more (c0 :: blockchain)"
  shows "bc_orthanBlocksIndex c = bc_orthanBlocksIndex c0" "bc_alternative_chains c = bc_alternative_chains c0"
    "bc_checkpoints c = bc_checkpoints c0" "bc_current_block_cumul_sz_limit c = bc_current_block_cumul_sz_limit c0"
  using assms by (cases c; cases c0; simp)+

lemma pop_accepted:
  assumes push: "pushBlock_txs cur env bl txs h0 bvc c = Inr (True, bvc', c')"
    and sound: "sound_block bl txs c" and inv: "chain_inv cur c" and len: "Suc (length (bc_blocks c)) < 2 ^ 32 - 1"
  shows "\<exists>h block r. get_block_hash bl = Inr h \<and> bc_blocks c' = bc_blocks c @ [block] \<and> be_bl block = bl \<and>
    map te_tx (be_transactions block) = bl_baseTransaction bl # txs \<and> pop_last_block cur h c' = Inr r \<and> same_chain c r"
proof -
  note V = chain_invD [OF inv]
  let ?mh = "tx_hash (bl_baseTransaction bl)"
  obtain l block h di u lim where A: "be_bl block = bl" "get_block_hash bl = Inr h"
    "map te_tx (be_transactions block) = bl_baseTransaction bl # txs"
    "base_height bl = Inr (of_nat (length (bc_blocks c)))"
    "DepositIndex.pushBlock (block_deposit block) (block_interest block) (bc_depositIndex c) = Inr di"
    "blockPushed cur (map be_bl (bc_blocks c) @ [bl]) (bc_upgradeDetectorV2 c) = Inr u"
    "ledger.more l = ledger.more c" "\<exists>r. popTransactions block ?mh l = Inr r \<and> same_ledger c r"
    "c' = l\<lparr>bc_blocks := bc_blocks c @ [block], bc_blockIndex := bc_blockIndex c @ [h],
       bc_timestampIndex := snd (tbi_add (bl_timestamp bl) h (bc_timestampIndex c)),
       bc_generatedTransactionsIndex := generated_state (map block_count (bc_blocks c @ [block])),
       bc_depositIndex := di, bc_upgradeDetectorV2 := u, bc_current_block_cumul_sz_limit := lim\<rparr>"
    by (rule accepted_block [OF push sound inv len], rule that; assumption)
  obtain r where r: "popTransactions block ?mh l = Inr r" "same_ledger c r" using A(8) by blast
  have "ledger.truncate c' = ledger.truncate l" by (simp add: A(9) ledger.truncate_def)
  then obtain r' where r': "popTransactions block ?mh c' = Inr r'" "ledger.truncate r' = ledger.truncate r" "ledger.more r' = ledger.more c'"
    using popTransactions_frame [OF r(1)] by blast
  note S = same_chain_truncate [OF r(2) r'(2)] and M = same_more_chain [OF r'(3)] same_more_all [OF r'(3)]
  have g: "gti_remove bl (generated_state (map block_count (bc_blocks c @ [block]))) = Inr (True, generated_state (map block_count (bc_blocks c)))"
    using generated_remove [of bl "map block_count (bc_blocks c)" "block_count block"] A(4) len by simp
  have d: "DepositIndex.popBlock di = Inr (bc_depositIndex c)"
    by (rule popBlock_pushBlock [OF V(7) _ A(5)]) (use V(8) len in simp)
  have u: "blockPopped cur (map be_bl (bc_blocks c)) u = Inr (bc_upgradeDetectorV2 c)"
    using blockPopped_blockPushed(1) [of cur "map be_bl (bc_blocks c)" "bc_upgradeDetectorV2 c" bl u] A(6) V(9) len by simp
  let ?ts = "snd (tbi_remove (bl_timestamp bl) h (snd (tbi_add (bl_timestamp bl) h (bc_timestampIndex c))))"
  have "sorted (map fst (snd (tbi_add (bl_timestamp bl) h (bc_timestampIndex c))))"
    "mset (snd (tbi_add (bl_timestamp bl) h (bc_timestampIndex c))) = mset (bc_timestampIndex c) + {#(bl_timestamp bl, h)#}"
    using tsb.add_inv [OF V(4), of "(bl_timestamp bl, h)"] tsb.add_content [OF V(4), of "(bl_timestamp bl, h)"] by simp_all
  then have t: "sorted (map fst ?ts)" "mset ?ts = mset (bc_timestampIndex c)"
    using tsb.remove_inv [of _ "(bl_timestamp bl, h)"] tsb.remove_content [of _ "(bl_timestamp bl, h)"] by simp_all
  have "ucast (size_bi (bc_blockIndex c)) = (of_nat (length (bc_blocks c)) :: u64)"
    using V(3) len by (simp add: size_bi_def word_unat_eq_iff unat_of_nat unat_ucast_len)
  then have pop: "pop_last_block cur h c' = Inr (r'\<lparr>bc_timestampIndex := ?ts,
      bc_generatedTransactionsIndex := generated_state (map block_count (bc_blocks c)), bc_depositIndex := bc_depositIndex c,
      bc_blocks := bc_blocks c, bc_blockIndex := bc_blockIndex c, bc_upgradeDetectorV2 := bc_upgradeDetectorV2 c\<rparr>)"
    using r'(1) g d u by (simp add: pop_last_block_def A(1,9) M Let_def pop_id_def)
  have "same_chain c (r'\<lparr>bc_timestampIndex := ?ts,
      bc_generatedTransactionsIndex := generated_state (map block_count (bc_blocks c)), bc_depositIndex := bc_depositIndex c,
      bc_blocks := bc_blocks c, bc_blockIndex := bc_blockIndex c, bc_upgradeDetectorV2 := bc_upgradeDetectorV2 c\<rparr>)"
    using S t V(4,6) by (simp add: same_chain_def M A(9) same_more_all [OF A(7)])
  then show ?thesis using A(1-3) pop by (auto simp: A(9))
qed

text \<open>Popping the same chain gives the same chain.\<close>

lemma pop_last_block_InrE:
  assumes "pop_last_block cur h c = Inr r"
  obtains x n g d u where
    "popTransactions (last (bc_blocks c)) (tx_hash (bl_baseTransaction (be_bl (last (bc_blocks c))))) c = Inr x"
    "gti_remove (be_bl (last (bc_blocks c))) (bc_generatedTransactionsIndex x) = Inr (n, g)"
    "DepositIndex.popBlock (bc_depositIndex x) = Inr d"
    "ucast (size_bi (pop_id (bc_blockIndex x))) = (of_nat (length (butlast (bc_blocks x))) :: u64)"
    "blockPopped cur (map be_bl (butlast (bc_blocks x))) (bc_upgradeDetectorV2 x) = Inr u"
    "r = x\<lparr>bc_timestampIndex := snd (tbi_remove (bl_timestamp (be_bl (last (bc_blocks c)))) h (bc_timestampIndex x)),
       bc_generatedTransactionsIndex := g, bc_depositIndex := d, bc_blocks := butlast (bc_blocks x),
       bc_blockIndex := pop_id (bc_blockIndex x), bc_upgradeDetectorV2 := u\<rparr>"
  using assms by (auto simp: pop_last_block_def Let_def bind_res_Inr assert_res_Inr)

lemma popTransactions_more: "popTransactions block mh l = Inr r \<Longrightarrow> ledger.more r = ledger.more l"
  by (auto simp: popTransactions_eq Let_def dest: undo_txs_more split: if_split_asm)

lemma pop_same_chain:
  assumes same: "same_chain c c'" and sorted: "sorted (map fst (bc_timestampIndex c))" and pop: "pop_last_block cur h c = Inr r"
  shows "\<exists>r'. pop_last_block cur h c' = Inr r' \<and> same_chain r r'"
proof -
  let ?b = "last (bc_blocks c)"
  obtain x n g d u where P: "popTransactions ?b (tx_hash (bl_baseTransaction (be_bl ?b))) c = Inr x"
    "gti_remove (be_bl ?b) (bc_generatedTransactionsIndex x) = Inr (n, g)"
    "DepositIndex.popBlock (bc_depositIndex x) = Inr d"
    "ucast (size_bi (pop_id (bc_blockIndex x))) = (of_nat (length (butlast (bc_blocks x))) :: u64)"
    "blockPopped cur (map be_bl (butlast (bc_blocks x))) (bc_upgradeDetectorV2 x) = Inr u"
    "r = x\<lparr>bc_timestampIndex := snd (tbi_remove (bl_timestamp (be_bl ?b)) h (bc_timestampIndex x)),
       bc_generatedTransactionsIndex := g, bc_depositIndex := d, bc_blocks := butlast (bc_blocks x),
       bc_blockIndex := pop_id (bc_blockIndex x), bc_upgradeDetectorV2 := u\<rparr>"
    by (rule pop_last_block_InrE [OF pop], rule that; assumption)
  have "same_ledger c (c\<lparr>lg_paymentIdIndex := lg_paymentIdIndex c'\<rparr>)"
    using same by (simp add: same_ledger_def same_chain_def)
  then obtain y where y: "popTransactions ?b (tx_hash (bl_baseTransaction (be_bl ?b))) (c\<lparr>lg_paymentIdIndex := lg_paymentIdIndex c'\<rparr>) = Inr y"
    "same_ledger x y"
    using popTransactions_same [OF P(1)] by blast
  have "ledger.truncate c' = ledger.truncate (c\<lparr>lg_paymentIdIndex := lg_paymentIdIndex c'\<rparr>)"
    using same by (simp add: same_chain_def ledger.truncate_def)
  then obtain x' where x': "popTransactions ?b (tx_hash (bl_baseTransaction (be_bl ?b))) c' = Inr x'"
    "ledger.truncate x' = ledger.truncate y" "ledger.more x' = ledger.more c'"
    using popTransactions_frame [OF y(1)] by blast
  note S = same_chain_truncate [OF y(2) x'(2)]
    and M' = same_more_chain [OF x'(3)] same_more_all [OF x'(3)]
    and M = same_more_chain [OF popTransactions_more [OF P(1)]] same_more_all [OF popTransactions_more [OF P(1)]]
  let ?e = "(bl_timestamp (be_bl ?b), h)"
  have ts: "sorted (map fst (bc_timestampIndex c'))" using same sorted by (simp add: same_chain_def)
  note T = tsb.remove_inv [OF sorted, of ?e] tsb.remove_inv [OF ts, of ?e]
    tsb.remove_content [OF sorted, of ?e] tsb.remove_content [OF ts, of ?e]
  let ?r = "x'\<lparr>bc_timestampIndex := snd (tbi_remove (bl_timestamp (be_bl ?b)) h (bc_timestampIndex c')),
       bc_generatedTransactionsIndex := g, bc_depositIndex := d, bc_blocks := butlast (bc_blocks c),
       bc_blockIndex := pop_id (bc_blockIndex c), bc_upgradeDetectorV2 := u\<rparr>"
  have "pop_last_block cur h c' = Inr ?r"
    using same x'(1) P(2-5) by (simp add: same_chain_def pop_last_block_def M M' Let_def)
  moreover have "same_chain r ?r"
    using S T same by (simp add: same_chain_def P(6) M M')
  ultimately show ?thesis by blast
qed

section \<open>Rejected blocks\<close>

lemma rejected:
  assumes push: "pushBlock_txs cur env bl txs h0 bvc c = Inr (False, bvc', c')"
    and sound: "sound_block bl txs c" and wf: "ledger_wf c"
  shows "same_ledger c c' \<or> (\<exists>s. loop_inv bl (tx_hash (bl_baseTransaction bl)) c (block_txs bl txs) s \<and> c' = ps_chain s \<and>
    checkCumulativeBlockSize cur (ps_size s) (ucast (be_height (ps_block s))) = Inr False)"
proof -
  let ?mh = "tx_hash (bl_baseTransaction bl)"
  obtain verdict where v: "push_checks cur env bl h0 c = Inr verdict"
    using push unfolding pushBlock_txs_def Let_def by (cases "push_checks cur env bl h0 c") simp_all
  consider "c' = c" | d where "verdict = Some (True, d)"
  proof (cases verdict)
    case None
    then have "c' = c" using push v by (simp add: pushBlock_txs_def Let_def)
    then show ?thesis by (rule that(1))
  next
    case (Some vd)
    obtain ok d where vd: "vd = (ok, d)" by (cases vd)
    show ?thesis
    proof (cases ok)
      case False
      then have "c' = c" using push v Some vd by (simp add: pushBlock_txs_def Let_def)
      then show ?thesis by (rule that(1))
    qed (use that(2) Some vd in simp)
  qed
  then show ?thesis
  proof cases
    case 2
    note v = v [unfolded 2]
    obtain s0 where p0: "start_block bl c = Inr s0"
      using push by (cases "start_block bl c") (simp_all add: pushBlock_txs_def Let_def v)
    obtain valid s where p1: "push_txs cur env ?mh (block_txs bl txs) s0 = Inr (valid, s)"
      using push by (cases "push_txs cur env ?mh (block_txs bl txs) s0") (auto simp: pushBlock_txs_def Let_def v p0)
    note p = p0 p1
    note L = pushed_loop [OF v p(1,2) sound wf]
    show ?thesis
    proof (cases valid)
      case False
      then show ?thesis using L push by (simp add: pushBlock_txs_def Let_def v p)
    next
      case True
      with L have L: "loop_inv bl ?mh c (block_txs bl txs) s" by simp
      note I = loop_invD [OF L] and B = block_txs_map [OF sound]
      obtain size_ok where z: "checkCumulativeBlockSize cur (ps_size s) (ucast (be_height (ps_block s))) = Inr size_ok"
        using push by (cases "checkCumulativeBlockSize cur (ps_size s) (ucast (be_height (ps_block s)))")
          (simp_all add: pushBlock_txs_def Let_def v p True)
      have u: "popTransactions (ps_block s) ?mh (ps_chain s) =
          undo_txs (rev ((bl_baseTransaction bl, ?mh) # block_txs bl txs)) (ps_chain s)"
        by (rule popTransactions_block [OF sound I(1)]) (use I(3) B(2) in simp)
      show ?thesis
      proof (cases size_ok)
        case True': True
        have "popTransactions (ps_block s) ?mh (ps_chain s) = Inr c'"
        proof -
          let ?coins = "if bc_blocks c = [] then 0 else be_already_generated_coins (last (bc_blocks c))"
          let ?m = "validate_miner_transaction cur (ps_chain s) bl (be_height (ps_block s)) (ps_size s) ?coins (ps_fee s)"
          have T: "valid = True" "size_ok = True" using True True' by simp_all
          note push' = push [unfolded pushBlock_txs_def Let_def v p z T bind_res_simps option.case prod.case not_True_eq_False if_False]
          obtain ok rw em where m: "?m = Inr (ok, rw, em)"
            using push' by (cases ?m) auto
          show ?thesis
            using push' [unfolded m bind_res_simps prod.case]
            by (cases ok; cases "popTransactions (ps_block s) ?mh (ps_chain s)"; cases "finish_block cur d em s")
              (simp_all only: simp_thms if_True if_False bind_res_simps sum.inject sum.distinct prod.inject)
        qed
        then have "undo_txs (rev ((bl_baseTransaction bl, ?mh) # block_txs bl txs)) (ps_chain s) = Inr c'" by (simp only: u)
        then show ?thesis using I(8) by auto
      next
        case False
        then have "c' = ps_chain s" using push by (simp add: pushBlock_txs_def Let_def v p True z)
        moreover have "checkCumulativeBlockSize cur (ps_size s) (ucast (be_height (ps_block s))) = Inr False"
          using z False by simp
        ultimately show ?thesis using L by (intro disjI2 exI conjI)
      qed
    qed
  qed simp
qed

text \<open>Without the miner's transaction in the ledger it is the one from before.\<close>

lemma rejected_clean:
  assumes "pushBlock_txs cur env bl txs h0 bvc c = Inr (False, bvc', c')" "sound_block bl txs c" "ledger_wf c"
    "lg_transactionMap c' (tx_hash (bl_baseTransaction bl)) = None"
  shows "same_ledger c c'"
proof -
  have "tx_hash (bl_baseTransaction bl) \<in> dom (lg_transactionMap (ps_chain s))"
    if "loop_inv bl (tx_hash (bl_baseTransaction bl)) c (block_txs bl txs) s" for s
    using loop_invD(7) [OF that] by simp
  then show ?thesis using rejected [OF assms(1-3)] assms(4) by blast
qed

section \<open>Every chain that can be reached\<close>

text \<open>Blocks are pushed and accepted, pushed and rejected with the ledger cleaned up, or popped.\<close>

inductive chain_step :: "currency \<Rightarrow> blockchain \<Rightarrow> blockchain \<Rightarrow> bool" for cur where
  accepted: "pushBlock_txs cur env bl txs h bvc c = Inr (True, bvc', c') \<Longrightarrow> sound_block bl txs c \<Longrightarrow>
    Suc (length (bc_blocks c)) < 2 ^ 32 - 1 \<Longrightarrow> chain_step cur c c'"
| turned_down: "pushBlock_txs cur env bl txs h bvc c = Inr (False, bvc', c') \<Longrightarrow> sound_block bl txs c \<Longrightarrow>
    lg_transactionMap c' (tx_hash (bl_baseTransaction bl)) = None \<Longrightarrow> chain_step cur c c'"
| popped: "bc_blocks c \<noteq> [] \<Longrightarrow> get_block_hash (be_bl (last (bc_blocks c))) = Inr h \<Longrightarrow>
    pop_last_block cur h c = Inr c' \<Longrightarrow> chain_step cur c c'"

inductive chain_reachable :: "currency \<Rightarrow> blockchain \<Rightarrow> bool" for cur where
  initial: "chain_reachable cur (empty_chain cps v limit)"
| further: "chain_reachable cur c \<Longrightarrow> chain_step cur c c' \<Longrightarrow> chain_reachable cur c'"

text \<open>The chains that pushing alone gives, up to the order in the indices. Popping stays among them.\<close>

inductive grown :: "currency \<Rightarrow> blockchain \<Rightarrow> bool" for cur where
  empty: "grown cur (empty_chain cps v limit)"
| push: "grown cur c \<Longrightarrow> pushBlock_txs cur env bl txs h bvc c = Inr (True, bvc', c') \<Longrightarrow> sound_block bl txs c \<Longrightarrow>
    Suc (length (bc_blocks c)) < 2 ^ 32 - 1 \<Longrightarrow> grown cur c'"
| same: "grown cur c \<Longrightarrow> same_chain c r \<Longrightarrow> grown cur r"

lemma grown_inv: "grown cur c \<Longrightarrow> chain_inv cur c"
  by (induction rule: grown.induct) (auto intro: empty_chain_inv push_keeps_inv inv_same_chain)

lemma grown_pop:
  assumes "grown cur c" "bc_blocks c \<noteq> []"
  shows "\<exists>h r. get_block_hash (be_bl (last (bc_blocks c))) = Inr h \<and> pop_last_block cur h c = Inr r \<and> grown cur r \<and>
    bc_blocks r = butlast (bc_blocks c)"
  using assms
proof (induction rule: grown.induct)
  case (push c env bl txs h bvc bvc' c')
  from pop_accepted [OF push.hyps(2,3) grown_inv [OF push.hyps(1)] push.hyps(4)]
  obtain h' block r where "get_block_hash bl = Inr h'" "bc_blocks c' = bc_blocks c @ [block]" "be_bl block = bl"
    "pop_last_block cur h' c' = Inr r" "same_chain c r" by blast
  then show ?case using grown.same [OF push.hyps(1)] by (auto simp: same_chain_def)
next
  case (same c r)
  note sameD = same.hyps(2) [unfolded same_chain_def]
  from same sameD obtain h x where x: "get_block_hash (be_bl (last (bc_blocks c))) = Inr h" "pop_last_block cur h c = Inr x"
    "grown cur x" "bc_blocks x = butlast (bc_blocks c)" by auto
  obtain r' where "pop_last_block cur h r = Inr r'" "same_chain x r'"
    using pop_same_chain [OF same.hyps(2) chain_invD(4) [OF grown_inv [OF same.hyps(1)]] x(2)] by blast
  then show ?case using x(1,3,4) sameD grown.same by (auto simp: same_chain_def)
qed (simp add: empty_chain_def)

lemma reachable_grown: "chain_reachable cur c \<Longrightarrow> grown cur c"
proof (induction rule: chain_reachable.induct)
  case (further c c')
  from further.hyps(2) show ?case
  proof cases
    case (accepted env bl txs h bvc bvc')
    then show ?thesis using grown.push [OF further.IH] by blast
  next
    case (turned_down env bl txs h bvc bvc')
    have "same_ledger c c'" by (rule rejected_clean [OF turned_down(1,2) chain_invD(1) [OF grown_inv [OF further.IH]] turned_down(3)])
    then show ?thesis using grown.same [OF further.IH] same_ledger_chain by blast
  next
    case (popped h)
    then show ?thesis using grown_pop [OF further.IH] by auto
  qed
qed (rule grown.empty)

section \<open>A first block\<close>

text \<open>A block for the empty chain, with an environment that accepts it.\<close>

definition lone_env :: environment where
  "lone_env = \<lparr>env_now = 0, env_check_key = (\<lambda>_. True), env_check_signature = (\<lambda>_ _ _. True),
     env_check_ring_signature = (\<lambda>_ _ _ _. True), env_scalarmultKey = (\<lambda>k _. k), env_cn_slow_hash = (\<lambda>_. replicate 32 0),
     env_cn_moonbank_slow_hash_v0 = (\<lambda>_. replicate 32 0), env_difficulty_asserts = True, env_load_checkpoints_from_dns = id\<rparr>"

definition lone_block :: Block where
  "lone_block = \<lparr>bl_majorVersion = 1, bl_minorVersion = 0, bl_nonce = 0, bl_timestamp = 0, bl_previousBlockHash = NULL_HASH,
     bl_baseTransaction = \<lparr>tx_version = 1, tx_unlockTime = 10, tx_inputs = [BaseInput 0],
       tx_outputs = [], tx_extra = [], tx_signatures = []\<rparr>, bl_transactionHashes = []\<rparr>"

abbreviation lone_chain :: blockchain where
  "lone_chain \<equiv> empty_chain [] 2 0"

lemma lone_block_simps [simp]:
  "bl_majorVersion lone_block = 1" "bl_previousBlockHash lone_block = NULL_HASH" "bl_transactionHashes lone_block = []"
  "bl_timestamp lone_block = 0" "tx_inputs (bl_baseTransaction lone_block) = [BaseInput 0]"
  "tx_outputs (bl_baseTransaction lone_block) = []"
  by (simp_all add: lone_block_def)

lemma empty_chain_simps [simp]:
  "bc_blocks (empty_chain cps v limit) = []" "bc_blockIndex (empty_chain cps v limit) = []"
  "bc_checkpoints (empty_chain cps v limit) = cps" "bc_upgradeDetectorV2 (empty_chain cps v limit) = new_detector v"
  "lg_transactionMap (empty_chain cps v limit) = Map.empty" "lg_spent_keys (empty_chain cps v limit) = Map.empty"
  by (simp_all add: empty_chain_def)

lemma single_blob:
  assumes "ok_header (BlockHeader.truncate b)" "bl_transactionHashes b = []"
  shows "\<exists>ba. get_block_hashing_blob b = Inr (Some ba)"
  using chead.writes [OF assms(1)] assms(2)
  by (auto simp: toBinaryArray_def get_block_hashing_blob_def get_tx_tree_hash_def tree_hash_def)

lemma lone_blob: "\<exists>ba. get_block_hashing_blob lone_block = Inr (Some ba)"
  by (intro single_blob)
    (simp_all add: lone_block_def BlockHeader.truncate_def ok_header_def NULL_HASH_def BLOCK_MAJOR_VERSION_2_def)

lemma lone_hash: "\<exists>h. get_block_hash lone_block = Inr h"
  using lone_blob by (auto simp: get_block_hash_def)

lemma lone_work:
  assumes "get_block_hashing_blob b = Inr (Some ba)"
  shows "checkProofOfWork lone_env b 1 = Inr True"
proof -
  have "hash_word (replicate 32 0) i = 0" for i
  proof -
    have "foldr (\<lambda>b acc. ucast b + 256 * acc) (replicate n (0 :: u8)) 0 = (0 :: u64)" for n by (induction n) simp_all
    then show ?thesis by (simp add: hash_word_def le_word_def)
  qed
  then have "check_hash (replicate 32 0) 1" by (simp add: check_hash_def mul_words_def cadd_def cadc_def Let_def)
  then show ?thesis using assms by (simp add: checkProofOfWork_def get_block_longhash_def lone_env_def)
qed

lemma lone_checks_size: "push_checks (default_currency\<lparr>cur_maxBlockSizeInitial := n\<rparr>) lone_env lone_block h lone_chain = Inr (Some (True, 1))"
proof -
  have v: "checkBlockVersion (default_currency\<lparr>cur_maxBlockSizeInitial := n\<rparr>) lone_chain lone_block"
    by (simp add: checkBlockVersion_def get_block_major_version_for_height_def get_block_height_def BLOCK_MAJOR_VERSION_1_def)
  have t: "check_block_timestamp_main (default_currency\<lparr>cur_maxBlockSizeInitial := n\<rparr>) lone_env lone_chain lone_block"
    by (simp add: check_block_timestamp_main_def check_block_timestamp_def default_currency_def BLOCKCHAIN_TIMESTAMP_CHECK_WINDOW_def)
  have d: "getDifficultyForNextBlock (default_currency\<lparr>cur_maxBlockSizeInitial := n\<rparr>) lone_env lone_chain = Inr 1"
    by (simp add: getDifficultyForNextBlock_def lwma_def lone_env_def LWMA3Difficulty_def)
  have m: "prevalidate_miner_transaction (default_currency\<lparr>cur_maxBlockSizeInitial := n\<rparr>) lone_env lone_block 0 = Inr True"
    by (simp add: prevalidate_miner_transaction_def lone_block_def default_currency_def MINED_COINS_UNLOCK_WINDOW_def check_outs_overflow_def)
  have w: "checkProofOfWork lone_env lone_block 1 = Inr True"
    using lone_blob by (auto intro: lone_work)
  show ?thesis
    by (simp add: push_checks_def hasBlock_def getBlockHeight_def tailId_def getCurrentBlockchainHeight_def
        is_in_checkpoint_zone_def v t d m w)
qed

lemma lone_checks: "push_checks default_currency lone_env lone_block h lone_chain = Inr (Some (True, 1))"
  using lone_checks_size [of "cur_maxBlockSizeInitial default_currency" h] by simp

lemma lone_start:
  "\<exists>block c. start_block lone_block lone_chain = Inr \<lparr>ps_block = block, ps_transaction = 0,
     ps_size = getObjectBinarySize ser_Transaction (bl_baseTransaction lone_block), ps_fee = 0, ps_interest = 0, ps_chain = c\<rparr> \<and>
     be_bl block = lone_block \<and> be_height block = 0 \<and> map te_tx (be_transactions block) = [bl_baseTransaction lone_block] \<and>
     ledger.more c = ledger.more lone_chain"
  by (simp add: start_block_def Let_def getCurrentBlockchainHeight_def pushTransaction_def miner_entry_def at_res_def
      checkMultisignatureInputsDiff_def for_u16_eq push_outputs_def)

lemma lone_size: "getObjectBinarySize ser_Transaction (bl_baseTransaction lone_block) = 7"
  by code_simp

lemma lone_reward: "\<exists>r e. getBlockReward default_currency 0 7 0 0 0 = Inr (Some (r, e))"
  by (simp add: getBlockReward_def default_currency_def config baseRewardFunction_def Let_def at_res_def
      REWARD_INCREASING_FACTOR_def getPenalizedAmount_def)

lemma lone_small: "checkCumulativeBlockSize default_currency 7 0 = Inr True"
  by (simp add: checkCumulativeBlockSize_def maxBlockCumulativeSize_def default_currency_def config)

lemma lone_deposit: "\<exists>di. DepositIndex.pushBlock 0 0 deposit_index_new = Inr di"
  by (simp add: DepositIndex.pushBlock_def deposit_index_new_def sumWillOverflow_s64_def sumWillOverflow_u64_def)

lemma lone_detector: "blockPushed default_currency [lone_block] (new_detector 2) = Inr (new_detector 2)"
  by (simp add: blockPushed_def new_detector_def Reward.upgradeHeight_def BLOCK_MAJOR_VERSION_2_def default_currency_def
      UPGRADE_HEIGHT_V2_def UNDEF_HEIGHT_def)

lemma lone_accepted:
  "\<exists>c. pushBlock_txs default_currency lone_env lone_block [] h new_bvc lone_chain =
     Inr (True, new_bvc\<lparr>bvc_added_to_main_chain := True\<rparr>, c)"
proof -
  obtain block c where S: "start_block lone_block lone_chain = Inr \<lparr>ps_block = block, ps_transaction = 0,
     ps_size = 7, ps_fee = 0, ps_interest = 0, ps_chain = c\<rparr>" "be_bl block = lone_block" "be_height block = 0"
     "map te_tx (be_transactions block) = [bl_baseTransaction lone_block]" "ledger.more c = ledger.more lone_chain"
    using lone_start lone_size by auto
  note M = same_more_chain [OF S(5)]
  obtain r e where R: "getBlockReward default_currency 0 7 0 0 0 = Inr (Some (r, e))" using lone_reward by blast
  have V: "validate_miner_transaction default_currency c lone_block 0 7 0 0 = Inr (True, r, e)"
    by (simp add: validate_miner_transaction_def Let_def get_last_n_blocks_sizes_def M medianValue_def R)
  obtain h' where H: "get_block_hash lone_block = Inr h'" using lone_hash by blast
  obtain di where D: "DepositIndex.pushBlock 0 0 deposit_index_new = Inr di" using lone_deposit by blast
  obtain x where x: "be_transactions block = [x]" "te_tx x = bl_baseTransaction lone_block" using S(4) by auto
  have G: "gti_add lone_block (generated_state []) = Inr (True, generated_state [1])"
    using generated_add [of lone_block "[]"] by (simp add: base_height_def)
  have "\<exists>c'. finish_block default_currency 1 e \<lparr>ps_block = block, ps_transaction = 0,
     ps_size = 7, ps_fee = 0, ps_interest = 0, ps_chain = c\<rparr> = Inr c'"
    using H D G lone_detector x
    by (simp add: finish_block_def pushEntry_def M S(2) empty_chain_def push_id_def size_bi_def pushToDepositIndex_def
        block_deposit_def Let_def)
  then show ?thesis
    using S(1,3) V lone_small by (auto simp: pushBlock_txs_def Let_def lone_checks)
qed

section \<open>Theorems\<close>

text \<open>C1. In every chain reached by pushing and popping blocks the block index, the timestamp index, the
  index of generated transactions, the deposit index and the upgrade detector agree with the blocks, and
  the last block of a chain that is not empty can always be popped.\<close>

theorem chain_consistent:
  assumes "chain_reachable cur c"
  shows "chain_inv cur c \<and>
    (bc_blocks c \<noteq> [] \<longrightarrow> (\<exists>h r. get_block_hash (be_bl (last (bc_blocks c))) = Inr h \<and>
       pop_last_block cur h c = Inr r \<and> bc_blocks r = butlast (bc_blocks c)))"
  using grown_inv [OF reachable_grown [OF assms]] grown_pop [OF reachable_grown [OF assms]] by blast

lemma lone_sound: "sound_block lone_block [] lone_chain"
  by (simp add: sound_block_def isInCheckpointZone_def is_in_checkpoint_zone_def)

lemma lone_reachable:
  obtains c where "chain_reachable default_currency c" "map be_bl (bc_blocks c) = [lone_block]"
proof -
  obtain c where c: "pushBlock_txs default_currency lone_env lone_block [] [] new_bvc lone_chain =
     Inr (True, new_bvc\<lparr>bvc_added_to_main_chain := True\<rparr>, c)"
    using lone_accepted by blast
  have "chain_reachable default_currency c"
    by (rule chain_reachable.further [OF chain_reachable.initial chain_step.accepted [OF c lone_sound]]) simp
  moreover obtain block where "bc_blocks c = bc_blocks lone_chain @ [block]" "be_bl block = lone_block"
    using pop_accepted [OF c lone_sound empty_chain_inv] by auto
  ultimately show ?thesis by (intro that [of c]) simp_all
qed

theorem chain_consistent_witness:
  "\<exists>c. map be_bl (bc_blocks c) = [lone_block] \<and> chain_inv default_currency c \<and>
    (\<exists>h r. pop_last_block default_currency h c = Inr r \<and> bc_blocks r = [])"
proof -
  obtain c where c: "chain_reachable default_currency c" "map be_bl (bc_blocks c) = [lone_block]"
    by (rule lone_reachable)
  then have "bc_blocks c \<noteq> []" "butlast (bc_blocks c) = []" by auto
  with chain_consistent [OF c(1)] obtain h r where "chain_inv default_currency c" "pop_last_block default_currency h c = Inr r" "bc_blocks r = []"
    by auto
  with c(2) show ?thesis by (intro exI [of _ c] conjI exI [of _ h] exI [of _ r])
qed



text \<open>C2. Popping a block that was just accepted gives back the chain as it was, but for the order of entries
  with equal keys in two indices and for the limit on the size of the next block, and hands the block's
  transactions, in order, to the pool.\<close>

theorem pop_undoes_push:
  assumes "chain_reachable cur c" and "sound_block bl txs c" and "Suc (length (bc_blocks c)) < 2 ^ 32 - 1"
    and "pushBlock_txs cur env bl txs blockHash bvc c = Inr (True, bvc', c')"
    and "get_block_hash bl = Inr h" and "saveTransactions cur env c' txs p = Inr p'"
  shows "\<exists>r. popBlock cur env h (c', p) = Inr (r, p') \<and> same_chain c r"
proof -
  obtain h' block r where P: "get_block_hash bl = Inr h'" "bc_blocks c' = bc_blocks c @ [block]"
    "map te_tx (be_transactions block) = bl_baseTransaction bl # txs" "pop_last_block cur h' c' = Inr r" "same_chain c r"
    using pop_accepted [OF assms(4,2) grown_inv [OF reachable_grown [OF assms(1)]] assms(3)]
    by - (elim exE conjE, rule that; assumption)
  have T: "be_transactions block \<noteq> []" "map te_tx (tl (be_transactions block)) = txs"
    using P(3) by (cases "be_transactions block"; simp)+
  have "h' = h" using P(1) assms(5) by simp
  then have "popBlock cur env h (c', p) = Inr (r, p')"
    using P(2,4) T assms(6) by (simp add: popBlock_def)
  with P(5) show ?thesis by (intro exI [of _ r] conjI)
qed

theorem pop_undoes_push_witness:
  "\<exists>c' h r. pushBlock_txs default_currency lone_env lone_block [] h new_bvc lone_chain =
       Inr (True, new_bvc\<lparr>bvc_added_to_main_chain := True\<rparr>, c') \<and>
     popBlock default_currency lone_env h (c', new_pool) = Inr (r, new_pool) \<and> same_chain lone_chain r"
proof -
  obtain h where h: "get_block_hash lone_block = Inr h" using lone_hash by blast
  obtain c' where c: "pushBlock_txs default_currency lone_env lone_block [] h new_bvc lone_chain =
     Inr (True, new_bvc\<lparr>bvc_added_to_main_chain := True\<rparr>, c')"
    using lone_accepted by blast
  have "saveTransactions default_currency lone_env c' [] new_pool = Inr new_pool" by (simp add: saveTransactions_def)
  then obtain r where "popBlock default_currency lone_env h (c', new_pool) = Inr (r, new_pool)" "same_chain lone_chain r"
    using pop_undoes_push [OF chain_reachable.initial lone_sound _ c h] by auto
  with c show ?thesis by (intro exI [of _ c'] exI [of _ h] exI [of _ r] conjI)
qed

definition block_size :: "Block \<Rightarrow> Transaction list \<Rightarrow> usize" where
  "block_size bl txs = getObjectBinarySize ser_Transaction (bl_baseTransaction bl) + sum_list (map tx_blob_size txs)"

text \<open>C8. A block that is turned down leaves the spent keys, outputs and transactions as they were, with one
  exception: when the block is turned down for its size, all its transactions stay recorded.\<close>

theorem rejected_block_effect:
  assumes "sound_block bl txs c" and "ledger_wf c" and "pushBlock_txs cur env bl txs blockHash bvc c = Inr (False, bvc', c')"
  shows "same_ledger c c' \<or>
    checkCumulativeBlockSize cur (block_size bl txs) (ucast (getCurrentBlockchainHeight c)) = Inr False \<and> bc_blocks c' = bc_blocks c \<and>
    dom (lg_transactionMap c') = dom (lg_transactionMap c) \<union> tx_hash ` set (bl_baseTransaction bl # txs)"
  using rejected [OF assms(3,1,2)]
proof (elim disjE exE conjE)
  fix s assume L: "loop_inv bl (tx_hash (bl_baseTransaction bl)) c (block_txs bl txs) s" and c': "c' = ps_chain s"
    and big: "checkCumulativeBlockSize cur (ps_size s) (ucast (be_height (ps_block s))) = Inr False"
  note I = loop_invD [OF L]
  have "dom (lg_transactionMap c') = dom (lg_transactionMap c) \<union> tx_hash ` set (bl_baseTransaction bl # txs)"
    unfolding c' I(7) block_txs_map(1) [OF assms(1)] by (simp add: image_image)
  moreover have "bc_blocks c' = bc_blocks c" using same_more_chain(1) [OF I(5)] c' by simp
  moreover have "ps_size s = block_size bl txs"
    unfolding I(11) block_size_def map_map [symmetric] block_txs_map(2) [OF assms(1)] ..
  ultimately show ?thesis using big I(2) by simp
qed simp

theorem rejected_block_effect_witness:
  "\<exists>c. pushBlock_txs (default_currency\<lparr>cur_maxBlockSizeInitial := 0\<rparr>) lone_env lone_block [] [] new_bvc lone_chain =
       Inr (False, new_bvc\<lparr>bvc_verification_failed := True\<rparr>, c) \<and> bc_blocks c = [] \<and>
     dom (lg_transactionMap c) = {tx_hash (bl_baseTransaction lone_block)}"
proof -
  obtain block c where S: "start_block lone_block lone_chain = Inr \<lparr>ps_block = block, ps_transaction = 0,
     ps_size = 7, ps_fee = 0, ps_interest = 0, ps_chain = c\<rparr>" "be_height block = 0"
    using lone_start lone_size by auto
  have "checkCumulativeBlockSize (default_currency\<lparr>cur_maxBlockSizeInitial := 0\<rparr>) 7 0 = Inr False"
    by (simp add: checkCumulativeBlockSize_def maxBlockCumulativeSize_def default_currency_def config)
  then have push: "pushBlock_txs (default_currency\<lparr>cur_maxBlockSizeInitial := 0\<rparr>) lone_env lone_block [] [] new_bvc lone_chain =
       Inr (False, new_bvc\<lparr>bvc_verification_failed := True\<rparr>, c)"
    using S by (simp add: pushBlock_txs_def Let_def lone_checks_size)
  have wf: "ledger_wf lone_chain" by (rule chain_invD(1) [OF empty_chain_inv])
  have "tx_hash (bl_baseTransaction lone_block) \<in> dom (lg_transactionMap c)"
    using loop_invD(7) [OF start_block_inv [OF S(1) wf]] by simp
  then have "\<not> same_ledger lone_chain c" by (auto simp: same_ledger_def dest: arg_cong [of _ _ lg_transactionMap])
  with rejected_block_effect [OF lone_sound wf push] push show ?thesis by (intro exI [of _ c]) simp
qed

text \<open>C34. The walk from an alternative block back to the main chain ends whenever the heights of the
  alternative blocks go down along the previous hashes: it passes no block twice and stops at a hash that
  is no alternative block. The number of steps the walk is given is never what stops it: with any other
  number it returns the same or nothing.\<close>

theorem alternative_walk_ends:
  "(\<forall>k r. alt_walk k (bc_alternative_chains c) h = Inr r \<longrightarrow> alternative_walk c h = Inr r) \<and>
   ((\<forall>x e e'. map_of (bc_alternative_chains c) x = Some e \<longrightarrow>
        map_of (bc_alternative_chains c) (bl_previousBlockHash (be_bl e)) = Some e' \<longrightarrow> be_height e' < be_height e) \<longrightarrow>
    (\<exists>w a. alternative_walk c h = Inr (w, a) \<and> distinct (map fst w) \<and> map_of (bc_alternative_chains c) a = None))"
proof (intro conjI allI impI)
  fix k r assume "alt_walk k (bc_alternative_chains c) h = Inr r"
  then show "alternative_walk c h = Inr r" unfolding alternative_walk_def by (cases r) (metis alt_walk_fuel)
next
  assume "\<forall>x e e'. map_of (bc_alternative_chains c) x = Some e \<longrightarrow>
        map_of (bc_alternative_chains c) (bl_previousBlockHash (be_bl e)) = Some e' \<longrightarrow> be_height e' < be_height e"
  then obtain k w a where "alt_walk k (bc_alternative_chains c) h = Inr (w, a)"
    using alt_walk_returns [of "bc_alternative_chains c" h] by fastforce
  from alt_walk_fuel [OF this] alt_walk_distinct [OF this]
  show "\<exists>w a. alternative_walk c h = Inr (w, a) \<and> distinct (map fst w) \<and> map_of (bc_alternative_chains c) a = None"
    unfolding alternative_walk_def by blast
qed


definition side_entry :: "u8 \<Rightarrow> u32 \<Rightarrow> BlockEntry" where
  "side_entry prev height = miner_entry (lone_block\<lparr>bl_previousBlockHash := [prev]\<rparr>) height"

theorem alternative_walk_ends_witness:
  "alternative_walk (lone_chain\<lparr>bc_alternative_chains := [([1], side_entry 0 1), ([2], side_entry 1 2)]\<rparr>) [2] =
     Inr ([([2], side_entry 1 2), ([1], side_entry 0 1)], [0]) \<and>
   (\<exists>w a. alternative_walk (lone_chain\<lparr>bc_alternative_chains := [([1], side_entry 0 1), ([2], side_entry 1 2)]\<rparr>) [3] = Inr (w, a) \<and>
     distinct (map fst w))"
proof (rule conjI)
  let ?c = "lone_chain\<lparr>bc_alternative_chains := [([1], side_entry 0 1), ([2], side_entry 1 2)]\<rparr>"
  have "alt_walk 3 (bc_alternative_chains ?c) [2] = Inr ([([2], side_entry 1 2), ([1], side_entry 0 1)], [0])"
    by (simp add: side_entry_def miner_entry_def numeral_3_eq_3)
  with alternative_walk_ends [of ?c "[2]"]
  show "alternative_walk ?c [2] = Inr ([([2], side_entry 1 2), ([1], side_entry 0 1)], [0])" by blast
  have "\<forall>x e e'. map_of (bc_alternative_chains ?c) x = Some e \<longrightarrow>
      map_of (bc_alternative_chains ?c) (bl_previousBlockHash (be_bl e)) = Some e' \<longrightarrow> be_height e' < be_height e"
    by (auto simp: side_entry_def miner_entry_def split: if_split_asm)
  with alternative_walk_ends [of ?c "[3]"]
  show "\<exists>w a. alternative_walk ?c [3] = Inr (w, a) \<and> distinct (map fst w)" by blast
qed

end
