(* ===== verification/Shuffle.thy ===== *)
theory Shuffle
  imports Loops "HOL-Library.Multiset"
begin

text \<open>
  The generator of random orders, \<^verbatim>\<open>src/Common/ShuffleGenerator.h\<close>: a Fisher-Yates shuffle of the numbers
  below \<open>N\<close> that stores only the positions that were changed. The uniform distribution of the standard library
  is a parameter: \<open>rng k m\<close> is its \<open>k\<close>-th draw from 0 to \<open>m\<close>. Whatever the draws are, the numbers come out
  without repetition, all of them after \<open>N\<close> calls, and the call after that throws.
\<close>

section \<open>Definitions\<close>

text \<open>\<open>sh_drawn\<close> counts the draws taken from the random engine.\<close>

record shuffle =
  sh_selected :: "nat \<rightharpoonup> nat"
  sh_count :: nat
  sh_N :: nat
  sh_drawn :: nat

definition shuffle_new :: "nat \<Rightarrow> nat \<Rightarrow> shuffle" where
  "shuffle_new k n = \<lparr>sh_selected = Map.empty, sh_count = n, sh_N = n, sh_drawn = k\<rparr>"

definition shuffle_next :: "(nat \<Rightarrow> nat \<Rightarrow> nat) \<Rightarrow> shuffle \<Rightarrow> (nat \<times> shuffle) result" where
  "shuffle_next rng s =
     (if sh_count s = 0 then Inl RuntimeError
      else let count = sh_count s - 1;
               v = rng (sh_drawn s) count;
               rval = (case sh_selected s count of Some r \<Rightarrow> r | None \<Rightarrow> count);
               result = (case sh_selected s v of Some l \<Rightarrow> l | None \<Rightarrow> v)
           in Inr (result, s\<lparr>sh_selected := (sh_selected s)(v \<mapsto> rval), sh_count := count, sh_drawn := sh_drawn s + 1\<rparr>))"

definition shuffle_reset :: "shuffle \<Rightarrow> shuffle" where
  "shuffle_reset s = s\<lparr>sh_count := sh_N s, sh_selected := Map.empty\<rparr>"

text \<open>The documented range of \<^verbatim>\<open>std::uniform_int_distribution\<close>.\<close>

definition in_bounds :: "(nat \<Rightarrow> nat \<Rightarrow> nat) \<Rightarrow> bool" where
  "in_bounds rng \<longleftrightarrow> (\<forall>k m. rng k m \<le> m)"

fun draw_many :: "(nat \<Rightarrow> nat \<Rightarrow> nat) \<Rightarrow> nat \<Rightarrow> shuffle \<Rightarrow> (nat list \<times> shuffle) result" where
  "draw_many rng 0 s = Inr ([], s)"
| "draw_many rng (Suc n) s =
     bind_res (shuffle_next rng s) (\<lambda>(v, s). bind_res (draw_many rng n s) (\<lambda>(vs, s). Inr (v # vs, s)))"

section \<open>The array the generator stands for\<close>

definition cell :: "shuffle \<Rightarrow> nat \<Rightarrow> nat" where
  "cell s i = (case sh_selected s i of Some v \<Rightarrow> v | None \<Rightarrow> i)"

definition left :: "shuffle \<Rightarrow> nat multiset" where
  "left s = image_mset (cell s) (mset_set {..<sh_count s})"

lemma left_new [simp]: "left (shuffle_new k n) = mset_set {..<n}"
proof -
  have "cell (shuffle_new k n) = id" by (simp add: fun_eq_iff cell_def shuffle_new_def)
  then show ?thesis by (simp add: left_def) (simp add: shuffle_new_def)
qed

lemma size_left [simp]: "size (left s) = sh_count s"
  by (simp add: left_def)

text \<open>A call takes one of the numbers that are left and keeps the others.\<close>

lemma shuffle_next_left:
  assumes "in_bounds rng" "sh_count s = Suc n"
  obtains v s' where "shuffle_next rng s = Inr (v, s')" "left s = add_mset v (left s')" "sh_count s' = n"
    "sh_N s' = sh_N s" "sh_drawn s' = Suc (sh_drawn s)"
proof -
  let ?v = "rng (sh_drawn s) n"
  let ?s' = "s\<lparr>sh_selected := (sh_selected s)(?v \<mapsto> cell s n), sh_count := n, sh_drawn := Suc (sh_drawn s)\<rparr>"
  have next_s: "shuffle_next rng s = Inr (cell s ?v, ?s')"
    using assms(2) by (simp add: shuffle_next_def cell_def Let_def)
  have le: "?v \<le> n" using assms(1) by (simp add: in_bounds_def)
  have new: "cell ?s' i = (if i = ?v then cell s n else cell s i)" for i
    by (simp add: cell_def)
  have "left s = add_mset (cell s ?v) (left ?s')"
  proof (cases "?v = n")
    case True
    have "image_mset (cell ?s') (mset_set {..<n}) = image_mset (cell s) (mset_set {..<n})"
      by (rule image_mset_cong) (auto simp: cell_def True)
    then show ?thesis using True by (simp add: left_def assms(2) lessThan_Suc)
  next
    case False
    with le have "?v < n" by simp
    then have split: "mset_set {..<n} = add_mset ?v (mset_set ({..<n} - {?v}))"
      by (simp add: mset_set.remove)
    have "image_mset (cell ?s') (mset_set ({..<n} - {?v})) = image_mset (cell s) (mset_set ({..<n} - {?v}))"
      by (rule image_mset_cong) (auto simp: new)
    then show ?thesis
      by (simp add: left_def assms(2) lessThan_Suc split new)
  qed
  then show ?thesis by (rule that [OF next_s]) simp_all
qed

lemma draw_many_left:
  assumes "in_bounds rng" "n \<le> sh_count s"
  obtains vs s' where "draw_many rng n s = Inr (vs, s')" "left s = mset vs + left s'" "sh_count s' = sh_count s - n"
    "length vs = n"
  using assms
proof (induction n arbitrary: s thesis)
  case 0
  show ?case by (rule "0.prems"(1) [of "[]" s]) simp_all
next
  case (Suc n)
  then obtain m where m: "sh_count s = Suc m" "n \<le> m" by (metis Suc_le_D Suc_le_mono)
  obtain v t where t: "shuffle_next rng s = Inr (v, t)" "left s = add_mset v (left t)" "sh_count t = m"
    by (rule shuffle_next_left [OF Suc.prems(2) m(1)])
  obtain vs u where "draw_many rng n t = Inr (vs, u)" "left t = mset vs + left u" "sh_count u = sh_count t - n" "length vs = n"
    using Suc.IH [of t] Suc.prems(2) m(2) t(3) by blast
  then show ?case using t m by (intro Suc.prems(1) [of "v # vs" u]) simp_all
qed

lemma distinct_part:
  assumes "mset vs \<subseteq># mset_set A"
  shows "distinct vs"
proof -
  have "count (mset_set A) a \<le> 1" for a by (cases "finite A"; cases "a \<in> A") simp_all
  then have "count (mset vs) a \<le> 1" for a using mset_subset_eq_count [OF assms] by (rule order_trans [rotated])
  then have "count (mset vs) a = (if a \<in> set vs then 1 else 0)" for a
    by (metis count_greater_eq_one_iff count_eq_zero_iff le_antisym set_mset_mset)
  then show ?thesis by (simp add: distinct_count_atmost_1)
qed

lemma draw_many_distinct:
  assumes "in_bounds rng" "m \<le> n" "draw_many rng m (shuffle_new k n) = Inr (vs, s)"
  shows "distinct vs" "set vs \<subseteq> {..<n}" "m = n \<longrightarrow> set vs = {..<n} \<and> mset vs = mset [0..<n]" "length vs = m" "sh_count s = n - m"
proof -
  have "m \<le> sh_count (shuffle_new k n)" using assms(2) by (simp add: shuffle_new_def)
  then have v: "mset_set {..<n} = mset vs + left s" "sh_count s = sh_count (shuffle_new k n) - m" "length vs = m"
    by (rule draw_many_left [OF assms(1)], use assms(3) in simp)+
  show "distinct vs" using v(1) by (intro distinct_part [of _ "{..<n}"]) simp
  show "set vs \<subseteq> {..<n}" using arg_cong [OF v(1), of set_mset] by auto
  show count: "sh_count s = n - m" using v(2) by (simp add: shuffle_new_def)
  show "m = n \<longrightarrow> set vs = {..<n} \<and> mset vs = mset [0..<n]"
  proof
    assume "m = n"
    then have "left s = {#}" using count by (simp flip: size_eq_0_iff_empty)
    then have m: "mset vs = mset_set {..<n}" using v(1) by simp
    have "set vs = set_mset (mset_set {..<n})" unfolding m [symmetric] by simp
    then show "set vs = {..<n} \<and> mset vs = mset [0..<n]" by (simp add: m atLeast0LessThan)
  qed
  show "length vs = m" by (rule v(3))
qed

section \<open>Property\<close>

text \<open>A generator for \<open>n\<close> numbers yields, whatever the random draws are, distinct numbers below \<open>n\<close>; \<open>n\<close>
  calls yield all of them, and the next call throws.\<close>

theorem shuffle_permutes:
  assumes "in_bounds rng" "m \<le> n"
  shows "\<exists>vs s. draw_many rng m (shuffle_new k n) = Inr (vs, s) \<and> length vs = m \<and> distinct vs \<and> set vs \<subseteq> {..<n} \<and>
    (m = n \<longrightarrow> mset vs = mset [0..<n] \<and> shuffle_next rng s = Inl RuntimeError)"
proof -
  have "m \<le> sh_count (shuffle_new k n)" using assms(2) by (simp add: shuffle_new_def)
  then obtain vs s where v: "draw_many rng m (shuffle_new k n) = Inr (vs, s)"
    by (rule draw_many_left [OF assms(1)])
  note d = draw_many_distinct [OF assms v]
  have "shuffle_next rng s = Inl RuntimeError" if "m = n" using that d(5) by (simp add: shuffle_next_def)
  with d v show ?thesis by (intro exI [of _ vs] exI [of _ s]) simp
qed

theorem shuffle_permutes_example:
  "\<exists>vs s. draw_many (\<lambda>k m. m div 2) 3 (shuffle_new 0 3) = Inr (vs, s) \<and> mset vs = {#0, 1, 2#}"
proof -
  have "in_bounds (\<lambda>k m. m div 2)" by (simp add: in_bounds_def)
  from shuffle_permutes [OF this, of 3 3 0] show ?thesis by (auto simp: upt_rec)
qed

end
