(* ===== verification/ChainQueries.thy ===== *)
theory ChainQueries
  imports ChainHistory Shuffle
begin

text \<open>
  What the chain answers, \<^verbatim>\<open>src/CryptoNoteCore/Blockchain.cpp\<close> and the templates of its header: blocks and
  transactions by identifier and by range, the objects a peer asks for, random outputs to mix with, the ids a
  synchronising peer needs, and the auxiliary indices computed afresh from the blocks. The theorems show that in a
  chain reached by pushing and popping every record leads to the transaction it was made for, so that the
  node can serve all of its own blocks; that random outputs are distinct, unlocked and as many as there are; and that
  the indices computed afresh are those that were kept up to date.
\<close>

section \<open>Blocks and transactions\<close>

fun getBlocks_ids :: "blockchain \<Rightarrow> hash list \<Rightarrow> Block list \<Rightarrow> hash list \<Rightarrow> bool \<times> Block list \<times> hash list" where
  "getBlocks_ids c [] blocks missed = (True, blocks, missed)"
| "getBlocks_ids c (i # is) blocks missed =
     (case getBlockHeight i (bc_blockIndex c) of
        None \<Rightarrow> getBlocks_ids c is blocks (missed @ [i])
      | Some height \<Rightarrow>
          if \<not> unat height < length (bc_blocks c) then (False, blocks, missed)
          else getBlocks_ids c is (blocks @ [be_bl (bc_blocks c ! unat height)]) missed)"

text \<open>The lists are appended to; with \<open>checkTxPool\<close> all the missed ids, earlier ones included, are looked up in
  the pool.\<close>

definition getTransactions_chain ::
  "node \<Rightarrow> hash list \<Rightarrow> bool \<Rightarrow> Transaction list \<Rightarrow> hash list \<Rightarrow> (Transaction list \<times> hash list) result" where
  "getTransactions_chain s txs_ids checkTxPool txs missed =
     bind_res (getBlockchainTransactions (fst s) txs_ids) (\<lambda>(found, lost).
       if checkTxPool
       then (case getTransactions (snd s) (missed @ lost) of (pool, missed) \<Rightarrow> Inr (txs @ found @ pool, missed))
       else Inr (txs @ found, missed @ lost))"

text \<open>The indices of the loop \<^verbatim>\<open>for (i = start_offset; i < start_offset + count && i < m_blocks.size(); i++)\<close>, whose
  bound is a 32-bit sum.\<close>

definition block_range :: "blockchain \<Rightarrow> u32 \<Rightarrow> u32 \<Rightarrow> nat list" where
  "block_range c start_offset num = [unat start_offset..<min (unat (start_offset + num)) (length (bc_blocks c))]"

definition getBlocks_range :: "blockchain \<Rightarrow> u32 \<Rightarrow> u32 \<Rightarrow> bool \<times> Block list" where
  "getBlocks_range c start_offset num =
     (if unat start_offset \<ge> length (bc_blocks c) then (False, [])
      else (True, map (\<lambda>i. be_bl (bc_blocks c ! i)) (block_range c start_offset num)))"

fun blocks_with_txs ::
  "blockchain \<Rightarrow> nat list \<Rightarrow> Block list \<Rightarrow> Transaction list \<Rightarrow> (bool \<times> Block list \<times> Transaction list) result" where
  "blocks_with_txs c [] blocks txs = Inr (True, blocks, txs)"
| "blocks_with_txs c (i # is) blocks txs =
     (let bl = be_bl (bc_blocks c ! i) in
      bind_res (getBlockchainTransactions c (bl_transactionHashes bl)) (\<lambda>(found, missed_ids).
        if missed_ids \<noteq> [] then Inr (False, blocks @ [bl], txs @ found)
        else blocks_with_txs c is (blocks @ [bl]) (txs @ found)))"

definition getBlocks_txs :: "blockchain \<Rightarrow> u32 \<Rightarrow> u32 \<Rightarrow> (bool \<times> Block list \<times> Transaction list) result" where
  "getBlocks_txs c start_offset num =
     (if unat start_offset \<ge> length (bc_blocks c) then Inr (False, [], [])
      else blocks_with_txs c (block_range c start_offset num) [] [])"

definition getBlockContainingTransaction :: "blockchain \<Rightarrow> hash \<Rightarrow> (hash \<times> u32) option result" where
  "getBlockContainingTransaction c txId =
     (case lg_transactionMap c txId of None \<Rightarrow> Inr None
      | Some ti \<Rightarrow> bind_res (at_res (bc_blocks c) (unat (ti_block ti))) (\<lambda>e.
          bind_res (getBlockIdByHeight c (be_height e)) (\<lambda>blockId. Inr (Some (blockId, be_height e)))))"

section \<open>The objects a peer asks for\<close>

text \<open>The bytes of an object; \<^verbatim>\<open>toBinaryArray\<close> leaves those written before a failure where this gives none.\<close>

definition blob_of :: "('a \<Rightarrow> bytes result) \<Rightarrow> 'a \<Rightarrow> bytes" where
  "blob_of ser x = (case toBinaryArray ser x of None \<Rightarrow> [] | Some ba \<Rightarrow> ba)"

record block_complete_entry =
  bce_block :: bytes
  bce_txs :: "bytes list"

record get_objects_response =
  gor_txs :: "bytes list"
  gor_blocks :: "block_complete_entry list"
  gor_missed_ids :: "hash list"
  gor_current_blockchain_height :: u32

definition complete_entry :: "Block \<Rightarrow> Transaction list \<Rightarrow> block_complete_entry" where
  "complete_entry bl txs = \<lparr>bce_block = blob_of ser_Block bl, bce_txs = map (blob_of ser_Transaction) txs\<rparr>"

text \<open>The transactions that are not found go to the missed ids of the response; the list the source tests for
  an internal error is never filled.\<close>

fun pack_blocks :: "node \<Rightarrow> Block list \<Rightarrow> hash list \<Rightarrow> (block_complete_entry list \<times> hash list) result" where
  "pack_blocks s [] missed = Inr ([], missed)"
| "pack_blocks s (bl # bls) missed =
     bind_res (getTransactions_chain s (bl_transactionHashes bl) False [] missed) (\<lambda>(txs, missed).
     bind_res (pack_blocks s bls missed) (\<lambda>(entries, missed). Inr (complete_entry bl txs # entries, missed)))"

definition handleGetObjects :: "node \<Rightarrow> hash list \<Rightarrow> hash list \<Rightarrow> (bool \<times> get_objects_response) result" where
  "handleGetObjects s txs blocks =
     (case getBlocks_ids (fst s) blocks [] [] of (_, found, missed) \<Rightarrow>
      bind_res (pack_blocks s found missed) (\<lambda>(entries, missed).
      bind_res (getTransactions_chain s txs False [] missed) (\<lambda>(aside, missed).
        Inr (True, \<lparr>gor_txs = map (blob_of ser_Transaction) aside, gor_blocks = entries, gor_missed_ids = missed,
                    gor_current_blockchain_height = getCurrentBlockchainHeight (fst s)\<rparr>))))"

definition getAlternativeBlocks :: "blockchain \<Rightarrow> Block list" where
  "getAlternativeBlocks c = map (be_bl \<circ> snd) (bc_alternative_chains c)"

section \<open>Synchronisation\<close>

definition buildSparseChain_tail :: "blockchain \<Rightarrow> hash list result" where
  "buildSparseChain_tail c =
     assert_res (size_bi (bc_blockIndex c) \<noteq> 0)
      (bind_res (getTailId (bc_blockIndex c)) (doBuildSparseChain c))"

definition buildSparseChain_from :: "blockchain \<Rightarrow> hash \<Rightarrow> hash list result" where
  "buildSparseChain_from c startBlockId = assert_res (haveBlock c startBlockId) (doBuildSparseChain c startBlockId)"

text \<open>Without a common block the result is an uninitialised variable; the assertion on the last id excludes it.\<close>

definition findBlockchainSupplement :: "blockchain \<Rightarrow> hash list \<Rightarrow> u32 result" where
  "findBlockchainSupplement c qblock_ids =
     assert_res (qblock_ids \<noteq> [])
      (bind_res (getBlockId 0 (bc_blockIndex c)) (\<lambda>genesis.
        assert_res (last qblock_ids = genesis)
         (case findSupplement qblock_ids (bc_blockIndex c) of None \<Rightarrow> Inl RuntimeError | Some i \<Rightarrow> Inr i)))"

text \<open>The ids, the total number of blocks and the first index.\<close>

definition findBlockchainSupplement_ids :: "blockchain \<Rightarrow> hash list \<Rightarrow> usize \<Rightarrow> (hash list \<times> u32 \<times> u32) result" where
  "findBlockchainSupplement_ids c remoteBlockIds maxCount =
     bind_res (findBlockchainSupplement c remoteBlockIds) (\<lambda>startBlockIndex.
       Inr (getBlockIds startBlockIndex (ucast maxCount) (bc_blockIndex c), getCurrentBlockchainHeight c, startBlockIndex))"

section \<open>Random outputs\<close>

record out_entry =
  oe_global_amount_index :: u32
  oe_out_key :: public_key

definition add_out_to_get_random_outs ::
  "currency \<Rightarrow> environment \<Rightarrow> blockchain \<Rightarrow> (TransactionIndex \<times> u16) list \<Rightarrow> nat \<Rightarrow> out_entry list \<Rightarrow>
   (bool \<times> out_entry list) result" where
  "add_out_to_get_random_outs cur env c amount_outs i outs =
     bind_res (at_res amount_outs i) (\<lambda>(ti, n).
     bind_res (transactionByIndex c ti) (\<lambda>e.
       if \<not> length (tx_outputs (te_tx e)) > unat n then Inr (False, outs)
       else case out_target (tx_outputs (te_tx e) ! unat n) of
         OutMulti _ \<Rightarrow> Inr (False, outs)
       | OutKey key \<Rightarrow>
           if \<not> is_tx_spendtime_unlocked cur env c (tx_unlockTime (te_tx e)) then Inr (False, outs)
           else Inr (True, outs @ [\<lparr>oe_global_amount_index = of_nat i, oe_out_key = key\<rparr>])))"

text \<open>The loop with \<open>left\<close> rounds to go.\<close>

fun random_outs_loop ::
  "currency \<Rightarrow> environment \<Rightarrow> blockchain \<Rightarrow> (nat \<Rightarrow> nat \<Rightarrow> nat) \<Rightarrow> (TransactionIndex \<times> u16) list \<Rightarrow> u64 \<Rightarrow> nat \<Rightarrow>
   shuffle \<Rightarrow> out_entry list \<Rightarrow> (shuffle \<times> out_entry list) result" where
  "random_outs_loop cur env c rng amount_outs outs_count 0 g outs = Inr (g, outs)"
| "random_outs_loop cur env c rng amount_outs outs_count (Suc rounds) g outs =
     (if length outs < unat outs_count then
        bind_res (shuffle_next rng g) (\<lambda>(i, g).
        bind_res (add_out_to_get_random_outs cur env c amount_outs i outs) (\<lambda>(_, outs).
          random_outs_loop cur env c rng amount_outs outs_count rounds g outs))
      else Inr (g, outs))"

text \<open>One answer per amount, with the number of draws used so far; the outer flag is what is returned.\<close>

fun random_outs ::
  "currency \<Rightarrow> environment \<Rightarrow> blockchain \<Rightarrow> (nat \<Rightarrow> nat \<Rightarrow> nat) \<Rightarrow> u64 \<Rightarrow> u64 list \<Rightarrow> nat \<Rightarrow>
   (u64 \<times> out_entry list) list \<Rightarrow> (bool \<times> (u64 \<times> out_entry list) list) result" where
  "random_outs cur env c rng outs_count [] k res = Inr (True, res)"
| "random_outs cur env c rng outs_count (amount # amounts) k res =
     (case lg_outputs c amount of
        None \<Rightarrow> random_outs cur env c rng outs_count amounts k (res @ [(amount, [])])
      | Some amount_outs \<Rightarrow>
          let up_index_limit = find_end_of_allowed_index cur c amount_outs in
          if \<not> up_index_limit \<le> length amount_outs then Inr (False, res @ [(amount, [])])
          else bind_res (random_outs_loop cur env c rng amount_outs outs_count up_index_limit (shuffle_new k up_index_limit) [])
            (\<lambda>(g, outs). random_outs cur env c rng outs_count amounts (sh_drawn g) (res @ [(amount, outs)])))"

definition getRandomOutsByAmount ::
  "currency \<Rightarrow> environment \<Rightarrow> blockchain \<Rightarrow> (nat \<Rightarrow> nat \<Rightarrow> nat) \<Rightarrow> u64 list \<Rightarrow> u64 \<Rightarrow>
   (bool \<times> (u64 \<times> out_entry list) list) result" where
  "getRandomOutsByAmount cur env c rng amounts outs_count = random_outs cur env c rng outs_count amounts 0 []"

section \<open>The auxiliary indices computed afresh\<close>

text \<open>The branch of \<^verbatim>\<open>loadBlockchainIndices\<close> for a missing or outdated file.\<close>

definition reindex_block :: "BlockEntry \<Rightarrow> blockchain \<Rightarrow> blockchain result" where
  "reindex_block block c =
     bind_res (get_block_hash (be_bl block)) (\<lambda>h.
     bind_res (gti_add (be_bl block) (bc_generatedTransactionsIndex c)) (\<lambda>(_, generated).
     bind_res (for_u16 (length (be_transactions block))
                (\<lambda>t ix. Inr (snd (pii_add (te_tx (be_transactions block ! unat t)) ix))) (lg_paymentIdIndex c)) (\<lambda>payments.
       Inr (c\<lparr>bc_timestampIndex := snd (tbi_add (bl_timestamp (be_bl block)) h (bc_timestampIndex c)),
              bc_generatedTransactionsIndex := generated, lg_paymentIdIndex := payments\<rparr>))))"

definition rebuild_indices :: "blockchain \<Rightarrow> blockchain result" where
  "rebuild_indices c =
     fold_res reindex_block (bc_blocks c)
       (c\<lparr>lg_paymentIdIndex := [], bc_timestampIndex := [],
          bc_generatedTransactionsIndex := gti_clear (bc_generatedTransactionsIndex c)\<rparr>)"

section \<open>Records lead to their transactions\<close>

definition names :: "BlockEntry list \<Rightarrow> TransactionIndex \<Rightarrow> Transaction \<Rightarrow> bool" where
  "names blocks ti tx \<longleftrightarrow>
     unat (ti_block ti) < length blocks \<and>
     unat (ti_transaction ti) < length (be_transactions (blocks ! unat (ti_block ti))) \<and>
     te_tx (be_transactions (blocks ! unat (ti_block ti)) ! unat (ti_transaction ti)) = tx"

lemma names_entry: "names (bc_blocks c) ti tx \<longleftrightarrow> (\<exists>e. transactionByIndex c ti = Inr e \<and> te_tx e = tx)"
  by (auto simp: names_def transactionByIndex_def bind_res_Inr at_res_Inr)

definition outputs_ok :: "BlockEntry list \<Rightarrow> outputs_container \<Rightarrow> bool" where
  "outputs_ok blocks os \<longleftrightarrow>
     (\<forall>a ti n. (ti, n) \<in> set (vec_at os a) \<longrightarrow> (\<exists>tx key. names blocks ti tx \<and> unat n < length (tx_outputs tx) \<and>
        tx_outputs tx ! unat n = \<lparr>out_amount = a, out_target = OutKey key\<rparr>))"

definition multisig_ok :: "BlockEntry list \<Rightarrow> multisig_container \<Rightarrow> bool" where
  "multisig_ok blocks ms \<longleftrightarrow>
     (\<forall>a u. u \<in> set (vec_at ms a) \<longrightarrow> (\<exists>tx m. names blocks (mu_transactionIndex u) tx \<and>
        unat (mu_outputIndex u) < length (tx_outputs tx) \<and>
        tx_outputs tx ! unat (mu_outputIndex u) = \<lparr>out_amount = a, out_target = OutMulti m\<rparr>))"

definition map_ok :: "BlockEntry list \<Rightarrow> (hash \<rightharpoonup> TransactionIndex) \<Rightarrow> bool" where
  "map_ok blocks m \<longleftrightarrow> (\<forall>h ti. m h = Some ti \<longrightarrow> (\<exists>tx. names blocks ti tx \<and> tx_hash tx = h))"

definition records_ok :: "blockchain \<Rightarrow> bool" where
  "records_ok c \<longleftrightarrow> outputs_ok (bc_blocks c) (lg_outputs c) \<and> multisig_ok (bc_blocks c) (lg_multisignatureOutputs c) \<and>
     map_ok (bc_blocks c) (lg_transactionMap c)"

lemma vec_at_update: "vec_at (m(k \<mapsto> v)) a = (if a = k then v else vec_at m a)"
  by (simp add: vec_at_def)

lemma set_used_ok:
  assumes "set_used b x ms = Inr ms'" "multisig_ok blocks ms"
  shows "multisig_ok blocks ms'"
proof -
  let ?os = "vec_at ms (mi_amount x)" and ?n = "unat (mi_outputIndex x)"
  have n: "?n < length ?os" and ms': "ms' = ms(mi_amount x \<mapsto> ?os[?n := (?os ! ?n)\<lparr>mu_isUsed := b\<rparr>])"
    using assms(1) by (auto simp: set_used_def Let_def bind_res_Inr at_res_Inr)
  have "\<exists>v \<in> set (vec_at ms a). mu_transactionIndex u = mu_transactionIndex v \<and> mu_outputIndex u = mu_outputIndex v"
    if "u \<in> set (vec_at ms' a)" for u a
  proof (cases "a = mi_amount x")
    case True
    then have "u \<in> insert ((?os ! ?n)\<lparr>mu_isUsed := b\<rparr>) (set ?os)"
      using that set_update_subset_insert by (fastforce simp: ms' vec_at_update)
    then show ?thesis using True nth_mem [OF n] by auto
  qed (use that in \<open>auto simp: ms' vec_at_update\<close>)
  then show ?thesis using assms(2) unfolding multisig_ok_def by metis
qed

lemma rebuild_inputs_ok:
  assumes "fold_res (rebuild_input b) ins (keys, ms) = Inr (keys', ms')" "multisig_ok blocks ms"
  shows "multisig_ok blocks ms'"
proof -
  have "multisig_ok blocks (snd t)"
    if "multisig_ok blocks (snd s)" "rebuild_input b i s = Inr t" for i s t
    using that set_used_ok by (cases s) (auto simp: rebuild_input_def bind_res_Inr split: TransactionInput.splits)
  from fold_res_inv [OF assms(1), of "\<lambda>s. multisig_ok blocks (snd s)"] assms(2) this show ?thesis by simp
qed

lemma outputs_ok_push:
  assumes "outputs_ok blocks os" "names blocks ti tx" "unat n < length (tx_outputs tx)"
    "tx_outputs tx ! unat n = \<lparr>out_amount = a, out_target = OutKey key\<rparr>"
  shows "outputs_ok blocks (os(a \<mapsto> vec_at os a @ [(ti, n)]))"
  unfolding outputs_ok_def
proof (intro allI impI)
  fix a' ti' n'
  assume "(ti', n') \<in> set (vec_at (os(a \<mapsto> vec_at os a @ [(ti, n)])) a')"
  then consider "(ti', n') \<in> set (vec_at os a')" | "ti' = ti" "n' = n" "a' = a"
    by (auto simp: vec_at_update split: if_splits)
  then show "\<exists>tx key. names blocks ti' tx \<and> unat n' < length (tx_outputs tx) \<and>
      tx_outputs tx ! unat n' = \<lparr>out_amount = a', out_target = OutKey key\<rparr>"
  proof cases
    case 1
    then show ?thesis using assms(1) unfolding outputs_ok_def by blast
  next
    case 2
    then show ?thesis using assms(2-4) by (intro exI conjI) simp_all
  qed
qed

lemma multisig_ok_push:
  assumes "multisig_ok blocks ms" "names blocks ti tx" "unat n < length (tx_outputs tx)"
    "tx_outputs tx ! unat n = \<lparr>out_amount = a, out_target = OutMulti m\<rparr>"
  shows "multisig_ok blocks (ms(a \<mapsto> vec_at ms a @ [\<lparr>mu_transactionIndex = ti, mu_outputIndex = n, mu_isUsed = b\<rparr>]))"
    (is "multisig_ok blocks (ms(a \<mapsto> vec_at ms a @ [?u]))")
  unfolding multisig_ok_def
proof (intro allI impI)
  fix a' u
  assume "u \<in> set (vec_at (ms(a \<mapsto> vec_at ms a @ [?u])) a')"
  then consider "u \<in> set (vec_at ms a')" | "u = ?u" "a' = a"
    by (auto simp: vec_at_update split: if_splits)
  then show "\<exists>tx m. names blocks (mu_transactionIndex u) tx \<and> unat (mu_outputIndex u) < length (tx_outputs tx) \<and>
      tx_outputs tx ! unat (mu_outputIndex u) = \<lparr>out_amount = a', out_target = OutMulti m\<rparr>"
  proof cases
    case 1
    then show ?thesis using assms(1) unfolding multisig_ok_def by blast
  next
    case 2
    then show ?thesis using assms(2-4) by (intro exI conjI) simp_all
  qed
qed

lemma rebuild_outputs_ok:
  assumes "for_u16 (length outs) (rebuild_output ti outs) (os, ms) = Inr (os', ms')"
    "names blocks ti tx" "tx_outputs tx = outs" "outputs_ok blocks os" "multisig_ok blocks ms"
  shows "outputs_ok blocks os' \<and> multisig_ok blocks ms'"
proof -
  let ?P = "\<lambda>s. outputs_ok blocks (fst s) \<and> multisig_ok blocks (snd s)"
  have len: "length outs < 2 ^ 16" by (rule for_u16_Inr [OF assms(1)])
  have step: "?P t" if "j \<in> set [0..<length outs]" "?P s" "rebuild_output ti outs (of_nat j) s = Inr t" for j s t
  proof -
    have j: "unat (of_nat j :: u16) = j" "j < length outs" using that(1) len by (simp_all add: unat_of_nat_u16)
    obtain os ms where s: "s = (os, ms)" by (cases s)
    obtain a tg where o: "outs ! j = \<lparr>out_amount = a, out_target = tg\<rparr>" by (cases "outs ! j") simp
    show ?thesis
    proof (cases tg)
      case (OutKey key)
      then have "t = (os(a \<mapsto> vec_at os a @ [(ti, of_nat j)]), ms)"
        using that(3) by (simp add: rebuild_output_def s j o Let_def)
      then show ?thesis
        using that(2) OutKey o j assms(3) by (simp add: s outputs_ok_push [OF _ assms(2)])
    next
      case (OutMulti m)
      then have "t = (os, ms(a \<mapsto> vec_at ms a @ [\<lparr>mu_transactionIndex = ti, mu_outputIndex = of_nat j, mu_isUsed = False\<rparr>]))"
        using that(3) by (simp add: rebuild_output_def s j o Let_def)
      then show ?thesis
        using that(2) OutMulti o j assms(3) by (simp add: s multisig_ok_push [OF _ assms(2)])
    qed
  qed
  have "fold_res (\<lambda>j. rebuild_output ti outs (of_nat j)) [0..<length outs] (os, ms) = Inr (os', ms')"
    using assms(1) len by (simp add: for_u16_eq)
  then have "?P (os', ms')" by (rule fold_res_inv) (use assms(4,5) in simp, rule step)
  then show ?thesis by simp
qed

lemma rebuild_tx_ok:
  assumes "rebuild_tx b t tx c = Inr c'" "names (bc_blocks c) \<lparr>ti_block = b, ti_transaction = t\<rparr> tx" "records_ok c"
  shows "records_ok c' \<and> bc_blocks c' = bc_blocks c \<and>
    dom (lg_transactionMap c') = insert (tx_hash tx) (dom (lg_transactionMap c))"
proof -
  let ?ti = "\<lparr>ti_block = b, ti_transaction = t\<rparr>"
  let ?m = "if lg_transactionMap c (tx_hash tx) = None then (lg_transactionMap c)(tx_hash tx \<mapsto> ?ti) else lg_transactionMap c"
  obtain keys ms os ms' where r: "fold_res (rebuild_input b) (tx_inputs tx) (lg_spent_keys c, lg_multisignatureOutputs c) = Inr (keys, ms)"
    "for_u16 (length (tx_outputs tx)) (rebuild_output ?ti (tx_outputs tx)) (lg_outputs c, ms) = Inr (os, ms')"
    "c' = c\<lparr>lg_spent_keys := keys, lg_outputs := os, lg_transactionMap := ?m, lg_multisignatureOutputs := ms'\<rparr>"
    using assms(1) by (auto simp: rebuild_tx_def Let_def bind_res_Inr)
  have "outputs_ok (bc_blocks c) os \<and> multisig_ok (bc_blocks c) ms'"
    using rebuild_outputs_ok [OF r(2) assms(2) refl] rebuild_inputs_ok [OF r(1)] assms(3) by (simp add: records_ok_def)
  moreover have "map_ok (bc_blocks c) ?m"
    using assms(2,3) by (auto simp: records_ok_def map_ok_def)
  moreover have "dom ?m = insert (tx_hash tx) (dom (lg_transactionMap c))" by auto
  ultimately show ?thesis by (simp add: r(3) records_ok_def)
qed

lemma rebuild_fold_ok:
  assumes "fold_res (\<lambda>j. rebuild_tx b (of_nat j) (f j)) js c = Inr c'"
    "\<forall>j \<in> set js. names (bc_blocks c) \<lparr>ti_block = b, ti_transaction = of_nat j\<rparr> (f j)" "records_ok c"
  shows "records_ok c' \<and> bc_blocks c' = bc_blocks c \<and>
    dom (lg_transactionMap c') = dom (lg_transactionMap c) \<union> tx_hash ` f ` set js"
  using assms
proof (induction js arbitrary: c)
  case (Cons j js)
  obtain c1 where c1: "rebuild_tx b (of_nat j) (f j) c = Inr c1" "fold_res (\<lambda>j. rebuild_tx b (of_nat j) (f j)) js c1 = Inr c'"
    using Cons.prems(1) by (auto simp: bind_res_Inr)
  have 1: "records_ok c1 \<and> bc_blocks c1 = bc_blocks c \<and> dom (lg_transactionMap c1) = insert (tx_hash (f j)) (dom (lg_transactionMap c))"
    using rebuild_tx_ok [OF c1(1)] Cons.prems(2,3) by simp
  then show ?case using Cons.IH [OF c1(2)] Cons.prems(2) by auto
qed simp

definition block_hashes :: "BlockEntry \<Rightarrow> hash list" where
  "block_hashes block = map (tx_hash \<circ> te_tx) (be_transactions block)"

lemma records_ok_cong:
  assumes "bc_blocks c' = bc_blocks c" "lg_outputs c' = lg_outputs c" "lg_multisignatureOutputs c' = lg_multisignatureOutputs c"
    "lg_transactionMap c' = lg_transactionMap c"
  shows "records_ok c' \<longleftrightarrow> records_ok c"
  by (simp add: records_ok_def assms)

lemma rebuild_entry_ok:
  assumes "rebuild_entry (of_nat b) (bc_blocks c ! b) c = Inr c'" "b < length (bc_blocks c)" "b < 2 ^ 32" "records_ok c"
  shows "records_ok c' \<and> bc_blocks c' = bc_blocks c \<and>
    dom (lg_transactionMap c') = dom (lg_transactionMap c) \<union> set (block_hashes (bc_blocks c ! b))"
proof -
  let ?block = "bc_blocks c ! b"
  let ?f = "\<lambda>j. te_tx (be_transactions ?block ! j)"
  obtain ids c1 where c1: "rebuild_block (of_nat b) ?block (c\<lparr>bc_blockIndex := ids\<rparr>) = Inr c1"
    "pushToDepositIndex ?block (block_interest ?block) c1 = Inr c'"
    using assms(1) by (auto simp: rebuild_entry_def bind_res_Inr)
  obtain di where c': "c' = c1\<lparr>bc_depositIndex := di\<rparr>" using c1(2) by (auto simp: pushToDepositIndex_def bind_res_Inr)
  have len: "length (be_transactions ?block) < 2 ^ 16" by (rule for_u16_Inr [OF c1(1) [unfolded rebuild_block_def]])
  have "fold_res (\<lambda>j. rebuild_tx (of_nat b) (of_nat j) (te_tx (be_transactions ?block ! unat (of_nat j :: u16))))
      [0..<length (be_transactions ?block)] (c\<lparr>bc_blockIndex := ids\<rparr>) = Inr c1"
    using c1(1) len by (simp add: rebuild_block_def for_u16_eq)
  also have "fold_res (\<lambda>j. rebuild_tx (of_nat b) (of_nat j) (te_tx (be_transactions ?block ! unat (of_nat j :: u16))))
      [0..<length (be_transactions ?block)] (c\<lparr>bc_blockIndex := ids\<rparr>) =
      fold_res (\<lambda>j. rebuild_tx (of_nat b) (of_nat j) (?f j)) [0..<length (be_transactions ?block)] (c\<lparr>bc_blockIndex := ids\<rparr>)"
    by (rule fold_res_cong) (use len in \<open>simp add: unat_of_nat_u16\<close>)
  finally have fold: "fold_res (\<lambda>j. rebuild_tx (of_nat b) (of_nat j) (?f j)) [0..<length (be_transactions ?block)]
      (c\<lparr>bc_blockIndex := ids\<rparr>) = Inr c1" .
  have "records_ok c1 \<and> bc_blocks c1 = bc_blocks c \<and> dom (lg_transactionMap c1) =
      dom (lg_transactionMap c) \<union> tx_hash ` ?f ` set [0..<length (be_transactions ?block)]"
    using rebuild_fold_ok [OF fold] assms(2-4) len records_ok_cong [of "c\<lparr>bc_blockIndex := ids\<rparr>" c]
    by (simp add: names_def unat_of_nat_u32 unat_of_nat_u16)
  moreover have "tx_hash ` ?f ` set [0..<length (be_transactions ?block)] = set (block_hashes ?block)"
    by (force simp: block_hashes_def image_image in_set_conv_nth)
  ultimately show ?thesis using records_ok_cong [of c' c1] by (simp add: c')
qed

text \<open>The ledger of a chain is the one rebuilt from its blocks, so its records are those of the blocks.\<close>

lemma rebuild_blocks_ok:
  assumes "fold_res (\<lambda>b. rebuild_entry (of_nat b) (blocks ! b)) bs c = Inr c'" "set bs \<subseteq> {..<length blocks}"
    "length blocks \<le> 2 ^ 32" "records_ok c" "bc_blocks c = blocks"
  shows "records_ok c' \<and> bc_blocks c' = blocks \<and>
    dom (lg_transactionMap c') = dom (lg_transactionMap c) \<union> (\<Union>b \<in> set bs. set (block_hashes (blocks ! b)))"
  using assms
proof (induction bs arbitrary: c)
  case (Cons b bs)
  obtain c1 where c1: "rebuild_entry (of_nat b) (blocks ! b) c = Inr c1"
    "fold_res (\<lambda>b. rebuild_entry (of_nat b) (blocks ! b)) bs c1 = Inr c'"
    using Cons.prems(1) by (auto simp: bind_res_Inr)
  have b: "b < length (bc_blocks c)" "b < 2 ^ 32" using Cons.prems(2,3,5) by auto
  note e = rebuild_entry_ok [of b c c1, unfolded Cons.prems(5), OF c1(1) b [unfolded Cons.prems(5)] Cons.prems(4)]
  have "set bs \<subseteq> {..<length blocks}" using Cons.prems(2) by simp
  from Cons.IH [OF c1(2) this Cons.prems(3)] e show ?case by auto
qed simp

lemma inv_records:
  assumes "chain_inv cur c"
  shows "records_ok c" "dom (lg_transactionMap c) = (\<Union>block \<in> set (bc_blocks c). set (block_hashes block))"
proof -
  have len: "length (bc_blocks c) \<le> 2 ^ 32"
    using chain_invD(8) [OF assms] unat_u32_less [of "di_blockCount (bc_depositIndex c)"] by (simp del: unat_u32_less)
  have "fold_res (\<lambda>b. rebuild_entry (of_nat b) (bc_blocks c ! b)) [0..<length (bc_blocks c)] (cleared c) = Inr c"
    using chain_invD(10) [OF assms] by (simp add: rebuild_cleared)
  moreover have "records_ok (cleared c)"
    by (simp add: cleared_def records_ok_def outputs_ok_def multisig_ok_def map_ok_def vec_at_def)
  ultimately have *: "records_ok c \<and> bc_blocks c = bc_blocks c \<and> dom (lg_transactionMap c) =
      dom (lg_transactionMap (cleared c)) \<union> (\<Union>b \<in> set [0..<length (bc_blocks c)]. set (block_hashes (bc_blocks c ! b)))"
    using len by (intro rebuild_blocks_ok) (auto simp: cleared_def)
  then show "records_ok c" by simp
  have "set (bc_blocks c) = (!) (bc_blocks c) ` {0..<length (bc_blocks c)}"
    by (metis map_nth set_map set_upt)
  then have "(\<Union>b \<in> {0..<length (bc_blocks c)}. set (block_hashes (bc_blocks c ! b))) = (\<Union>block \<in> set (bc_blocks c). set (block_hashes block))"
    by simp
  then show "dom (lg_transactionMap c) = (\<Union>block \<in> set (bc_blocks c). set (block_hashes block))"
    using * by (simp add: cleared_def)
qed

section \<open>The blocks of a chain\<close>

text \<open>An entry holds the miner's transaction and the transactions its block names, and its height is its
  position.\<close>

definition sound_entry :: "BlockEntry \<Rightarrow> bool" where
  "sound_entry e \<longleftrightarrow>
     (\<exists>txs. map te_tx (be_transactions e) = bl_baseTransaction (be_bl e) # txs \<and>
        bl_transactionHashes (be_bl e) = map tx_hash txs \<and> (\<forall>tx \<in> set txs. ok_inputs tx) \<and> length txs < 65535)"

definition blocks_ok :: "blockchain \<Rightarrow> bool" where
  "blocks_ok c \<longleftrightarrow>
     (\<forall>e \<in> set (bc_blocks c). sound_entry e) \<and>
     distinct (concat (map block_hashes (bc_blocks c))) \<and>
     list_all2 (\<lambda>e h. get_block_hash (be_bl e) = Inr h) (bc_blocks c) (bc_blockIndex c) \<and>
     (\<forall>i < length (bc_blocks c). be_height (bc_blocks c ! i) = of_nat i \<and> base_height (be_bl (bc_blocks c ! i)) = Inr (of_nat i)) \<and>
     length (bc_blocks c) < 2 ^ 32 - 1"

lemma accepted_height:
  assumes "pushBlock_txs cur env bl txs h bvc c = Inr (True, bvc', c')" "sound_block bl txs c" "chain_inv cur c"
    "Suc (length (bc_blocks c)) < 2 ^ 32 - 1"
  shows "be_height (last (bc_blocks c')) = of_nat (length (bc_blocks c))"
proof -
  note V = chain_invD [OF assms(3)]
  obtain d e s where L: "loop_inv bl (tx_hash (bl_baseTransaction bl)) c (block_txs bl txs) s" and fin: "finish_block cur d e s = Inr c'"
    by (rule pushBlock_TrueE [OF assms(1,2) V(1)])
  note I = loop_invD [OF L] and M = same_more_chain [OF loop_invD(5) [OF L]]
  have len: "length (bc_blockIndex (ps_chain s)) = length (bc_blocks (ps_chain s))" "Suc (length (bc_blocks (ps_chain s))) < 2 ^ 32"
    using V(3) assms(4) by (simp_all add: M)
  obtain block where "be_height block = be_height (ps_block s)" "bc_blocks c' = bc_blocks (ps_chain s) @ [block]"
    by (rule finish_blockE [OF fin len]) simp
  then show ?thesis using I(2) by (simp add: getCurrentBlockchainHeight_def)
qed

lemma grown_blocks_ok: "grown cur c \<Longrightarrow> blocks_ok c"
proof (induction rule: grown.induct)
  case (push c env bl txs h bvc bvc' c')
  note inv = grown_inv [OF push.hyps(1)] and IH = push.IH [unfolded blocks_ok_def]
  obtain block h' where b: "be_bl block = bl" "map te_tx (be_transactions block) = bl_baseTransaction bl # txs"
    "get_block_hash bl = Inr h'" "bc_blocks c' = bc_blocks c @ [block]" "bc_blockIndex c' = bc_blockIndex c @ [h']"
    "base_height bl = Inr (of_nat (length (bc_blocks c)))"
    by (rule accepted_block [OF push.hyps(2,3) inv push.hyps(4)]) simp
  have S: "bl_transactionHashes bl = map tx_hash txs" "\<forall>tx \<in> set txs. ok_inputs tx"
    "distinct (map tx_hash (bl_baseTransaction bl # txs))"
    "\<forall>tx \<in> set (bl_baseTransaction bl # txs). lg_transactionMap c (tx_hash tx) = None" "length txs < 65535"
    using push.hyps(3) unfolding sound_block_def by blast+
  have hs: "block_hashes block = map tx_hash (bl_baseTransaction bl # txs)"
    using arg_cong [OF b(2), of "map tx_hash"] by (simp add: block_hashes_def)
  have "sound_entry block" unfolding sound_entry_def using b(1,2) S(1,2,5) by auto
  moreover have "set (block_hashes block) \<inter> (\<Union>e \<in> set (bc_blocks c). set (block_hashes e)) = {}"
    unfolding inv_records(2) [OF inv, symmetric] hs using S(4) by auto
  moreover have "be_height block = of_nat (length (bc_blocks c))"
    using accepted_height [OF push.hyps(2,3) inv push.hyps(4)] b(4) by simp
  moreover have "list_all2 (\<lambda>e h. get_block_hash (be_bl e) = Inr h) (bc_blocks c @ [block]) (bc_blockIndex c @ [h'])"
    using IH b(1,3) by (intro list_all2_appendI) simp_all
  ultimately show ?case
    unfolding blocks_ok_def using IH b S(3) push.hyps(4) by (auto simp: hs nth_append less_Suc_eq)
next
  case (same c r)
  then show ?case by (simp add: blocks_ok_def same_chain_def)
qed (simp add: blocks_ok_def)

section \<open>Lookups in a chain\<close>

lemma names_in: "names blocks ti tx \<Longrightarrow> \<exists>e \<in> set blocks. tx \<in> te_tx ` set (be_transactions e)"
  unfolding names_def by (metis image_eqI nth_mem)

lemma same_hash:
  assumes "distinct (concat (map block_hashes blocks))" "e \<in> set blocks" "e' \<in> set blocks"
    "x \<in> te_tx ` set (be_transactions e)" "y \<in> te_tx ` set (be_transactions e')" "tx_hash x = tx_hash y"
  shows "x = y"
proof -
  let ?txs = "concat (map (\<lambda>e. map te_tx (be_transactions e)) blocks)"
  have "concat (map block_hashes blocks) = map tx_hash ?txs"
    by (induction blocks) (simp_all add: block_hashes_def)
  with assms(1) have "inj_on tx_hash (set ?txs)" by (simp add: distinct_map del: set_concat)
  moreover have "x \<in> set ?txs" "y \<in> set ?txs" using assms(2-5) by auto
  ultimately show ?thesis using assms(6) by (blast dest: inj_onD)
qed

lemma found_tx:
  assumes "chain_inv cur c" "blocks_ok c" "e \<in> set (bc_blocks c)" "tx \<in> te_tx ` set (be_transactions e)"
  obtains ti where "lg_transactionMap c (tx_hash tx) = Some ti" "names (bc_blocks c) ti tx"
proof -
  have "tx_hash tx \<in> dom (lg_transactionMap c)"
    unfolding inv_records(2) [OF assms(1)] using assms(3,4) by (auto simp: block_hashes_def)
  then obtain ti where ti: "lg_transactionMap c (tx_hash tx) = Some ti" by auto
  with inv_records(1) [OF assms(1)] obtain x where x: "names (bc_blocks c) ti x" "tx_hash x = tx_hash tx"
    unfolding records_ok_def map_ok_def by blast
  then obtain e' where e': "e' \<in> set (bc_blocks c)" "x \<in> te_tx ` set (be_transactions e')" using names_in by blast
  have "distinct (concat (map block_hashes (bc_blocks c)))" using assms(2) unfolding blocks_ok_def by blast
  from same_hash [OF this e'(1) assms(3) e'(2) assms(4) x(2)] x(1) ti show ?thesis by (intro that) simp_all
qed

lemma found_txs:
  assumes "chain_inv cur c" "blocks_ok c"
    "\<forall>tx \<in> set txs. \<exists>e \<in> set (bc_blocks c). tx \<in> te_tx ` set (be_transactions e)"
  shows "getBlockchainTransactions c (map tx_hash txs) = Inr (txs, [])"
  using assms(3)
proof (induction txs)
  case (Cons tx txs)
  then obtain e where e: "e \<in> set (bc_blocks c)" "tx \<in> te_tx ` set (be_transactions e)" by auto
  obtain ti where "lg_transactionMap c (tx_hash tx) = Some ti" "names (bc_blocks c) ti tx"
    by (rule found_tx [OF assms(1,2) e])
  then show ?case using Cons by (auto simp: names_entry)
qed simp

lemma block_found:
  assumes "chain_inv cur c" "blocks_ok c" "e \<in> set (bc_blocks c)"
  shows "getBlockchainTransactions c (bl_transactionHashes (be_bl e)) = Inr (map te_tx (tl (be_transactions e)), [])"
proof -
  have "sound_entry e" using assms(2,3) by (simp add: blocks_ok_def)
  then obtain txs where t: "map te_tx (be_transactions e) = bl_baseTransaction (be_bl e) # txs"
    "bl_transactionHashes (be_bl e) = map tx_hash txs" unfolding sound_entry_def by (elim exE conjE)
  have "map te_tx (tl (be_transactions e)) = txs" using t(1) by (cases "be_transactions e") simp_all
  moreover have "\<forall>tx \<in> set txs. \<exists>e \<in> set (bc_blocks c). tx \<in> te_tx ` set (be_transactions e)"
    using arg_cong [OF t(1), of set] by (auto intro!: bexI [OF _ assms(3)])
  ultimately show ?thesis using found_txs [OF assms(1,2), of txs] t(2) by simp
qed

lemma ids_found:
  assumes "distinct (bc_blockIndex c)" "length (bc_blockIndex c) = length (bc_blocks c)" "length (bc_blocks c) < 2 ^ 32"
    "set is \<subseteq> {..<length (bc_blocks c)}"
  shows "getBlocks_ids c (map ((!) (bc_blockIndex c)) is) bs ms = (True, bs @ map (\<lambda>i. be_bl (bc_blocks c ! i)) is, ms)"
  using assms(4)
proof (induction "is" arbitrary: bs)
  case (Cons i "is")
  then have i: "i < length (bc_blocks c)" "i < 2 ^ 32" using assms(3) by auto
  then have "getBlockHeight (bc_blockIndex c ! i) (bc_blockIndex c) = Some (of_nat i)"
    using assms(1,2) by (simp add: getBlockHeight_nth)
  with Cons i show ?case by (simp add: unat_of_nat_u32)
qed simp

lemma packed_blocks:
  assumes "chain_inv cur c" "blocks_ok c" "set is \<subseteq> {..<length (bc_blocks c)}"
  shows "pack_blocks (c, p) (map (\<lambda>i. be_bl (bc_blocks c ! i)) is) ms =
    Inr (map (\<lambda>i. complete_entry (be_bl (bc_blocks c ! i)) (map te_tx (tl (be_transactions (bc_blocks c ! i))))) is, ms)"
  using assms(3)
  by (induction "is") (simp_all add: getTransactions_chain_def block_found [OF assms(1,2)])

text \<open>C13. A node can serve every block of its chain: for the identifiers of any of its blocks the answer holds
  each block with all of its transactions, in order, and nothing is missed.\<close>

theorem own_blocks_served:
  assumes "chain_reachable cur c" "set is \<subseteq> {..<length (bc_blocks c)}"
  shows "handleGetObjects (c, p) [] (map ((!) (bc_blockIndex c)) is) =
    Inr (True, \<lparr>gor_txs = [],
      gor_blocks = map (\<lambda>i. complete_entry (be_bl (bc_blocks c ! i)) (map te_tx (tl (be_transactions (bc_blocks c ! i))))) is,
      gor_missed_ids = [], gor_current_blockchain_height = of_nat (length (bc_blocks c))\<rparr>)"
proof -
  note g = reachable_grown [OF assms(1)]
  note inv = grown_inv [OF g] and ok = grown_blocks_ok [OF g]
  have "length (bc_blocks c) < 2 ^ 32" using ok by (simp add: blocks_ok_def)
  from ids_found [OF chain_invD(2,3) [OF inv] this assms(2)] show ?thesis
    by (simp add: handleGetObjects_def packed_blocks [OF inv ok assms(2)] getTransactions_chain_def
        getCurrentBlockchainHeight_def)
qed

theorem own_blocks_served_witness:
  "\<exists>c. map be_bl (bc_blocks c) = [lone_block] \<and>
    handleGetObjects (c, new_pool) [] [bc_blockIndex c ! 0] =
      Inr (True, \<lparr>gor_txs = [], gor_blocks = [complete_entry lone_block (map te_tx (tl (be_transactions (bc_blocks c ! 0))))],
        gor_missed_ids = [], gor_current_blockchain_height = 1\<rparr>)"
proof -
  obtain c where c: "chain_reachable default_currency c" "map be_bl (bc_blocks c) = [lone_block]" by (rule lone_reachable)
  then have "length (bc_blocks c) = 1" "be_bl (bc_blocks c ! 0) = lone_block" by auto
  with own_blocks_served [OF c(1), of "[0]" new_pool] c(2) show ?thesis by (intro exI [of _ c]) simp
qed



section \<open>Random outputs are distinct and spendable\<close>

text \<open>The answer for an output of the vector: none when the transaction is locked.\<close>

definition usable_key :: "currency \<Rightarrow> environment \<Rightarrow> blockchain \<Rightarrow> (TransactionIndex \<times> u16) list \<Rightarrow> nat \<Rightarrow> public_key option" where
  "usable_key cur env c amount_outs i =
     (let (ti, n) = amount_outs ! i; tx = te_tx (be_transactions (bc_blocks c ! unat (ti_block ti)) ! unat (ti_transaction ti))
      in handle_output cur env c tx (tx_outputs tx ! unat n))"

definition usable :: "currency \<Rightarrow> environment \<Rightarrow> blockchain \<Rightarrow> (TransactionIndex \<times> u16) list \<Rightarrow> nat \<Rightarrow> bool" where
  "usable cur env c amount_outs i \<longleftrightarrow> usable_key cur env c amount_outs i \<noteq> None"

definition answer :: "currency \<Rightarrow> environment \<Rightarrow> blockchain \<Rightarrow> (TransactionIndex \<times> u16) list \<Rightarrow> nat \<Rightarrow> out_entry" where
  "answer cur env c amount_outs i =
     \<lparr>oe_global_amount_index = of_nat i, oe_out_key = the (usable_key cur env c amount_outs i)\<rparr>"

lemma add_out_eq:
  assumes "outputs_ok (bc_blocks c) (lg_outputs c)" "amount_outs = vec_at (lg_outputs c) a" "i < length amount_outs"
  shows "add_out_to_get_random_outs cur env c amount_outs i outs =
    (if usable cur env c amount_outs i then Inr (True, outs @ [answer cur env c amount_outs i]) else Inr (False, outs))"
proof -
  obtain ti n where e: "amount_outs ! i = (ti, n)" by (cases "amount_outs ! i")
  then have "(ti, n) \<in> set (vec_at (lg_outputs c) a)" using assms(2,3) nth_mem by fastforce
  then obtain tx key where t: "names (bc_blocks c) ti tx" "unat n < length (tx_outputs tx)"
    "tx_outputs tx ! unat n = \<lparr>out_amount = a, out_target = OutKey key\<rparr>"
    using assms(1) unfolding outputs_ok_def by blast
  then obtain x where x: "transactionByIndex c ti = Inr x" "te_tx x = tx" by (auto simp: names_entry)
  have "usable_key cur env c amount_outs i = (if is_tx_spendtime_unlocked cur env c (tx_unlockTime tx) then Some key else None)"
    using t by (simp add: usable_key_def e names_def handle_output_def)
  then show ?thesis
    using assms(3) e x t(2,3) by (simp add: add_out_to_get_random_outs_def usable_def answer_def)
qed

lemma random_loop_draws:
  assumes "outputs_ok (bc_blocks c) (lg_outputs c)" "amount_outs = vec_at (lg_outputs c) a" "in_bounds rng"
    "set_mset (left g) \<subseteq> {..<length amount_outs}" "sh_count g = rounds"
  obtains vs g' k where "random_outs_loop cur env c rng amount_outs num rounds g outs =
      Inr (g', outs @ map (answer cur env c amount_outs) (filter (usable cur env c amount_outs) vs))"
    "draw_many rng k g = Inr (vs, g')" "k \<le> rounds"
    "length outs + length (filter (usable cur env c amount_outs) vs) \<le> max (length outs) (unat num)"
    "length outs + length (filter (usable cur env c amount_outs) vs) < unat num \<longrightarrow> k = rounds"
  using assms(4,5)
proof (induction rounds arbitrary: g outs thesis)
  case 0
  show ?case by (rule "0.prems"(1) [of g "[]" 0]) simp_all
next
  case (Suc rounds)
  show ?case
  proof (cases "length outs < unat num")
    case False
    then show ?thesis by (intro Suc.prems(1) [of g "[]" 0]) simp_all
  next
    case True
    obtain v h where h: "shuffle_next rng g = Inr (v, h)" "left g = add_mset v (left h)" "sh_count h = rounds"
      by (rule shuffle_next_left [OF assms(3) Suc.prems(3)])
    let ?outs = "if usable cur env c amount_outs v then outs @ [answer cur env c amount_outs v] else outs"
    have v: "v < length amount_outs" "set_mset (left h) \<subseteq> {..<length amount_outs}" using Suc.prems(2) h(2) by auto
    have add: "add_out_to_get_random_outs cur env c amount_outs v outs = Inr (usable cur env c amount_outs v, ?outs)"
      by (simp add: add_out_eq [OF assms(1,2) v(1)])
    obtain vs g' k where k: "random_outs_loop cur env c rng amount_outs num rounds h ?outs =
        Inr (g', ?outs @ map (answer cur env c amount_outs) (filter (usable cur env c amount_outs) vs))"
      "draw_many rng k h = Inr (vs, g')" "k \<le> rounds"
      "length ?outs + length (filter (usable cur env c amount_outs) vs) \<le> max (length ?outs) (unat num)"
      "length ?outs + length (filter (usable cur env c amount_outs) vs) < unat num \<longrightarrow> k = rounds"
      by (rule Suc.IH [OF _ v(2) h(3)])
    show ?thesis
    proof (rule Suc.prems(1) [of g' "v # vs" "Suc k"])
      show "random_outs_loop cur env c rng amount_outs num (Suc rounds) g outs =
          Inr (g', outs @ map (answer cur env c amount_outs) (filter (usable cur env c amount_outs) (v # vs)))"
        using True h(1) add k(1) by simp
    qed (use k True h(1) in \<open>auto split: if_splits\<close>)
  qed
qed

text \<open>What a good answer for an amount is: distinct usable outputs below the limit, at most as many as asked for,
  and all of them when there are fewer.\<close>

definition good_answer ::
  "currency \<Rightarrow> environment \<Rightarrow> blockchain \<Rightarrow> u64 \<Rightarrow> u64 \<times> out_entry list \<Rightarrow> bool" where
  "good_answer cur env c outs_count r \<longleftrightarrow>
     (case r of (a, outs) \<Rightarrow>
      let amount_outs = vec_at (lg_outputs c) a; limit = find_end_of_allowed_index cur c amount_outs;
          all_usable = {i. i < limit \<and> usable cur env c amount_outs i}
      in \<exists>is. distinct is \<and> set is \<subseteq> all_usable \<and> outs = map (answer cur env c amount_outs) is \<and>
           length is \<le> unat outs_count \<and> (length is < unat outs_count \<longrightarrow> set is = all_usable))"

lemma find_allowed_le: "find_allowed cur h outs n \<le> n"
  by (induction cur h outs n rule: find_allowed.induct) auto

lemma allowed_le: "find_end_of_allowed_index cur c outs \<le> length outs"
  by (simp add: find_end_of_allowed_index_def find_allowed_le)

lemma random_outs_one:
  assumes "outputs_ok (bc_blocks c) (lg_outputs c)" "lg_outputs c a = Some amount_outs" "in_bounds rng"
  obtains g outs where
    "random_outs_loop cur env c rng amount_outs num (find_end_of_allowed_index cur c amount_outs)
       (shuffle_new k (find_end_of_allowed_index cur c amount_outs)) [] = Inr (g, outs)"
    "good_answer cur env c num (a, outs)"
proof -
  let ?m = "find_end_of_allowed_index cur c amount_outs" and ?U = "usable cur env c amount_outs"
  have vec: "amount_outs = vec_at (lg_outputs c) a" using assms(2) by (simp add: vec_at_def)
  have "set_mset (left (shuffle_new k ?m)) \<subseteq> {..<length amount_outs}"
    using allowed_le [of cur c amount_outs] by auto
  moreover have "sh_count (shuffle_new k ?m) = ?m" by (simp add: shuffle_new_def)
  ultimately obtain vs g j where l: "random_outs_loop cur env c rng amount_outs num ?m (shuffle_new k ?m) [] =
      Inr (g, [] @ map (answer cur env c amount_outs) (filter ?U vs))"
    "draw_many rng j (shuffle_new k ?m) = Inr (vs, g)" "j \<le> ?m"
    "length ([] :: out_entry list) + length (filter ?U vs) \<le> max (length ([] :: out_entry list)) (unat num)"
    "length ([] :: out_entry list) + length (filter ?U vs) < unat num \<longrightarrow> j = ?m"
    by (rule random_loop_draws [OF assms(1) vec assms(3)])
  have d: "distinct vs" "set vs \<subseteq> {..<?m}" "j = ?m \<longrightarrow> set vs = {..<?m}"
    using draw_many_distinct [OF assms(3) l(3,2)] by simp_all
  have "good_answer cur env c num (a, map (answer cur env c amount_outs) (filter ?U vs))"
    unfolding good_answer_def prod.case Let_def vec [symmetric]
  proof (intro exI [of _ "filter ?U vs"] conjI impI refl)
    show "set (filter ?U vs) \<subseteq> {i. i < ?m \<and> ?U i}" using d(2) by auto
    show "length (filter ?U vs) \<le> unat num" using l(4) by simp
    show "set (filter ?U vs) = {i. i < ?m \<and> ?U i}" if "length (filter ?U vs) < unat num"
    proof -
      have "j = ?m" using that l(5) by (simp only: list.size add_0)
      then have "set vs = {..<?m}" by (rule d(3) [rule_format])
      then show ?thesis by auto
    qed
  qed (simp add: d(1))
  then show ?thesis using l(1) by (intro that) simp_all
qed

lemma random_outs_good:
  assumes "outputs_ok (bc_blocks c) (lg_outputs c)" "in_bounds rng" "\<forall>r \<in> set res. good_answer cur env c num r"
  shows "\<exists>res'. random_outs cur env c rng num amounts k res = Inr (True, res @ res') \<and> map fst res' = amounts \<and>
    (\<forall>r \<in> set res'. good_answer cur env c num r)"
  using assms(3)
proof (induction amounts arbitrary: k res)
  case (Cons a amounts)
  show ?case
  proof (cases "lg_outputs c a")
    case None
    have "good_answer cur env c num (a, [])"
      using None by (simp add: good_answer_def vec_at_def find_end_of_allowed_index_def)
    moreover from this Cons.prems obtain r where "random_outs cur env c rng num amounts k (res @ [(a, [])]) = Inr (True, (res @ [(a, [])]) @ r)"
      "map fst r = amounts" "\<forall>x \<in> set r. good_answer cur env c num x"
      using Cons.IH [of "res @ [(a, [])]" k] by auto
    ultimately show ?thesis using None by (intro exI [of _ "(a, []) # r"]) simp
  next
    case (Some amount_outs)
    obtain g outs where g: "random_outs_loop cur env c rng amount_outs num (find_end_of_allowed_index cur c amount_outs)
       (shuffle_new k (find_end_of_allowed_index cur c amount_outs)) [] = Inr (g, outs)"
      "good_answer cur env c num (a, outs)"
      by (rule random_outs_one [OF assms(1) Some assms(2)])
    with Cons.prems obtain r where "random_outs cur env c rng num amounts (sh_drawn g) (res @ [(a, outs)]) =
        Inr (True, (res @ [(a, outs)]) @ r)" "map fst r = amounts" "\<forall>x \<in> set r. good_answer cur env c num x"
      using Cons.IH [of "res @ [(a, outs)]" "sh_drawn g"] by auto
    then show ?thesis using Some g by (intro exI [of _ "(a, outs) # r"]) (simp add: allowed_le)
  qed
qed simp

text \<open>C14. In a chain reached by pushing and popping, a wallet that asks for outputs to mix with gets an answer for
  each amount, whatever the random draws are: distinct outputs of that amount below the limit of fresh ones,
  none of them locked, with their keys, at most as many as asked for and fewer only when there are no
  others.\<close>

theorem random_outs_sound:
  assumes "chain_reachable cur c" "in_bounds rng"
  shows "\<exists>res. getRandomOutsByAmount cur env c rng amounts num = Inr (True, res) \<and> map fst res = amounts \<and>
    (\<forall>r \<in> set res. good_answer cur env c num r)"
proof -
  have "outputs_ok (bc_blocks c) (lg_outputs c)"
    using inv_records(1) [OF grown_inv [OF reachable_grown [OF assms(1)]]] by (simp add: records_ok_def)
  from random_outs_good [OF this assms(2), of "[]" cur env num amounts 0] show ?thesis
    by (simp add: getRandomOutsByAmount_def)
qed

theorem random_outs_sound_witness:
  "\<exists>res. getRandomOutsByAmount default_currency lone_env lone_chain (\<lambda>k m. m) [100] 5 = Inr (True, res) \<and> map fst res = [100]"
proof -
  have "in_bounds (\<lambda>k m. m)" by (simp add: in_bounds_def)
  from random_outs_sound [OF chain_reachable.initial this] show ?thesis by blast
qed

section \<open>Indices computed afresh\<close>

definition block_payments :: "BlockEntry \<Rightarrow> (hash \<times> hash) multiset" where
  "block_payments e = \<Sum>\<^sub># (image_mset payment_entries (mset (map te_tx (be_transactions e))))"

lemma reindex_payments:
  assumes "length es < 2 ^ 16"
  shows "\<exists>ix'. for_u16 (length es) (\<lambda>t ix. Inr (snd (pii_add (te_tx (es ! unat t)) ix))) ix = Inr ix' \<and>
    mset ix' = mset ix + \<Sum>\<^sub># (image_mset payment_entries (mset (map te_tx es)))"
proof -
  have fold: "fold_res (\<lambda>j ix. Inr (g j ix)) js ix = Inr (fold g js ix)" for g :: "nat \<Rightarrow> payment_index \<Rightarrow> payment_index" and js ix
    by (induction js arbitrary: ix) simp_all
  have "for_u16 (length es) (\<lambda>t ix. Inr (snd (pii_add (te_tx (es ! unat t)) ix))) ix =
      fold_res (\<lambda>j ix. Inr (snd (pii_add (te_tx (es ! unat (of_nat j :: u16))) ix))) [0..<length es] ix"
    using assms by (rule for_u16_eq)
  also have "\<dots> = fold_res (\<lambda>j ix. Inr (snd (pii_add (te_tx (es ! j)) ix))) [0..<length es] ix"
    by (rule fold_res_cong) (use assms in \<open>simp add: unat_of_nat_u16\<close>)
  also have "\<dots> = Inr (fold (\<lambda>j ix. snd (pii_add (te_tx (es ! j)) ix)) [0..<length es] ix)" by (rule fold)
  also have "fold (\<lambda>j ix. snd (pii_add (te_tx (es ! j)) ix)) [0..<length es] ix =
      fold (\<lambda>tx ix. snd (pii_add tx ix)) (map (\<lambda>j. te_tx (es ! j)) [0..<length es]) ix"
    by (simp add: fold_map o_def)
  also have "map (\<lambda>j. te_tx (es ! j)) [0..<length es] = map te_tx es"
    by (rule nth_equalityI) simp_all
  also have "fold (\<lambda>tx ix. snd (pii_add tx ix)) (map te_tx es) ix = pay.add_all (map te_tx es) ix"
    by (simp add: pay.add_all_def)
  finally show ?thesis by (simp add: pay.add_all_content)
qed

lemma bind_fold_Nil: "bind_res r (fold_res f []) = r"
  by (cases r) simp_all

lemma reindex_blocks:
  assumes "blocks_ok c" "n \<le> length (bc_blocks c)"
  shows "\<exists>ts ps. fold_res reindex_block (take n (bc_blocks c))
      (c\<lparr>lg_paymentIdIndex := [], bc_timestampIndex := [], bc_generatedTransactionsIndex := generated_state []\<rparr>) =
      Inr (c\<lparr>lg_paymentIdIndex := ps, bc_timestampIndex := ts,
             bc_generatedTransactionsIndex := generated_state (map block_count (take n (bc_blocks c)))\<rparr>) \<and>
    sorted (map fst ts) \<and>
    mset ts = mset (zip (map (bl_timestamp \<circ> be_bl) (take n (bc_blocks c))) (take n (bc_blockIndex c))) \<and>
    mset ps = \<Sum>\<^sub># (image_mset block_payments (mset (take n (bc_blocks c))))"
  using assms(2)
proof (induction n)
  case (Suc n)
  let ?e = "bc_blocks c ! n"
  note B = assms(1) [unfolded blocks_ok_def]
  have n: "n < length (bc_blocks c)" and e: "?e \<in> set (bc_blocks c)" using Suc.prems by simp_all
  have ids: "length (bc_blockIndex c) = length (bc_blocks c)" "get_block_hash (be_bl ?e) = Inr (bc_blockIndex c ! n)"
    using B n by (auto simp: list_all2_conv_all_nth)
  obtain ts ps where t: "fold_res reindex_block (take n (bc_blocks c))
      (c\<lparr>lg_paymentIdIndex := [], bc_timestampIndex := [], bc_generatedTransactionsIndex := generated_state []\<rparr>) =
      Inr (c\<lparr>lg_paymentIdIndex := ps, bc_timestampIndex := ts,
             bc_generatedTransactionsIndex := generated_state (map block_count (take n (bc_blocks c)))\<rparr>)"
    "sorted (map fst ts)"
    "mset ts = mset (zip (map (bl_timestamp \<circ> be_bl) (take n (bc_blocks c))) (take n (bc_blockIndex c)))"
    "mset ps = \<Sum>\<^sub># (image_mset block_payments (mset (take n (bc_blocks c))))"
    using Suc.IH [OF less_imp_le [OF n]] by (elim exE conjE)
  have "length (be_transactions ?e) < 2 ^ 16"
  proof -
    have "sound_entry ?e" using B e by blast
    then obtain txs where "map te_tx (be_transactions ?e) = bl_baseTransaction (be_bl ?e) # txs" "length txs < 65535"
      unfolding sound_entry_def by (elim exE conjE)
    from arg_cong [OF this(1), of length] this(2) show ?thesis by simp
  qed
  from reindex_payments [OF this, of ps] obtain ps' where ps': "for_u16 (length (be_transactions ?e))
      (\<lambda>t ix. Inr (snd (pii_add (te_tx (be_transactions ?e ! unat t)) ix))) ps = Inr ps'" "mset ps' = mset ps + block_payments ?e"
    unfolding block_payments_def by blast
  have gen: "gti_add (be_bl ?e) (generated_state (map block_count (take n (bc_blocks c)))) =
      Inr (True, generated_state (map block_count (take n (bc_blocks c)) @ [block_count ?e]))"
    using generated_add [of "be_bl ?e" "map block_count (take n (bc_blocks c))"] B n by (simp add: block_count_def)
  let ?ts = "mm_emplace (bl_timestamp (be_bl ?e)) (bc_blockIndex c ! n) ts"
  have step: "reindex_block ?e (c\<lparr>lg_paymentIdIndex := ps, bc_timestampIndex := ts,
        bc_generatedTransactionsIndex := generated_state (map block_count (take n (bc_blocks c)))\<rparr>) =
      Inr (c\<lparr>lg_paymentIdIndex := ps', bc_timestampIndex := ?ts,
        bc_generatedTransactionsIndex := generated_state (map block_count (take (Suc n) (bc_blocks c)))\<rparr>)"
    using n by (simp add: reindex_block_def ids(2) gen ps'(1) tbi_add_def take_Suc_conv_app_nth)
  show ?case
  proof (intro exI [of _ ?ts] exI [of _ ps'] conjI)
    show "sorted (map fst ?ts)" by (rule sorted_mm_emplace [OF t(2)])
    show "fold_res reindex_block (take (Suc n) (bc_blocks c))
        (c\<lparr>lg_paymentIdIndex := [], bc_timestampIndex := [], bc_generatedTransactionsIndex := generated_state []\<rparr>) =
        Inr (c\<lparr>lg_paymentIdIndex := ps', bc_timestampIndex := ?ts,
          bc_generatedTransactionsIndex := generated_state (map block_count (take (Suc n) (bc_blocks c)))\<rparr>)"
      unfolding step [symmetric] by (simp add: take_Suc_conv_app_nth [OF n] fold_res_append t(1) bind_fold_Nil)
  qed (use n ids(1) t(3,4) ps'(2) in \<open>simp_all add: take_Suc_conv_app_nth comp_def\<close>)
next
  case 0
  show ?case by (intro exI [of _ "[]"] conjI) simp_all
qed

text \<open>When the auxiliary indices are not on disk and are computed afresh from the blocks, with the objects as
  they were constructed, the result is what keeping them up to date gives: the same number of transactions
  generated at each height, the same timestamps, and the payment identifiers of all transactions.\<close>

theorem indices_rebuilt:
  assumes "chain_reachable cur c"
  shows "\<exists>c'. rebuild_indices (c\<lparr>bc_generatedTransactionsIndex := gti_new\<rparr>) = Inr c' \<and>
    bc_generatedTransactionsIndex c' = bc_generatedTransactionsIndex c \<and>
    mset (bc_timestampIndex c') = mset (bc_timestampIndex c) \<and> sorted (map fst (bc_timestampIndex c')) \<and>
    mset (lg_paymentIdIndex c') = \<Sum>\<^sub># (image_mset block_payments (mset (bc_blocks c))) \<and> bc_blocks c' = bc_blocks c"
proof -
  note g = reachable_grown [OF assms]
  note V = chain_invD [OF grown_inv [OF g]]
  have new: "gti_clear gti_new = generated_state []" by (simp add: gti_clear_def gti_new_def generated_state_def)
  from reindex_blocks [OF grown_blocks_ok [OF g] order_refl] obtain ts ps where
    "fold_res reindex_block (bc_blocks c)
      (c\<lparr>lg_paymentIdIndex := [], bc_timestampIndex := [], bc_generatedTransactionsIndex := generated_state []\<rparr>) =
      Inr (c\<lparr>lg_paymentIdIndex := ps, bc_timestampIndex := ts,
             bc_generatedTransactionsIndex := generated_state (map block_count (bc_blocks c))\<rparr>)"
    "sorted (map fst ts)" "mset ts = mset (zip (map (bl_timestamp \<circ> be_bl) (bc_blocks c)) (bc_blockIndex c))"
    "mset ps = \<Sum>\<^sub># (image_mset block_payments (mset (bc_blocks c)))"
    unfolding V(3) [symmetric] take_all [OF order_refl] unfolding V(3) take_all [OF order_refl] by (elim exE conjE)
  then show ?thesis using V(5,6) by (simp add: rebuild_indices_def new)
qed

theorem indices_rebuilt_example:
  "\<exists>c c'. map be_bl (bc_blocks c) = [lone_block] \<and> rebuild_indices (c\<lparr>bc_generatedTransactionsIndex := gti_new\<rparr>) = Inr c' \<and>
    bc_generatedTransactionsIndex c' = bc_generatedTransactionsIndex c"
proof -
  obtain c where c: "chain_reachable default_currency c" "map be_bl (bc_blocks c) = [lone_block]" by (rule lone_reachable)
  from indices_rebuilt [OF c(1)] obtain c' where "rebuild_indices (c\<lparr>bc_generatedTransactionsIndex := gti_new\<rparr>) = Inr c'"
    "bc_generatedTransactionsIndex c' = bc_generatedTransactionsIndex c" by (elim exE conjE)
  with c(2) show ?thesis by (intro exI [of _ c] exI [of _ c'] conjI)
qed

end
