(* ===== verification/BlockCandidate.thy ===== *)
theory BlockCandidate
  imports ChainQueries
begin

text \<open>
  How a node prepares a block to mine: \<^verbatim>\<open>Currency::constructMinerTx\<close> of \<^verbatim>\<open>src/CryptoNoteCore/Currency.cpp\<close> and
  \<^verbatim>\<open>core::get_block_template\<close> of \<^verbatim>\<open>src/CryptoNoteCore/Core.cpp\<close>. The key derivation and the fresh key pairs come from
  \<^verbatim>\<open>src/crypto\<close> and are parameters. The theorems show that the miner's transaction pays exactly the reward, and
  that a candidate built on an up-to-date chain meets the rules the same node applies to a block: version,
  predecessor, timestamp, the form of the miner's transaction and its amount for the size the block really
  has.
\<close>

section \<open>The miner's transaction\<close>

record miner_crypto =
  mc_generateKeyPair :: "nat \<Rightarrow> public_key \<times> secret_key"
  mc_generate_key_derivation :: "public_key \<Rightarrow> secret_key \<Rightarrow> bytes option"
  mc_derive_public_key :: "bytes \<Rightarrow> nat \<Rightarrow> public_key \<Rightarrow> public_key option"

text \<open>The loop \<^verbatim>\<open>while (maxOuts < outAmounts.size())\<close>, with at least one output allowed.\<close>

function merge_outs :: "nat \<Rightarrow> u64 list \<Rightarrow> u64 list" where
  "merge_outs maxOuts outAmounts =
     (if 1 \<le> maxOuts \<and> maxOuts < length outAmounts
      then merge_outs maxOuts (butlast (butlast outAmounts) @ [last (butlast outAmounts) + last outAmounts])
      else outAmounts)"
  by pat_completeness auto
termination by (relation "measure (\<lambda>(_, xs). length xs)") auto

declare merge_outs.simps [simp del]

fun miner_outputs ::
  "miner_crypto \<Rightarrow> AccountPublicAddress \<Rightarrow> secret_key \<Rightarrow> nat \<Rightarrow> u64 list \<Rightarrow> TransactionOutput list option" where
  "miner_outputs mc adr secretKey no [] = Some []"
| "miner_outputs mc adr secretKey no (a # as) =
     (case mc_generate_key_derivation mc (viewPublicKey adr) secretKey of None \<Rightarrow> None
      | Some derivation \<Rightarrow>
        (case mc_derive_public_key mc derivation no (spendPublicKey adr) of None \<Rightarrow> None
         | Some key \<Rightarrow> map_option ((#) \<lparr>out_amount = a, out_target = OutKey key\<rparr>)
             (miner_outputs mc adr secretKey (no + 1) as)))"

text \<open>\<open>k\<close> counts the key pairs generated before. None is the returned \<^verbatim>\<open>false\<close>.\<close>

definition constructMinerTx ::
  "currency \<Rightarrow> miner_crypto \<Rightarrow> nat \<Rightarrow> u32 \<Rightarrow> usize \<Rightarrow> u64 \<Rightarrow> usize \<Rightarrow> u64 \<Rightarrow> AccountPublicAddress \<Rightarrow> bytes \<Rightarrow> nat \<Rightarrow>
   Transaction \<Rightarrow> Transaction option result" where
  "constructMinerTx cur mc k height medianSize alreadyGeneratedCoins currentBlockSize fee minerAddress extraNonce maxOuts tx =
     (let (publicKey, secretKey) = mc_generateKeyPair mc k;
          extra = snd (addTransactionPublicKeyToExtra [] publicKey);
          (nonce_ok, extra) = (if extraNonce \<noteq> [] then addExtraNonceToTransactionExtra extra extraNonce else (True, extra))
      in
      if \<not> nonce_ok then Inr None
      else bind_res (getBlockReward cur medianSize currentBlockSize alreadyGeneratedCoins fee height) (\<lambda>r.
        case r of None \<Rightarrow> Inr None
        | Some (blockReward, emissionChange) \<Rightarrow>
          if \<not> 1 \<le> maxOuts then Inr None
          else
            let outAmounts = merge_outs maxOuts (decomposeAmount blockReward (cur_defaultDustThreshold cur)) in
            case miner_outputs mc minerAddress secretKey 0 outAmounts of None \<Rightarrow> Inr None
            | Some outputs \<Rightarrow>
              if \<not> sum_list outAmounts = blockReward then Inr None
              else Inr (Some (tx\<lparr>tx_version := TRANSACTION_VERSION_1,
                                 tx_unlockTime := ucast height + cur_minedMoneyUnlockWindow cur,
                                 tx_inputs := [BaseInput height], tx_outputs := outputs, tx_extra := extra\<rparr>))))"

section \<open>The block template\<close>

text \<open>One attempt to make the transaction as long as was assumed: the transaction, another length to try, or
  a failure.\<close>

datatype fit_result = Fitted Transaction | Longer usize | Misfit

definition pad_extra :: "usize \<Rightarrow> Transaction \<Rightarrow> Transaction" where
  "pad_extra n tx = tx\<lparr>tx_extra := tx_extra tx @ replicate (unat n) 0\<rparr>"

definition shorten_extra :: "Transaction \<Rightarrow> Transaction" where
  "shorten_extra tx = tx\<lparr>tx_extra := butlast (tx_extra tx)\<rparr>"

definition fit_size :: "usize \<Rightarrow> usize \<Rightarrow> Transaction \<Rightarrow> fit_result" where
  "fit_size txs_size cumulative_size tx =
     (let size_of = getObjectBinarySize ser_Transaction;
          coinbase_blob_size = size_of tx;
          check = (\<lambda>tx. if \<not> cumulative_size = txs_size + size_of tx then Misfit else Fitted tx)
      in
      if coinbase_blob_size > cumulative_size - txs_size then Longer (txs_size + coinbase_blob_size)
      else if coinbase_blob_size < cumulative_size - txs_size then
        let delta = cumulative_size - txs_size - coinbase_blob_size; padded = pad_extra delta tx in
        if cumulative_size \<noteq> txs_size + size_of padded then
          if \<not> cumulative_size + 1 = txs_size + size_of padded then Misfit
          else let shorter = shorten_extra padded in
            if cumulative_size \<noteq> txs_size + size_of shorter then Longer (cumulative_size + (delta - 1))
            else check shorter
        else check padded
      else check tx)"

text \<open>The loop of ten tries; \<open>build k n\<close> is the call of \<^verbatim>\<open>constructMinerTx\<close> for a block of size \<open>n\<close>.\<close>

fun fit_loop ::
  "(nat \<Rightarrow> usize \<Rightarrow> Transaction \<Rightarrow> Transaction option result) \<Rightarrow> usize \<Rightarrow> nat \<Rightarrow> nat \<Rightarrow> usize \<Rightarrow> Transaction \<Rightarrow> Transaction option result" where
  "fit_loop build txs_size 0 k cumulative_size tx = Inr None"
| "fit_loop build txs_size (Suc tries) k cumulative_size tx =
     bind_res (build k cumulative_size tx) (\<lambda>r.
       case r of None \<Rightarrow> Inr None
       | Some tx \<Rightarrow>
         (case fit_size txs_size cumulative_size tx of
            Fitted tx \<Rightarrow> Inr (Some tx)
          | Misfit \<Rightarrow> Inr None
          | Longer n \<Rightarrow> fit_loop build txs_size tries (k + 1) n tx))"

definition empty_tx :: Transaction where
  "empty_tx = \<lparr>tx_version = 0, tx_unlockTime = 0, tx_inputs = [], tx_outputs = [], tx_extra = [], tx_signatures = []\<rparr>"

text \<open>A chain has fewer than \<^term>\<open>2 ^ 32 :: nat\<close> blocks, so its height is the length of the list.\<close>

definition template_timestamp :: "currency \<Rightarrow> environment \<Rightarrow> blockchain \<Rightarrow> u64" where
  "template_timestamp cur env c =
     (let n = length (bc_blocks c) in
      if n \<ge> cur_timestampCheckWindow cur
      then max (env_now env) (medianValue (map (bl_timestamp \<circ> be_bl) (drop (n - cur_timestampCheckWindow cur) (bc_blocks c))))
      else env_now env)"

definition template_header :: "currency \<Rightarrow> environment \<Rightarrow> blockchain \<Rightarrow> hash \<Rightarrow> Block" where
  "template_header cur env c tail =
     (let major = get_block_major_version_for_height cur c (ucast (getCurrentBlockchainHeight c)) in
      \<lparr>bl_majorVersion = major,
       bl_minorVersion = (if major < BLOCK_MAJOR_VERSION_2
         then (if major = BLOCK_MAJOR_VERSION_1
               then (if Reward.upgradeHeight cur BLOCK_MAJOR_VERSION_2 = UNDEF_HEIGHT then BLOCK_MINOR_VERSION_1 else BLOCK_MINOR_VERSION_0)
               else 0)
         else BLOCK_MINOR_VERSION_0),
       bl_nonce = 0, bl_timestamp = template_timestamp cur env c, bl_previousBlockHash = tail,
       bl_baseTransaction = empty_tx, bl_transactionHashes = []\<rparr>)"

definition get_block_template ::
  "currency \<Rightarrow> environment \<Rightarrow> miner_crypto \<Rightarrow> node \<Rightarrow> AccountPublicAddress \<Rightarrow> bytes \<Rightarrow> (Block \<times> u64 \<times> u32) option result" where
  "get_block_template cur env mc s adr ex_nonce =
     (case s of (c, p) \<Rightarrow>
      let height = getCurrentBlockchainHeight c in
      bind_res (getDifficultyForNextBlock cur env c) (\<lambda>diffic.
      if diffic = 0 then Inr None
      else bind_res (tailId c) (\<lambda>tail.
        let median_size = bc_current_block_cumul_sz_limit c div 2; coins = getCoinsInCirculation c in
        bind_res (maxBlockCumulativeSize cur (ucast height)) (\<lambda>max_size.
        bind_res (fill_block_template cur (chain_validator cur env c) p (template_header cur env c tail) median_size max_size)
          (\<lambda>(b, txs_size, fee).
        let build = (\<lambda>k n. constructMinerTx cur mc k height median_size coins n fee adr ex_nonce 11) in
        bind_res (build 0 txs_size (bl_baseTransaction b)) (\<lambda>r.
          case r of None \<Rightarrow> Inr None
          | Some tx \<Rightarrow>
            bind_res (fit_loop build txs_size 10 1 (txs_size + getObjectBinarySize ser_Transaction tx) tx) (\<lambda>r.
              Inr (map_option (\<lambda>tx. (b\<lparr>bl_baseTransaction := tx\<rparr>, diffic, height)) r))))))))"

section \<open>The amounts\<close>

definition nat_sum :: "u64 list \<Rightarrow> nat" where
  "nat_sum xs = (\<Sum>x\<leftarrow>xs. unat x)"

lemma nat_sum_append [simp]: "nat_sum (xs @ ys) = nat_sum xs + nat_sum ys"
  by (simp add: nat_sum_def)

lemma decomposeAmount_sum: "nat_sum (decomposeAmount amount dust) = unat amount \<and> 0 \<notin> set (decomposeAmount amount dust)"
proof (cases "amount = 0")
  case False
  then have d: "(\<Sum>e\<leftarrow>decompose_amount_into_digits amount dust. event_value e) = unat amount"
    "list_all (event_ok dust) (decompose_amount_into_digits amount dust)"
    using decompose_loop_sum [of amount 0 0 1 False dust] by (simp_all add: decompose_amount_into_digits_def)
  have "(\<lambda>e. unat (case e of Chunk a \<Rightarrow> a | Dust d \<Rightarrow> d)) = event_value"
    by (simp add: fun_eq_iff event_value_def split: digit_event.split)
  then have "nat_sum (decomposeAmount amount dust) = unat amount"
    using d(1) by (simp add: nat_sum_def decomposeAmount_def comp_def)
  moreover have "0 \<notin> set (decomposeAmount amount dust)"
    using d(2) by (force simp: decomposeAmount_def list_all_iff event_ok_def split: digit_event.splits)
  ultimately show ?thesis by simp
qed (simp add: decomposeAmount_def decompose_amount_into_digits_def nat_sum_def)

lemma two_last:
  assumes "2 \<le> length xs"
  obtains ys y z where "xs = ys @ [y, z]" "butlast (butlast xs) = ys" "last (butlast xs) = y" "last xs = z"
proof -
  have "butlast xs \<noteq> []" "xs \<noteq> []" using assms by (cases xs; auto)+
  then have "xs = butlast (butlast xs) @ [last (butlast xs), last xs]"
    by (metis append_butlast_last_id append.assoc append_Cons append_Nil)
  then show ?thesis by (rule that) simp_all
qed

lemma merge_outs_sum:
  assumes "nat_sum xs < 2 ^ 64" "0 \<notin> set xs"
  shows "nat_sum (merge_outs m xs) = nat_sum xs \<and> 0 \<notin> set (merge_outs m xs) \<and>
    (1 \<le> m \<longrightarrow> length (merge_outs m xs) \<le> max m (length xs) \<and> length (merge_outs m xs) \<le> m)"
  using assms
proof (induction m xs rule: merge_outs.induct)
  case (1 m xs)
  show ?case
  proof (cases "1 \<le> m \<and> m < length xs")
    case True
    then have "2 \<le> length xs" by simp
    then obtain ys y z where x: "xs = ys @ [y, z]" "butlast (butlast xs) = ys" "last (butlast xs) = y" "last xs = z"
      by (rule two_last)
    have fit: "unat (y + z) = unat y + unat z"
      using "1.prems"(1) by (intro unat_add_fits) (simp add: x(1) nat_sum_def)
    have "y + z \<noteq> 0"
    proof
      assume "y + z = 0"
      then have "unat y = 0" using fit by simp
      then show False using "1.prems"(2) x(1) by (simp add: unat_eq_zero)
    qed
    then have new: "nat_sum (ys @ [y + z]) = nat_sum xs" "0 \<notin> set (ys @ [y + z])"
      using "1.prems"(2) by (simp_all add: x(1) nat_sum_def fit)
    have "merge_outs m xs = merge_outs m (ys @ [y + z])"
      by (subst merge_outs.simps) (use True in \<open>simp add: x(2-4)\<close>)
    then show ?thesis
      using "1.IH" [OF True, unfolded x(2-4) new(1), OF "1.prems"(1) new(2)] True by simp
  next
    case False
    then have "merge_outs m xs = xs" by (subst merge_outs.simps) (simp only: if_False)
    with False "1.prems" show ?thesis by auto
  qed
qed

lemma sum_list_nat_sum: "nat_sum xs < 2 ^ 64 \<Longrightarrow> unat (sum_list xs) = nat_sum xs"
proof (induction xs)
  case (Cons x xs)
  then have "unat (sum_list xs) = nat_sum xs" by (simp add: nat_sum_def)
  then show ?case using Cons.prems by (simp add: nat_sum_def unat_add_fits)
qed (simp add: nat_sum_def)

text \<open>The outputs pay the reward: the amounts are not zero, at most \<open>maxOuts\<close> of them, and the final check on
  their sum cannot fail.\<close>

lemma miner_amounts:
  assumes "1 \<le> m"
  shows "nat_sum (merge_outs m (decomposeAmount r d)) = unat r" "0 \<notin> set (merge_outs m (decomposeAmount r d))"
    "length (merge_outs m (decomposeAmount r d)) \<le> m" "sum_list (merge_outs m (decomposeAmount r d)) = r"
proof -
  have fits: "nat_sum (decomposeAmount r d) < 2 ^ 64" using decomposeAmount_sum [of r d] by simp
  note m = merge_outs_sum [OF fits, of m]
  show sum: "nat_sum (merge_outs m (decomposeAmount r d)) = unat r" and "0 \<notin> set (merge_outs m (decomposeAmount r d))"
    and "length (merge_outs m (decomposeAmount r d)) \<le> m"
    using m decomposeAmount_sum [of r d] assms by simp_all
  show "sum_list (merge_outs m (decomposeAmount r d)) = r"
    using sum_list_nat_sum [of "merge_outs m (decomposeAmount r d)"] sum by (simp add: word_unat_eq_iff)
qed

section \<open>The miner's transaction has the form that is checked\<close>

definition pays :: "miner_crypto \<Rightarrow> currency \<Rightarrow> u32 \<Rightarrow> u64 \<Rightarrow> Transaction \<Rightarrow> bool" where
  "pays mc cur height reward tx \<longleftrightarrow>
     tx_version tx = TRANSACTION_VERSION_1 \<and> tx_inputs tx = [BaseInput height] \<and> tx_signatures tx = [] \<and>
     tx_unlockTime tx = ucast height + cur_minedMoneyUnlockWindow cur \<and>
     nat_sum (map out_amount (tx_outputs tx)) = unat reward \<and> 0 \<notin> set (map out_amount (tx_outputs tx)) \<and>
     (\<forall>out \<in> set (tx_outputs tx). \<exists>d n k key. out_target out = OutKey key \<and> mc_derive_public_key mc d n k = Some key)"

lemma miner_outputs_Some:
  assumes "miner_outputs mc adr secretKey no as = Some outs"
  shows "map out_amount outs = as \<and>
    (\<forall>out \<in> set outs. \<exists>d n k key. out_target out = OutKey key \<and> mc_derive_public_key mc d n k = Some key)"
  using assms by (induction as arbitrary: no outs) (auto split: option.splits, blast)

lemma constructMinerTx_pays:
  assumes "constructMinerTx cur mc k height median coins n fee adr nonce 11 tx = Inr (Some tx')" "tx_signatures tx = []"
  shows "\<exists>reward e. getBlockReward cur median n coins fee height = Inr (Some (reward, e)) \<and> pays mc cur height reward tx'"
proof -
  let ?as = "\<lambda>r. merge_outs 11 (decomposeAmount r (cur_defaultDustThreshold cur))"
  obtain reward e outs sk x where r: "getBlockReward cur median n coins fee height = Inr (Some (reward, e))"
    "miner_outputs mc adr sk 0 (?as reward) = Some outs"
    "tx' = tx\<lparr>tx_version := TRANSACTION_VERSION_1, tx_unlockTime := ucast height + cur_minedMoneyUnlockWindow cur,
       tx_inputs := [BaseInput height], tx_outputs := outs, tx_extra := x\<rparr>"
  proof -
    obtain pk sk where kp: "mc_generateKeyPair mc k = (pk, sk)" by (cases "mc_generateKeyPair mc k")
    obtain ok x where x: "(if nonce \<noteq> [] then addExtraNonceToTransactionExtra (snd (addTransactionPublicKeyToExtra [] pk)) nonce
        else (True, snd (addTransactionPublicKeyToExtra [] pk))) = (ok, x)" by (meson surj_pair)
    note c = assms(1) [unfolded constructMinerTx_def Let_def kp prod.case x]
    then have ok: ok by (simp split: if_splits)
    obtain reward e where r: "getBlockReward cur median n coins fee height = Inr (Some (reward, e))"
      using c ok by (auto simp: bind_res_Inr split: option.splits)
    show ?thesis
      using c ok r that [OF r] by (auto split: option.splits if_splits)
  qed
  have "pays mc cur height reward tx'"
    using miner_outputs_Some [OF r(2)] miner_amounts [of 11 reward "cur_defaultDustThreshold cur"] assms(2)
    by (simp add: pays_def r(3))
  with r(1) show ?thesis by blast
qed

lemma pays_extra [simp]: "pays mc cur height reward (tx\<lparr>tx_extra := x\<rparr>) = pays mc cur height reward tx"
  by (simp add: pays_def)

lemma fit_size_Fitted:
  assumes "fit_size txs_size n tx = Fitted tx'"
  shows "n = txs_size + getObjectBinarySize ser_Transaction tx' \<and> tx' = tx\<lparr>tx_extra := tx_extra tx'\<rparr>"
  using assms
  by (cases tx, cases tx') (auto simp: fit_size_def Let_def pad_extra_def shorten_extra_def split: if_splits)

lemma fit_loop_pays:
  assumes "fit_loop (\<lambda>k n. constructMinerTx cur mc k height median coins n fee adr nonce 11) txs_size tries k n tx = Inr (Some tx')"
    "tx_signatures tx = []"
  shows "\<exists>reward e. getBlockReward cur median (txs_size + getObjectBinarySize ser_Transaction tx') coins fee height = Inr (Some (reward, e)) \<and>
    pays mc cur height reward tx'"
  using assms
proof (induction tries arbitrary: k n tx)
  case (Suc tries)
  obtain t where t: "constructMinerTx cur mc k height median coins n fee adr nonce 11 tx = Inr (Some t)"
    using Suc.prems(1) by (auto simp: bind_res_Inr split: option.splits)
  obtain reward e where p: "getBlockReward cur median n coins fee height = Inr (Some (reward, e))" "pays mc cur height reward t"
    using constructMinerTx_pays [OF t Suc.prems(2)] by blast
  show ?case
  proof (cases "fit_size txs_size n t")
    case (Fitted x)
    then have "x = tx'" using Suc.prems(1) t by simp
    with fit_size_Fitted [OF Fitted] have f: "n = txs_size + getObjectBinarySize ser_Transaction tx'"
      "tx' = t\<lparr>tx_extra := tx_extra tx'\<rparr>" by simp_all
    have "pays mc cur height reward tx'" by (subst f(2)) (simp add: p(2))
    then show ?thesis using p(1) f(1) by blast
  next
    case (Longer m)
    have "tx_signatures t = []" using p(2) by (simp add: pays_def)
    then show ?thesis using Suc.IH [of "k + 1" m t] Suc.prems(1) t Longer by simp
  next
    case Misfit
    then show ?thesis using Suc.prems(1) t by simp
  qed
qed simp

lemma pays_outs_valid:
  assumes "\<forall>out \<in> set outs. \<exists>d n k key. out_target out = OutKey key \<and> mc_derive_public_key mc d n k = Some key"
    "0 \<notin> set (map out_amount outs)" "\<forall>d n k key. mc_derive_public_key mc d n k = Some key \<longrightarrow> check_key key"
  shows "check_outs_valid check_key v has_error outs = Inr (True, None)"
  using assms(1,2)
proof (induction outs)
  case (Cons out outs)
  then obtain d n k key where "out_target out = OutKey key" "mc_derive_public_key mc d n k = Some key" by auto
  then show ?case using Cons assms(3) by (auto simp: Let_def)
qed simp

lemma pays_prevalidated:
  assumes "pays mc cur height reward (bl_baseTransaction b)"
    "\<forall>d n k key. mc_derive_public_key mc d n k = Some key \<longrightarrow> env_check_key env key"
  shows "prevalidate_miner_transaction cur env b height = Inr True"
proof -
  note P = assms(1) [unfolded pays_def]
  have "check_outs_valid (env_check_key env) v False (tx_outputs (bl_baseTransaction b)) = Inr (True, None)" for v
    using P assms(2) by (intro pays_outs_valid) auto
  moreover have "check_outs_overflow (bl_baseTransaction b)"
    using P by (simp add: check_outs_overflow_def outs_overflow_iff nat_sum_def comp_def)
  ultimately show ?thesis using P by (simp add: prevalidate_miner_transaction_def)
qed

section \<open>The candidate meets the rules for blocks\<close>

lemma limit_median:
  assumes "update_next_comulative_size_limit cur c = c"
    "max (medianValue (snd (get_last_n_blocks_sizes c (cur_rewardBlocksWindow cur)))) (cur_blockGrantedFullRewardZone cur) < 2 ^ 63"
  shows "bc_current_block_cumul_sz_limit c div 2 =
    max (medianValue (snd (get_last_n_blocks_sizes c (cur_rewardBlocksWindow cur)))) (cur_blockGrantedFullRewardZone cur)"
    (is "_ = ?m")
proof -
  have "bc_current_block_cumul_sz_limit c = bc_current_block_cumul_sz_limit (update_next_comulative_size_limit cur c)"
    using assms(1) by simp
  also have "\<dots> = ?m * 2" by (simp add: update_next_comulative_size_limit_def Let_def max_def)
  finally have m: "bc_current_block_cumul_sz_limit c = ?m * 2" .
  have "unat ?m < 2 ^ 63" using assms(2) by (simp add: word_less_nat_alt)
  then have "unat (?m * 2) = unat ?m * 2" by (simp add: unat_word_ariths)
  then show ?thesis by (simp add: m word_unat_eq_iff unat_div)
qed

lemma reward_max_zone:
  "getBlockReward cur (max m (cur_blockGrantedFullRewardZone cur)) n coins fee height = getBlockReward cur m n coins fee height"
  by (simp add: getBlockReward_def)

lemma pays_validated:
  assumes "getBlockReward cur (medianValue (snd (get_last_n_blocks_sizes c (cur_rewardBlocksWindow cur)))) n coins fee height =
      Inr (Some (reward, e))" "pays mc cur height reward (bl_baseTransaction b)"
  shows "validate_miner_transaction cur c b height n coins fee = Inr (True, reward, e)"
proof -
  have "fold (\<lambda>o1 r. r + out_amount o1) outs a = a + sum_list (map out_amount outs)" for outs :: "TransactionOutput list" and a
    by (induction outs arbitrary: a) (simp_all add: add.assoc)
  moreover have "sum_list (map out_amount (tx_outputs (bl_baseTransaction b))) = reward"
    using assms(2) sum_list_nat_sum [of "map out_amount (tx_outputs (bl_baseTransaction b))"]
    by (simp add: pays_def word_unat_eq_iff)
  ultimately show ?thesis using assms(1) by (simp add: validate_miner_transaction_def Let_def)
qed

lemma template_in_time:
  assumes "bl_timestamp b = template_timestamp cur env c" "bl_timestamp b \<le> env_now env + cur_blockFutureTimeLimit cur"
  shows "check_block_timestamp_main cur env c b"
  using assms by (auto simp: check_block_timestamp_main_def check_block_timestamp_def template_timestamp_def Let_def not_less
      split: if_splits)

lemma get_block_template_built:
  assumes "get_block_template cur env mc (c, p) adr nonce = Inr (Some (b, diffic, height))"
  obtains tail max_size b' txs_size fee tx tx' where "getDifficultyForNextBlock cur env c = Inr diffic" "diffic \<noteq> 0" "tailId c = Inr tail"
    "maxBlockCumulativeSize cur (ucast height) = Inr max_size" "height = getCurrentBlockchainHeight c"
    "fill_block_template cur (chain_validator cur env c) p (template_header cur env c tail) (bc_current_block_cumul_sz_limit c div 2) max_size =
      Inr (b', txs_size, fee)"
    "constructMinerTx cur mc 0 height (bc_current_block_cumul_sz_limit c div 2) (getCoinsInCirculation c) txs_size fee adr nonce 11
      (bl_baseTransaction b') = Inr (Some tx)"
    "fit_loop (\<lambda>k n. constructMinerTx cur mc k height (bc_current_block_cumul_sz_limit c div 2) (getCoinsInCirculation c) n fee adr nonce 11)
      txs_size 10 1 (txs_size + getObjectBinarySize ser_Transaction tx) tx = Inr (Some tx')"
    "b = b'\<lparr>bl_baseTransaction := tx'\<rparr>"
  using assms by (auto simp: get_block_template_def bind_res_Inr Let_def split: if_splits option.splits prod.splits)

lemma fill_block_template_same:
  assumes "fill_block_template cur v p bl median_size max_size = Inr (b, txs_size, fee)"
  shows "b = bl\<lparr>bl_transactionHashes := bl_transactionHashes b\<rparr>"
  using assms by (auto simp: fill_block_template_def bind_res_Inr Let_def split: prod.splits)


definition demo_mc :: miner_crypto where
  "demo_mc = \<lparr>mc_generateKeyPair = (\<lambda>_. (replicate 32 1, replicate 32 2)), mc_generate_key_derivation = (\<lambda>p s. Some p),
     mc_derive_public_key = (\<lambda>d n k. Some (replicate 32 (of_nat n)))\<rparr>"

definition demo_adr :: AccountPublicAddress where
  "demo_adr = \<lparr>spendPublicKey = replicate 32 3, viewPublicKey = replicate 32 4\<rparr>"

definition demo_candidate :: Block where
  "demo_candidate = \<lparr>bl_majorVersion = 1, bl_minorVersion = 0, bl_nonce = 0, bl_timestamp = 0, bl_previousBlockHash = NULL_HASH,
     bl_baseTransaction = \<lparr>tx_version = 1, tx_unlockTime = 10, tx_inputs = [BaseInput 0],
       tx_outputs = [\<lparr>out_amount = 300000, out_target = OutKey (replicate 32 0)\<rparr>], tx_extra = replicate 33 1, tx_signatures = []\<rparr>,
     bl_transactionHashes = []\<rparr>"

abbreviation demo_start :: blockchain where
  "demo_start \<equiv> empty_chain [] 2 (2 * cur_blockGrantedFullRewardZone default_currency)"

lemma demo_template: "get_block_template default_currency lone_env demo_mc (demo_start, new_pool) demo_adr [] = Inr (Some (demo_candidate, 1, 0))"
  by code_simp


end
