(* ===== verification/NodeCore.thy ===== *)
theory NodeCore
  imports ChainQueries
begin

text \<open>
  The node's core, \<^verbatim>\<open>src/CryptoNoteCore/Core.cpp\<close>: transactions and blocks that arrive are parsed, checked and
  handed to the pool and the chain, blocks are relayed, and wallets ask for the blocks they miss. The state is
  the chain together with the pool. The theorems show that a node keeps its pool and its chain consistent with each
  other over every sequence of incoming transactions, blocks, disconnected blocks and idle steps, that it relays
  every block it accepts in full, and that the blocks it answers a wallet with follow each other without a gap.

  The miner thread, the observers and the locks are not modelled; \<^verbatim>\<open>time(nullptr)\<close> is \<open>env_now\<close>.
\<close>

section \<open>Transactions\<close>

definition parseAndValidateTransactionFromBinaryArray :: "bytes \<Rightarrow> (Transaction \<times> hash \<times> hash) option" where
  "parseAndValidateTransactionFromBinaryArray tx_blob =
     (case fromBinaryArray des_Transaction tx_blob of None \<Rightarrow> None
      | Some tx \<Rightarrow> Some (tx, cn_fast_hash tx_blob, getObjectHash ser_prefix (TransactionPrefix.truncate tx)))"

fun keyimages_diff_loop :: "TransactionInput list \<Rightarrow> key_image set \<Rightarrow> bool" where
  "keyimages_diff_loop [] ki = True"
| "keyimages_diff_loop (InKey i # is) ki =
     (if ki_keyImage i \<in> ki then False else keyimages_diff_loop is (insert (ki_keyImage i) ki))"
| "keyimages_diff_loop (_ # is) ki = keyimages_diff_loop is ki"

definition check_tx_inputs_keyimages_diff :: "Transaction \<Rightarrow> bool" where
  "check_tx_inputs_keyimages_diff tx = keyimages_diff_loop (tx_inputs tx) {}"

text \<open>The verdict with the height, which is an argument by reference. The amounts do not depend on the height.\<close>

definition check_tx_semantic :: "environment \<Rightarrow> Transaction \<Rightarrow> u32 \<Rightarrow> (bool \<times> u32) result" where
  "check_tx_semantic env tx height =
     (if tx_inputs tx = [] then Inr (False, height)
      else if \<not> check_inputs_types_supported tx then Inr (False, height)
      else bind_res (check_outs_valid (env_check_key env) (tx_version tx) True (tx_outputs tx)) (\<lambda>(ok, errmsg).
        if \<not> ok then Inr (False, height)
        else if \<not> check_money_overflow tx then Inr (False, height)
        else
          let amount_in = getTransactionAllInputsAmount tx;
              amount_out = get_outs_money_amount tx;
              testHeight = (if height > END_MULTIPLIER_BLOCK then 0 else - 1);
              amount_in' = (if amount_in < amount_out then getTransactionAllInputsAmount tx else amount_in);
              height' = (if amount_in < amount_out then testHeight else height)
          in if amount_in' < amount_out then Inr (False, height)
             else if \<not> check_tx_inputs_keyimages_diff tx then Inr (False, height')
             else if \<not> checkMultisignatureInputsDiff tx then Inr (False, height')
             else Inr (True, height')))"

definition check_tx_fee :: "Transaction \<Rightarrow> tx_verification_context \<Rightarrow> bool \<times> tx_verification_context" where
  "check_tx_fee tx tvc =
     (let inputs_amount = get_inputs_money_amount tx;
          outputs_amount = get_outs_money_amount tx;
          fee = inputs_amount - outputs_amount
      in if outputs_amount > inputs_amount then (False, tvc\<lparr>tvc_verification_failed := True\<rparr>)
         else if fee < MINIMUM_FEE - MINIMUM_FEE * 20 div 100
         then (False, tvc\<lparr>tvc_verification_failed := True, tvc_tx_fee_too_small := True\<rparr>)
         else (True, tvc))"

definition add_new_tx ::
  "currency \<Rightarrow> environment \<Rightarrow> Transaction \<Rightarrow> hash \<Rightarrow> usize \<Rightarrow> tx_verification_context \<Rightarrow> bool \<Rightarrow> node \<Rightarrow>
   (bool \<times> tx_verification_context \<times> node) result" where
  "add_new_tx cur env tx txHash blob_size tvc keeped_by_block s =
     (case s of (c, p) \<Rightarrow>
      if haveTransaction c txHash then Inr (True, tvc, s)
      else if have_tx p txHash then Inr (True, tvc, s)
      else bind_res (add_tx cur (chain_validator cur env c) (env_now env) (env_now env) tx txHash blob_size tvc keeped_by_block p)
        (\<lambda>(r, tvc, p). Inr (r, tvc, (c, p))))"

definition handleIncomingTransaction ::
  "currency \<Rightarrow> environment \<Rightarrow> Transaction \<Rightarrow> hash \<Rightarrow> usize \<Rightarrow> tx_verification_context \<Rightarrow> bool \<Rightarrow> u32 \<Rightarrow> node \<Rightarrow>
   (bool \<times> tx_verification_context \<times> node) result" where
  "handleIncomingTransaction cur env tx txHash blobSize tvc keptByBlock height s =
     (case check_tx_fee tx tvc of (ok, tvc) \<Rightarrow>
      if \<not> ok then Inr (False, tvc\<lparr>tvc_verification_failed := True\<rparr>, s)
      else bind_res (check_tx_semantic env tx height) (\<lambda>(ok, height).
        if \<not> ok then Inr (False, tvc\<lparr>tvc_verification_failed := True\<rparr>, s)
        else add_new_tx cur env tx txHash blobSize tvc keptByBlock s))"

definition handle_incoming_tx ::
  "currency \<Rightarrow> environment \<Rightarrow> bytes \<Rightarrow> bool \<Rightarrow> node \<Rightarrow> (bool \<times> tx_verification_context \<times> node) result" where
  "handle_incoming_tx cur env tx_blob keeped_by_block s =
     (let failed = new_tvc\<lparr>tvc_verification_failed := True\<rparr> in
      if length tx_blob > unat (cur_maxTxSize cur) then Inr (False, failed, s)
      else case parseAndValidateTransactionFromBinaryArray tx_blob of None \<Rightarrow> Inr (False, failed, s)
      | Some (tx, txHash, _) \<Rightarrow>
        bind_res (getBlockContainingTransaction (fst s) txHash) (\<lambda>r.
          let blockHeight = (case r of None \<Rightarrow> getCurrentBlockchainHeight (fst s) | Some (_, h) \<Rightarrow> h) in
          handleIncomingTransaction cur env tx txHash (of_nat (length tx_blob)) new_tvc keeped_by_block blockHeight s))"

section \<open>Blocks\<close>

fun addChain_txs :: "currency \<Rightarrow> environment \<Rightarrow> Transaction list \<Rightarrow> u32 \<Rightarrow> node \<Rightarrow> (bool \<times> node) result" where
  "addChain_txs cur env [] height s = Inr (True, s)"
| "addChain_txs cur env (tx # txs) height s =
     bind_res (handleIncomingTransaction cur env tx (getObjectHash ser_Transaction tx) (getObjectBinarySize ser_Transaction tx)
         new_tvc True height s) (\<lambda>(ok, _, s).
       if \<not> ok then Inr (False, s) else addChain_txs cur env txs height s)"

text \<open>A block is given with its transactions; \<open>n\<close> counts the blocks added before. The fuel bounds nested
  reorganisations, as in \<^term>\<open>handle_alternative_block\<close>.\<close>

fun addChain_loop :: "nat \<Rightarrow> currency \<Rightarrow> environment \<Rightarrow> (Block \<times> Transaction list) list \<Rightarrow> usize \<Rightarrow> node \<Rightarrow> (usize \<times> node) result" where
  "addChain_loop fuel cur env [] blocksCounter s = Inr (blocksCounter, s)"
| "addChain_loop fuel cur env ((b, txs) # chain) blocksCounter s =
     bind_res (addChain_txs cur env txs (get_block_height b) s) (\<lambda>(allTransactionsAdded, s).
       if \<not> allTransactionsAdded then Inr (blocksCounter, s)
       else bind_res (addNewBlock fuel cur env b new_bvc s) (\<lambda>(_, bvc, s).
         if bvc_marked_as_orphaned bvc \<or> bvc_verification_failed bvc then Inr (blocksCounter, s)
         else addChain_loop fuel cur env chain (blocksCounter + 1) s))"

definition addChain :: "nat \<Rightarrow> currency \<Rightarrow> environment \<Rightarrow> (Block \<times> Transaction list) list \<Rightarrow> node \<Rightarrow> (usize \<times> node) result" where
  "addChain fuel cur env chain s = addChain_loop fuel cur env chain 0 s"

record new_block_request =
  nbr_b :: block_complete_entry
  nbr_current_blockchain_height :: u32
  nbr_hop :: u32

definition getBlockIdByHeight_core :: "blockchain \<Rightarrow> u32 \<Rightarrow> hash result" where
  "getBlockIdByHeight_core c height =
     (if height < getCurrentBlockchainHeight c then getBlockIdByHeight c height else Inr NULL_HASH)"

text \<open>The part after the block was added: the result of the call and the message that is relayed.\<close>

definition relay_block :: "Block \<Rightarrow> node \<Rightarrow> (bool \<times> new_block_request option) result" where
  "relay_block b s =
     bind_res (getTransactions_chain s (bl_transactionHashes b) False [] []) (\<lambda>(txs, missed_txs).
     bind_res (if missed_txs \<noteq> []
               then bind_res (getBlockIdByHeight_core (fst s) (get_block_height b)) (\<lambda>i. bind_res (get_block_hash b) (\<lambda>h. Inr (i \<noteq> h)))
               else Inr False) (\<lambda>reorganised.
       if reorganised then Inr (True, None)
       else if \<not> (length txs = length (bl_transactionHashes b) \<and> missed_txs = []) then Inr (False, None)
       else case toBinaryArray ser_Block b of None \<Rightarrow> Inr (False, None)
       | Some blockBa \<Rightarrow>
           Inr (True, Some \<lparr>nbr_b = \<lparr>bce_block = blockBa, bce_txs = map (blob_of ser_Transaction) txs\<rparr>,
                            nbr_current_blockchain_height = getCurrentBlockchainHeight (fst s), nbr_hop = 0\<rparr>)))"

definition handle_incoming_block ::
  "nat \<Rightarrow> currency \<Rightarrow> environment \<Rightarrow> Block \<Rightarrow> block_verification_context \<Rightarrow> bool \<Rightarrow> node \<Rightarrow>
   (bool \<times> block_verification_context \<times> new_block_request option \<times> node) result" where
  "handle_incoming_block fuel cur env b bvc relay s =
     bind_res (addNewBlock fuel cur env b bvc s) (\<lambda>(_, bvc, s).
       if relay \<and> bvc_added_to_main_chain bvc
       then bind_res (relay_block b s) (\<lambda>(ok, msg). Inr (ok, bvc, msg, s))
       else Inr (True, bvc, None, s))"

definition handle_incoming_block_blob ::
  "nat \<Rightarrow> currency \<Rightarrow> environment \<Rightarrow> bytes \<Rightarrow> block_verification_context \<Rightarrow> bool \<Rightarrow> node \<Rightarrow>
   (bool \<times> block_verification_context \<times> new_block_request option \<times> node) result" where
  "handle_incoming_block_blob fuel cur env block_blob bvc relay s =
     (let failed = bvc\<lparr>bvc_verification_failed := True\<rparr> in
      if length block_blob > unat (cur_maxBlockBlobSize cur) then Inr (False, failed, None, s)
      else case fromBinaryArray des_Block block_blob of None \<Rightarrow> Inr (False, failed, None, s)
      | Some b \<Rightarrow> handle_incoming_block fuel cur env b bvc relay s)"

definition handle_block_found ::
  "nat \<Rightarrow> currency \<Rightarrow> environment \<Rightarrow> Block \<Rightarrow> node \<Rightarrow> (bool \<times> new_block_request option \<times> node) result" where
  "handle_block_found fuel cur env b s =
     bind_res (handle_incoming_block fuel cur env b new_bvc True s) (\<lambda>(_, bvc, msg, s).
       Inr (bvc_added_to_main_chain bvc, msg, s))"

section \<open>Changes of the pool\<close>

definition getPoolChanges :: "currency \<Rightarrow> environment \<Rightarrow> hash list \<Rightarrow> node \<Rightarrow> (Transaction list \<times> hash set) result" where
  "getPoolChanges cur env knownTxsIds s =
     bind_res (get_difference (chain_validator cur env (fst s)) (snd s) knownTxsIds) (\<lambda>(addedTxsIds, deletedTxsIds).
       case getTransactions (snd s) addedTxsIds of (addedTxs, misses) \<Rightarrow>
         assert_res (misses = []) (Inr (addedTxs, deletedTxsIds)))"

definition getPoolChanges_tail ::
  "currency \<Rightarrow> environment \<Rightarrow> hash \<Rightarrow> hash list \<Rightarrow> node \<Rightarrow> (bool \<times> Transaction list \<times> hash set) result" where
  "getPoolChanges_tail cur env tailBlockId knownTxsIds s =
     bind_res (getPoolChanges cur env knownTxsIds s) (\<lambda>(addedTxs, deletedTxsIds).
     bind_res (tailId (fst s)) (\<lambda>tail. Inr (tailBlockId = tail, addedTxs, deletedTxsIds)))"

record TransactionPrefixInfo =
  tpi_txPrefix :: TransactionPrefix
  tpi_txHash :: hash

definition prefix_info :: "Transaction \<Rightarrow> TransactionPrefixInfo" where
  "prefix_info tx = \<lparr>tpi_txPrefix = TransactionPrefix.truncate tx, tpi_txHash = getObjectHash ser_Transaction tx\<rparr>"

definition getPoolChangesLite ::
  "currency \<Rightarrow> environment \<Rightarrow> hash \<Rightarrow> hash list \<Rightarrow> node \<Rightarrow> (bool \<times> TransactionPrefixInfo list \<times> hash set) result" where
  "getPoolChangesLite cur env tailBlockId knownTxsIds s =
     bind_res (getPoolChanges_tail cur env tailBlockId knownTxsIds s) (\<lambda>(returnStatus, added, deletedTxsIds).
       Inr (returnStatus, map prefix_info added, deletedTxsIds))"

section \<open>Blocks for a wallet\<close>

definition BLOCKS_IDS_SYNCHRONIZING_DEFAULT_COUNT :: usize where "BLOCKS_IDS_SYNCHRONIZING_DEFAULT_COUNT = 10000"

definition BLOCKS_SYNCHRONIZING_DEFAULT_COUNT :: usize where "BLOCKS_SYNCHRONIZING_DEFAULT_COUNT = 128"

definition findStartAndFullOffsets :: "currency \<Rightarrow> blockchain \<Rightarrow> hash list \<Rightarrow> u64 \<Rightarrow> (u32 \<times> u32) option result" where
  "findStartAndFullOffsets cur c knownBlockIds timestamp =
     (if knownBlockIds = [] then Inr None
      else bind_res (getBlockIdByHeight c 0) (\<lambda>genesis.
        if last knownBlockIds \<noteq> genesis then Inr None
        else bind_res (findBlockchainSupplement c knownBlockIds) (\<lambda>startOffset.
          bind_res (getLowerBound cur c timestamp (unat startOffset)) (\<lambda>r.
            Inr (Some (startOffset, case r of None \<Rightarrow> startOffset | Some startFullOffset \<Rightarrow> startFullOffset))))))"

definition findIdsForShortBlocks :: "blockchain \<Rightarrow> u32 \<Rightarrow> u32 \<Rightarrow> hash list result" where
  "findIdsForShortBlocks c startOffset startFullOffset =
     assert_res (startOffset \<le> startFullOffset)
      (Inr (if startOffset < startFullOffset
            then getBlockIds startOffset (min (ucast BLOCKS_IDS_SYNCHRONIZING_DEFAULT_COUNT) (startFullOffset - startOffset)) (bc_blockIndex c)
            else []))"

record BlockFullInfo = block_complete_entry +
  bfi_block_id :: hash

record BlockShortInfo =
  bsi_blockId :: hash
  bsi_block :: bytes
  bsi_txPrefixes :: "TransactionPrefixInfo list"

text \<open>The loop over the blocks that may be sent in full; \<open>full\<close> makes the entry of such a block.\<close>

fun query_entries :: "(Block \<Rightarrow> Transaction list \<Rightarrow> hash \<Rightarrow> 'e) \<Rightarrow> (hash \<Rightarrow> 'e) \<Rightarrow> node \<Rightarrow> u64 \<Rightarrow> Block list \<Rightarrow> 'e list result" where
  "query_entries full short s timestamp [] = Inr []"
| "query_entries full short s timestamp (b # bs) =
     bind_res (get_block_hash b) (\<lambda>h.
     bind_res (if bl_timestamp b \<ge> timestamp
               then bind_res (getTransactions_chain s (bl_transactionHashes b) False [] []) (\<lambda>(txs, _). Inr (full b txs h))
               else Inr (short h)) (\<lambda>e.
     bind_res (query_entries full short s timestamp bs) (\<lambda>es. Inr (e # es))))"

definition blocks_left :: "nat \<Rightarrow> u32" where
  "blocks_left n = ucast (min (BLOCKS_IDS_SYNCHRONIZING_DEFAULT_COUNT - of_nat n) BLOCKS_SYNCHRONIZING_DEFAULT_COUNT)"

definition full_info :: "Block \<Rightarrow> Transaction list \<Rightarrow> hash \<Rightarrow> BlockFullInfo" where
  "full_info b txs h =
     \<lparr>bce_block = blob_of ser_Block b, bce_txs = map (blob_of ser_Transaction) txs, bfi_block_id = h\<rparr>"

definition id_info :: "hash \<Rightarrow> BlockFullInfo" where
  "id_info h = \<lparr>bce_block = [], bce_txs = [], bfi_block_id = h\<rparr>"

text \<open>The first offset, the current height, the offset of the first block sent in full, and the entries.\<close>

definition queryBlocks ::
  "currency \<Rightarrow> hash list \<Rightarrow> u64 \<Rightarrow> node \<Rightarrow> (u32 \<times> u32 \<times> u32 \<times> BlockFullInfo list) option result" where
  "queryBlocks cur knownBlockIds timestamp s =
     bind_res (findStartAndFullOffsets cur (fst s) knownBlockIds timestamp) (\<lambda>r.
       case r of None \<Rightarrow> Inr None
       | Some (startOffset, startFullOffset) \<Rightarrow>
         bind_res (findIdsForShortBlocks (fst s) startOffset startFullOffset) (\<lambda>blockIds.
           let entries = map id_info blockIds;
               answer = (\<lambda>es. Inr (Some (startOffset, getCurrentBlockchainHeight (fst s), startFullOffset, es)));
               blocksLeft = blocks_left (length entries)
           in if blocksLeft = 0 then answer entries
              else bind_res (query_entries full_info id_info s timestamp (snd (getBlocks_range (fst s) startFullOffset blocksLeft)))
                (\<lambda>es. answer (entries @ es))))"

definition short_info :: "Block \<Rightarrow> Transaction list \<Rightarrow> hash \<Rightarrow> BlockShortInfo" where
  "short_info b txs h =
     \<lparr>bsi_blockId = h, bsi_block = blob_of ser_Block b, bsi_txPrefixes = map prefix_info txs\<rparr>"

definition short_id_info :: "hash \<Rightarrow> BlockShortInfo" where
  "short_id_info h = \<lparr>bsi_blockId = h, bsi_block = [], bsi_txPrefixes = []\<rparr>"

definition queryBlocksLite ::
  "currency \<Rightarrow> hash list \<Rightarrow> u64 \<Rightarrow> node \<Rightarrow> (u32 \<times> u32 \<times> u32 \<times> BlockShortInfo list) option result" where
  "queryBlocksLite cur knownBlockIds timestamp s =
     bind_res (findStartAndFullOffsets cur (fst s) knownBlockIds timestamp) (\<lambda>r.
       case r of None \<Rightarrow> Inr None
       | Some (resStartHeight, resFullOffset) \<Rightarrow>
         bind_res (findIdsForShortBlocks (fst s) resStartHeight resFullOffset) (\<lambda>blockIds.
           let entries = map short_id_info blockIds;
               answer = (\<lambda>es. Inr (Some (resStartHeight, getCurrentBlockchainHeight (fst s), resFullOffset, es)));
               blocksLeft = blocks_left (length entries)
           in if blocksLeft = 0 then answer entries
              else bind_res (query_entries short_info short_id_info s timestamp (snd (getBlocks_range (fst s) resFullOffset blocksLeft)))
                (\<lambda>es. answer (entries @ es))))"

section \<open>Other queries\<close>

fun blocks_by_hash :: "blockchain \<Rightarrow> hash list \<Rightarrow> Block list \<Rightarrow> (bool \<times> Block list) result" where
  "blocks_by_hash c [] blocks = Inr (True, blocks)"
| "blocks_by_hash c (h # hs) blocks =
     bind_res (getBlockByHash c h) (\<lambda>r.
       case r of None \<Rightarrow> Inr (False, blocks) | Some b \<Rightarrow> blocks_by_hash c hs (blocks @ [b]))"

definition getOrphanBlocksByHeight :: "blockchain \<Rightarrow> u32 \<Rightarrow> Block list \<Rightarrow> (bool \<times> Block list) result" where
  "getOrphanBlocksByHeight c height blocks =
     (case obi_find height (bc_orthanBlocksIndex c) [] of (found, blockHashes) \<Rightarrow>
      if \<not> found then Inr (False, blocks) else blocks_by_hash c blockHashes blocks)"

definition getBlocksByTimestamp ::
  "blockchain \<Rightarrow> u64 \<Rightarrow> u64 \<Rightarrow> u32 \<Rightarrow> Block list \<Rightarrow> u32 \<Rightarrow> (bool \<times> Block list \<times> u32) result" where
  "getBlocksByTimestamp c timestampBegin timestampEnd blocksNumberLimit blocks number =
     (case tbi_find timestampBegin timestampEnd blocksNumberLimit (bc_timestampIndex c) [] number of
        (found, blockHashes, number) \<Rightarrow>
          if \<not> found then Inr (False, blocks, number)
          else bind_res (blocks_by_hash c blockHashes blocks) (\<lambda>(ok, blocks). Inr (ok, blocks, number)))"

definition getPoolTransactionsByTimestamp ::
  "u64 \<Rightarrow> u64 \<Rightarrow> u32 \<Rightarrow> Transaction list \<Rightarrow> u64 \<Rightarrow> node \<Rightarrow> (bool \<times> Transaction list \<times> u64) result" where
  "getPoolTransactionsByTimestamp timestampBegin timestampEnd transactionsNumberLimit transactions number s =
     (case getTransactionIdsByTimestamp (snd s) timestampBegin timestampEnd transactionsNumberLimit [] number of
        (found, hashes, number) \<Rightarrow>
          if \<not> found then Inr (False, transactions, number)
          else bind_res (getTransactions_chain s hashes True [] []) (\<lambda>(txs, missed_txs).
            if length missed_txs > 0 then Inr (False, transactions, number) else Inr (True, transactions @ txs, number)))"

definition getTransactionsByPaymentId :: "hash \<Rightarrow> Transaction list \<Rightarrow> node \<Rightarrow> (bool \<times> Transaction list) result" where
  "getTransactionsByPaymentId paymentId transactions s =
     (case pii_find paymentId (lg_paymentIdIndex (fst s)) [] of (found, blockchainTransactionHashes) \<Rightarrow>
      if \<not> found then Inr (False, transactions)
      else case getTransactionIdsByPaymentId (snd s) paymentId [] of (found, poolTransactionHashes) \<Rightarrow>
        if \<not> found then Inr (False, transactions)
        else bind_res (getTransactions_chain s (blockchainTransactionHashes @ poolTransactionHashes) True [] []) (\<lambda>(txs, missed_txs).
          if length missed_txs > 0 then Inr (False, transactions) else Inr (True, transactions @ txs)))"

definition getTransactionHashesByPaymentId :: "hash \<Rightarrow> node \<Rightarrow> hash list" where
  "getTransactionHashesByPaymentId paymentId s =
     snd (pii_find paymentId (lg_paymentIdIndex (fst s)) []) @ snd (getTransactionIdsByPaymentId (snd s) paymentId [])"

definition getBlock :: "hash \<Rightarrow> node \<Rightarrow> (Block \<times> Transaction list) option result" where
  "getBlock blockId s =
     bind_res (getBlockByHash (fst s) blockId) (\<lambda>r.
       case r of None \<Rightarrow> Inr None
       | Some block \<Rightarrow>
         bind_res (getTransactions_chain s (bl_transactionHashes block) True [] []) (\<lambda>(txs, missedTxs).
           assert_res (missedTxs = [] \<or> \<not> hasBlock blockId (bc_blockIndex (fst s)))
            (Inr (if missedTxs \<noteq> [] then None else Some (block, txs)))))"

section \<open>Checked transactions\<close>

text \<open>What \<^verbatim>\<open>check_tx_fee\<close> and \<^verbatim>\<open>check_tx_semantic\<close> mean: no miner's input, each key image and each deposit used
  once, valid outputs, and the outputs together with 80 percent of the minimum fee at most the inputs, as
  sums of numbers that do not wrap.\<close>

definition well_typed :: "(public_key \<Rightarrow> bool) \<Rightarrow> Transaction \<Rightarrow> bool" where
  "well_typed check_key tx \<longleftrightarrow>
     tx_inputs tx \<noteq> [] \<and> check_inputs_types_supported tx \<and> ok_inputs tx \<and>
     check_outs_valid check_key (tx_version tx) True (tx_outputs tx) = Inr (True, None) \<and>
     (\<Sum>out\<leftarrow>tx_outputs tx. unat (out_amount out)) + 80 \<le> (\<Sum>i\<leftarrow>tx_inputs tx. unat (input_amount i)) \<and>
     (\<Sum>i\<leftarrow>tx_inputs tx. unat (input_amount i)) < 2 ^ 64"

lemma keyimages_diff_loop_iff: "keyimages_diff_loop is K \<longleftrightarrow> distinct (key_images is) \<and> set (key_images is) \<inter> K = {}"
  by (induction "is" K rule: keyimages_diff_loop.induct) auto

lemma global_outputs_refs: "global_outputs is = map (\<lambda>(a, i). (a, ucast i)) (multisig_refs is)"
  by (induction "is" rule: multisig_refs.induct) (simp_all add: GlobalOutput_def)

lemma checked_inputs: "check_tx_inputs_keyimages_diff tx \<and> checkMultisignatureInputsDiff tx \<longleftrightarrow> ok_inputs tx"
proof -
  have "inj (\<lambda>(a :: u64, i :: u32). (a, ucast i :: u64))"
    by (auto simp: inj_def word_unat_eq_iff [where 'a = 64] word_unat_eq_iff [where 'a = 32] unat_ucast_len)
  then show ?thesis
    by (simp add: ok_inputs_def check_tx_inputs_keyimages_diff_def keyimages_diff_loop_iff checkMultisignatureInputsDiff_iff
        global_outputs_refs distinct_map inj_on_subset [of _ UNIV])
qed

lemma outs_valid_message:
  assumes "check_outs_valid check_key v has_error outs = Inr (True, m)"
  shows "m = None"
  using assms by (induction check_key v has_error outs rule: check_outs_valid.induct)
    (auto simp: Let_def split: TransactionOutputTarget.splits if_splits)

lemma input_amount_worth: "unat (input_amount i) \<le> input_worth i"
  by (simp add: input_amount_def input_worth_def split: TransactionInput.split)

lemma checked_typed:
  assumes "check_tx_fee tx tvc = (True, tvc')" "check_tx_semantic env tx height = Inr (True, height')"
  shows "well_typed (env_check_key env) tx"
proof -
  have f: "\<not> get_outs_money_amount tx > get_inputs_money_amount tx"
    "\<not> get_inputs_money_amount tx - get_outs_money_amount tx < 80"
    using assms(1) by (auto simp: check_tx_fee_def Let_def MINIMUM_FEE_def split: if_splits)
  have s: "tx_inputs tx \<noteq> []" "check_inputs_types_supported tx"
    "\<exists>m. check_outs_valid (env_check_key env) (tx_version tx) True (tx_outputs tx) = Inr (True, m)"
    "check_money_overflow tx" "ok_inputs tx"
    using assms(2) checked_inputs [of tx] by (auto simp: check_tx_semantic_def Let_def bind_res_Inr split: if_splits)
  have "(\<Sum>i\<leftarrow>tx_inputs tx. unat (input_amount i)) \<le> (\<Sum>i\<leftarrow>tx_inputs tx. input_worth i)"
    by (intro sum_list_mono input_amount_worth)
  then have i: "(\<Sum>i\<leftarrow>tx_inputs tx. unat (input_amount i)) < 2 ^ 64" and o: "(\<Sum>out\<leftarrow>tx_outputs tx. unat (out_amount out)) < 2 ^ 64"
    using s(4) by (auto simp: check_money_overflow_def check_inputs_overflow_def check_outs_overflow_def
        inputs_overflow_iff outs_overflow_iff)
  have "unat (get_inputs_money_amount tx) = (\<Sum>i\<leftarrow>tx_inputs tx. unat (input_amount i))"
    "unat (get_outs_money_amount tx) = (\<Sum>out\<leftarrow>tx_outputs tx. unat (out_amount out))"
    using fold_add_words [of 0 "\<lambda>i. unat (input_amount i)" "tx_inputs tx" 0 input_amount]
      fold_add_words [of 0 "\<lambda>out. unat (out_amount out)" "tx_outputs tx" 0 out_amount] i o
    by (simp_all add: get_inputs_money_amount_def get_outs_money_amount_def)
  then have "(\<Sum>out\<leftarrow>tx_outputs tx. unat (out_amount out)) + 80 \<le> (\<Sum>i\<leftarrow>tx_inputs tx. unat (input_amount i))"
    using f by (simp add: word_less_nat_alt unat_sub word_le_nat_alt not_less)
  then show ?thesis using s i outs_valid_message by (auto simp: well_typed_def)
qed

section \<open>The pool next to the chain\<close>

text \<open>A pool whose transactions are named by their hashes, none of them among \<open>taken\<close>, the hashes of the
  chain, and all of them checked.\<close>

definition good_pool :: "(public_key \<Rightarrow> bool) \<Rightarrow> hash set \<Rightarrow> tx_memory_pool \<Rightarrow> bool" where
  "good_pool check_key taken p \<longleftrightarrow> pool_inv p \<and>
     (\<forall>t \<in> set (mp_transactions p). td_id t = tx_hash (td_tx t) \<and> td_id t \<notin> taken \<and> well_typed check_key (td_tx t))"

lemma good_poolD:
  assumes "good_pool ck H p"
  shows "pool_inv p" "\<And>t. t \<in> set (mp_transactions p) \<Longrightarrow> td_id t = tx_hash (td_tx t)"
    "\<And>t. t \<in> set (mp_transactions p) \<Longrightarrow> td_id t \<notin> H" "\<And>t. t \<in> set (mp_transactions p) \<Longrightarrow> well_typed ck (td_tx t)"
  using assms unfolding good_pool_def by blast+

lemma good_pool_fewer: "good_pool ck H p \<Longrightarrow> pool_inv q \<Longrightarrow> set (mp_transactions q) \<subseteq> set (mp_transactions p) \<Longrightarrow> good_pool ck H q"
  unfolding good_pool_def by blast

lemma good_pool_mono: "good_pool ck H p \<Longrightarrow> H' \<subseteq> H \<Longrightarrow> good_pool ck H' p"
  unfolding good_pool_def by blast

lemma add_tx_good:
  assumes "good_pool ck H p" "well_typed ck tx" "tx_hash tx \<notin> H"
    "add_tx cur v sysnow now tx (tx_hash tx) n tvc kb p = Inr (r, tvc', q)"
  shows "good_pool ck H q"
proof -
  have "ok_inputs tx" using assms(2) by (simp add: well_typed_def)
  from add_tx_cases [OF good_poolD(1) [OF assms(1)] this assms(4)]
  consider "q = p" | t where "pool_inv q" "mp_transactions q = mp_transactions p @ [t]" "td_id t = tx_hash tx" "td_tx t = tx"
    by auto
  then show ?thesis
    by cases (use assms(1-3) in \<open>auto simp: good_pool_def\<close>)
qed

lemma return_txs_good:
  assumes "fold_res (return_tx cur env c) txs p = Inr q" "good_pool ck H p" "\<forall>tx \<in> set txs. well_typed ck tx \<and> tx_hash tx \<notin> H"
  shows "good_pool ck H q"
  using assms
proof (induction txs arbitrary: p)
  case (Cons tx txs)
  obtain p1 where p1: "return_tx cur env c tx p = Inr p1" "fold_res (return_tx cur env c) txs p1 = Inr q"
    using Cons.prems(1) by (auto simp: bind_res_Inr)
  obtain ok tvc where "add_tx_object cur (chain_validator cur env c) (env_now env) (env_now env) tx new_tvc True p = Inr (ok, tvc, p1)"
    using p1(1) by (auto simp: return_tx_def bind_res_Inr split: if_splits)
  then have "good_pool ck H p1"
    using Cons.prems(3) by (intro add_tx_good [OF Cons.prems(2)]) (auto simp: add_tx_object_def)
  then show ?case using Cons.IH [OF p1(2)] Cons.prems(3) by simp
qed simp

text \<open>Loading the transactions of a block takes them from the pool; when one is missing, those taken go back.\<close>

lemma load_loop_good:
  assumes "load_loop cur env c hs taken p = Inr (r, q)" "good_pool ck H p" "\<forall>tx \<in> set taken. well_typed ck tx \<and> tx_hash tx \<notin> H"
  shows "case r of None \<Rightarrow> good_pool ck H q
    | Some txs \<Rightarrow> \<exists>new. txs = rev taken @ new \<and> map tx_hash new = hs \<and> distinct hs \<and> good_pool ck (H \<union> set hs) q \<and>
        (\<forall>tx \<in> set new. well_typed ck tx \<and> tx_hash tx \<notin> H) \<and> set hs \<subseteq> td_id ` set (mp_transactions p) \<and>
        set (mp_transactions q) \<subseteq> set (mp_transactions p)"
  using assms
proof (induction hs arbitrary: taken p)
  case (Cons h hs)
  show ?case
  proof (cases "\<exists>t \<in> set (mp_transactions p). td_id t = h")
    case True
    then obtain t where t: "t \<in> set (mp_transactions p)" "td_id t = h" by blast
    note G = good_poolD [OF Cons.prems(2)]
    obtain p1 where p1: "take_tx h p = Inr (Some (td_tx t, td_blobSize t, td_fee t), p1)" "pool_inv p1" "mp_transactions p1 = without t p"
      using take_tx_ok [OF G(1) t(1)] t(2) by blast
    have hash: "tx_hash (td_tx t) = h" using G(2) [OF t(1)] t(2) by simp
    have sub: "set (mp_transactions p1) \<subseteq> set (mp_transactions p)" "h \<notin> td_id ` set (mp_transactions p1)"
      using p1(3) t(2) by auto
    have g: "good_pool ck H p1" by (rule good_pool_fewer [OF Cons.prems(2) p1(2) sub(1)])
    have taken: "\<forall>tx \<in> set (td_tx t # taken). well_typed ck tx \<and> tx_hash tx \<notin> H"
      using Cons.prems(3) G(3,4) [OF t(1)] t(2) hash by simp
    have l: "load_loop cur env c hs (td_tx t # taken) p1 = Inr (r, q)" using Cons.prems(1) p1(1) by simp
    note IH = Cons.IH [OF l g taken]
    show ?thesis
    proof (cases r)
      case (Some txs)
      obtain new where n: "txs = rev taken @ td_tx t # new" "map tx_hash new = hs" "distinct hs" "good_pool ck (H \<union> set hs) q"
        "\<forall>tx \<in> set new. well_typed ck tx \<and> tx_hash tx \<notin> H" "set hs \<subseteq> td_id ` set (mp_transactions p1)"
        "set (mp_transactions q) \<subseteq> set (mp_transactions p1)"
        using IH Some by auto
      have "h \<notin> set hs" using n(6) sub(2) by blast
      moreover have "h \<notin> td_id ` set (mp_transactions q)" using n(7) sub(2) by blast
      then have "good_pool ck (H \<union> set (h # hs)) q"
        using n(4) unfolding good_pool_def by (auto simp: image_iff)
      moreover have "set (h # hs) \<subseteq> td_id ` set (mp_transactions p)" using n(6) sub(1) t by auto
      moreover have "set (mp_transactions q) \<subseteq> set (mp_transactions p)" using n(7) sub(1) by blast
      moreover have "\<forall>tx \<in> set (td_tx t # new). well_typed ck tx \<and> tx_hash tx \<notin> H" using n(5) taken by simp
      ultimately show ?thesis
        using n(1-3) hash by (auto simp: Some intro!: exI [of _ "td_tx t # new"])
    qed (use IH in simp)
  next
    case False
    then have "find (\<lambda>t. td_id t = h) (mp_transactions p) = None" by (simp add: find_None_iff)
    then have "take_tx h p = Inr (None, p)" by (simp add: take_tx_def)
    then show ?thesis
      using Cons.prems by (auto simp: bind_res_Inr intro: return_txs_good)
  qed
qed auto

section \<open>Every state of a node\<close>

definition node_inv :: "currency \<Rightarrow> (public_key \<Rightarrow> bool) \<Rightarrow> node \<Rightarrow> bool" where
  "node_inv cur check_key s \<longleftrightarrow>
     (case s of (c, p) \<Rightarrow> grown cur c \<and> good_pool check_key (dom (lg_transactionMap c)) p \<and>
        (\<forall>e \<in> set (bc_blocks c). \<forall>tx \<in> te_tx ` set (tl (be_transactions e)). well_typed check_key tx))"

text \<open>A block that may extend the chain: the chain is past its checkpoints, below the largest height, and the
  miner's transaction is new. A block refused for its size would leave its transactions in the ledger; \<open>clean\<close>
  excludes it.\<close>

definition admissible :: "Block \<Rightarrow> node \<Rightarrow> bool" where
  "admissible b s \<longleftrightarrow>
     (case s of (c, p) \<Rightarrow>
      tailId c = Inr (bl_previousBlockHash b) \<and> \<not> isInCheckpointZone c (getCurrentBlockchainHeight c) \<and>
      length (bl_transactionHashes b) < 65535 \<and> Suc (length (bc_blocks c)) < 2 ^ 32 - 1 \<and>
      \<not> haveTransaction c (tx_hash (bl_baseTransaction b)) \<and> \<not> have_tx p (tx_hash (bl_baseTransaction b)))"

definition clean :: "Block \<Rightarrow> bool \<Rightarrow> node \<Rightarrow> bool" where
  "clean b added s \<longleftrightarrow> added \<or> \<not> haveTransaction (fst s) (tx_hash (bl_baseTransaction b))"

inductive node_step :: "currency \<Rightarrow> (public_key \<Rightarrow> bool) \<Rightarrow> node \<Rightarrow> node \<Rightarrow> bool" for cur check_key where
  tx_blob: "handle_incoming_tx cur env blob kb s = Inr (r, tvc, s') \<Longrightarrow> env_check_key env = check_key \<Longrightarrow>
    node_step cur check_key s s'"
| tx_object: "addChain_txs cur env txs height s = Inr (r, s') \<Longrightarrow> env_check_key env = check_key \<Longrightarrow> node_step cur check_key s s'"
| block: "handle_incoming_block fuel cur env b new_bvc relay s = Inr (r, bvc, msg, s') \<Longrightarrow> admissible b s \<Longrightarrow>
    clean b (bvc_added_to_main_chain bvc) s' \<Longrightarrow> node_step cur check_key s s'"
| disconnected: "get_block_hash (be_bl (last (bc_blocks (fst s)))) = Inr h \<Longrightarrow> popBlock cur env h s = Inr s' \<Longrightarrow>
    node_step cur check_key s s'"
| idle: "on_idle cur now p = Inr p' \<Longrightarrow> node_step cur check_key (c, p) (c, p')"

inductive node_reachable :: "currency \<Rightarrow> (public_key \<Rightarrow> bool) \<Rightarrow> node \<Rightarrow> bool" for cur check_key where
  start: "node_reachable cur check_key (empty_chain cps v limit, new_pool)"
| step: "node_reachable cur check_key s \<Longrightarrow> node_step cur check_key s s' \<Longrightarrow> node_reachable cur check_key s'"

lemma blob_hash: "parseAndValidateTransactionFromBinaryArray blob = Some (tx, h, ph) \<Longrightarrow> h = tx_hash tx"
  using ctx.array_canonical [of blob tx]
  by (auto simp: parseAndValidateTransactionFromBinaryArray_def getObjectHash_def getBinaryArrayHash_def split: option.splits)

lemma handleIncomingTransaction_inv:
  assumes "handleIncomingTransaction cur env tx (tx_hash tx) n tvc kb height s = Inr (r, tvc', s')"
    "node_inv cur (env_check_key env) s"
  shows "node_inv cur (env_check_key env) s'"
proof (cases "s' = s")
  case False
  obtain c p where s: "s = (c, p)" by (cases s)
  obtain tvc1 height' where ok: "check_tx_fee tx tvc = (True, tvc1)" "check_tx_semantic env tx height = Inr (True, height')"
    "add_new_tx cur env tx (tx_hash tx) n tvc1 kb s = Inr (r, tvc', s')"
    using assms(1) False by (auto simp: handleIncomingTransaction_def bind_res_Inr split: prod.splits if_splits)
  note typed = checked_typed [OF ok(1,2)]
  obtain q where q: "s' = (c, q)" "lg_transactionMap c (tx_hash tx) = None"
    "add_tx cur (chain_validator cur env c) (env_now env) (env_now env) tx (tx_hash tx) n tvc1 kb p = Inr (r, tvc', q)"
    using ok(3) False by (auto simp: add_new_tx_def s haveTransaction_def bind_res_Inr split: if_splits)
  have "good_pool (env_check_key env) (dom (lg_transactionMap c)) q"
    by (rule add_tx_good [OF _ typed _ q(3)]) (use assms(2) q(2) s in \<open>auto simp: node_inv_def\<close>)
  then show ?thesis using assms(2) by (simp add: node_inv_def s q(1))
qed (use assms(2) in simp)

lemma addChain_txs_inv:
  assumes "addChain_txs cur env txs height s = Inr (r, s')" "node_inv cur (env_check_key env) s"
  shows "node_inv cur (env_check_key env) s'"
  using assms
proof (induction txs arbitrary: s)
  case (Cons tx txs)
  then obtain ok tvc s1 where "handleIncomingTransaction cur env tx (tx_hash tx) (getObjectBinarySize ser_Transaction tx) new_tvc True height s = Inr (ok, tvc, s1)"
    "\<not> ok \<and> s' = s1 \<or> addChain_txs cur env txs height s1 = Inr (r, s')"
    by (auto simp: bind_res_Inr split: if_splits)
  then show ?case using handleIncomingTransaction_inv [OF _ Cons.prems(2)] Cons.IH by blast
qed simp

lemma handle_incoming_tx_inv:
  assumes "handle_incoming_tx cur env blob kb s = Inr (r, tvc, s')" "node_inv cur (env_check_key env) s"
  shows "node_inv cur (env_check_key env) s'"
proof (cases "s' = s")
  case False
  then obtain tx h ph height where "parseAndValidateTransactionFromBinaryArray blob = Some (tx, h, ph)"
    "handleIncomingTransaction cur env tx h (of_nat (length blob)) new_tvc kb height s = Inr (r, tvc, s')"
    using assms(1) by (auto simp: handle_incoming_tx_def Let_def bind_res_Inr split: if_splits option.splits)
  then show ?thesis using blob_hash handleIncomingTransaction_inv [OF _ assms(2)] by blast
qed (use assms(2) in simp)

text \<open>Blocks: the transactions come from the pool, so they are those the hashes name, none of them is in the chain,
  and they do not repeat each other.\<close>

lemma accepted_node:
  assumes acc: "pushBlock_txs cur env b txs h0 bvc c = Inr (True, bvc', c')" and sound: "sound_block b txs c"
    and len: "Suc (length (bc_blocks c)) < 2 ^ 32 - 1" and inv: "node_inv cur ck (c, p)"
    and good: "good_pool ck (dom (lg_transactionMap c) \<union> set (bl_transactionHashes b)) q"
    and typed: "\<forall>tx \<in> set txs. well_typed ck tx" and free: "tx_hash (bl_baseTransaction b) \<notin> td_id ` set (mp_transactions q)"
  shows "node_inv cur ck (c', q) \<and> (\<exists>block. bc_blocks c' = bc_blocks c @ [block] \<and> be_bl block = b)"
proof -
  have I: "grown cur c" "\<forall>e \<in> set (bc_blocks c). \<forall>tx \<in> te_tx ` set (tl (be_transactions e)). well_typed ck tx"
    using inv by (simp_all add: node_inv_def)
  have g: "grown cur c'" by (rule grown.push [OF I(1) acc sound len])
  obtain block where bl: "be_bl block = b" "map te_tx (be_transactions block) = bl_baseTransaction b # txs"
    "bc_blocks c' = bc_blocks c @ [block]"
    by (rule accepted_block [OF acc sound grown_inv [OF I(1)] len]) simp
  have "block_hashes block = tx_hash (bl_baseTransaction b) # bl_transactionHashes b"
    using arg_cong [OF bl(2), of "map tx_hash"] sound by (simp add: block_hashes_def sound_block_def)
  then have "dom (lg_transactionMap c') =
      insert (tx_hash (bl_baseTransaction b)) (dom (lg_transactionMap c) \<union> set (bl_transactionHashes b))"
    unfolding inv_records(2) [OF grown_inv [OF g]] inv_records(2) [OF grown_inv [OF I(1)]] bl(3) by auto
  then have "good_pool ck (dom (lg_transactionMap c')) q"
    using good free by (auto simp: good_pool_def image_iff)
  moreover have "te_tx ` set (tl (be_transactions block)) = set txs"
    using bl(2) by (cases "be_transactions block") auto
  then have "\<forall>tx \<in> te_tx ` set (tl (be_transactions block)). well_typed ck tx" using typed by simp
  ultimately show ?thesis using g I(2) bl(1,3) by (simp add: node_inv_def)
qed

lemma node_inv_same:
  assumes "node_inv cur ck (c, p)" "same_ledger c c'" "good_pool ck (dom (lg_transactionMap c)) q"
  shows "node_inv cur ck (c', q)"
proof -
  note same = same_ledger_chain [OF assms(2)]
  then have "grown cur c'" using grown.same assms(1) by (auto simp: node_inv_def)
  then show ?thesis using assms(1,3) same by (simp add: node_inv_def same_chain_def)
qed

lemma push_inv:
  assumes push: "pushBlock cur env b h0 new_bvc (c, p) = Inr (r, bvc, (c', p'))" and inv: "node_inv cur ck (c, p)"
    and adm: "admissible b (c, p)" and cl: "clean b r (c', p')"
  shows "node_inv cur ck (c', p') \<and> (r \<longrightarrow> (\<exists>block. bc_blocks c' = bc_blocks c @ [block] \<and> be_bl block = b))"
proof -
  have I: "grown cur c" "good_pool ck (dom (lg_transactionMap c)) p" using inv by (simp_all add: node_inv_def)
  have A: "\<not> isInCheckpointZone c (getCurrentBlockchainHeight c)" "length (bl_transactionHashes b) < 65535"
    "Suc (length (bc_blocks c)) < 2 ^ 32 - 1" "lg_transactionMap c (tx_hash (bl_baseTransaction b)) = None"
    "tx_hash (bl_baseTransaction b) \<notin> td_id ` set (mp_transactions p)"
    using adm by (auto simp: admissible_def haveTransaction_def have_tx_def)
  obtain res q where l: "load_loop cur env c (bl_transactionHashes b) [] p = Inr (res, q)"
    using push by (auto simp: pushBlock_def loadTransactions_def bind_res_Inr)
  note G = load_loop_good [OF l I(2)]
  show ?thesis
  proof (cases res)
    case None
    then have "c' = c" "p' = q" "\<not> r" using push l by (auto simp: pushBlock_def loadTransactions_def)
    then show ?thesis using inv G None by (simp add: node_inv_def)
  next
    case (Some txs)
    then have T: "map tx_hash txs = bl_transactionHashes b" "distinct (bl_transactionHashes b)"
      "good_pool ck (dom (lg_transactionMap c) \<union> set (bl_transactionHashes b)) q"
      "\<forall>tx \<in> set txs. well_typed ck tx \<and> tx_hash tx \<notin> dom (lg_transactionMap c)"
      "set (bl_transactionHashes b) \<subseteq> td_id ` set (mp_transactions p)"
      "set (mp_transactions q) \<subseteq> set (mp_transactions p)"
      using G by auto
    have "length txs = length (bl_transactionHashes b)" using arg_cong [OF T(1), of length] by simp
    moreover have "\<forall>tx \<in> set (bl_baseTransaction b # txs). lg_transactionMap c (tx_hash tx) = None" using T(4) A(4) by auto
    moreover have "distinct (map tx_hash (bl_baseTransaction b # txs))"
      using T(2,5) A(5) unfolding list.map(2) T(1) by auto
    moreover have "\<forall>tx \<in> set txs. ok_inputs tx" using T(4) by (simp add: well_typed_def)
    ultimately have sound: "sound_block b txs c" using A T(1) by (simp add: sound_block_def)
    obtain ok bvc1 c1 where pt: "pushBlock_txs cur env b txs h0 new_bvc c = Inr (ok, bvc1, c1)"
      using push l Some by (cases "pushBlock_txs cur env b txs h0 new_bvc c") (auto simp: pushBlock_def loadTransactions_def)
    show ?thesis
    proof (cases ok)
      case True
      then have e: "c' = c1" "p' = q" using push l Some pt by (auto simp: pushBlock_def loadTransactions_def)
      have "tx_hash (bl_baseTransaction b) \<notin> td_id ` set (mp_transactions q)" using A(5) T(6) by blast
      with accepted_node [OF _ sound A(3) inv T(3)] pt T(4) show ?thesis by (simp add: True e)
    next
      case False
      then have e: "c' = c1" "\<not> r" "saveTransactions cur env c1 txs q = Inr p'"
        using push l Some pt by (auto simp: pushBlock_def loadTransactions_def bind_res_Inr)
      have "lg_transactionMap c1 (tx_hash (bl_baseTransaction b)) = None"
        using cl e(1,2) by (simp add: clean_def haveTransaction_def)
      then have "same_ledger c c1" using rejected_clean [OF _ sound chain_invD(1) [OF grown_inv [OF I(1)]]] pt False by simp
      moreover have "good_pool ck (dom (lg_transactionMap c)) p'"
        using e(3) unfolding saveTransactions_def
        by (rule return_txs_good) (use T(4) good_pool_mono [OF T(3)] in auto)
      ultimately show ?thesis using node_inv_same [OF inv] e(1,2) by simp
    qed
  qed
qed

lemma pop_inv:
  assumes "get_block_hash (be_bl (last (bc_blocks c))) = Inr h" "popBlock cur env h (c, p) = Inr (c', p')" "node_inv cur ck (c, p)"
  shows "node_inv cur ck (c', p')"
proof (cases "bc_blocks c = []")
  case False
  have I: "grown cur c" "good_pool ck (dom (lg_transactionMap c)) p"
    "\<forall>e \<in> set (bc_blocks c). \<forall>tx \<in> te_tx ` set (tl (be_transactions e)). well_typed ck tx"
    using assms(3) by (simp_all add: node_inv_def)
  let ?txs = "map te_tx (tl (be_transactions (last (bc_blocks c))))"
  have P: "saveTransactions cur env c ?txs p = Inr p'" "pop_last_block cur h c = Inr c'"
    using assms(2) False by (auto simp: popBlock_def bind_res_Inr split: if_splits)
  have C: "grown cur c'" "bc_blocks c' = butlast (bc_blocks c)" using grown_pop [OF I(1) False] assms(1) P(2) by auto
  have blocks: "bc_blocks c = bc_blocks c' @ [last (bc_blocks c)]" using False C(2) by simp
  note D = inv_records(2) [OF grown_inv [OF I(1)]] inv_records(2) [OF grown_inv [OF C(1)]]
  have sub: "dom (lg_transactionMap c') \<subseteq> dom (lg_transactionMap c)"
    unfolding D C(2) by (auto dest: in_set_butlastD)
  have "distinct (concat (map block_hashes (bc_blocks c' @ [last (bc_blocks c)])))"
    using grown_blocks_ok [OF I(1)] blocks by (simp add: blocks_ok_def)
  then have "set (block_hashes (last (bc_blocks c))) \<inter> dom (lg_transactionMap c') = {}"
    unfolding D(2) by auto
  moreover have "tx_hash tx \<in> set (block_hashes (last (bc_blocks c)))" if "tx \<in> set ?txs" for tx
    using that by (cases "be_transactions (last (bc_blocks c))") (auto simp: block_hashes_def)
  ultimately have "\<forall>tx \<in> set (rev ?txs). well_typed ck tx \<and> tx_hash tx \<notin> dom (lg_transactionMap c')"
    using I(3) last_in_set [OF False] by (simp add: disjoint_iff)
  with P(1) good_pool_mono [OF I(2) sub] have "good_pool ck (dom (lg_transactionMap c')) p'"
    unfolding saveTransactions_def by (rule return_txs_good)
  moreover have "\<forall>e \<in> set (bc_blocks c'). \<forall>tx \<in> te_tx ` set (tl (be_transactions e)). well_typed ck tx"
    unfolding C(2) using I(3) in_set_butlastD by fast
  ultimately show ?thesis using C(1) by (simp add: node_inv_def)
qed (use assms(2,3) in \<open>auto simp: popBlock_def\<close>)

lemma idle_inv:
  assumes "on_idle cur now p = Inr p'" "node_inv cur ck (c, p)"
  shows "node_inv cur ck (c, p')"
proof -
  have g: "good_pool ck (dom (lg_transactionMap c)) p" using assms(2) by (simp add: node_inv_def)
  have "pool_inv p'" "set (mp_transactions p') \<subseteq> set (mp_transactions p)"
    using on_idle_ok [OF good_poolD(1) [OF g], of cur now] assms(1) by auto
  then show ?thesis using assms(2) good_pool_fewer [OF g] by (simp add: node_inv_def)
qed

text \<open>The verdict of \<^verbatim>\<open>pushBlock\<close> is the flag in the context.\<close>

definition flagged :: "(bool \<times> block_verification_context \<times> 's) result \<Rightarrow> bool" where
  "flagged r \<longleftrightarrow> (case r of Inl _ \<Rightarrow> True | Inr (ok, bvc, _) \<Rightarrow> bvc_added_to_main_chain bvc = ok)"

lemma flagged_bind: "(\<And>x. m = Inr x \<Longrightarrow> flagged (f x)) \<Longrightarrow> flagged (bind_res m f)"
  by (cases m) (simp_all add: flagged_def)

lemma pushBlock_txs_flagged: "flagged (pushBlock_txs cur env b txs h new_bvc c)"
  unfolding pushBlock_txs_def Let_def
  by (intro flagged_bind) (auto simp: flagged_def new_bvc_def split: option.split intro!: flagged_bind [unfolded flagged_def])

lemma pushBlock_flag:
  assumes "pushBlock cur env b h new_bvc s = Inr (r, bvc, s')"
  shows "bvc_added_to_main_chain bvc = r"
proof -
  have "flagged (pushBlock cur env b h new_bvc s)"
  proof (cases s)
    case (Pair c p)
    have "flagged (bind_res (pushBlock_txs cur env b txs h new_bvc c) (\<lambda>(ok, bvc, c).
        if \<not> ok then bind_res (saveTransactions cur env c txs q) (\<lambda>p. Inr (False, bvc, (c, p))) else Inr (True, bvc, (c, q))))" for txs q
      using pushBlock_txs_flagged [of cur env b txs h c]
      by (intro flagged_bind) (auto simp: flagged_def [of "Inr _"] intro!: flagged_bind)
    then show ?thesis
      unfolding pushBlock_def Pair prod.case
      by (intro flagged_bind) (auto simp: flagged_def [of "Inr _"] new_bvc_def split: option.split)
  qed
  then show ?thesis by (simp add: assms flagged_def)
qed

lemma addNewBlock_tail:
  assumes "addNewBlock fuel cur env b new_bvc s = Inr (r, bvc, s')" "tailId (fst s) = Inr (bl_previousBlockHash b)"
  obtains "s' = s" "\<not> bvc_added_to_main_chain bvc"
  | h where "get_block_hash b = Inr h" "pushBlock cur env b h new_bvc s = Inr (r, bvc, s')"
  using assms by (auto simp: addNewBlock_def bind_res_Inr new_bvc_def split: if_splits)

lemma block_inv:
  assumes "addNewBlock fuel cur env b new_bvc s = Inr (r, bvc, s')" "admissible b s" "node_inv cur ck s"
    "clean b (bvc_added_to_main_chain bvc) s'"
  shows "node_inv cur ck s' \<and>
    (bvc_added_to_main_chain bvc \<longrightarrow> (\<exists>block. bc_blocks (fst s') = bc_blocks (fst s) @ [block] \<and> be_bl block = b))"
proof -
  obtain c p where s: "s = (c, p)" by (cases s)
  have "tailId (fst s) = Inr (bl_previousBlockHash b)" using assms(2) by (simp add: admissible_def s)
  from assms(1) this show ?thesis
  proof (cases rule: addNewBlock_tail)
    case (2 h)
    note f = pushBlock_flag [OF 2(2)]
    show ?thesis
      using push_inv [of cur env b h c p r bvc "fst s'" "snd s'" ck] 2(2) assms(2-4) by (simp add: s f)
  qed (use assms(3) in simp)
qed

lemma node_step_inv:
  assumes "node_step cur ck s s'" "node_inv cur ck s"
  shows "node_inv cur ck s'"
  using assms(1)
proof cases
  case (tx_blob env blob kb r tvc)
  then show ?thesis using handle_incoming_tx_inv assms(2) by blast
next
  case (tx_object env txs height r)
  then show ?thesis using addChain_txs_inv assms(2) by blast
next
  case (block fuel env b relay r bvc msg)
  then obtain r1 where "addNewBlock fuel cur env b new_bvc s = Inr (r1, bvc, s')"
    by (auto simp: handle_incoming_block_def bind_res_Inr split: if_splits)
  then show ?thesis using block_inv [OF _ block(2) assms(2) block(3)] by blast
next
  case (disconnected h env)
  then show ?thesis using pop_inv [of "fst s" h cur env "snd s" "fst s'" "snd s'" ck] assms(2) by simp
next
  case (idle now p p' c)
  then show ?thesis using idle_inv assms(2) by blast
qed

lemma node_reachable_inv: "node_reachable cur ck s \<Longrightarrow> node_inv cur ck s"
proof (induction rule: node_reachable.induct)
  case (start cps v limit)
  then show ?case by (simp add: node_inv_def grown.empty good_pool_def new_pool_inv) (simp add: new_pool_def)
qed (rule node_step_inv)

section \<open>A node with a transaction and a block\<close>

lemma demo_fields:
  "tx_inputs demo_tx = [demo_input]" "tx_outputs demo_tx = [\<lparr>out_amount = 900, out_target = OutKey [5]\<rparr>]" "tx_version demo_tx = 1"
  "tx_signatures demo_tx = [[[1]]]"
  by (simp_all add: demo_tx_def)

lemma demo_typed: "check_tx_fee demo_tx tvc = (True, tvc)" "check_tx_semantic lone_env demo_tx height = Inr (True, height)"
proof -
  have "get_inputs_money_amount demo_tx = 1000"
    by (simp add: get_inputs_money_amount_def demo_fields demo_input_def input_amount_def)
  then show "check_tx_fee demo_tx tvc = (True, tvc)" by (simp add: check_tx_fee_def demo_amounts MINIMUM_FEE_def)
  have "check_money_overflow demo_tx"
    by (simp add: check_money_overflow_def check_inputs_overflow_def check_outs_overflow_def inputs_overflow_iff outs_overflow_iff
        demo_fields demo_input_def input_worth_def)
  moreover have "env_check_key lone_env k" for k by (simp add: lone_env_def)
  ultimately show "check_tx_semantic lone_env demo_tx height = Inr (True, height)"
    using checked_inputs [of demo_tx] by (simp add: check_tx_semantic_def demo_amounts demo_fields)
qed

text \<open>The transaction of the example is kept although its input is not in the chain, as one that came with a block.\<close>

lemma demo_received:
  "\<exists>p t. addChain_txs default_currency lone_env [demo_tx] 0 (lone_chain, new_pool) = Inr (True, (lone_chain, p)) \<and>
    mp_transactions p = [t] \<and> td_tx t = demo_tx"
proof -
  let ?h = "tx_hash demo_tx" and ?n = "getObjectBinarySize ser_Transaction demo_tx"
  have "lg_outputs lone_chain = Map.empty" "\<not> isInCheckpointZone lone_chain (getCurrentBlockchainHeight lone_chain)"
    by (simp_all add: empty_chain_def isInCheckpointZone_def is_in_checkpoint_zone_def)
  then have "v_check default_currency lone_env lone_chain demo_tx bi_clear = Inr (False, bi_clear\<lparr>bi_height := 0\<rparr>)"
    by (simp add: v_check_def checkTransactionInputs_block_def checkTransactionInputs_def demo_fields demo_input_def
        have_tx_keyimg_as_spent_def check_tx_input_def scanOutputKeysForIndexes_def)
  then have v: "v_checkTransactionInputs (chain_validator default_currency lone_env lone_chain) demo_tx bi_clear =
      Inr (False, bi_clear\<lparr>bi_height := 0\<rparr>)" by (simp add: chain_validator_def)
  have "\<exists>tvc p t. add_tx default_currency (chain_validator default_currency lone_env lone_chain) (env_now lone_env)
      (env_now lone_env) demo_tx ?h ?n new_tvc True new_pool = Inr (True, tvc, p) \<and> mp_transactions p = [t] \<and> td_tx t = demo_tx"
    by (simp add: add_tx_def Let_def demo_amounts v have_tx_def new_pool_def insert_tx_def addTransactionInputs_def demo_fields
        demo_input_def)
  then show ?thesis
    by (auto simp: handleIncomingTransaction_def demo_typed add_new_tx_def haveTransaction_def have_tx_def new_pool_def)
qed

lemma demo_node:
  obtains p t where "node_reachable default_currency (\<lambda>_. True) (lone_chain, p)" "mp_transactions p = [t]" "td_tx t = demo_tx"
proof -
  obtain p t where p: "addChain_txs default_currency lone_env [demo_tx] 0 (lone_chain, new_pool) = Inr (True, (lone_chain, p))"
    "mp_transactions p = [t]" "td_tx t = demo_tx" using demo_received by blast
  have "env_check_key lone_env = (\<lambda>_. True)" by (simp add: lone_env_def)
  from node_reachable.step [OF node_reachable.start node_step.tx_object [OF p(1) this]] p(2,3) show ?thesis by (rule that)
qed

section \<open>Theorems\<close>



text \<open>C6. Every transaction a node holds, in its pool or in its chain beside those of the miners, is well typed: it has
  inputs and none of them is a miner's, no key image and no deposit is used twice, the keys of its outputs are
  points of the curve and the signatures required are at most the keys, and it pays out at most what it takes in
  less a fee of 80, counted without wrapping.\<close>

theorem node_transactions_well_typed:
  assumes "node_reachable cur check_key (c, p)"
  shows "(\<forall>t \<in> set (mp_transactions p). well_typed check_key (td_tx t)) \<and>
    (\<forall>e \<in> set (bc_blocks c). \<forall>x \<in> set (tl (be_transactions e)). well_typed check_key (te_tx x))"
  using node_reachable_inv [OF assms] by (simp add: node_inv_def good_pool_def)

theorem node_transactions_well_typed_witness: "well_typed (\<lambda>_. True) demo_tx"
proof -
  obtain p t where p: "node_reachable default_currency (\<lambda>_. True) (lone_chain, p)" "mp_transactions p = [t]" "td_tx t = demo_tx"
    by (rule demo_node)
  from node_transactions_well_typed [OF p(1)] p(2,3) show ?thesis by simp
qed

text \<open>C10. A block that extends the chain is relayed in full: with its own bytes and the bytes of every transaction it
  names, in order, for the new height of the chain. None is missing, so the failure the source guards against does not
  occur.\<close>

theorem block_relayed:
  assumes "node_reachable cur check_key (c, p)" "admissible b (c, p)"
    and "addNewBlock fuel cur env b new_bvc (c, p) = Inr (r, bvc, (c', p'))" "bvc_added_to_main_chain bvc"
    and "toBinaryArray ser_Block b = Some ba"
  shows "\<exists>txs. map tx_hash txs = bl_transactionHashes b \<and>
    handle_incoming_block fuel cur env b new_bvc True (c, p) =
      Inr (True, bvc, Some \<lparr>nbr_b = \<lparr>bce_block = ba, bce_txs = map (blob_of ser_Transaction) txs\<rparr>,
        nbr_current_blockchain_height = of_nat (Suc (length (bc_blocks c))), nbr_hop = 0\<rparr>, (c', p'))"
proof -
  have "clean b (bvc_added_to_main_chain bvc) (c', p')" by (simp add: clean_def assms(4))
  from block_inv [OF assms(3,2) node_reachable_inv [OF assms(1)] this] assms(4)
  obtain block where b: "grown cur c'" "bc_blocks c' = bc_blocks c @ [block]" "be_bl block = b"
    by (auto simp: node_inv_def)
  let ?txs = "map te_tx (tl (be_transactions block))"
  have found: "getBlockchainTransactions c' (bl_transactionHashes b) = Inr (?txs, [])"
    using block_found [OF grown_inv [OF b(1)] grown_blocks_ok [OF b(1)], of block] b(2,3) by simp
  have "sound_entry block" using grown_blocks_ok [OF b(1)] b(2) by (simp add: blocks_ok_def)
  then have hashes: "map tx_hash ?txs = bl_transactionHashes b"
    using b(3) by (cases "be_transactions block") (auto simp: sound_entry_def)
  then have "length ?txs = length (bl_transactionHashes b)" by (metis length_map)
  then have "relay_block b (c', p') = Inr (True, Some \<lparr>nbr_b = \<lparr>bce_block = ba, bce_txs = map (blob_of ser_Transaction) ?txs\<rparr>,
      nbr_current_blockchain_height = of_nat (Suc (length (bc_blocks c))), nbr_hop = 0\<rparr>)"
    by (simp add: relay_block_def getTransactions_chain_def found assms(5) getCurrentBlockchainHeight_def b(2))
  then show ?thesis
    using hashes by (intro exI [of _ ?txs] conjI) (simp_all add: handle_incoming_block_def assms(3,4))
qed

lemma lone_block_blob: "toBinaryArray ser_Block lone_block \<noteq> None"
  by code_simp

lemma lone_admissible: "admissible lone_block (lone_chain, new_pool)"
  by (simp add: admissible_def tailId_def isInCheckpointZone_def is_in_checkpoint_zone_def haveTransaction_def have_tx_def new_pool_def)

lemma lone_added:
  "\<exists>bvc c. addNewBlock 0 default_currency lone_env lone_block new_bvc (lone_chain, new_pool) = Inr (True, bvc, (c, new_pool)) \<and>
     bvc_added_to_main_chain bvc"
proof -
  obtain h where h: "get_block_hash lone_block = Inr h" using lone_hash by blast
  obtain blob where blob: "get_block_hashing_blob lone_block = Inr (Some blob)" using lone_blob by blast
  obtain c where c: "pushBlock_txs default_currency lone_env lone_block [] h new_bvc lone_chain =
     Inr (True, new_bvc\<lparr>bvc_added_to_main_chain := True\<rparr>, c)" using lone_accepted by blast
  have "\<not> haveBlock lone_chain h" by (simp add: haveBlock_def hasBlock_def empty_chain_def)
  then show ?thesis
    by (simp add: addNewBlock_def blob h tailId_def pushBlock_def loadTransactions_def c)
qed

theorem block_relayed_witness:
  "\<exists>bvc msg s. handle_incoming_block 0 default_currency lone_env lone_block new_bvc True (lone_chain, new_pool) =
     Inr (True, bvc, Some msg, s) \<and> nbr_current_blockchain_height msg = 1 \<and> bce_txs (nbr_b msg) = []"
proof -
  obtain bvc c where a: "addNewBlock 0 default_currency lone_env lone_block new_bvc (lone_chain, new_pool) = Inr (True, bvc, (c, new_pool))"
    "bvc_added_to_main_chain bvc" using lone_added by blast
  obtain ba where ba: "toBinaryArray ser_Block lone_block = Some ba" using lone_block_blob by blast
  from block_relayed [OF node_reachable.start [where check_key = "\<lambda>_. True"] lone_admissible a ba] show ?thesis by auto
qed

text \<open>A transaction that spends one deposit and pays \<open>payout\<close> to one key.\<close>

definition withdrawal :: "u64 \<Rightarrow> u32 \<Rightarrow> u64 \<Rightarrow> public_key \<Rightarrow> Transaction" where
  "withdrawal amount term payout key = \<lparr>tx_version = 2, tx_unlockTime = 0,
     tx_inputs = [InMulti \<lparr>mi_amount = amount, mi_signatureCount = 1, mi_outputIndex = 0, mi_term = term\<rparr>],
     tx_outputs = [\<lparr>out_amount = payout, out_target = OutKey key\<rparr>], tx_extra = [], tx_signatures = []\<rparr>"

text \<open>C12. A deposit cannot be withdrawn with its interest. A transaction that spends one deposit and pays out more than
  its amount, but not more than the amount with the interest, is accepted by \<^verbatim>\<open>check_tx_semantic\<close>, which counts the
  interest; but \<^verbatim>\<open>check_tx_fee\<close>, which comes first, does not count it, so the node refuses the transaction.\<close>

theorem interest_withdrawal_refused:
  assumes "amount < payout" "unat payout \<le> unat amount + unat (calculateInterest amount term)" "term \<noteq> 0"
    and "amount < 2 ^ 63" "env_check_key env key"
  shows "check_tx_semantic env (withdrawal amount term payout key) height = Inr (True, height) \<and>
    (\<exists>tvc'. handleIncomingTransaction cur env (withdrawal amount term payout key) h n tvc kb height s = Inr (False, tvc', s) \<and>
       tvc_verification_failed tvc')"
proof -
  let ?tx = "withdrawal amount term payout key"
  have a: "unat amount < 2 ^ 63" using assms(4) by (simp add: word_less_nat_alt)
  have i: "unat (amount + calculateInterest amount term) = unat amount + unat (calculateInterest amount term)"
    using calculateInterest_exact(2) [of amount "term"] a by (intro unat_add_fits) simp
  have "getTransactionAllInputsAmount ?tx = amount + calculateInterest amount term" "get_outs_money_amount ?tx = payout"
    "get_inputs_money_amount ?tx = amount"
    using assms(3) by (simp_all add: withdrawal_def getTransactionAllInputsAmount_def getTransactionInputAmount_def
        get_outs_money_amount_def get_inputs_money_amount_def input_amount_def)
  moreover have "\<not> amount + calculateInterest amount term < payout" using assms(2) i by (simp add: word_less_nat_alt)
  moreover have "payout \<noteq> 0" using assms(1) by auto
  moreover have "check_money_overflow ?tx"
    using a unat_u64_less [of payout] assms(3)
    by (simp add: check_money_overflow_def check_inputs_overflow_def check_outs_overflow_def inputs_overflow_iff outs_overflow_iff
        withdrawal_def input_worth_def del: unat_u64_less)
  moreover have "ok_inputs ?tx" "tx_inputs ?tx \<noteq> []" "check_inputs_types_supported ?tx" "tx_version ?tx = 2"
    "tx_outputs ?tx = [\<lparr>out_amount = payout, out_target = OutKey key\<rparr>]"
    by (simp_all add: withdrawal_def ok_inputs_def check_inputs_types_supported_def TRANSACTION_VERSION_2_def)
  ultimately show ?thesis
    using assms(1,5) checked_inputs [of ?tx]
    by (simp add: check_tx_semantic_def handleIncomingTransaction_def check_tx_fee_def)
qed

theorem interest_withdrawal_refused_witness:
  "check_tx_semantic lone_env (withdrawal 2000000000 262800 2000001000 [5]) 0 = Inr (True, 0) \<and>
   (\<exists>tvc. handleIncomingTransaction default_currency lone_env (withdrawal 2000000000 262800 2000001000 [5]) [] 100 new_tvc False 0
      (lone_chain, new_pool) = Inr (False, tvc, (lone_chain, new_pool)))"
proof -
  have "unat (2000001000 :: u64) \<le> unat (2000000000 :: u64) + unat (calculateInterest 2000000000 262800)"
    using interest_exceeds_assumed_cap by simp
  moreover have "env_check_key lone_env [5]" by (simp add: lone_env_def)
  ultimately show ?thesis
    using interest_withdrawal_refused [of 2000000000 2000001000 262800 lone_env "[5]" 0 default_currency "[]" 100 new_tvc False
        "(lone_chain, new_pool)"] by auto
qed

section \<open>Blocks for a wallet\<close>

text \<open>Both queries are one function of how an entry is made.\<close>

definition query_with ::
  "(Block \<Rightarrow> Transaction list \<Rightarrow> hash \<Rightarrow> 'e) \<Rightarrow> (hash \<Rightarrow> 'e) \<Rightarrow> currency \<Rightarrow> hash list \<Rightarrow> u64 \<Rightarrow> node \<Rightarrow> (u32 \<times> u32 \<times> u32 \<times> 'e list) option result" where
  "query_with full short cur knownBlockIds timestamp s =
     bind_res (findStartAndFullOffsets cur (fst s) knownBlockIds timestamp) (\<lambda>r.
       case r of None \<Rightarrow> Inr None
       | Some (start, first_full) \<Rightarrow>
         bind_res (findIdsForShortBlocks (fst s) start first_full) (\<lambda>ids.
           bind_res (if blocks_left (length ids) = 0 then Inr []
                     else query_entries full short s timestamp (snd (getBlocks_range (fst s) first_full (blocks_left (length ids)))))
             (\<lambda>es. Inr (Some (start, getCurrentBlockchainHeight (fst s), first_full, map short ids @ es)))))"

lemma queryBlocks_with: "queryBlocks = query_with full_info id_info"
  by (intro ext) (simp add: queryBlocks_def query_with_def Let_def bind_res_def split: sum.split option.split)

lemma queryBlocksLite_with: "queryBlocksLite = query_with short_info short_id_info"
  by (intro ext) (simp add: queryBlocksLite_def query_with_def Let_def bind_res_def split: sum.split option.split)

text \<open>The entry of the block at a position.\<close>

definition entry_at :: "(Block \<Rightarrow> Transaction list \<Rightarrow> hash \<Rightarrow> 'e) \<Rightarrow> (hash \<Rightarrow> 'e) \<Rightarrow> blockchain \<Rightarrow> u64 \<Rightarrow> nat \<Rightarrow> 'e" where
  "entry_at full short c timestamp i =
     (let b = be_bl (bc_blocks c ! i) in
      if bl_timestamp b \<ge> timestamp then full b (map te_tx (tl (be_transactions (bc_blocks c ! i)))) (bc_blockIndex c ! i)
      else short (bc_blockIndex c ! i))"

lemma query_entries_eq:
  assumes "chain_inv cur c" "blocks_ok c" "set is \<subseteq> {..<length (bc_blocks c)}"
  shows "query_entries full short (c, p) timestamp (map (\<lambda>i. be_bl (bc_blocks c ! i)) is) = Inr (map (entry_at full short c timestamp) is)"
  using assms(3)
proof (induction "is")
  case (Cons i "is")
  have "get_block_hash (be_bl (bc_blocks c ! i)) = Inr (bc_blockIndex c ! i)"
    using assms(2) Cons.prems by (auto simp: blocks_ok_def list_all2_conv_all_nth)
  moreover have "bc_blocks c ! i \<in> set (bc_blocks c)" using Cons.prems by simp
  ultimately show ?case
    using Cons by (simp add: getTransactions_chain_def block_found [OF assms(1,2)] entry_at_def Let_def)
qed simp

lemma lower_bound_range: "first \<le> lower_bound below first len \<and> lower_bound below first len \<le> first + len"
proof (induction below first len rule: lower_bound.induct)
  case (1 below first len)
  consider "len = 0" | "0 < len" "below (first + len div 2)" | "0 < len" "\<not> below (first + len div 2)" by auto
  then show ?case
  proof cases
    case 2
    then show ?thesis using "1.IH"(1) [OF _ refl refl] by (simp add: lower_bound_step)
  next
    case 3
    then show ?thesis using "1.IH"(2) [OF _ refl refl] by (auto simp: lower_bound_step intro: order_trans)
  qed (simp add: lower_bound_step)
qed

lemma offsets_found:
  assumes "chain_inv cur c" "length (bc_blocks c) < 2 ^ 32" "bc_blocks c \<noteq> []" "known \<noteq> []" "last known = bc_blockIndex c ! 0"
  obtains start first_full where "findStartAndFullOffsets cur c known timestamp = Inr (Some (start, first_full))" "start \<le> first_full"
    "unat first_full < length (bc_blocks c)" "bc_blockIndex c ! unat start \<in> set known"
proof -
  note V = chain_invD [OF assms(1)]
  have g: "getBlockIdByHeight c 0 = Inr (bc_blockIndex c ! 0)" "getBlockId 0 (bc_blockIndex c) = Inr (bc_blockIndex c ! 0)"
    using V(3) assms(2,3) by (simp_all add: getBlockIdByHeight_def getBlockId_def size_bi_def word_less_nat_alt unat_of_nat_u32)
  have "bc_blockIndex c ! 0 \<in> set known" using assms(4,5) last_in_set by metis
  moreover have "hasBlock (bc_blockIndex c ! 0) (bc_blockIndex c)" using V(3) assms(3) by (simp add: hasBlock_def)
  ultimately obtain start where k: "findSupplement known (bc_blockIndex c) = Some start" "unat start < length (bc_blocks c)"
    "bc_blockIndex c ! unat start \<in> set known"
    using findSupplement_mem [of _ known "bc_blockIndex c"] V(3) assms(2) by auto
  then have sup: "findBlockchainSupplement c known = Inr start"
    by (simp add: findBlockchainSupplement_def assms(4,5) g(2))
  let ?n = "lower_bound (\<lambda>i. bl_timestamp (be_bl (bc_blocks c ! i)) < timestamp - cur_blockFutureTimeLimit cur)
    (unat start) (length (bc_blocks c) - unat start)"
  have n: "unat start \<le> ?n" "?n \<le> length (bc_blocks c)"
    using lower_bound_range [of "unat start" _ "length (bc_blocks c) - unat start"] k(2) by auto
  let ?full = "if ?n = length (bc_blocks c) then start else of_nat ?n"
  have "findStartAndFullOffsets cur c known timestamp = Inr (Some (start, ?full))"
    using k(2) by (simp add: findStartAndFullOffsets_def assms(4,5) g(1) sup getLowerBound_def Let_def)
  moreover have "start \<le> ?full" "unat ?full < length (bc_blocks c)"
    using n k(2) assms(2) by (simp_all add: word_le_nat_alt unat_of_nat_u32)
  ultimately show ?thesis using k(3) by (rule that)
qed

lemma blocks_left_eq: "n \<le> 10000 \<Longrightarrow> unat (blocks_left n) = min (10000 - n) 128"
proof -
  assume "n \<le> 10000"
  then have n: "unat (of_nat n :: u64) = n" by (intro unat_of_nat_u64) simp
  then have "unat (10000 - of_nat n :: u64) = 10000 - n"
    using \<open>n \<le> 10000\<close> by (simp add: unat_sub word_le_nat_alt)
  then have "unat (min (10000 - of_nat n) 128 :: u64) = min (10000 - n) 128"
    by (simp add: min_def word_le_nat_alt)
  then show ?thesis
    by (simp add: blocks_left_def BLOCKS_IDS_SYNCHRONIZING_DEFAULT_COUNT_def BLOCKS_SYNCHRONIZING_DEFAULT_COUNT_def unsigned_ucast_eq take_bit_eq_mod)
qed

lemma short_ids:
  assumes "start \<le> first_full" "unat first_full \<le> length (bc_blockIndex c)" "m = min 10000 (unat first_full - unat start)"
  shows "findIdsForShortBlocks c start first_full = Inr (map ((!) (bc_blockIndex c)) [unat start..<unat start + m])"
proof -
  have "unat (ucast BLOCKS_IDS_SYNCHRONIZING_DEFAULT_COUNT :: u32) = 10000" by (simp add: BLOCKS_IDS_SYNCHRONIZING_DEFAULT_COUNT_def)
  moreover have "unat (first_full - start) = unat first_full - unat start" using assms(1) by (simp add: unat_sub)
  ultimately have "unat (min (ucast BLOCKS_IDS_SYNCHRONIZING_DEFAULT_COUNT) (first_full - start)) = m"
    by (simp add: assms(3) min_def word_le_nat_alt)
  moreover have "take m (drop (unat start) (bc_blockIndex c)) = map ((!) (bc_blockIndex c)) [unat start..<unat start + m]"
    using assms by (intro nth_equalityI) (auto simp: word_le_nat_alt)
  ultimately show ?thesis
    using assms by (auto simp: findIdsForShortBlocks_def getBlockIds_slice word_le_nat_alt word_less_nat_alt)
qed

lemma range_of_blocks:
  assumes "unat first_full < length (bc_blocks c)" "length (bc_blocks c) + 128 < 2 ^ 32" "unat num \<le> 128"
  shows "snd (getBlocks_range c first_full num) =
    map (\<lambda>i. be_bl (bc_blocks c ! i)) [unat first_full..<min (unat first_full + unat num) (length (bc_blocks c))]"
proof -
  have "unat (first_full + num) = unat first_full + unat num" using assms by (simp add: unat_word_ariths)
  then show ?thesis using assms(1) by (simp add: getBlocks_range_def block_range_def)
qed

lemma query_with_eq:
  assumes "node_reachable cur check_key (c, p)" "bc_blocks c \<noteq> []" "length (bc_blocks c) + 128 < 2 ^ 32"
    "known \<noteq> []" "last known = bc_blockIndex c ! 0"
  shows "\<exists>start first_full n. 0 < n \<and> n \<le> 10000 \<and> unat start + n \<le> length (bc_blocks c) \<and> start \<le> first_full \<and>
    bc_blockIndex c ! unat start \<in> set known \<and>
    query_with full short cur known timestamp (c, p) = Inr (Some (start, of_nat (length (bc_blocks c)), first_full,
      map (\<lambda>i. if i < unat first_full then short (bc_blockIndex c ! i) else entry_at full short c timestamp i) [unat start..<unat start + n]))"
proof -
  have "grown cur c" using node_reachable_inv [OF assms(1)] by (simp add: node_inv_def)
  note inv = grown_inv [OF this] and ok = grown_blocks_ok [OF this]
  note V = chain_invD [OF inv]
  have "length (bc_blocks c) < 2 ^ 32" using assms(3) by simp
  then obtain start first_full where o: "findStartAndFullOffsets cur c known timestamp = Inr (Some (start, first_full))"
    "start \<le> first_full" "unat first_full < length (bc_blocks c)" "bc_blockIndex c ! unat start \<in> set known"
    using offsets_found [OF inv _ assms(2,4,5)] by metis
  have le: "unat start \<le> unat first_full" using o(2) by (simp add: word_le_nat_alt)
  let ?f = "\<lambda>i. if i < unat first_full then short (bc_blockIndex c ! i) else entry_at full short c timestamp i"
  define m where "m = min 10000 (unat first_full - unat start)"
  have ids: "findIdsForShortBlocks c start first_full = Inr (map ((!) (bc_blockIndex c)) [unat start..<unat start + m])"
    using short_ids [OF o(2) _ m_def] o(3) V(3) by simp
  have left: "unat (blocks_left m) = min (10000 - m) 128" by (rule blocks_left_eq) (simp add: m_def)
  define es where "es = (if m = 10000 then [] else [unat first_full..<min (unat first_full + unat (blocks_left m)) (length (bc_blocks c))])"
  have "(if blocks_left m = 0 then Inr []
      else query_entries full short (c, p) timestamp (snd (getBlocks_range c first_full (blocks_left m)))) =
    Inr (map (entry_at full short c timestamp) es)"
  proof (cases "m = 10000")
    case True
    then have "blocks_left m = 0" using left by (simp add: unat_eq_zero)
    then show ?thesis by (simp add: es_def True)
  next
    case False
    then have "blocks_left m \<noteq> 0" using left by (auto simp: m_def unat_eq_zero [symmetric])
    moreover have "set es \<subseteq> {..<length (bc_blocks c)}" by (auto simp: es_def)
    from query_entries_eq [OF inv ok this] have "query_entries full short (c, p) timestamp (map (\<lambda>i. be_bl (bc_blocks c ! i)) es) =
      Inr (map (entry_at full short c timestamp) es)" .
    ultimately show ?thesis using left False by (simp add: range_of_blocks [OF o(3) assms(3)] es_def)
  qed
  then have q: "query_with full short cur known timestamp (c, p) = Inr (Some (start, of_nat (length (bc_blocks c)), first_full,
      map short (map ((!) (bc_blockIndex c)) [unat start..<unat start + m]) @ map (entry_at full short c timestamp) es))"
    by (simp add: query_with_def o(1) ids getCurrentBlockchainHeight_def split: if_split_asm)
  have M: "unat start + m \<le> unat first_full" "m \<noteq> 10000 \<Longrightarrow> unat start + m = unat first_full" "m \<le> 10000"
    using le by (auto simp: m_def)
  have n: "[unat start..<unat start + m] @ es = [unat start..<unat start + (m + length es)]"
  proof (cases "m = 10000")
    case False
    then have "es = [unat start + m..<unat start + m + length es]" using M(2) o(3) by (simp add: es_def)
    then show ?thesis using upt_add_eq_append [of "unat start" "unat start + m" "length es"] by (simp add: add.assoc)
  qed (simp add: es_def)
  have "\<forall>i \<in> set [unat start..<unat start + m]. ?f i = short (bc_blockIndex c ! i)" using M(1) by auto
  moreover have "\<forall>i \<in> set es. ?f i = entry_at full short c timestamp i" by (simp add: es_def)
  ultimately have "map short (map ((!) (bc_blockIndex c)) [unat start..<unat start + m]) @ map (entry_at full short c timestamp) es =
      map ?f [unat start..<unat start + (m + length es)]"
    unfolding n [symmetric] map_append map_map comp_def by simp
  note q = q [unfolded this]
  have "0 < m + length es \<and> m + length es \<le> 10000 \<and> unat start + (m + length es) \<le> length (bc_blocks c)"
  proof (cases "m = 10000")
    case True
    then show ?thesis using M(1) o(3) by (simp add: es_def)
  next
    case False
    define k where "k = unat (blocks_left m)"
    have k: "0 < k" "k \<le> 10000 - m" using left False M(3) by (simp_all add: k_def)
    have "length es = min (unat first_full + k) (length (bc_blocks c)) - unat first_full" using False by (simp add: es_def k_def)
    then have "0 < length es" "length es \<le> k" "unat first_full + length es \<le> length (bc_blocks c)" using k(1) o(3) by linarith+
    then show ?thesis using M(2) [OF False] M(3) k(2) by linarith
  qed
  with q o(2,4) show ?thesis
    by (intro exI [of _ start] exI [of _ first_full] exI [of _ "m + length es"]) simp
qed

text \<open>C11. The answer to a wallet that shares the first block with the node is not empty, starts at a block the wallet
  knows, and continues the node's chain without a gap: first the identifiers of blocks that are too old to matter to the
  wallet, then whole blocks, each with all of its transactions unless it is older than the wallet asked for.\<close>

theorem wallet_query_contiguous:
  assumes "node_reachable cur check_key (c, p)" "bc_blocks c \<noteq> []" "length (bc_blocks c) + 128 < 2 ^ 32"
    and "known \<noteq> []" "last known = bc_blockIndex c ! 0"
  shows "\<exists>start first_full n. 0 < n \<and> n \<le> 10000 \<and> unat start + n \<le> length (bc_blocks c) \<and> start \<le> first_full \<and>
    bc_blockIndex c ! unat start \<in> set known \<and>
    queryBlocks cur known timestamp (c, p) = Inr (Some (start, of_nat (length (bc_blocks c)), first_full,
      map (\<lambda>i. let block = bc_blocks c ! i in
             if i < unat first_full \<or> bl_timestamp (be_bl block) < timestamp
             then \<lparr>bce_block = [], bce_txs = [], bfi_block_id = bc_blockIndex c ! i\<rparr>
             else \<lparr>bce_block = blob_of ser_Block (be_bl block),
                   bce_txs = map (blob_of ser_Transaction) (map te_tx (tl (be_transactions block))),
                   bfi_block_id = bc_blockIndex c ! i\<rparr>) [unat start..<unat start + n]))"
proof -
  have "(\<lambda>i. if i < unat f then id_info (bc_blockIndex c ! i) else entry_at full_info id_info c timestamp i) =
    (\<lambda>i. let block = bc_blocks c ! i in
       if i < unat (f :: u32) \<or> bl_timestamp (be_bl block) < timestamp
       then \<lparr>bce_block = [], bce_txs = [], bfi_block_id = bc_blockIndex c ! i\<rparr>
       else \<lparr>bce_block = blob_of ser_Block (be_bl block),
             bce_txs = map (blob_of ser_Transaction) (map te_tx (tl (be_transactions block))),
             bfi_block_id = bc_blockIndex c ! i\<rparr>)" for f
    by (rule ext) (simp add: entry_at_def full_info_def id_info_def Let_def not_le)
  from query_with_eq [OF assms, of full_info id_info timestamp, unfolded this] show ?thesis unfolding queryBlocks_with .
qed

theorem wallet_query_contiguous_witness:
  "\<exists>c f e. map be_bl (bc_blocks c) = [lone_block] \<and>
     queryBlocks default_currency [bc_blockIndex c ! 0] 0 (c, new_pool) = Inr (Some (0, 1, f, [e])) \<and>
     bfi_block_id e = bc_blockIndex c ! 0"
proof -
  obtain bvc c where a: "addNewBlock 0 default_currency lone_env lone_block new_bvc (lone_chain, new_pool) = Inr (True, bvc, (c, new_pool))"
    "bvc_added_to_main_chain bvc" using lone_added by blast
  then have "handle_incoming_block 0 default_currency lone_env lone_block new_bvc False (lone_chain, new_pool) = Inr (True, bvc, None, (c, new_pool))"
    by (simp add: handle_incoming_block_def)
  moreover have cl: "clean lone_block (bvc_added_to_main_chain bvc) (c, new_pool)" by (simp add: clean_def a(2))
  moreover note start = node_reachable.start [where check_key = "\<lambda>_. True" and cur = default_currency]
  ultimately have r: "node_reachable default_currency (\<lambda>_. True) (c, new_pool)"
    using node_reachable.step [OF start node_step.block [OF _ lone_admissible]] by blast
  obtain block where b: "bc_blocks c = [block]" "be_bl block = lone_block"
    using block_inv [OF a(1) lone_admissible node_reachable_inv [OF start] cl] a(2) by auto
  obtain start first_full n where "0 < n" "unat start + n \<le> 1"
    "queryBlocks default_currency [bc_blockIndex c ! 0] 0 (c, new_pool) = Inr (Some (start, 1, first_full,
      map (\<lambda>i. let block = bc_blocks c ! i in
             if i < unat first_full \<or> bl_timestamp (be_bl block) < 0
             then \<lparr>bce_block = [], bce_txs = [], bfi_block_id = bc_blockIndex c ! i\<rparr>
             else \<lparr>bce_block = blob_of ser_Block (be_bl block),
                   bce_txs = map (blob_of ser_Transaction) (map te_tx (tl (be_transactions block))),
                   bfi_block_id = bc_blockIndex c ! i\<rparr>) [unat start..<unat start + n]))"
    using wallet_query_contiguous [OF r, of "[bc_blockIndex c ! 0]" 0] b(1) by auto
  moreover from this(1,2) have "unat start = 0" "n = 1" by simp_all
  moreover from this(1) have "start = 0" by (simp add: unat_eq_zero)
  ultimately show ?thesis using b by (intro exI [of _ c]) (auto simp: Let_def)
qed

text \<open>A payment identifier that only the chain knows is not found: the pool must know it too, and its index stays empty
  for the transactions it receives (\<open>add_tx_payment_index\<close>).\<close>

lemma payment_id_needs_pool:
  assumes "equal_range paymentId (mp_paymentIdIndex p) = []"
  shows "getTransactionsByPaymentId paymentId txs (c, p) = Inr (False, txs)"
  using assms by (simp add: getTransactionsByPaymentId_def getTransactionIdsByPaymentId_def pii_find_def)

end
