(* ===== verification/FieldElements.thy ===== *)
theory FieldElements
  imports Prelude
begin

text \<open>The field of \<^verbatim>\<open>crypto/crypto-ops.c\<close>: integers modulo \<open>2 ^ 255 - 19\<close> in ten limbs of alternately 26 and 25
  bits. A limb is an \<^typ>\<open>int\<close>, and every operation of the source on \<^verbatim>\<open>int32_t\<close> and \<^verbatim>\<open>int64_t\<close> values is wrapped to
  its width by \<open>i32\<close> and \<open>i64\<close>. The theorems show that within the bounds the comments of the source give nothing
  wraps, and that the operations compute in the field.\<close>

section \<open>Limbs\<close>

definition i32 :: "int \<Rightarrow> int" where "i32 x = signed_take_bit 31 x"

definition i64 :: "int \<Rightarrow> int" where "i64 x = signed_take_bit 63 x"

text \<open>\<^verbatim>\<open>typedef int32_t fe[10]\<close>; the intermediate sums have ten limbs of 64 bits.\<close>

datatype fe = Fe int int int int int int int int int int

definition fe_0 :: fe where "fe_0 = Fe 0 0 0 0 0 0 0 0 0 0"

definition fe_1 :: fe where "fe_1 = Fe 1 0 0 0 0 0 0 0 0 0"

fun fe_zip :: "(int \<Rightarrow> int \<Rightarrow> int) \<Rightarrow> fe \<Rightarrow> fe \<Rightarrow> fe" where
  "fe_zip op (Fe f0 f1 f2 f3 f4 f5 f6 f7 f8 f9) (Fe g0 g1 g2 g3 g4 g5 g6 g7 g8 g9) =
     Fe (op f0 g0) (op f1 g1) (op f2 g2) (op f3 g3) (op f4 g4) (op f5 g5) (op f6 g6) (op f7 g7) (op f8 g8) (op f9 g9)"

definition fe_add :: "fe \<Rightarrow> fe \<Rightarrow> fe" where "fe_add = fe_zip (\<lambda>f g. i32 (f + g))"

definition fe_sub :: "fe \<Rightarrow> fe \<Rightarrow> fe" where "fe_sub = fe_zip (\<lambda>f g. i32 (f - g))"

definition fe_neg :: "fe \<Rightarrow> fe" where "fe_neg f = fe_zip (\<lambda>_ f. i32 (- f)) f f"

text \<open>\<^verbatim>\<open>fe_cmov\<close>: the limbs of the difference are masked with \<^verbatim>\<open>-b\<close>. The assertion allows \<^verbatim>\<open>b\<close> to be 0 or 1.\<close>

definition fe_cmov :: "fe \<Rightarrow> fe \<Rightarrow> int \<Rightarrow> fe result" where
  "fe_cmov f g b = assert_res (b = 0 \<or> b = 1)
     (Inr (fe_zip (\<lambda>f g. f XOR ((f XOR g) AND (- b))) f g))"

section \<open>Multiplication\<close>

text \<open>One carry of \<^verbatim>\<open>n\<close> bits, rounded to the nearest:
  \<^verbatim>\<open>carry = (lo + (1 << (n - 1))) >> n; hi += carry * k; lo -= carry << n\<close>.\<close>

definition carry_by :: "int \<Rightarrow> nat \<Rightarrow> int \<Rightarrow> int \<Rightarrow> int \<times> int" where
  "carry_by k n lo hi = (let c = i64 (lo + 2 ^ (n - 1)) div 2 ^ n in (i64 (lo - i64 (c * 2 ^ n)), i64 (hi + i64 (c * k))))"

abbreviation carry :: "nat \<Rightarrow> int \<Rightarrow> int \<Rightarrow> int \<times> int" where "carry \<equiv> carry_by 1"

text \<open>The chain of twelve carries that ends \<^verbatim>\<open>fe_mul\<close>, \<^verbatim>\<open>fe_sq\<close> and \<^verbatim>\<open>fe_sq2\<close>.\<close>

fun carry_chain :: "fe \<Rightarrow> fe" where
  "carry_chain (Fe h0 h1 h2 h3 h4 h5 h6 h7 h8 h9) =
     (let (h0, h1) = carry 26 h0 h1; (h4, h5) = carry 26 h4 h5;
          (h1, h2) = carry 25 h1 h2; (h5, h6) = carry 25 h5 h6;
          (h2, h3) = carry 26 h2 h3; (h6, h7) = carry 26 h6 h7;
          (h3, h4) = carry 25 h3 h4; (h7, h8) = carry 25 h7 h8;
          (h4, h5) = carry 26 h4 h5; (h8, h9) = carry 26 h8 h9;
          (h9, h0) = carry_by 19 25 h9 h0;
          (h0, h1) = carry 26 h0 h1
      in Fe (i32 h0) (i32 h1) (i32 h2) (i32 h3) (i32 h4) (i32 h5) (i32 h6) (i32 h7) (i32 h8) (i32 h9))"

text \<open>The ten sums of products of \<^verbatim>\<open>fe_mul\<close>.\<close>

definition mul_sums :: "fe \<Rightarrow> fe \<Rightarrow> fe" where
  "mul_sums f g = (case f of Fe f0 f1 f2 f3 f4 f5 f6 f7 f8 f9 \<Rightarrow> case g of Fe g0 g1 g2 g3 g4 g5 g6 g7 g8 g9 \<Rightarrow>
     (let
      g1_19 = i32 (19 * g1); g2_19 = i32 (19 * g2); g3_19 = i32 (19 * g3); g4_19 = i32 (19 * g4); g5_19 = i32 (19 * g5);
      g6_19 = i32 (19 * g6); g7_19 = i32 (19 * g7); g8_19 = i32 (19 * g8); g9_19 = i32 (19 * g9); f1_2 = i32 (2 * f1);
      f3_2 = i32 (2 * f3); f5_2 = i32 (2 * f5); f7_2 = i32 (2 * f7); f9_2 = i32 (2 * f9); f0g0 = i64 (f0 * g0);
      f0g1 = i64 (f0 * g1); f0g2 = i64 (f0 * g2); f0g3 = i64 (f0 * g3); f0g4 = i64 (f0 * g4); f0g5 = i64 (f0 * g5);
      f0g6 = i64 (f0 * g6); f0g7 = i64 (f0 * g7); f0g8 = i64 (f0 * g8); f0g9 = i64 (f0 * g9); f1g0 = i64 (f1 * g0);
      f1g1_2 = i64 (f1_2 * g1); f1g2 = i64 (f1 * g2); f1g3_2 = i64 (f1_2 * g3); f1g4 = i64 (f1 * g4); f1g5_2 = i64 (f1_2 * g5);
      f1g6 = i64 (f1 * g6); f1g7_2 = i64 (f1_2 * g7); f1g8 = i64 (f1 * g8); f1g9_38 = i64 (f1_2 * g9_19); f2g0 = i64 (f2 * g0);
      f2g1 = i64 (f2 * g1); f2g2 = i64 (f2 * g2); f2g3 = i64 (f2 * g3); f2g4 = i64 (f2 * g4); f2g5 = i64 (f2 * g5);
      f2g6 = i64 (f2 * g6); f2g7 = i64 (f2 * g7); f2g8_19 = i64 (f2 * g8_19); f2g9_19 = i64 (f2 * g9_19); f3g0 = i64 (f3 * g0);
      f3g1_2 = i64 (f3_2 * g1); f3g2 = i64 (f3 * g2); f3g3_2 = i64 (f3_2 * g3); f3g4 = i64 (f3 * g4); f3g5_2 = i64 (f3_2 * g5);
      f3g6 = i64 (f3 * g6); f3g7_38 = i64 (f3_2 * g7_19); f3g8_19 = i64 (f3 * g8_19); f3g9_38 = i64 (f3_2 * g9_19);
      f4g0 = i64 (f4 * g0); f4g1 = i64 (f4 * g1); f4g2 = i64 (f4 * g2); f4g3 = i64 (f4 * g3); f4g4 = i64 (f4 * g4);
      f4g5 = i64 (f4 * g5); f4g6_19 = i64 (f4 * g6_19); f4g7_19 = i64 (f4 * g7_19); f4g8_19 = i64 (f4 * g8_19);
      f4g9_19 = i64 (f4 * g9_19); f5g0 = i64 (f5 * g0); f5g1_2 = i64 (f5_2 * g1); f5g2 = i64 (f5 * g2); f5g3_2 = i64 (f5_2 * g3);
      f5g4 = i64 (f5 * g4); f5g5_38 = i64 (f5_2 * g5_19); f5g6_19 = i64 (f5 * g6_19); f5g7_38 = i64 (f5_2 * g7_19);
      f5g8_19 = i64 (f5 * g8_19); f5g9_38 = i64 (f5_2 * g9_19); f6g0 = i64 (f6 * g0); f6g1 = i64 (f6 * g1); f6g2 = i64 (f6 * g2);
      f6g3 = i64 (f6 * g3); f6g4_19 = i64 (f6 * g4_19); f6g5_19 = i64 (f6 * g5_19); f6g6_19 = i64 (f6 * g6_19);
      f6g7_19 = i64 (f6 * g7_19); f6g8_19 = i64 (f6 * g8_19); f6g9_19 = i64 (f6 * g9_19); f7g0 = i64 (f7 * g0);
      f7g1_2 = i64 (f7_2 * g1); f7g2 = i64 (f7 * g2); f7g3_38 = i64 (f7_2 * g3_19); f7g4_19 = i64 (f7 * g4_19);
      f7g5_38 = i64 (f7_2 * g5_19); f7g6_19 = i64 (f7 * g6_19); f7g7_38 = i64 (f7_2 * g7_19); f7g8_19 = i64 (f7 * g8_19);
      f7g9_38 = i64 (f7_2 * g9_19); f8g0 = i64 (f8 * g0); f8g1 = i64 (f8 * g1); f8g2_19 = i64 (f8 * g2_19);
      f8g3_19 = i64 (f8 * g3_19); f8g4_19 = i64 (f8 * g4_19); f8g5_19 = i64 (f8 * g5_19); f8g6_19 = i64 (f8 * g6_19);
      f8g7_19 = i64 (f8 * g7_19); f8g8_19 = i64 (f8 * g8_19); f8g9_19 = i64 (f8 * g9_19); f9g0 = i64 (f9 * g0);
      f9g1_38 = i64 (f9_2 * g1_19); f9g2_19 = i64 (f9 * g2_19); f9g3_38 = i64 (f9_2 * g3_19); f9g4_19 = i64 (f9 * g4_19);
      f9g5_38 = i64 (f9_2 * g5_19); f9g6_19 = i64 (f9 * g6_19); f9g7_38 = i64 (f9_2 * g7_19); f9g8_19 = i64 (f9 * g8_19);
      f9g9_38 = i64 (f9_2 * g9_19);
      h0 = i64 (f0g0 + f1g9_38 + f2g8_19 + f3g7_38 + f4g6_19 + f5g5_38 + f6g4_19 + f7g3_38 + f8g2_19 + f9g1_38);
      h1 = i64 (f0g1 + f1g0 + f2g9_19 + f3g8_19 + f4g7_19 + f5g6_19 + f6g5_19 + f7g4_19 + f8g3_19 + f9g2_19);
      h2 = i64 (f0g2 + f1g1_2 + f2g0 + f3g9_38 + f4g8_19 + f5g7_38 + f6g6_19 + f7g5_38 + f8g4_19 + f9g3_38);
      h3 = i64 (f0g3 + f1g2 + f2g1 + f3g0 + f4g9_19 + f5g8_19 + f6g7_19 + f7g6_19 + f8g5_19 + f9g4_19);
      h4 = i64 (f0g4 + f1g3_2 + f2g2 + f3g1_2 + f4g0 + f5g9_38 + f6g8_19 + f7g7_38 + f8g6_19 + f9g5_38);
      h5 = i64 (f0g5 + f1g4 + f2g3 + f3g2 + f4g1 + f5g0 + f6g9_19 + f7g8_19 + f8g7_19 + f9g6_19);
      h6 = i64 (f0g6 + f1g5_2 + f2g4 + f3g3_2 + f4g2 + f5g1_2 + f6g0 + f7g9_38 + f8g8_19 + f9g7_38);
      h7 = i64 (f0g7 + f1g6 + f2g5 + f3g4 + f4g3 + f5g2 + f6g1 + f7g0 + f8g9_19 + f9g8_19);
      h8 = i64 (f0g8 + f1g7_2 + f2g6 + f3g5_2 + f4g4 + f5g3_2 + f6g2 + f7g1_2 + f8g0 + f9g9_38);
      h9 = i64 (f0g9 + f1g8 + f2g7 + f3g6 + f4g5 + f5g4 + f6g3 + f7g2 + f8g1 + f9g0)
      in Fe h0 h1 h2 h3 h4 h5 h6 h7 h8 h9))"

text \<open>The sums of \<^verbatim>\<open>fe_sq\<close>, which takes every mixed product once.\<close>

definition sq_sums :: "fe \<Rightarrow> fe" where
  "sq_sums f = (case f of Fe f0 f1 f2 f3 f4 f5 f6 f7 f8 f9 \<Rightarrow>
     (let
      f0_2 = i32 (2 * f0); f1_2 = i32 (2 * f1); f2_2 = i32 (2 * f2); f3_2 = i32 (2 * f3); f4_2 = i32 (2 * f4);
      f5_2 = i32 (2 * f5); f6_2 = i32 (2 * f6); f7_2 = i32 (2 * f7); f5_38 = i32 (38 * f5); f6_19 = i32 (19 * f6);
      f7_38 = i32 (38 * f7); f8_19 = i32 (19 * f8); f9_38 = i32 (38 * f9); f0f0 = i64 (f0 * f0); f0f1_2 = i64 (f0_2 * f1);
      f0f2_2 = i64 (f0_2 * f2); f0f3_2 = i64 (f0_2 * f3); f0f4_2 = i64 (f0_2 * f4); f0f5_2 = i64 (f0_2 * f5);
      f0f6_2 = i64 (f0_2 * f6); f0f7_2 = i64 (f0_2 * f7); f0f8_2 = i64 (f0_2 * f8); f0f9_2 = i64 (f0_2 * f9);
      f1f1_2 = i64 (f1_2 * f1); f1f2_2 = i64 (f1_2 * f2); f1f3_4 = i64 (f1_2 * f3_2); f1f4_2 = i64 (f1_2 * f4);
      f1f5_4 = i64 (f1_2 * f5_2); f1f6_2 = i64 (f1_2 * f6); f1f7_4 = i64 (f1_2 * f7_2); f1f8_2 = i64 (f1_2 * f8);
      f1f9_76 = i64 (f1_2 * f9_38); f2f2 = i64 (f2 * f2); f2f3_2 = i64 (f2_2 * f3); f2f4_2 = i64 (f2_2 * f4);
      f2f5_2 = i64 (f2_2 * f5); f2f6_2 = i64 (f2_2 * f6); f2f7_2 = i64 (f2_2 * f7); f2f8_38 = i64 (f2_2 * f8_19);
      f2f9_38 = i64 (f2 * f9_38); f3f3_2 = i64 (f3_2 * f3); f3f4_2 = i64 (f3_2 * f4); f3f5_4 = i64 (f3_2 * f5_2);
      f3f6_2 = i64 (f3_2 * f6); f3f7_76 = i64 (f3_2 * f7_38); f3f8_38 = i64 (f3_2 * f8_19); f3f9_76 = i64 (f3_2 * f9_38);
      f4f4 = i64 (f4 * f4); f4f5_2 = i64 (f4_2 * f5); f4f6_38 = i64 (f4_2 * f6_19); f4f7_38 = i64 (f4 * f7_38);
      f4f8_38 = i64 (f4_2 * f8_19); f4f9_38 = i64 (f4 * f9_38); f5f5_38 = i64 (f5 * f5_38); f5f6_38 = i64 (f5_2 * f6_19);
      f5f7_76 = i64 (f5_2 * f7_38); f5f8_38 = i64 (f5_2 * f8_19); f5f9_76 = i64 (f5_2 * f9_38); f6f6_19 = i64 (f6 * f6_19);
      f6f7_38 = i64 (f6 * f7_38); f6f8_38 = i64 (f6_2 * f8_19); f6f9_38 = i64 (f6 * f9_38); f7f7_38 = i64 (f7 * f7_38);
      f7f8_38 = i64 (f7_2 * f8_19); f7f9_76 = i64 (f7_2 * f9_38); f8f8_19 = i64 (f8 * f8_19); f8f9_38 = i64 (f8 * f9_38);
      f9f9_38 = i64 (f9 * f9_38); h0 = i64 (f0f0 + f1f9_76 + f2f8_38 + f3f7_76 + f4f6_38 + f5f5_38);
      h1 = i64 (f0f1_2 + f2f9_38 + f3f8_38 + f4f7_38 + f5f6_38);
      h2 = i64 (f0f2_2 + f1f1_2 + f3f9_76 + f4f8_38 + f5f7_76 + f6f6_19);
      h3 = i64 (f0f3_2 + f1f2_2 + f4f9_38 + f5f8_38 + f6f7_38); h4 = i64 (f0f4_2 + f1f3_4 + f2f2 + f5f9_76 + f6f8_38 + f7f7_38);
      h5 = i64 (f0f5_2 + f1f4_2 + f2f3_2 + f6f9_38 + f7f8_38); h6 = i64 (f0f6_2 + f1f5_4 + f2f4_2 + f3f3_2 + f7f9_76 + f8f8_19);
      h7 = i64 (f0f7_2 + f1f6_2 + f2f5_2 + f3f4_2 + f8f9_38); h8 = i64 (f0f8_2 + f1f7_4 + f2f6_2 + f3f5_4 + f4f4 + f9f9_38);
      h9 = i64 (f0f9_2 + f1f8_2 + f2f7_2 + f3f6_2 + f4f5_2)
      in Fe h0 h1 h2 h3 h4 h5 h6 h7 h8 h9))"

definition fe_mul :: "fe \<Rightarrow> fe \<Rightarrow> fe" where "fe_mul f g = carry_chain (mul_sums f g)"

definition fe_sq :: "fe \<Rightarrow> fe" where "fe_sq f = carry_chain (sq_sums f)"

text \<open>\<^verbatim>\<open>fe_sq2\<close> has the same sums and doubles them before the carries.\<close>

definition fe_sq2 :: "fe \<Rightarrow> fe" where
  "fe_sq2 f = carry_chain (fe_zip (\<lambda>h h'. i64 (h + h')) (sq_sums f) (sq_sums f))"

section \<open>The value of ten limbs\<close>

definition P25519 :: int where "P25519 = 2 ^ 255 - 19"

fun fe_val :: "fe \<Rightarrow> int" where
  "fe_val (Fe h0 h1 h2 h3 h4 h5 h6 h7 h8 h9) =
     h0 + 2 ^ 26 * h1 + 2 ^ 51 * h2 + 2 ^ 77 * h3 + 2 ^ 102 * h4 + 2 ^ 128 * h5 + 2 ^ 153 * h6 + 2 ^ 179 * h7 +
     2 ^ 204 * h8 + 2 ^ 230 * h9"

text \<open>Even limbs up to \<open>2 * B\<close>, odd limbs up to \<open>B\<close>.\<close>

fun fe_bound :: "int \<Rightarrow> fe \<Rightarrow> bool" where
  "fe_bound B (Fe h0 h1 h2 h3 h4 h5 h6 h7 h8 h9) \<longleftrightarrow>
     \<bar>h0\<bar> \<le> 2 * B \<and> \<bar>h1\<bar> \<le> B \<and> \<bar>h2\<bar> \<le> 2 * B \<and> \<bar>h3\<bar> \<le> B \<and> \<bar>h4\<bar> \<le> 2 * B \<and>
     \<bar>h5\<bar> \<le> B \<and> \<bar>h6\<bar> \<le> 2 * B \<and> \<bar>h7\<bar> \<le> B \<and> \<bar>h8\<bar> \<le> 2 * B \<and> \<bar>h9\<bar> \<le> B"


section \<open>Carries\<close>

lemma i32_id: "- (2 ^ 31) \<le> x \<Longrightarrow> x < 2 ^ 31 \<Longrightarrow> i32 x = x"
  by (simp add: i32_def signed_take_bit_int_eq_self)

lemma i64_id: "- (2 ^ 63) \<le> x \<Longrightarrow> x < 2 ^ 63 \<Longrightarrow> i64 x = x"
  by (simp add: i64_def signed_take_bit_int_eq_self)

lemma round_div:
  fixes lo :: int
  assumes "0 < n" "c = (lo + 2 ^ (n - 1)) div 2 ^ n"
  shows "\<bar>lo - c * 2 ^ n\<bar> \<le> 2 ^ (n - 1)"
proof -
  have n: "(2 :: int) ^ n = 2 * 2 ^ (n - 1)" using assms(1) by (metis power_eq_if not_gr_zero)
  have "lo + 2 ^ (n - 1) = c * 2 ^ n + (lo + 2 ^ (n - 1)) mod 2 ^ n" unfolding assms(2) by (rule div_mult_mod_eq [symmetric])
  moreover have "0 \<le> (lo + 2 ^ (n - 1)) mod 2 ^ n" "(lo + 2 ^ (n - 1)) mod 2 ^ n < 2 ^ n" by simp_all
  ultimately show ?thesis using n by linarith
qed

text \<open>A carry keeps the sum \<open>lo + 2 ^ n * hi\<close>, up to the factor of the last one, leaves a low limb of \<open>n\<close> bits, and adds
  at most \<open>A\<close> to the next limb.\<close>

lemma carry_by_spec:
  assumes "n \<in> {25, 26}" "k \<in> {1, 19}" "\<bar>lo\<bar> \<le> (A - 1) * 2 ^ n" "A * 2 ^ n \<le> 2 ^ 62" "\<bar>hi\<bar> \<le> 2 ^ 62"
  obtains c where "carry_by k n lo hi = (lo - c * 2 ^ n, hi + c * k)" "\<bar>lo - c * 2 ^ n\<bar> \<le> 2 ^ (n - 1)" "\<bar>c\<bar> \<le> A"
proof -
  define c where "c = (lo + 2 ^ (n - 1)) div 2 ^ n"
  have r: "\<bar>lo - c * 2 ^ n\<bar> \<le> 2 ^ (n - 1)" using round_div [OF _ c_def] assms(1) by auto
  have c: "\<bar>c\<bar> \<le> A" "\<bar>c * 2 ^ n\<bar> \<le> 2 ^ 62 + 2 ^ 26" "\<bar>lo\<bar> \<le> 2 ^ 62"
    using r assms(1,3,4) by auto
  have k: "\<bar>c * k\<bar> \<le> 2 ^ 42" using c(1) assms(1,2,4) by auto
  have "i64 (lo + 2 ^ (n - 1)) = lo + 2 ^ (n - 1)" using assms(1) c(3) by (intro i64_id) auto
  moreover have "i64 (c * 2 ^ n) = c * 2 ^ n" using c(2) by (intro i64_id) auto
  moreover have "i64 (lo - c * 2 ^ n) = lo - c * 2 ^ n" using r assms(1) by (intro i64_id) auto
  moreover have "i64 (c * k) = c * k" "i64 (hi + c * k) = hi + c * k" using k assms(5) by (auto intro!: i64_id)
  ultimately have "carry_by k n lo hi = (lo - c * 2 ^ n, hi + c * k)" unfolding carry_by_def Let_def by (simp only: c_def [symmetric])
  with r c(1) that show ?thesis by blast
qed

text \<open>The limbs of the sums, all within the same bound.\<close>

fun fe_wide :: "int \<Rightarrow> fe \<Rightarrow> bool" where
  "fe_wide M (Fe h0 h1 h2 h3 h4 h5 h6 h7 h8 h9) \<longleftrightarrow> (\<forall>h \<in> {h0, h1, h2, h3, h4, h5, h6, h7, h8, h9}. \<bar>h\<bar> \<le> M)"

lemma add_abs: "\<bar>a\<bar> \<le> A \<Longrightarrow> \<bar>b\<bar> \<le> B \<Longrightarrow> \<bar>a + b\<bar> \<le> A + (B :: int)"
  by arith

lemma i32_even: "\<bar>x\<bar> \<le> 2 * B \<Longrightarrow> B < 2 ^ 30 \<Longrightarrow> i32 x = x"
  by (rule i32_id) simp_all

lemma i32_odd: "\<bar>x\<bar> \<le> B \<Longrightarrow> B < 2 ^ 30 \<Longrightarrow> i32 x = x"
  by (rule i32_id) simp_all

lemma fe_bound_i32:
  assumes "fe_bound B h" "B < 2 ^ 30"
  shows "fe_zip (\<lambda>_. i32) h h = h"
  using assms(1) by (cases h, simp only: fe_bound.simps fe_zip.simps fe.inject) (blast intro: i32_even i32_odd assms(2))

lemma narrowed:
  assumes "fe_bound 16944988 r" "h = fe_zip (\<lambda>_. i32) r r" "fe_val r = v + c * P25519"
  shows "fe_val h mod P25519 = v mod P25519 \<and> fe_bound 16944988 h"
  using assms(2) unfolding fe_bound_i32 [OF assms(1), simplified] by (simp add: assms)

lemma carry_chain_spec:
  assumes "fe_wide (3 * 2 ^ 60) h"
  shows "fe_val (carry_chain h) mod P25519 = fe_val h mod P25519 \<and> fe_bound 16944988 (carry_chain h)"
proof -
  obtain h0 h1 h2 h3 h4 h5 h6 h7 h8 h9 where h: "h = Fe h0 h1 h2 h3 h4 h5 h6 h7 h8 h9" by (cases h)
  have W: "\<bar>h0\<bar> \<le> 3 * 2 ^ 60" "\<bar>h1\<bar> \<le> 3 * 2 ^ 60" "\<bar>h2\<bar> \<le> 3 * 2 ^ 60" "\<bar>h3\<bar> \<le> 3 * 2 ^ 60" "\<bar>h4\<bar> \<le> 3 * 2 ^ 60"
    "\<bar>h5\<bar> \<le> 3 * 2 ^ 60" "\<bar>h6\<bar> \<le> 3 * 2 ^ 60" "\<bar>h7\<bar> \<le> 3 * 2 ^ 60" "\<bar>h8\<bar> \<le> 3 * 2 ^ 60" "\<bar>h9\<bar> \<le> 3 * 2 ^ 60"
    using assms unfolding h fe_wide.simps by blast+
  obtain c0 where c0: "carry 26 h0 h1 = (h0 - c0 * 2 ^ 26, h1 + c0)" "\<bar>h0 - c0 * 2 ^ 26\<bar> \<le> 2 ^ 25" "\<bar>c0\<bar> \<le> 2 ^ 36"
    by (rule carry_by_spec [of 26 1 h0 "2 ^ 36" h1]) (use W(1,2) in auto)
  obtain c4 where c4: "carry 26 h4 h5 = (h4 - c4 * 2 ^ 26, h5 + c4)" "\<bar>h4 - c4 * 2 ^ 26\<bar> \<le> 2 ^ 25" "\<bar>c4\<bar> \<le> 2 ^ 36"
    by (rule carry_by_spec [of 26 1 h4 "2 ^ 36" h5]) (use W(5,6) in auto)
  obtain c1 where c1: "carry 25 (h1 + c0) h2 = (h1 + c0 - c1 * 2 ^ 25, h2 + c1)" "\<bar>h1 + c0 - c1 * 2 ^ 25\<bar> \<le> 2 ^ 24" "\<bar>c1\<bar> \<le> 2 ^ 37"
    by (rule carry_by_spec [of 25 1 "h1 + c0" "2 ^ 37" h2]) (use W(2,3) c0(3) in auto)
  obtain c5 where c5: "carry 25 (h5 + c4) h6 = (h5 + c4 - c5 * 2 ^ 25, h6 + c5)" "\<bar>h5 + c4 - c5 * 2 ^ 25\<bar> \<le> 2 ^ 24" "\<bar>c5\<bar> \<le> 2 ^ 37"
    by (rule carry_by_spec [of 25 1 "h5 + c4" "2 ^ 37" h6]) (use W(6,7) c4(3) in auto)
  obtain c2 where c2: "carry 26 (h2 + c1) h3 = (h2 + c1 - c2 * 2 ^ 26, h3 + c2)" "\<bar>h2 + c1 - c2 * 2 ^ 26\<bar> \<le> 2 ^ 25" "\<bar>c2\<bar> \<le> 2 ^ 36"
    by (rule carry_by_spec [of 26 1 "h2 + c1" "2 ^ 36" h3]) (use W(3,4) c1(3) in auto)
  obtain c6 where c6: "carry 26 (h6 + c5) h7 = (h6 + c5 - c6 * 2 ^ 26, h7 + c6)" "\<bar>h6 + c5 - c6 * 2 ^ 26\<bar> \<le> 2 ^ 25" "\<bar>c6\<bar> \<le> 2 ^ 36"
    by (rule carry_by_spec [of 26 1 "h6 + c5" "2 ^ 36" h7]) (use W(7,8) c5(3) in auto)
  obtain c3 where c3: "carry 25 (h3 + c2) (h4 - c4 * 2 ^ 26) = (h3 + c2 - c3 * 2 ^ 25, h4 - c4 * 2 ^ 26 + c3)"
      "\<bar>h3 + c2 - c3 * 2 ^ 25\<bar> \<le> 2 ^ 24" "\<bar>c3\<bar> \<le> 2 ^ 37"
    by (rule carry_by_spec [of 25 1 "h3 + c2" "2 ^ 37" "h4 - c4 * 2 ^ 26"]) (use W(4) c2(3) c4(2) in auto)
  obtain c7 where c7: "carry 25 (h7 + c6) h8 = (h7 + c6 - c7 * 2 ^ 25, h8 + c7)" "\<bar>h7 + c6 - c7 * 2 ^ 25\<bar> \<le> 2 ^ 24" "\<bar>c7\<bar> \<le> 2 ^ 37"
    by (rule carry_by_spec [of 25 1 "h7 + c6" "2 ^ 37" h8]) (use W(8,9) c6(3) in auto)
  obtain d4 where d4: "carry 26 (h4 - c4 * 2 ^ 26 + c3) (h5 + c4 - c5 * 2 ^ 25) =
        (h4 - c4 * 2 ^ 26 + c3 - d4 * 2 ^ 26, h5 + c4 - c5 * 2 ^ 25 + d4)"
      "\<bar>h4 - c4 * 2 ^ 26 + c3 - d4 * 2 ^ 26\<bar> \<le> 2 ^ 25" "\<bar>d4\<bar> \<le> 2 ^ 12"
    by (rule carry_by_spec [of 26 1 "h4 - c4 * 2 ^ 26 + c3" "2 ^ 12" "h5 + c4 - c5 * 2 ^ 25"]) (use c4(2) c3(3) c5(2) in auto)
  obtain c8 where c8: "carry 26 (h8 + c7) h9 = (h8 + c7 - c8 * 2 ^ 26, h9 + c8)" "\<bar>h8 + c7 - c8 * 2 ^ 26\<bar> \<le> 2 ^ 25" "\<bar>c8\<bar> \<le> 2 ^ 36"
    by (rule carry_by_spec [of 26 1 "h8 + c7" "2 ^ 36" h9]) (use W(9,10) c7(3) in auto)
  obtain c9 where c9: "carry_by 19 25 (h9 + c8) (h0 - c0 * 2 ^ 26) = (h9 + c8 - c9 * 2 ^ 25, h0 - c0 * 2 ^ 26 + c9 * 19)"
      "\<bar>h9 + c8 - c9 * 2 ^ 25\<bar> \<le> 2 ^ 24" "\<bar>c9\<bar> \<le> 2 ^ 37"
    by (rule carry_by_spec [of 25 19 "h9 + c8" "2 ^ 37" "h0 - c0 * 2 ^ 26"]) (use W(10) c8(3) c0(2) in auto)
  obtain d0 where d0: "carry 26 (h0 - c0 * 2 ^ 26 + c9 * 19) (h1 + c0 - c1 * 2 ^ 25) =
        (h0 - c0 * 2 ^ 26 + c9 * 19 - d0 * 2 ^ 26, h1 + c0 - c1 * 2 ^ 25 + d0)"
      "\<bar>h0 - c0 * 2 ^ 26 + c9 * 19 - d0 * 2 ^ 26\<bar> \<le> 2 ^ 25" "\<bar>d0\<bar> \<le> 2 ^ 16"
    by (rule carry_by_spec [of 26 1 "h0 - c0 * 2 ^ 26 + c9 * 19" "2 ^ 16" "h1 + c0 - c1 * 2 ^ 25"]) (use c0(2) c9(3) c1(2) in auto)
  let ?r = "Fe (h0 - c0 * 2 ^ 26 + c9 * 19 - d0 * 2 ^ 26) (h1 + c0 - c1 * 2 ^ 25 + d0) (h2 + c1 - c2 * 2 ^ 26)
    (h3 + c2 - c3 * 2 ^ 25) (h4 - c4 * 2 ^ 26 + c3 - d4 * 2 ^ 26) (h5 + c4 - c5 * 2 ^ 25 + d4) (h6 + c5 - c6 * 2 ^ 26)
    (h7 + c6 - c7 * 2 ^ 25) (h8 + c7 - c8 * 2 ^ 26) (h9 + c8 - c9 * 2 ^ 25)"
  have "fe_bound 16944988 ?r"
    unfolding fe_bound.simps
    by (intro conjI; (rule order_trans, rule d0(2) add_abs [OF c1(2) d0(3)] c2(2) c3(2) d4(2) add_abs [OF c5(2) d4(3)]
          c6(2) c7(2) c8(2) c9(2), simp))
  moreover have "carry_chain h = fe_zip (\<lambda>_. i32) ?r ?r"
    unfolding h by (simp only: carry_chain.simps Let_def prod.case c0(1) c1(1) c2(1) c3(1) c4(1) c5(1) c6(1) c7(1) c8(1) c9(1) d0(1) d4(1) fe_zip.simps)
  moreover have "fe_val ?r = fe_val h + (- c9) * P25519" unfolding h by (simp add: P25519_def)
  ultimately show ?thesis by (rule narrowed)
qed

section \<open>The sums of products\<close>

lemma i64_i64: "i64 (i64 a) = i64 a"
  by (simp add: i64_def)

lemma i64_cong_add: "i64 a = i64 a' \<Longrightarrow> i64 b = i64 b' \<Longrightarrow> i64 (a + b) = i64 (a' + b')"
  unfolding i64_def by (metis signed_take_bit_add)

lemma i64_abs: "\<bar>x\<bar> \<le> M \<Longrightarrow> M < 2 ^ 63 \<Longrightarrow> i64 x = x"
  by (rule i64_id) simp_all

lemma mult_abs: "\<bar>a\<bar> \<le> A \<Longrightarrow> \<bar>b\<bar> \<le> B \<Longrightarrow> \<bar>a * b\<bar> \<le> A * (B :: int)"
  by (simp add: abs_mult mult_mono)

lemma numeral_abs: "\<bar>numeral k\<bar> \<le> (numeral k :: int)"
  by simp

text \<open>The factors 19, 2 and 38 keep a limb within 32 bits.\<close>

lemma scaled_even:
  assumes "\<bar>x\<bar> \<le> 2 * 55364812"
  shows "i32 (19 * x) = 19 * x" "i32 (2 * x) = 2 * x"
  using assms by (auto intro!: i32_id)

lemma scaled_odd:
  assumes "\<bar>x\<bar> \<le> 55364812"
  shows "i32 (19 * x) = 19 * x" "i32 (2 * x) = 2 * x" "i32 (38 * x) = 38 * x"
  using assms by (auto intro!: i32_id)

definition product :: "fe \<Rightarrow> fe \<Rightarrow> fe" where
  "product f g = (case f of Fe f0 f1 f2 f3 f4 f5 f6 f7 f8 f9 \<Rightarrow> case g of Fe g0 g1 g2 g3 g4 g5 g6 g7 g8 g9 \<Rightarrow> Fe
     ((f0 * g0) + 38 * (f1 * g9) + 19 * (f2 * g8) + 38 * (f3 * g7) + 19 * (f4 * g6) + 38 * (f5 * g5) + 19 * (f6 * g4) + 38 * (f7 * g3) + 19 * (f8 * g2) + 38 * (f9 * g1))
     ((f0 * g1) + (f1 * g0) + 19 * (f2 * g9) + 19 * (f3 * g8) + 19 * (f4 * g7) + 19 * (f5 * g6) + 19 * (f6 * g5) + 19 * (f7 * g4) + 19 * (f8 * g3) + 19 * (f9 * g2))
     ((f0 * g2) + 2 * (f1 * g1) + (f2 * g0) + 38 * (f3 * g9) + 19 * (f4 * g8) + 38 * (f5 * g7) + 19 * (f6 * g6) + 38 * (f7 * g5) + 19 * (f8 * g4) + 38 * (f9 * g3))
     ((f0 * g3) + (f1 * g2) + (f2 * g1) + (f3 * g0) + 19 * (f4 * g9) + 19 * (f5 * g8) + 19 * (f6 * g7) + 19 * (f7 * g6) + 19 * (f8 * g5) + 19 * (f9 * g4))
     ((f0 * g4) + 2 * (f1 * g3) + (f2 * g2) + 2 * (f3 * g1) + (f4 * g0) + 38 * (f5 * g9) + 19 * (f6 * g8) + 38 * (f7 * g7) + 19 * (f8 * g6) + 38 * (f9 * g5))
     ((f0 * g5) + (f1 * g4) + (f2 * g3) + (f3 * g2) + (f4 * g1) + (f5 * g0) + 19 * (f6 * g9) + 19 * (f7 * g8) + 19 * (f8 * g7) + 19 * (f9 * g6))
     ((f0 * g6) + 2 * (f1 * g5) + (f2 * g4) + 2 * (f3 * g3) + (f4 * g2) + 2 * (f5 * g1) + (f6 * g0) + 38 * (f7 * g9) + 19 * (f8 * g8) + 38 * (f9 * g7))
     ((f0 * g7) + (f1 * g6) + (f2 * g5) + (f3 * g4) + (f4 * g3) + (f5 * g2) + (f6 * g1) + (f7 * g0) + 19 * (f8 * g9) + 19 * (f9 * g8))
     ((f0 * g8) + 2 * (f1 * g7) + (f2 * g6) + 2 * (f3 * g5) + (f4 * g4) + 2 * (f5 * g3) + (f6 * g2) + 2 * (f7 * g1) + (f8 * g0) + 38 * (f9 * g9))
     ((f0 * g9) + (f1 * g8) + (f2 * g7) + (f3 * g6) + (f4 * g5) + (f5 * g4) + (f6 * g3) + (f7 * g2) + (f8 * g1) + (f9 * g0)))"

lemma product_val: "fe_val (product f g) mod P25519 = fe_val f * fe_val g mod P25519"
proof -
  obtain f0 f1 f2 f3 f4 f5 f6 f7 f8 f9 where f: "f = Fe f0 f1 f2 f3 f4 f5 f6 f7 f8 f9" by (cases f)
  obtain g0 g1 g2 g3 g4 g5 g6 g7 g8 g9 where g: "g = Fe g0 g1 g2 g3 g4 g5 g6 g7 g8 g9" by (cases g)
  have "fe_val f * fe_val g = fe_val (product f g) + P25519 *
    ((2 * (f1 * g9) + (f2 * g8) + 2 * (f3 * g7) + (f4 * g6) + 2 * (f5 * g5) + (f6 * g4) + 2 * (f7 * g3) + (f8 * g2) + 2 * (f9 * g1)) +
     2 ^ 26 * ((f2 * g9) + (f3 * g8) + (f4 * g7) + (f5 * g6) + (f6 * g5) + (f7 * g4) + (f8 * g3) + (f9 * g2)) +
     2 ^ 51 * (2 * (f3 * g9) + (f4 * g8) + 2 * (f5 * g7) + (f6 * g6) + 2 * (f7 * g5) + (f8 * g4) + 2 * (f9 * g3)) +
     2 ^ 77 * ((f4 * g9) + (f5 * g8) + (f6 * g7) + (f7 * g6) + (f8 * g5) + (f9 * g4)) +
     2 ^ 102 * (2 * (f5 * g9) + (f6 * g8) + 2 * (f7 * g7) + (f8 * g6) + 2 * (f9 * g5)) +
     2 ^ 128 * ((f6 * g9) + (f7 * g8) + (f8 * g7) + (f9 * g6)) +
     2 ^ 153 * (2 * (f7 * g9) + (f8 * g8) + 2 * (f9 * g7)) +
     2 ^ 179 * ((f8 * g9) + (f9 * g8)) +
     2 ^ 204 * (2 * (f9 * g9)))"
    unfolding f g product_def P25519_def fe.case fe_val.simps by algebra
  then show ?thesis by simp
qed

lemma i64_sum: "i64 a = i64 b \<Longrightarrow> \<bar>b\<bar> \<le> M \<Longrightarrow> M < 2 ^ 63 \<Longrightarrow> b = c \<Longrightarrow> i64 a = c"
  using i64_abs [of b M] by simp

lemma mul_sums_product:
  assumes "fe_bound 55364812 f" "fe_bound 55364812 g"
  shows "mul_sums f g = product f g \<and> fe_wide (3 * 2 ^ 59) (product f g)"
proof -
  obtain f0 f1 f2 f3 f4 f5 f6 f7 f8 f9 where f: "f = Fe f0 f1 f2 f3 f4 f5 f6 f7 f8 f9" by (cases f)
  obtain g0 g1 g2 g3 g4 g5 g6 g7 g8 g9 where g: "g = Fe g0 g1 g2 g3 g4 g5 g6 g7 g8 g9" by (cases g)
  have B: "\<bar>f0\<bar> \<le> 2 * 55364812" "\<bar>f1\<bar> \<le> 55364812" "\<bar>f2\<bar> \<le> 2 * 55364812"
    "\<bar>f3\<bar> \<le> 55364812" "\<bar>f4\<bar> \<le> 2 * 55364812" "\<bar>f5\<bar> \<le> 55364812" "\<bar>f6\<bar>
    \<le> 2 * 55364812" "\<bar>f7\<bar> \<le> 55364812" "\<bar>f8\<bar> \<le> 2 * 55364812" "\<bar>f9\<bar> \<le>
    55364812" "\<bar>g0\<bar> \<le> 2 * 55364812" "\<bar>g1\<bar> \<le> 55364812" "\<bar>g2\<bar> \<le> 2 * 55364812"
    "\<bar>g3\<bar> \<le> 55364812" "\<bar>g4\<bar> \<le> 2 * 55364812" "\<bar>g5\<bar> \<le> 55364812" "\<bar>g6\<bar>
    \<le> 2 * 55364812" "\<bar>g7\<bar> \<le> 55364812" "\<bar>g8\<bar> \<le> 2 * 55364812" "\<bar>g9\<bar> \<le>
    55364812"
    using assms unfolding f g fe_bound.simps by blast+
  note scaled = scaled_even [OF B(13)] scaled_even [OF B(15)] scaled_even [OF B(17)] scaled_even [OF B(19)] scaled_odd [OF B(12)]
    scaled_odd [OF B(14)] scaled_odd [OF B(16)] scaled_odd [OF B(18)] scaled_odd [OF B(20)] scaled_odd [OF B(2)] scaled_odd [OF B(4)]
    scaled_odd [OF B(6)] scaled_odd [OF B(8)] scaled_odd [OF B(10)]
  have "mul_sums f g = product f g"
    unfolding f g mul_sums_def product_def fe.case Let_def fe.inject scaled
    by (intro conjI; (rule i64_sum, (rule i64_cong_add i64_i64)+, (rule add_abs mult_abs numeral_abs B)+, simp, simp))
  moreover have "fe_wide (3 * 2 ^ 59) (product f g)"
    unfolding f g product_def fe.case fe_wide.simps ball_simps
    by (intro conjI TrueI; (rule order_trans, (rule add_abs mult_abs numeral_abs B)+, simp))
  ultimately show ?thesis by simp
qed

lemma sq_sums_product:
  assumes "fe_bound 55364812 f"
  shows "sq_sums f = product f f"
proof -
  obtain f0 f1 f2 f3 f4 f5 f6 f7 f8 f9 where f: "f = Fe f0 f1 f2 f3 f4 f5 f6 f7 f8 f9" by (cases f)
  have B: "\<bar>f0\<bar> \<le> 2 * 55364812" "\<bar>f1\<bar> \<le> 55364812" "\<bar>f2\<bar> \<le> 2 * 55364812"
    "\<bar>f3\<bar> \<le> 55364812" "\<bar>f4\<bar> \<le> 2 * 55364812" "\<bar>f5\<bar> \<le> 55364812" "\<bar>f6\<bar>
    \<le> 2 * 55364812" "\<bar>f7\<bar> \<le> 55364812" "\<bar>f8\<bar> \<le> 2 * 55364812" "\<bar>f9\<bar> \<le>
    55364812"
    using assms unfolding f fe_bound.simps by blast+
  note scaled = scaled_even [OF B(1)] scaled_even [OF B(3)] scaled_even [OF B(5)] scaled_even [OF B(7)] scaled_even [OF B(9)]
    scaled_odd [OF B(2)] scaled_odd [OF B(4)] scaled_odd [OF B(6)] scaled_odd [OF B(8)] scaled_odd [OF B(10)]
  show ?thesis
    unfolding f sq_sums_def product_def fe.case Let_def fe.inject scaled
    by (intro conjI; (rule i64_sum, (rule i64_cong_add i64_i64)+, (rule add_abs mult_abs numeral_abs B)+, simp, algebra))
qed

lemma doubled_limb: "\<bar>x\<bar> \<le> 3 * 2 ^ 59 \<Longrightarrow> i64 (x + x) = 2 * x \<and> \<bar>2 * x\<bar> \<le> 3 * 2 ^ 60"
  using i64_id [of "x + x"] by simp

lemma doubled:
  assumes "fe_wide (3 * 2 ^ 59) h"
  defines "hh \<equiv> fe_zip (\<lambda>h h'. i64 (h + h')) h h"
  shows "fe_wide (3 * 2 ^ 60) hh \<and> fe_val hh = 2 * fe_val h"
proof -
  obtain h0 h1 h2 h3 h4 h5 h6 h7 h8 h9 where h: "h = Fe h0 h1 h2 h3 h4 h5 h6 h7 h8 h9" by (cases h)
  have "hh = Fe (2 * h0) (2 * h1) (2 * h2) (2 * h3) (2 * h4) (2 * h5) (2 * h6) (2 * h7) (2 * h8) (2 * h9)" "fe_wide (3 * 2 ^ 60) hh"
    using assms(1) unfolding hh_def h fe_zip.simps fe_wide.simps ball_simps fe.inject by (simp_all only: doubled_limb simp_thms)
  then show ?thesis unfolding h by simp
qed

lemma fe_wide_mono: "fe_wide M h \<Longrightarrow> M \<le> N \<Longrightarrow> fe_wide N h"
  by (cases h) auto

section \<open>Arithmetic in the field\<close>

lemma fe_zip_bound:
  assumes "\<And>a b x y. \<bar>x\<bar> \<le> a \<Longrightarrow> \<bar>y\<bar> \<le> b \<Longrightarrow> \<bar>op x y\<bar> \<le> a + b" "fe_bound A f" "fe_bound B g"
  shows "fe_bound (A + B) (fe_zip (op) f g)"
  using assms by (cases f, cases g) simp

lemma fe_zip_i32:
  assumes "fe_bound B (fe_zip (op) f g)" "B < 2 ^ 30"
  shows "fe_zip (\<lambda>x y. i32 (op x y)) f g = fe_zip (op) f g"
proof -
  have "fe_zip (\<lambda>x y. i32 (op x y)) f g = fe_zip (\<lambda>_. i32) (fe_zip (op) f g) (fe_zip (op) f g)" by (cases f, cases g) simp
  then show ?thesis by (simp add: fe_bound_i32 [OF assms])
qed

lemma fe_add_val:
  assumes "fe_bound A f" "fe_bound B g" "A + B < 2 ^ 30"
  shows "fe_val (fe_add f g) = fe_val f + fe_val g \<and> fe_bound (A + B) (fe_add f g)"
proof -
  have "fe_bound (A + B) (fe_zip (+) f g)" by (rule fe_zip_bound [OF _ assms(1,2)]) arith
  moreover from fe_zip_i32 [OF this assms(3)] have "fe_add f g = fe_zip (+) f g" by (simp add: fe_add_def)
  moreover have "fe_val (fe_zip (+) f g) = fe_val f + fe_val g" by (cases f, cases g) simp
  ultimately show ?thesis by simp
qed

lemma fe_sub_val:
  assumes "fe_bound A f" "fe_bound B g" "A + B < 2 ^ 30"
  shows "fe_val (fe_sub f g) = fe_val f - fe_val g \<and> fe_bound (A + B) (fe_sub f g)"
proof -
  have "fe_bound (A + B) (fe_zip (-) f g)" by (rule fe_zip_bound [OF _ assms(1,2)]) arith
  moreover from fe_zip_i32 [OF this assms(3)] have "fe_sub f g = fe_zip (-) f g" by (simp add: fe_sub_def)
  moreover have "fe_val (fe_zip (-) f g) = fe_val f - fe_val g" by (cases f, cases g) simp
  ultimately show ?thesis by simp
qed

lemma fe_neg_val:
  assumes "fe_bound B f" "B < 2 ^ 30"
  shows "fe_val (fe_neg f) = - fe_val f \<and> fe_bound B (fe_neg f)"
proof -
  have "fe_bound B (fe_zip (\<lambda>_. uminus) f f)" using assms(1) by (cases f) simp
  moreover from fe_zip_i32 [OF this assms(2)] have "fe_neg f = fe_zip (\<lambda>_. uminus) f f" by (simp add: fe_neg_def)
  moreover have "fe_val (fe_zip (\<lambda>_. uminus) f f) = - fe_val f" by (cases f) simp
  ultimately show ?thesis by simp
qed

lemma fe_mul_val:
  assumes "fe_bound 55364812 f" "fe_bound 55364812 g"
  shows "fe_val (fe_mul f g) mod P25519 = fe_val f * fe_val g mod P25519 \<and> fe_bound 16944988 (fe_mul f g)"
  using mul_sums_product [OF assms] carry_chain_spec [OF fe_wide_mono [of "3 * 2 ^ 59" "product f g"]]
  by (simp add: fe_mul_def product_val)

lemma fe_sq_val:
  assumes "fe_bound 55364812 f"
  shows "fe_val (fe_sq f) mod P25519 = fe_val f * fe_val f mod P25519 \<and> fe_bound 16944988 (fe_sq f)"
    "fe_sq f = fe_mul f f"
  using mul_sums_product [OF assms assms] fe_mul_val [OF assms assms] sq_sums_product [OF assms]
  by (simp_all add: fe_mul_def fe_sq_def)

lemma fe_sq2_val:
  assumes "fe_bound 55364812 f"
  shows "fe_val (fe_sq2 f) mod P25519 = 2 * (fe_val f * fe_val f) mod P25519 \<and> fe_bound 16944988 (fe_sq2 f)"
proof -
  have w: "fe_wide (3 * 2 ^ 59) (product f f)" using mul_sums_product [OF assms assms] by blast
  from carry_chain_spec [OF doubled [OF w, THEN conjunct1]] doubled [OF w]
  have "fe_val (fe_sq2 f) mod P25519 = 2 * fe_val (product f f) mod P25519" "fe_bound 16944988 (fe_sq2 f)"
    by (simp_all add: fe_sq2_def sq_sums_product [OF assms])
  then show ?thesis by (metis product_val mod_mult_right_eq)
qed

section \<open>Theorems\<close>

text \<open>C20. Within the bounds that the source's comments state, no 32-bit or 64-bit operation overflows and the limbs of the
  results stand for the product, the square, twice the square, the sum and the difference modulo \<open>2 ^ 255 - 19\<close>; the
  results are within the bounds the comments promise, and squaring gives the same limbs as multiplying.\<close>

theorem field_operations_exact:
  assumes "fe_bound 55364812 f" "fe_bound 55364812 g" "fe_bound 18454937 a" "fe_bound 18454937 b"
  shows "fe_val (fe_mul f g) mod P25519 = fe_val f * fe_val g mod P25519 \<and> fe_bound 16944988 (fe_mul f g) \<and>
    fe_sq f = fe_mul f f \<and>
    fe_val (fe_sq2 f) mod P25519 = 2 * (fe_val f * fe_val f) mod P25519 \<and> fe_bound 16944988 (fe_sq2 f) \<and>
    fe_val (fe_add a b) = fe_val a + fe_val b \<and> fe_bound 36909874 (fe_add a b) \<and>
    fe_val (fe_sub a b) = fe_val a - fe_val b \<and> fe_bound 36909874 (fe_sub a b) \<and>
    fe_val (fe_neg a) = - fe_val a \<and> fe_bound 18454937 (fe_neg a)"
  using fe_mul_val [OF assms(1,2)] fe_sq_val(2) [OF assms(1)] fe_sq2_val [OF assms(1)] fe_add_val [OF assms(3,4)]
    fe_sub_val [OF assms(3,4)] fe_neg_val [OF assms(3)] by simp

theorem field_operations_exact_witness:
  "fe_val (fe_mul (Fe 110729624 (- 55364812) 7 0 0 0 0 0 0 55364812) (Fe 3 0 0 0 0 0 0 0 0 (- 55364812))) mod P25519 =
   fe_val (Fe 110729624 (- 55364812) 7 0 0 0 0 0 0 55364812) * fe_val (Fe 3 0 0 0 0 0 0 0 0 (- 55364812)) mod P25519"
  using field_operations_exact [of "Fe 110729624 (- 55364812) 7 0 0 0 0 0 0 55364812" "Fe 3 0 0 0 0 0 0 0 0 (- 55364812)" fe_1 fe_1]
  by (simp only: fe_bound.simps fe_1_def) simp

end
