(* ===== verification/FieldBytes.thy ===== *)
theory FieldBytes
  imports FieldElements
begin

text \<open>Field elements of \<^verbatim>\<open>crypto/crypto-ops.c\<close> as 32 bytes (\<^verbatim>\<open>fe_tobytes\<close>), the tests on them, and the powers that
  stand for inverses and square roots (\<^verbatim>\<open>fe_invert\<close>, \<^verbatim>\<open>fe_divpowm1\<close>). The bytes are the canonical little-endian
  form of the value modulo \<open>2 ^ 255 - 19\<close>.\<close>

section \<open>Bytes of a number\<close>

abbreviation byte :: "int \<Rightarrow> u8" where "byte \<equiv> word_of_int"

definition le_int :: "u8 list \<Rightarrow> int" where "le_int bs = foldr (\<lambda>b acc. uint b + 256 * acc) bs 0"

primrec le_bytes :: "nat \<Rightarrow> int \<Rightarrow> u8 list" where
  "le_bytes 0 v = []"
| "le_bytes (Suc n) v = byte v # le_bytes n (v div 256)"

lemma le_int_simps [simp]: "le_int [] = 0" "le_int (b # bs) = uint b + 256 * le_int bs"
  by (simp_all add: le_int_def)

lemma length_le_bytes [simp]: "length (le_bytes n v) = n"
  by (induction n arbitrary: v) simp_all

lemma le_bytes_le_int: "le_bytes (length bs) (le_int bs) = bs"
proof (induction bs)
  case (Cons b bs)
  have "byte (uint b + 256 * le_int bs) = b"
    unfolding word_uint_eq_iff uint_word_of_int using uint_lt2p [of b] by simp
  moreover have "(uint b + 256 * le_int bs) div 256 = le_int bs" using uint_lt2p [of b] by simp
  ultimately show ?case using Cons by simp
qed simp

lemma le_int_nonneg: "0 \<le> le_int bs"
  by (induction bs) simp_all

lemma le_int_less: "le_int bs < 256 ^ length bs"
proof (induction bs)
  case (Cons b bs)
  have "uint b < 256" using uint_lt2p [of b] by simp
  with Cons show ?case by simp
qed simp

lemma le_int_le_bytes: "le_int (le_bytes n v) = v mod 256 ^ n"
proof (induction n arbitrary: v)
  case (Suc n)
  have "uint (byte v) = v mod 256" by (simp add: uint_word_of_int)
  with Suc show ?case by (simp add: zmod_zmult2_eq)
qed simp

section \<open>Writing a field element\<close>

text \<open>Shifts of signed 32-bit integers: to the right they keep the sign, to the left they drop bits.\<close>

definition sar :: "nat \<Rightarrow> int \<Rightarrow> int" where "sar n x = x div 2 ^ n"

definition shl :: "nat \<Rightarrow> int \<Rightarrow> int" where "shl n x = x * 2 ^ n"

text \<open>\<^verbatim>\<open>carry = lo >> n; hi += carry; lo -= carry << n\<close>.\<close>

definition carry_down :: "nat \<Rightarrow> int \<Rightarrow> int \<Rightarrow> int \<times> int" where
  "carry_down n lo hi = (let c = sar n lo in (i32 (lo - i32 (shl n c)), i32 (hi + c)))"

fun tobytes_quotient :: "fe \<Rightarrow> int" where
  "tobytes_quotient (Fe h0 h1 h2 h3 h4 h5 h6 h7 h8 h9) =
     (let q = sar 25 (i32 (19 * h9 + 2 ^ 24));
          q = sar 26 (i32 (h0 + q));
          q = sar 25 (i32 (h1 + q));
          q = sar 26 (i32 (h2 + q));
          q = sar 25 (i32 (h3 + q));
          q = sar 26 (i32 (h4 + q));
          q = sar 25 (i32 (h5 + q));
          q = sar 26 (i32 (h6 + q));
          q = sar 25 (i32 (h7 + q));
          q = sar 26 (i32 (h8 + q));
          q = sar 25 (i32 (h9 + q))
      in q)"

fun tobytes_digits :: "fe \<Rightarrow> fe" where
  "tobytes_digits (Fe h0 h1 h2 h3 h4 h5 h6 h7 h8 h9) =
     (let
          (h0, h1) = carry_down 26 h0 h1;
          (h1, h2) = carry_down 25 h1 h2;
          (h2, h3) = carry_down 26 h2 h3;
          (h3, h4) = carry_down 25 h3 h4;
          (h4, h5) = carry_down 26 h4 h5;
          (h5, h6) = carry_down 25 h5 h6;
          (h6, h7) = carry_down 26 h6 h7;
          (h7, h8) = carry_down 25 h7 h8;
          (h8, h9) = carry_down 26 h8 h9;
          h9 = i32 (h9 - i32 (shl 25 (sar 25 h9)))
      in Fe h0 h1 h2 h3 h4 h5 h6 h7 h8 h9)"

fun tobytes_pack :: "fe \<Rightarrow> u8 list" where
  "tobytes_pack (Fe h0 h1 h2 h3 h4 h5 h6 h7 h8 h9) =
     [byte (sar 0 h0), byte (sar 8 h0), byte (sar 16 h0), byte (sar 24 h0 OR i32 (shl 2 h1)), byte (sar 6 h1),
      byte (sar 14 h1), byte (sar 22 h1 OR i32 (shl 3 h2)), byte (sar 5 h2), byte (sar 13 h2),
      byte (sar 21 h2 OR i32 (shl 5 h3)), byte (sar 3 h3), byte (sar 11 h3), byte (sar 19 h3 OR i32 (shl 6 h4)),
      byte (sar 2 h4), byte (sar 10 h4), byte (sar 18 h4), byte (sar 0 h5), byte (sar 8 h5), byte (sar 16 h5),
      byte (sar 24 h5 OR i32 (shl 1 h6)), byte (sar 7 h6), byte (sar 15 h6), byte (sar 23 h6 OR i32 (shl 3 h7)),
      byte (sar 5 h7), byte (sar 13 h7), byte (sar 21 h7 OR i32 (shl 4 h8)), byte (sar 4 h8), byte (sar 12 h8),
      byte (sar 20 h8 OR i32 (shl 6 h9)), byte (sar 2 h9), byte (sar 10 h9), byte (sar 18 h9)]"

definition fe_tobytes :: "fe \<Rightarrow> u8 list" where
  "fe_tobytes h = (case h of Fe h0 h1 h2 h3 h4 h5 h6 h7 h8 h9 \<Rightarrow>
     tobytes_pack (tobytes_digits (Fe (i32 (h0 + 19 * tobytes_quotient h)) h1 h2 h3 h4 h5 h6 h7 h8 h9)))"

definition fe_isnegative :: "fe \<Rightarrow> int" where "fe_isnegative f = uint (fe_tobytes f ! 0 AND 1)"

text \<open>\<^verbatim>\<open>(((int) (s[0] | ... | s[31]) - 1) >> 8) + 1\<close>.\<close>

definition fe_isnonzero :: "fe \<Rightarrow> int" where
  "fe_isnonzero f = sar 8 (uint (foldr (OR) (fe_tobytes f) 0) - 1) + 1"

text \<open>A loop of \<^verbatim>\<open>n\<close> squarings is \<^term>\<open>fe_sq ^^ n\<close>.\<close>

definition fe_invert :: "fe \<Rightarrow> fe" where
  "fe_invert z =
     (let
          t0 = fe_sq z; t1 = fe_sq t0; t1 = fe_sq t1; t1 = fe_mul z t1; t0 = fe_mul t0 t1; t2 = fe_sq t0;
          t1 = fe_mul t1 t2; t2 = fe_sq t1; t2 = (fe_sq ^^ 4) t2; t1 = fe_mul t2 t1; t2 = fe_sq t1;
          t2 = (fe_sq ^^ 9) t2; t2 = fe_mul t2 t1; t3 = fe_sq t2; t3 = (fe_sq ^^ 19) t3; t2 = fe_mul t3 t2;
          t2 = fe_sq t2; t2 = (fe_sq ^^ 9) t2; t1 = fe_mul t2 t1; t2 = fe_sq t1; t2 = (fe_sq ^^ 49) t2;
          t2 = fe_mul t2 t1; t3 = fe_sq t2; t3 = (fe_sq ^^ 99) t3; t2 = fe_mul t3 t2; t2 = fe_sq t2;
          t2 = (fe_sq ^^ 49) t2; t1 = fe_mul t2 t1; t1 = fe_sq t1; t1 = (fe_sq ^^ 4) t1
      in fe_mul t1 t0)"

definition fe_divpowm1 :: "fe \<Rightarrow> fe \<Rightarrow> fe" where
  "fe_divpowm1 u v =
     (let
          v3 = fe_sq v; v3 = fe_mul v3 v; uv7 = fe_sq v3; uv7 = fe_mul uv7 v; uv7 = fe_mul uv7 u; t0 = fe_sq uv7;
          t1 = fe_sq t0; t1 = fe_sq t1; t1 = fe_mul uv7 t1; t0 = fe_mul t0 t1; t0 = fe_sq t0; t0 = fe_mul t1 t0;
          t1 = fe_sq t0; t1 = (fe_sq ^^ 4) t1; t0 = fe_mul t1 t0; t1 = fe_sq t0; t1 = (fe_sq ^^ 9) t1;
          t1 = fe_mul t1 t0; t2 = fe_sq t1; t2 = (fe_sq ^^ 19) t2; t1 = fe_mul t2 t1; t1 = (fe_sq ^^ 10) t1;
          t0 = fe_mul t1 t0; t1 = fe_sq t0; t1 = (fe_sq ^^ 49) t1; t1 = fe_mul t1 t0; t2 = fe_sq t1;
          t2 = (fe_sq ^^ 99) t2; t1 = fe_mul t2 t1; t1 = (fe_sq ^^ 50) t1; t0 = fe_mul t1 t0; t0 = fe_sq t0;
          t0 = fe_sq t0; t0 = fe_mul t0 uv7; t0 = fe_mul t0 v3
      in fe_mul t0 u)"

section \<open>The quotient\<close>

lemma i32_eq: "x = y \<Longrightarrow> \<bar>y\<bar> \<le> M \<Longrightarrow> M < 2 ^ 31 \<Longrightarrow> i32 x = y"
  by (simp add: i32_id abs_le_iff)

lemma sar_abs: "\<bar>x\<bar> \<le> A \<Longrightarrow> \<bar>sar n x\<bar> \<le> A"
proof (cases "0 \<le> x")
  case True
  then have "x div 2 ^ n \<le> x" "0 \<le> x div 2 ^ n" using zdiv_mono2 [of x 1 "2 ^ n"] by (simp_all add: pos_imp_zdiv_nonneg_iff)
  with True show "\<bar>x\<bar> \<le> A \<Longrightarrow> ?thesis" by (simp add: sar_def)
next
  case False
  then have "x \<le> x div 2 ^ n" "x div 2 ^ n < 0" using zdiv_mono2_neg [of x 1 "2 ^ n"] by (simp_all add: pos_imp_zdiv_neg_iff)
  with False show "\<bar>x\<bar> \<le> A \<Longrightarrow> ?thesis" by (simp add: sar_def)
qed

lemma sar_cong: "x = y \<Longrightarrow> sar n x = sar n y"
  by simp

lemma plus_cong: "x = y \<Longrightarrow> h + x = h + (y :: int)"
  by simp

lemma div_nested: "(x + y div 2 ^ m) div 2 ^ n = (2 ^ m * x + y) div 2 ^ (m + n)" for x y :: int
proof -
  have "x + y div 2 ^ m = (2 ^ m * x + y) div 2 ^ m" by simp
  then show ?thesis by (simp add: zdiv_zmult2_eq power_add)
qed

lemma quotient_eq:
  assumes "fe_bound 36909875 (Fe h0 h1 h2 h3 h4 h5 h6 h7 h8 h9)"
  shows "tobytes_quotient (Fe h0 h1 h2 h3 h4 h5 h6 h7 h8 h9) =
    (fe_val (Fe h0 h1 h2 h3 h4 h5 h6 h7 h8 h9) + (19 * h9 + 2 ^ 24) div 2 ^ 25) div 2 ^ 255"
proof -
  have B: "\<bar>h0\<bar> \<le> 2 * 36909875" "\<bar>h1\<bar> \<le> 36909875" "\<bar>h2\<bar> \<le> 2 * 36909875" "\<bar>h3\<bar> \<le> 36909875" "\<bar>h4\<bar> \<le> 2 * 36909875"
    "\<bar>h5\<bar> \<le> 36909875" "\<bar>h6\<bar> \<le> 2 * 36909875" "\<bar>h7\<bar> \<le> 36909875" "\<bar>h8\<bar> \<le> 2 * 36909875" "\<bar>h9\<bar> \<le> 36909875"
    using assms unfolding fe_bound.simps by blast+
  have P: "\<bar>2 ^ 24 :: int\<bar> \<le> 2 ^ 24" by simp
  have "tobytes_quotient (Fe h0 h1 h2 h3 h4 h5 h6 h7 h8 h9) =
    sar 25 (h9 + sar 26 (h8 + sar 25 (h7 + sar 26 (h6 + sar 25 (h5 + sar 26 (h4 + sar 25 (h3 + sar 26 (h2 + sar 25 (h1 +
      sar 26 (h0 + sar 25 (19 * h9 + 2 ^ 24)))))))))))"
    unfolding tobytes_quotient.simps Let_def
    by (rule sar_cong i32_eq plus_cong refl | (rule add_abs mult_abs sar_abs numeral_abs B P)+ | simp)+
  then show ?thesis unfolding sar_def div_nested [of _ "_ + (19 * h9 + 2 ^ 24) div 2 ^ 25"] div_nested [of _ "_ * _ + _"]
    by (simp add: add_ac)
qed

lemma fe_val_bound:
  assumes "fe_bound 36909875 (Fe h0 h1 h2 h3 h4 h5 h6 h7 h8 h9)"
  shows "\<bar>fe_val (Fe h0 h1 h2 h3 h4 h5 h6 h7 h8 h9) - 2 ^ 230 * h9\<bar> < 2 ^ 231" "\<bar>fe_val (Fe h0 h1 h2 h3 h4 h5 h6 h7 h8 h9)\<bar> < 2 * P25519"
proof -
  have B: "\<bar>h0\<bar> \<le> 2 * 36909875" "\<bar>h1\<bar> \<le> 36909875" "\<bar>h2\<bar> \<le> 2 * 36909875" "\<bar>h3\<bar> \<le> 36909875" "\<bar>h4\<bar> \<le> 2 * 36909875"
    "\<bar>h5\<bar> \<le> 36909875" "\<bar>h6\<bar> \<le> 2 * 36909875" "\<bar>h7\<bar> \<le> 36909875" "\<bar>h8\<bar> \<le> 2 * 36909875" "\<bar>h9\<bar> \<le> 36909875"
    using assms unfolding fe_bound.simps by blast+
  have P: "\<bar>2 ^ n :: int\<bar> \<le> 2 ^ n" for n :: nat by simp
  show "\<bar>fe_val (Fe h0 h1 h2 h3 h4 h5 h6 h7 h8 h9) - 2 ^ 230 * h9\<bar> < 2 ^ 231"
    unfolding fe_val.simps add_diff_cancel_right' by (rule le_less_trans, (rule add_abs mult_abs P B)+, simp)
  show "\<bar>fe_val (Fe h0 h1 h2 h3 h4 h5 h6 h7 h8 h9)\<bar> < 2 * P25519"
    unfolding fe_val.simps by (rule le_less_trans, (rule add_abs mult_abs P B)+, simp add: P25519_def)
qed

text \<open>The quotient is the one by the prime: the estimate from the highest limb is never off.\<close>

lemma quotient_exact:
  assumes "fe_bound 36909875 h"
  shows "tobytes_quotient h = fe_val h div P25519" "\<bar>tobytes_quotient h\<bar> \<le> 2"
proof -
  obtain h0 h1 h2 h3 h4 h5 h6 h7 h8 h9 where h: "h = Fe h0 h1 h2 h3 h4 h5 h6 h7 h8 h9" by (cases h)
  define v where "v = fe_val h"
  define q0 where "q0 = (19 * h9 + 2 ^ 24) div 2 ^ 25"
  define q where "q = v div P25519"
  define r where "r = v mod P25519"
  have v: "v = q * P25519 + r" by (simp add: q_def r_def)
  have r: "0 \<le> r" "r < P25519" by (simp_all add: r_def P25519_def)
  note b = fe_val_bound [OF assms [unfolded h], folded h, folded v_def]
  have q: "\<bar>q\<bar> \<le> 2" using b(2) v r by (simp add: P25519_def)
  have q0: "2 ^ 25 * q0 \<le> 19 * h9 + 2 ^ 24" "19 * h9 + 2 ^ 24 < 2 ^ 25 * q0 + 2 ^ 25"
    unfolding q0_def by simp_all
  have "0 \<le> r - 19 * q + q0" using b(1) q q0 r v by (simp add: P25519_def)
  moreover have "r - 19 * q + q0 < 2 ^ 255" using b(1) q q0 r v by (simp add: P25519_def)
  moreover have "v + q0 = q * 2 ^ 255 + (r - 19 * q + q0)" using v unfolding P25519_def by simp
  ultimately have "(v + q0) div 2 ^ 255 = q" by simp
  then show "tobytes_quotient h = fe_val h div P25519" "\<bar>tobytes_quotient h\<bar> \<le> 2"
    using quotient_eq [OF assms [unfolded h], folded h, folded v_def q0_def] q by (simp_all add: q_def v_def)
qed

lemma carry_down_eq:
  assumes "\<bar>lo\<bar> \<le> A" "\<bar>hi\<bar> \<le> B" "A + B < 2 ^ 30" "n \<le> 26"
  shows "carry_down n lo hi = (lo mod 2 ^ n, hi + sar n lo)"
proof -
  define m where "m = lo mod 2 ^ n"
  have "(2 :: int) ^ n \<le> 2 ^ 26" using assms(4) by (rule power_increasing) simp
  moreover have "m < 2 ^ n" unfolding m_def by simp
  ultimately have m: "m < 2 ^ 26" "0 \<le> m" by (simp_all add: m_def [symmetric]) (simp add: m_def)
  have s: "shl n (sar n lo) = lo - m" by (simp add: m_def shl_def sar_def minus_mod_eq_div_mult)
  have "i32 (shl n (sar n lo)) = lo - m" unfolding s using assms(1,2,3) m by (intro i32_id) simp_all
  moreover have "i32 m = m" using m by (intro i32_id) simp_all
  moreover have "i32 (hi + sar n lo) = hi + sar n lo"
    using add_abs [OF assms(2) sar_abs [OF assms(1), of n]] assms(3) by (intro i32_id) simp_all
  ultimately show ?thesis by (simp add: carry_down_def Let_def flip: m_def)
qed

lemma digit_step:
  fixes x y :: int
  assumes "k = x + y div 2 ^ m"
  shows "y mod 2 ^ m + 2 ^ m * (k mod 2 ^ n) = (2 ^ m * x + y) mod 2 ^ (m + n)" "k div 2 ^ n = (2 ^ m * x + y) div 2 ^ (m + n)"
proof -
  have k: "k = (2 ^ m * x + y) div 2 ^ m" by (simp add: assms)
  show "y mod 2 ^ m + 2 ^ m * (k mod 2 ^ n) = (2 ^ m * x + y) mod 2 ^ (m + n)"
    by (simp add: k zmod_zmult2_eq power_add mod_mult_self4)
  show "k div 2 ^ n = (2 ^ m * x + y) div 2 ^ (m + n)" by (simp add: k zdiv_zmult2_eq power_add)
qed

lemma digits_value:
  assumes "k1 = h1 + h0 div 2 ^ 26" "k2 = h2 + k1 div 2 ^ 25" "k3 = h3 + k2 div 2 ^ 26" "k4 = h4 + k3 div 2 ^ 25" "k5 = h5 + k4
    div 2 ^ 26" "k6 = h6 + k5 div 2 ^ 25" "k7 = h7 + k6 div 2 ^ 26" "k8 = h8 + k7 div 2 ^ 25" "k9 = h9 + k8 div 2 ^ 26"
  shows "fe_val (Fe (h0 mod 2 ^ 26) (k1 mod 2 ^ 25) (k2 mod 2 ^ 26) (k3 mod 2 ^ 25) (k4 mod 2 ^ 26) (k5 mod 2 ^ 25) (k6 mod 2 ^ 26) (k7 mod 2 ^ 25) (k8 mod 2 ^ 26) (k9 mod 2 ^ 25)) =
    fe_val (Fe h0 h1 h2 h3 h4 h5 h6 h7 h8 h9) mod 2 ^ 255"
proof -
  define y1 where "y1 = 2 ^ 26 * h1 + h0"
  have d1: "k1 = h1 + h0 div 2 ^ 26" using assms(1) by (simp add: y1_def)
  have m1: "h0 mod 2 ^ 26 + 2 ^ 26 * (k1 mod 2 ^ 25) = y1 mod 2 ^ 51"
    using digit_step(1) [OF d1, of 25] unfolding y1_def by simp
  define y2 where "y2 = 2 ^ 51 * h2 + y1"
  have d2: "k2 = h2 + y1 div 2 ^ 51" using assms(2) digit_step(2) [OF d1, of 25] by (simp add: y1_def)
  have m2: "y1 mod 2 ^ 51 + 2 ^ 51 * (k2 mod 2 ^ 26) = y2 mod 2 ^ 77"
    using digit_step(1) [OF d2, of 26] unfolding y2_def by simp
  define y3 where "y3 = 2 ^ 77 * h3 + y2"
  have d3: "k3 = h3 + y2 div 2 ^ 77" using assms(3) digit_step(2) [OF d2, of 26] by (simp add: y2_def)
  have m3: "y2 mod 2 ^ 77 + 2 ^ 77 * (k3 mod 2 ^ 25) = y3 mod 2 ^ 102"
    using digit_step(1) [OF d3, of 25] unfolding y3_def by simp
  define y4 where "y4 = 2 ^ 102 * h4 + y3"
  have d4: "k4 = h4 + y3 div 2 ^ 102" using assms(4) digit_step(2) [OF d3, of 25] by (simp add: y3_def)
  have m4: "y3 mod 2 ^ 102 + 2 ^ 102 * (k4 mod 2 ^ 26) = y4 mod 2 ^ 128"
    using digit_step(1) [OF d4, of 26] unfolding y4_def by simp
  define y5 where "y5 = 2 ^ 128 * h5 + y4"
  have d5: "k5 = h5 + y4 div 2 ^ 128" using assms(5) digit_step(2) [OF d4, of 26] by (simp add: y4_def)
  have m5: "y4 mod 2 ^ 128 + 2 ^ 128 * (k5 mod 2 ^ 25) = y5 mod 2 ^ 153"
    using digit_step(1) [OF d5, of 25] unfolding y5_def by simp
  define y6 where "y6 = 2 ^ 153 * h6 + y5"
  have d6: "k6 = h6 + y5 div 2 ^ 153" using assms(6) digit_step(2) [OF d5, of 25] by (simp add: y5_def)
  have m6: "y5 mod 2 ^ 153 + 2 ^ 153 * (k6 mod 2 ^ 26) = y6 mod 2 ^ 179"
    using digit_step(1) [OF d6, of 26] unfolding y6_def by simp
  define y7 where "y7 = 2 ^ 179 * h7 + y6"
  have d7: "k7 = h7 + y6 div 2 ^ 179" using assms(7) digit_step(2) [OF d6, of 26] by (simp add: y6_def)
  have m7: "y6 mod 2 ^ 179 + 2 ^ 179 * (k7 mod 2 ^ 25) = y7 mod 2 ^ 204"
    using digit_step(1) [OF d7, of 25] unfolding y7_def by simp
  define y8 where "y8 = 2 ^ 204 * h8 + y7"
  have d8: "k8 = h8 + y7 div 2 ^ 204" using assms(8) digit_step(2) [OF d7, of 25] by (simp add: y7_def)
  have m8: "y7 mod 2 ^ 204 + 2 ^ 204 * (k8 mod 2 ^ 26) = y8 mod 2 ^ 230"
    using digit_step(1) [OF d8, of 26] unfolding y8_def by simp
  define y9 where "y9 = 2 ^ 230 * h9 + y8"
  have d9: "k9 = h9 + y8 div 2 ^ 230" using assms(9) digit_step(2) [OF d8, of 26] by (simp add: y8_def)
  have m9: "y8 mod 2 ^ 230 + 2 ^ 230 * (k9 mod 2 ^ 25) = y9 mod 2 ^ 255"
    using digit_step(1) [OF d9, of 25] unfolding y9_def by simp
  have "fe_val (Fe h0 h1 h2 h3 h4 h5 h6 h7 h8 h9) = y9"
    by (simp add: y1_def y2_def y3_def y4_def y5_def y6_def y7_def y8_def y9_def)
  then show ?thesis unfolding fe_val.simps m1 m2 m3 m4 m5 m6 m7 m8 m9 by simp
qed

fun fe_digits :: "fe \<Rightarrow> bool" where
  "fe_digits (Fe h0 h1 h2 h3 h4 h5 h6 h7 h8 h9) \<longleftrightarrow>
     (\<forall>h \<in> {h0, h2, h4, h6, h8}. 0 \<le> h \<and> h < 2 ^ 26) \<and> (\<forall>h \<in> {h1, h3, h5, h7, h9}. 0 \<le> h \<and> h < 2 ^ 25)"

lemma digits_exact:
  assumes "\<bar>h0\<bar> \<le> 73819788" "\<bar>h1\<bar> \<le> 36909875" "\<bar>h2\<bar> \<le> 2 * 36909875" "\<bar>h3\<bar> \<le> 36909875" "\<bar>h4\<bar> \<le> 2 * 36909875" "\<bar>h5\<bar> \<le> 36909875" "\<bar>h6\<bar> \<le> 2 * 36909875" "\<bar>h7\<bar> \<le> 36909875" "\<bar>h8\<bar> \<le> 2 * 36909875" "\<bar>h9\<bar> \<le> 36909875"
  shows "fe_digits (tobytes_digits (Fe h0 h1 h2 h3 h4 h5 h6 h7 h8 h9))"
    "fe_val (tobytes_digits (Fe h0 h1 h2 h3 h4 h5 h6 h7 h8 h9)) = fe_val (Fe h0 h1 h2 h3 h4 h5 h6 h7 h8 h9) mod 2 ^ 255"
proof -
  note K0 = assms(1) and B = assms(2-)
  define k1 where "k1 = h1 + sar 26 h0"
  have K1: "\<bar>k1\<bar> \<le> 110729663" using add_abs [OF B(1) sar_abs [OF K0, of 26]] by (simp add: k1_def)
  have c1: "carry_down 26 h0 h1 = (h0 mod 2 ^ 26, k1)"
    unfolding k1_def by (rule carry_down_eq [OF K0 B(1)]) simp_all
  define k2 where "k2 = h2 + sar 25 k1"
  have K2: "\<bar>k2\<bar> \<le> 184549413" using add_abs [OF B(2) sar_abs [OF K1, of 25]] by (simp add: k2_def)
  have c2: "carry_down 25 k1 h2 = (k1 mod 2 ^ 25, k2)"
    unfolding k2_def by (rule carry_down_eq [OF K1 B(2)]) simp_all
  define k3 where "k3 = h3 + sar 26 k2"
  have K3: "\<bar>k3\<bar> \<le> 221459288" using add_abs [OF B(3) sar_abs [OF K2, of 26]] by (simp add: k3_def)
  have c3: "carry_down 26 k2 h3 = (k2 mod 2 ^ 26, k3)"
    unfolding k3_def by (rule carry_down_eq [OF K2 B(3)]) simp_all
  define k4 where "k4 = h4 + sar 25 k3"
  have K4: "\<bar>k4\<bar> \<le> 295279038" using add_abs [OF B(4) sar_abs [OF K3, of 25]] by (simp add: k4_def)
  have c4: "carry_down 25 k3 h4 = (k3 mod 2 ^ 25, k4)"
    unfolding k4_def by (rule carry_down_eq [OF K3 B(4)]) simp_all
  define k5 where "k5 = h5 + sar 26 k4"
  have K5: "\<bar>k5\<bar> \<le> 332188913" using add_abs [OF B(5) sar_abs [OF K4, of 26]] by (simp add: k5_def)
  have c5: "carry_down 26 k4 h5 = (k4 mod 2 ^ 26, k5)"
    unfolding k5_def by (rule carry_down_eq [OF K4 B(5)]) simp_all
  define k6 where "k6 = h6 + sar 25 k5"
  have K6: "\<bar>k6\<bar> \<le> 406008663" using add_abs [OF B(6) sar_abs [OF K5, of 25]] by (simp add: k6_def)
  have c6: "carry_down 25 k5 h6 = (k5 mod 2 ^ 25, k6)"
    unfolding k6_def by (rule carry_down_eq [OF K5 B(6)]) simp_all
  define k7 where "k7 = h7 + sar 26 k6"
  have K7: "\<bar>k7\<bar> \<le> 442918538" using add_abs [OF B(7) sar_abs [OF K6, of 26]] by (simp add: k7_def)
  have c7: "carry_down 26 k6 h7 = (k6 mod 2 ^ 26, k7)"
    unfolding k7_def by (rule carry_down_eq [OF K6 B(7)]) simp_all
  define k8 where "k8 = h8 + sar 25 k7"
  have K8: "\<bar>k8\<bar> \<le> 516738288" using add_abs [OF B(8) sar_abs [OF K7, of 25]] by (simp add: k8_def)
  have c8: "carry_down 25 k7 h8 = (k7 mod 2 ^ 25, k8)"
    unfolding k8_def by (rule carry_down_eq [OF K7 B(8)]) simp_all
  define k9 where "k9 = h9 + sar 26 k8"
  have K9: "\<bar>k9\<bar> \<le> 553648163" using add_abs [OF B(9) sar_abs [OF K8, of 26]] by (simp add: k9_def)
  have c9: "carry_down 26 k8 h9 = (k8 mod 2 ^ 26, k9)"
    unfolding k9_def by (rule carry_down_eq [OF K8 B(9)]) simp_all
  have "i32 (k9 - i32 (shl 25 (sar 25 k9))) = k9 mod 2 ^ 25"
    using carry_down_eq [OF K9, of 0 0 25] by (simp add: carry_down_def Let_def)
  then have d: "tobytes_digits (Fe h0 h1 h2 h3 h4 h5 h6 h7 h8 h9) = Fe (h0 mod 2 ^ 26) (k1 mod 2 ^ 25) (k2 mod 2 ^ 26) (k3 mod 2 ^ 25) (k4 mod 2 ^ 26) (k5 mod 2 ^ 25) (k6 mod 2 ^ 26) (k7 mod 2 ^ 25) (k8 mod 2 ^ 26) (k9 mod 2 ^ 25)"
    by (simp only: tobytes_digits.simps Let_def prod.case c1 c2 c3 c4 c5 c6 c7 c8 c9)
  show "fe_digits (tobytes_digits (Fe h0 h1 h2 h3 h4 h5 h6 h7 h8 h9))" unfolding d by simp
  show "fe_val (tobytes_digits (Fe h0 h1 h2 h3 h4 h5 h6 h7 h8 h9)) = fe_val (Fe h0 h1 h2 h3 h4 h5 h6 h7 h8 h9) mod 2 ^ 255"
    unfolding d by (rule digits_value; unfold sar_def [symmetric]) (rule k1_def k2_def k3_def k4_def k5_def k6_def k7_def k8_def k9_def)+
qed

section \<open>Packing the digits\<close>

lemma uint_byte: "uint (byte (sar n x)) = x div 2 ^ n mod 2 ^ 8"
  by (simp add: uint_word_of_int sar_def)

lemma byte_or:
  assumes "0 \<le> a" "a < 2 ^ k" "k \<le> 8"
  shows "uint (byte (a OR i32 (shl k b))) = a + 2 ^ k * (b mod 2 ^ (8 - k))"
proof -
  have a: "take_bit k a = a" using assms(1,2) by (simp add: take_bit_int_eq_self)
  have o: "a OR push_bit k b = a + 2 ^ k * b" using concat_bit_eq [of k a b] by (simp add: concat_bit_def a push_bit_eq_mult)
  have "shl k b = push_bit k b" by (simp add: shl_def push_bit_eq_mult)
  then have "take_bit 8 (a OR i32 (shl k b)) = take_bit 8 (a OR push_bit k b)"
    by (simp add: i32_def take_bit_signed_take_bit)
  also have "\<dots> = (a + 2 ^ k * b) mod 2 ^ 8" by (simp only: o take_bit_eq_mod)
  also have "\<dots> = a + 2 ^ k * (b mod 2 ^ (8 - k))"
    using zmod_zmult2_eq [of "2 ^ (8 - k)" "a + 2 ^ k * b" "2 ^ k"] assms by (simp flip: power_add)
  finally show ?thesis by (simp add: uint_word_of_int take_bit_eq_mod)
qed

lemma split3:
  fixes h :: int
  assumes "b = a + 8" "c = a + 16"
  shows "h mod 2 ^ a + 2 ^ a * (h div 2 ^ a mod 2 ^ 8) + 2 ^ b * (h div 2 ^ b mod 2 ^ 8) + 2 ^ c * (h div 2 ^ c) = h"
proof -
  define q where "q = h div 2 ^ a"
  define r where "r = q div 2 ^ 8"
  have d: "h div 2 ^ b = r" "h div 2 ^ c = r div 2 ^ 8"
    by (simp_all add: assms power_add zdiv_zmult2_eq q_def r_def)
  have "2 ^ a * (x + 2 ^ 8 * (y + 2 ^ 8 * z)) = 2 ^ a * x + 2 ^ b * y + 2 ^ c * z" for x y z :: int
    by (simp add: assms power_add algebra_simps)
  then have "h mod 2 ^ a + 2 ^ a * (q mod 2 ^ 8) + 2 ^ b * (r mod 2 ^ 8) + 2 ^ c * (r div 2 ^ 8) =
      h mod 2 ^ a + 2 ^ a * (q mod 2 ^ 8 + 2 ^ 8 * (r mod 2 ^ 8 + 2 ^ 8 * (r div 2 ^ 8)))" by (simp only: add.assoc)
  also have "\<dots> = h" by (simp only: mod_mult_div_eq q_def r_def)
  finally show ?thesis unfolding d q_def [symmetric] .
qed

lemma div_range:
  fixes x :: int
  assumes "0 \<le> x \<and> x < 2 ^ n" "m \<le> n"
  shows "0 \<le> x div 2 ^ m \<and> x div 2 ^ m < 2 ^ (n - m)"
proof -
  have "x div 2 ^ m * 2 ^ m \<le> x" by (simp add: minus_mod_eq_div_mult [symmetric])
  also have "x < 2 ^ (n - m) * 2 ^ m" using assms by (simp flip: power_add)
  finally show ?thesis using assms(1) by (simp add: pos_imp_zdiv_nonneg_iff)
qed

lemma tobytes_pack_val:
  assumes "fe_digits d"
  shows "le_int (tobytes_pack d) = fe_val d"
proof -
  obtain h0 h1 h2 h3 h4 h5 h6 h7 h8 h9 where d: "d = Fe h0 h1 h2 h3 h4 h5 h6 h7 h8 h9" by (cases d)
  have R: "0 \<le> h0 \<and> h0 < 2 ^ 26" "0 \<le> h1 \<and> h1 < 2 ^ 25" "0 \<le> h2 \<and> h2 < 2 ^ 26" "0 \<le> h3 \<and> h3 < 2 ^ 25" "0 \<le> h4 \<and> h4 < 2 ^ 26"
    "0 \<le> h5 \<and> h5 < 2 ^ 25" "0 \<le> h6 \<and> h6 < 2 ^ 26" "0 \<le> h7 \<and> h7 < 2 ^ 25" "0 \<le> h8 \<and> h8 < 2 ^ 26" "0 \<le> h9 \<and> h9 < 2 ^ 25"
    using assms unfolding d fe_digits.simps by blast+
  have o: "uint (byte (sar 24 h0 OR i32 (shl 2 h1))) = h0 div 2 ^ 24 + 2 ^ 2 * (h1 mod 2 ^ 6)"
    "uint (byte (sar 22 h1 OR i32 (shl 3 h2))) = h1 div 2 ^ 22 + 2 ^ 3 * (h2 mod 2 ^ 5)"
    "uint (byte (sar 21 h2 OR i32 (shl 5 h3))) = h2 div 2 ^ 21 + 2 ^ 5 * (h3 mod 2 ^ 3)"
    "uint (byte (sar 19 h3 OR i32 (shl 6 h4))) = h3 div 2 ^ 19 + 2 ^ 6 * (h4 mod 2 ^ 2)"
    "uint (byte (sar 24 h5 OR i32 (shl 1 h6))) = h5 div 2 ^ 24 + 2 ^ 1 * (h6 mod 2 ^ 7)"
    "uint (byte (sar 23 h6 OR i32 (shl 3 h7))) = h6 div 2 ^ 23 + 2 ^ 3 * (h7 mod 2 ^ 5)"
    "uint (byte (sar 21 h7 OR i32 (shl 4 h8))) = h7 div 2 ^ 21 + 2 ^ 4 * (h8 mod 2 ^ 4)"
    "uint (byte (sar 20 h8 OR i32 (shl 6 h9))) = h8 div 2 ^ 20 + 2 ^ 6 * (h9 mod 2 ^ 2)"
    using div_range [OF R(1), of 24] div_range [OF R(2), of 22] div_range [OF R(3), of 21] div_range [OF R(4), of 19] div_range [OF R(6), of 24] div_range [OF R(7), of 23]
      div_range [OF R(8), of 21] div_range [OF R(9), of 20] by (simp_all only: sar_def) (rule byte_or [THEN trans]; simp)+
  have t: "h4 div 2 ^ 18 mod 2 ^ 8 = h4 div 2 ^ 18" "h9 div 2 ^ 18 mod 2 ^ 8 = h9 div 2 ^ 18"
    using div_range [OF R(5), of 18] div_range [OF R(10), of 18] by simp_all
  have "d = Fe
    (h0 mod 2 ^ 8 + 2 ^ 8 * (h0 div 2 ^ 8 mod 2 ^ 8) + 2 ^ 16 * (h0 div 2 ^ 16 mod 2 ^ 8) + 2 ^ 24 * (h0 div 2 ^ 24))
    (h1 mod 2 ^ 6 + 2 ^ 6 * (h1 div 2 ^ 6 mod 2 ^ 8) + 2 ^ 14 * (h1 div 2 ^ 14 mod 2 ^ 8) + 2 ^ 22 * (h1 div 2 ^ 22))
    (h2 mod 2 ^ 5 + 2 ^ 5 * (h2 div 2 ^ 5 mod 2 ^ 8) + 2 ^ 13 * (h2 div 2 ^ 13 mod 2 ^ 8) + 2 ^ 21 * (h2 div 2 ^ 21))
    (h3 mod 2 ^ 3 + 2 ^ 3 * (h3 div 2 ^ 3 mod 2 ^ 8) + 2 ^ 11 * (h3 div 2 ^ 11 mod 2 ^ 8) + 2 ^ 19 * (h3 div 2 ^ 19))
    (h4 mod 2 ^ 2 + 2 ^ 2 * (h4 div 2 ^ 2 mod 2 ^ 8) + 2 ^ 10 * (h4 div 2 ^ 10 mod 2 ^ 8) + 2 ^ 18 * (h4 div 2 ^ 18))
    (h5 mod 2 ^ 8 + 2 ^ 8 * (h5 div 2 ^ 8 mod 2 ^ 8) + 2 ^ 16 * (h5 div 2 ^ 16 mod 2 ^ 8) + 2 ^ 24 * (h5 div 2 ^ 24))
    (h6 mod 2 ^ 7 + 2 ^ 7 * (h6 div 2 ^ 7 mod 2 ^ 8) + 2 ^ 15 * (h6 div 2 ^ 15 mod 2 ^ 8) + 2 ^ 23 * (h6 div 2 ^ 23))
    (h7 mod 2 ^ 5 + 2 ^ 5 * (h7 div 2 ^ 5 mod 2 ^ 8) + 2 ^ 13 * (h7 div 2 ^ 13 mod 2 ^ 8) + 2 ^ 21 * (h7 div 2 ^ 21))
    (h8 mod 2 ^ 4 + 2 ^ 4 * (h8 div 2 ^ 4 mod 2 ^ 8) + 2 ^ 12 * (h8 div 2 ^ 12 mod 2 ^ 8) + 2 ^ 20 * (h8 div 2 ^ 20))
    (h9 mod 2 ^ 2 + 2 ^ 2 * (h9 div 2 ^ 2 mod 2 ^ 8) + 2 ^ 10 * (h9 div 2 ^ 10 mod 2 ^ 8) + 2 ^ 18 * (h9 div 2 ^ 18))"
    unfolding d fe.inject by (intro conjI; rule split3 [symmetric]; simp)
  note d' = this
  have "le_int (tobytes_pack d) = fe_val (Fe
    (h0 mod 2 ^ 8 + 2 ^ 8 * (h0 div 2 ^ 8 mod 2 ^ 8) + 2 ^ 16 * (h0 div 2 ^ 16 mod 2 ^ 8) + 2 ^ 24 * (h0 div 2 ^ 24))
    (h1 mod 2 ^ 6 + 2 ^ 6 * (h1 div 2 ^ 6 mod 2 ^ 8) + 2 ^ 14 * (h1 div 2 ^ 14 mod 2 ^ 8) + 2 ^ 22 * (h1 div 2 ^ 22))
    (h2 mod 2 ^ 5 + 2 ^ 5 * (h2 div 2 ^ 5 mod 2 ^ 8) + 2 ^ 13 * (h2 div 2 ^ 13 mod 2 ^ 8) + 2 ^ 21 * (h2 div 2 ^ 21))
    (h3 mod 2 ^ 3 + 2 ^ 3 * (h3 div 2 ^ 3 mod 2 ^ 8) + 2 ^ 11 * (h3 div 2 ^ 11 mod 2 ^ 8) + 2 ^ 19 * (h3 div 2 ^ 19))
    (h4 mod 2 ^ 2 + 2 ^ 2 * (h4 div 2 ^ 2 mod 2 ^ 8) + 2 ^ 10 * (h4 div 2 ^ 10 mod 2 ^ 8) + 2 ^ 18 * (h4 div 2 ^ 18))
    (h5 mod 2 ^ 8 + 2 ^ 8 * (h5 div 2 ^ 8 mod 2 ^ 8) + 2 ^ 16 * (h5 div 2 ^ 16 mod 2 ^ 8) + 2 ^ 24 * (h5 div 2 ^ 24))
    (h6 mod 2 ^ 7 + 2 ^ 7 * (h6 div 2 ^ 7 mod 2 ^ 8) + 2 ^ 15 * (h6 div 2 ^ 15 mod 2 ^ 8) + 2 ^ 23 * (h6 div 2 ^ 23))
    (h7 mod 2 ^ 5 + 2 ^ 5 * (h7 div 2 ^ 5 mod 2 ^ 8) + 2 ^ 13 * (h7 div 2 ^ 13 mod 2 ^ 8) + 2 ^ 21 * (h7 div 2 ^ 21))
    (h8 mod 2 ^ 4 + 2 ^ 4 * (h8 div 2 ^ 4 mod 2 ^ 8) + 2 ^ 12 * (h8 div 2 ^ 12 mod 2 ^ 8) + 2 ^ 20 * (h8 div 2 ^ 20))
    (h9 mod 2 ^ 2 + 2 ^ 2 * (h9 div 2 ^ 2 mod 2 ^ 8) + 2 ^ 10 * (h9 div 2 ^ 10 mod 2 ^ 8) + 2 ^ 18 * (h9 div 2 ^ 18)))"
    unfolding d tobytes_pack.simps le_int_simps o uint_byte t fe_val.simps power_0 div_by_1 by algebra
  then show ?thesis unfolding d' [symmetric] .
qed

lemma fe_tobytes_val:
  assumes "fe_bound 36909875 h"
  shows "fe_tobytes h = le_bytes 32 (fe_val h mod P25519)"
proof -
  obtain h0 h1 h2 h3 h4 h5 h6 h7 h8 h9 where h: "h = Fe h0 h1 h2 h3 h4 h5 h6 h7 h8 h9" by (cases h)
  define q where "q = tobytes_quotient h"
  note Q = quotient_exact [OF assms, folded q_def]
  have B: "\<bar>h0\<bar> \<le> 2 * 36909875" "\<bar>h1\<bar> \<le> 36909875" "\<bar>h2\<bar> \<le> 2 * 36909875" "\<bar>h3\<bar> \<le> 36909875" "\<bar>h4\<bar> \<le> 2 * 36909875"
    "\<bar>h5\<bar> \<le> 36909875" "\<bar>h6\<bar> \<le> 2 * 36909875" "\<bar>h7\<bar> \<le> 36909875" "\<bar>h8\<bar> \<le> 2 * 36909875" "\<bar>h9\<bar> \<le> 36909875"
    using assms unfolding h fe_bound.simps by blast+
  have k: "\<bar>h0 + 19 * q\<bar> \<le> 73819788" using B(1) Q(2) by simp
  then have i: "i32 (h0 + 19 * q) = h0 + 19 * q" by (intro i32_id) simp_all
  define d where "d = tobytes_digits (Fe (h0 + 19 * q) h1 h2 h3 h4 h5 h6 h7 h8 h9)"
  have v: "fe_val (Fe (h0 + 19 * q) h1 h2 h3 h4 h5 h6 h7 h8 h9) = fe_val h mod P25519 + q * 2 ^ 255"
    using Q(1) div_mult_mod_eq [of "fe_val h" P25519] unfolding h by (simp add: P25519_def)
  have r: "0 \<le> fe_val h mod P25519" "fe_val h mod P25519 < P25519" by (simp_all add: P25519_def)
  note D = digits_exact [OF k B(2) B(3) B(4) B(5) B(6) B(7) B(8) B(9) B(10), folded d_def]
  have "fe_val d = fe_val h mod P25519 mod 2 ^ 255" unfolding D(2) v by simp
  moreover note D(1)
  moreover have "fe_tobytes h = tobytes_pack d" unfolding d_def fe_tobytes_def h fe.case q_def [unfolded h, symmetric] i ..
  moreover have "length (tobytes_pack d) = 32" by (cases d) simp
  ultimately show ?thesis
    using tobytes_pack_val [of d] le_bytes_le_int [of "tobytes_pack d"] r by (simp add: P25519_def)
qed

section \<open>Tests\<close>

lemma fe_isnegative_val: "fe_bound 36909875 f \<Longrightarrow> fe_isnegative f = fe_val f mod P25519 mod 2"
proof -
  have "uint (byte v AND 1) = v mod 2" for v
    unfolding uint_and uint_word_of_int by (simp add: and_one_eq mod_mod_cancel)
  then show "fe_bound 36909875 f \<Longrightarrow> ?thesis"
    by (simp only: fe_isnegative_def fe_tobytes_val numeral_eq_Suc le_bytes.simps nth_Cons_0)
qed

lemma or_bytes_0: "foldr (OR) bs (0 :: u8) = 0 \<longleftrightarrow> le_int bs = 0"
proof (induction bs)
  case (Cons b bs)
  have "b OR foldr (OR) bs 0 = 0 \<longleftrightarrow> b = 0 \<and> foldr (OR) bs 0 = 0" by (simp add: or_eq_0_iff)
  moreover have "uint b + 256 * le_int bs = 0 \<longleftrightarrow> uint b = 0 \<and> le_int bs = 0"
    using le_int_nonneg [of bs] uint_ge_0 [of b] by linarith
  ultimately show ?case using Cons by (simp add: uint_0_iff)
qed simp

lemma fe_isnonzero_val:
  assumes "fe_bound 36909875 f"
  shows "fe_isnonzero f = (if fe_val f mod P25519 = 0 then 0 else 1)"
proof -
  define o' where "o' = foldr (OR) (fe_tobytes f) 0"
  have "o' = 0 \<longleftrightarrow> fe_val f mod P25519 = 0"
    using mod_pos_pos_trivial [of "fe_val f mod P25519" "256 ^ 32"]
    by (simp add: o'_def or_bytes_0 fe_tobytes_val [OF assms] le_int_le_bytes P25519_def)
  moreover have "sar 8 (uint o' - 1) = (if o' = 0 then - 1 else 0)"
  proof (cases "o' = 0")
    case False
    then have "0 \<le> uint o' - 1" "uint o' - 1 < 256" using uint_lt2p [of o'] uint_ge_0 [of o'] by (simp_all add: uint_0_iff less_le)
    then show ?thesis using False by (simp add: sar_def)
  qed (simp add: sar_def)
  ultimately show ?thesis by (simp add: fe_isnonzero_def flip: o'_def)
qed

section \<open>Powers\<close>

text \<open>\<open>monomial u v i j t\<close>: the element \<open>t\<close> stands for \<open>u ^ i * v ^ j\<close>; after an operation its limbs are small again.\<close>

definition monomial :: "fe \<Rightarrow> fe \<Rightarrow> nat \<Rightarrow> nat \<Rightarrow> fe \<Rightarrow> bool" where
  "monomial u v i j t \<longleftrightarrow> fe_bound 55364812 t \<and> fe_val t mod P25519 = fe_val u ^ i * fe_val v ^ j mod P25519"

definition small :: "fe \<Rightarrow> fe \<Rightarrow> nat \<Rightarrow> nat \<Rightarrow> fe \<Rightarrow> bool" where
  "small u v i j t \<longleftrightarrow> fe_bound 16944988 t \<and> fe_val t mod P25519 = fe_val u ^ i * fe_val v ^ j mod P25519"

lemma fe_bound_mono: "fe_bound A f \<Longrightarrow> A \<le> B \<Longrightarrow> fe_bound B f"
  by (cases f) auto

lemma small_monomial: "small u v i j t \<Longrightarrow> monomial u v i j t"
  by (auto simp: small_def monomial_def elim: fe_bound_mono)

lemma small_mul:
  assumes "monomial u v i j s" "monomial u v i' j' t"
  shows "small u v (i + i') (j + j') (fe_mul s t)"
proof -
  have "fe_val s * fe_val t mod P25519 = (fe_val s mod P25519) * (fe_val t mod P25519) mod P25519" by (simp add: mod_mult_eq)
  also have "\<dots> = fe_val u ^ (i + i') * fe_val v ^ (j + j') mod P25519"
    using assms by (simp add: monomial_def mod_mult_eq power_add mult_ac)
  finally show ?thesis using fe_mul_val [of s t] assms by (simp add: small_def monomial_def)
qed

lemma small_sq: "monomial u v i j t \<Longrightarrow> small u v (2 * i) (2 * j) (fe_sq t)"
  using small_mul [of u v i j t i j t] fe_sq_val(2) [of t] by (simp add: monomial_def mult_2)

lemma small_sqs: "small u v i j t \<Longrightarrow> small u v (2 ^ n * i) (2 ^ n * j) ((fe_sq ^^ n) t)"
proof (induction n)
  case (Suc n)
  from small_sq [OF small_monomial [OF Suc.IH [OF Suc.prems]]] show ?case by (simp add: mult.assoc)
qed simp

lemma small_Let: "small u v i j t \<Longrightarrow> (\<And>x. small u v i j x \<Longrightarrow> small u v i' j' (f x)) \<Longrightarrow> small u v i' j' (Let t f)"
  by simp

lemma small_eq: "small u v i j t \<Longrightarrow> i = i' \<Longrightarrow> j = j' \<Longrightarrow> small u v i' j' t"
  by simp

lemma fe_invert_small:
  assumes "fe_bound 55364812 z"
  shows "small z z (2 ^ 255 - 21) 0 (fe_invert z)"
proof -
  have z: "monomial z z 1 0 z" using assms by (simp add: monomial_def)
  show ?thesis unfolding fe_invert_def
    by ((rule small_Let, rule small_sqs small_sq small_mul, (assumption | rule z small_monomial)+)+,
        rule small_eq, rule small_mul, (assumption | rule z small_monomial)+, simp_all)
qed

lemma fe_divpowm1_small:
  assumes "fe_bound 55364812 u" "fe_bound 55364812 v"
  shows "small u v (2 ^ 252 - 2) (7 * (2 ^ 252 - 3) + 3) (fe_divpowm1 u v)"
proof -
  have z: "monomial u v 1 0 u" "monomial u v 0 1 v" using assms by (simp_all add: monomial_def)
  show ?thesis unfolding fe_divpowm1_def
    by ((rule small_Let, rule small_sqs small_sq small_mul, (assumption | rule z small_monomial)+)+,
        rule small_eq, rule small_mul, (assumption | rule z small_monomial)+, simp_all)
qed

section \<open>Theorems\<close>

text \<open>C23. The 32 bytes of an element are the little-endian form of its value modulo \<open>2 ^ 255 - 19\<close>, whatever limbs represent
  it, so elements with equal values have equal bytes; the two tests read the parity of that value and whether it is zero;
  and \<^verbatim>\<open>fe_invert\<close> and \<^verbatim>\<open>fe_divpowm1\<close> compute the powers with the exponents \<open>2 ^ 255 - 21\<close> and \<open>2 ^ 252 - 3\<close> that
  their names stand for.\<close>

theorem field_bytes_canonical:
  assumes "fe_bound 36909875 f" "fe_bound 36909875 g"
  shows "fe_tobytes f = le_bytes 32 (fe_val f mod P25519) \<and>
    (fe_tobytes f = fe_tobytes g \<longleftrightarrow> fe_val f mod P25519 = fe_val g mod P25519) \<and>
    fe_isnegative f = fe_val f mod P25519 mod 2 \<and> fe_isnonzero f = (if fe_val f mod P25519 = 0 then 0 else 1) \<and>
    fe_val (fe_invert f) mod P25519 = fe_val f ^ (2 ^ 255 - 21) mod P25519 \<and>
    fe_val (fe_divpowm1 f g) mod P25519 =
      fe_val f * fe_val g ^ 3 * (fe_val f * fe_val g ^ 7) ^ (2 ^ 252 - 3) mod P25519"
proof -
  have m: "v mod P25519 mod 256 ^ 32 = v mod P25519" for v
    using pos_mod_bound [of P25519 v] by (intro mod_pos_pos_trivial) (simp_all add: P25519_def)
  have "fe_tobytes f = fe_tobytes g \<longleftrightarrow> fe_val f mod P25519 = fe_val g mod P25519"
    using le_int_le_bytes [of 32 "fe_val f mod P25519"] le_int_le_bytes [of 32 "fe_val g mod P25519"]
    unfolding fe_tobytes_val [OF assms(1)] fe_tobytes_val [OF assms(2)] m by metis
  moreover have b: "fe_bound 55364812 f" "fe_bound 55364812 g" using assms by (auto elim: fe_bound_mono)
  moreover have "u * v ^ 3 * (u * v ^ 7) ^ (2 ^ 252 - 3) = u ^ (2 ^ 252 - 2) * v ^ (7 * (2 ^ 252 - 3) + 3)" for u v :: int
  proof -
    have p: "u * v ^ 3 * (u * v ^ 7) ^ n = u ^ (n + 1) * v ^ (7 * n + 3)" for n
      by (simp add: power_mult_distrib power_mult [symmetric] power_add mult_ac)
    have "(2 ^ 252 - 3 :: nat) + 1 = 2 ^ 252 - 2" by simp
    then show ?thesis by (simp only: p)
  qed
  ultimately show ?thesis
    using fe_tobytes_val [OF assms(1)] fe_isnegative_val [OF assms(1)] fe_isnonzero_val [OF assms(1)]
      fe_invert_small [OF b(1)] fe_divpowm1_small [OF b] by (simp only: small_def power_0 mult_1_right simp_thms)
qed

theorem field_bytes_canonical_witness:
  "fe_tobytes (Fe (- 19) 0 0 0 0 0 0 0 0 33554432) = fe_tobytes fe_0 \<and> fe_isnonzero (Fe (- 19) 0 0 0 0 0 0 0 0 33554432) = 0"
proof -
  let ?f = "Fe (- 19) 0 0 0 0 0 0 0 0 33554432"
  have b: "fe_bound 36909875 ?f" "fe_bound 36909875 fe_0" by (simp_all add: fe_0_def)
  have v: "fe_val ?f mod P25519 = 0" "fe_val fe_0 mod P25519 = 0" by (simp_all add: fe_0_def P25519_def)
  from field_bytes_canonical [OF b] have "fe_tobytes ?f = fe_tobytes fe_0 \<longleftrightarrow> fe_val ?f mod P25519 = fe_val fe_0 mod P25519"
    "fe_isnonzero ?f = (if fe_val ?f mod P25519 = 0 then 0 else 1)" by blast+
  then show ?thesis by (simp only: v if_True simp_thms)
qed

end
