(* ===== verification/CurvePoints.thy ===== *)
theory CurvePoints
  imports FieldBytes
begin

text \<open>The points of \<^verbatim>\<open>crypto/crypto-ops.c\<close>: the four representations of a point of the twisted Edwards curve
  \<open>- x\<^sup>2 + y\<^sup>2 = 1 + d x\<^sup>2 y\<^sup>2\<close>, the conversions between them, addition, subtraction and doubling. The operations
  on limbs refine formulas on integers modulo \<open>2 ^ 255 - 19\<close>.\<close>

section \<open>Representations\<close>

text \<open>\<^verbatim>\<open>ge_p2\<close>: \<open>x = X / Z\<close>, \<open>y = Y / Z\<close>; \<^verbatim>\<open>ge_p3\<close> also has \<open>T\<close> with \<open>X Y = Z T\<close>; \<^verbatim>\<open>ge_p1p1\<close>: \<open>x = X / Z\<close>,
  \<open>y = Y / T\<close>; \<^verbatim>\<open>ge_moonbankd\<close> and \<^verbatim>\<open>ge_precomp\<close> prepare a point for being added.\<close>

record ge_p2 =
  p2_X :: fe
  p2_Y :: fe
  p2_Z :: fe

record ge_p3 =
  p3_X :: fe
  p3_Y :: fe
  p3_Z :: fe
  p3_T :: fe

record ge_p1p1 =
  p1_X :: fe
  p1_Y :: fe
  p1_Z :: fe
  p1_T :: fe

record ge_precomp =
  yplusx :: fe
  yminusx :: fe
  xy2d :: fe

record ge_moonbankd =
  YplusX :: fe
  YminusX :: fe
  mb_Z :: fe
  T2d :: fe

definition fe_d :: fe where
  "fe_d = Fe (- 10913610) 13857413 (- 15372611) 6949391 114729 (- 8787816) (- 6275908) (- 3247719) (- 18696448) (- 12055116)"

definition fe_sqrtm1 :: fe where
  "fe_sqrtm1 = Fe (- 32595792) (- 7943725) 9377950 3500415 12389472 (- 272473) (- 25146209) (- 2005654) 326686 11406482"

definition fe_d2 :: fe where
  "fe_d2 = Fe (- 21827239) (- 5839606) (- 30745221) 13898782 229458 15978800 (- 12551817) (- 6495438) 29715968 9444199"

section \<open>Operations\<close>

definition ge_add :: "ge_p3 \<Rightarrow> ge_moonbankd \<Rightarrow> ge_p1p1" where
  "ge_add p q =
     (let X = fe_add (p3_Y p) (p3_X p);
          Y = fe_sub (p3_Y p) (p3_X p);
          Z = fe_mul X (YplusX q);
          Y = fe_mul Y (YminusX q);
          T = fe_mul (T2d q) (p3_T p);
          X = fe_mul (p3_Z p) (mb_Z q);
          t0 = fe_add X X;
          X = fe_sub Z Y;
          Y = fe_add Z Y;
          Z = fe_add t0 T;
          T = fe_sub t0 T
      in \<lparr>p1_X = X, p1_Y = Y, p1_Z = Z, p1_T = T\<rparr>)"

definition ge_sub :: "ge_p3 \<Rightarrow> ge_moonbankd \<Rightarrow> ge_p1p1" where
  "ge_sub p q =
     (let X = fe_add (p3_Y p) (p3_X p);
          Y = fe_sub (p3_Y p) (p3_X p);
          Z = fe_mul X (YminusX q);
          Y = fe_mul Y (YplusX q);
          T = fe_mul (T2d q) (p3_T p);
          X = fe_mul (p3_Z p) (mb_Z q);
          t0 = fe_add X X;
          X = fe_sub Z Y;
          Y = fe_add Z Y;
          Z = fe_sub t0 T;
          T = fe_add t0 T
      in \<lparr>p1_X = X, p1_Y = Y, p1_Z = Z, p1_T = T\<rparr>)"

definition ge_madd :: "ge_p3 \<Rightarrow> ge_precomp \<Rightarrow> ge_p1p1" where
  "ge_madd p q =
     (let X = fe_add (p3_Y p) (p3_X p);
          Y = fe_sub (p3_Y p) (p3_X p);
          Z = fe_mul X (yplusx q);
          Y = fe_mul Y (yminusx q);
          T = fe_mul (xy2d q) (p3_T p);
          t0 = fe_add (p3_Z p) (p3_Z p);
          X = fe_sub Z Y;
          Y = fe_add Z Y;
          Z = fe_add t0 T;
          T = fe_sub t0 T
      in \<lparr>p1_X = X, p1_Y = Y, p1_Z = Z, p1_T = T\<rparr>)"

definition ge_msub :: "ge_p3 \<Rightarrow> ge_precomp \<Rightarrow> ge_p1p1" where
  "ge_msub p q =
     (let X = fe_add (p3_Y p) (p3_X p);
          Y = fe_sub (p3_Y p) (p3_X p);
          Z = fe_mul X (yminusx q);
          Y = fe_mul Y (yplusx q);
          T = fe_mul (xy2d q) (p3_T p);
          t0 = fe_add (p3_Z p) (p3_Z p);
          X = fe_sub Z Y;
          Y = fe_add Z Y;
          Z = fe_sub t0 T;
          T = fe_add t0 T
      in \<lparr>p1_X = X, p1_Y = Y, p1_Z = Z, p1_T = T\<rparr>)"

definition ge_p1p1_to_p2 :: "ge_p1p1 \<Rightarrow> ge_p2" where
  "ge_p1p1_to_p2 p = \<lparr>p2_X = fe_mul (p1_X p) (p1_T p), p2_Y = fe_mul (p1_Y p) (p1_Z p), p2_Z = fe_mul (p1_Z p) (p1_T p)\<rparr>"

definition ge_p1p1_to_p3 :: "ge_p1p1 \<Rightarrow> ge_p3" where
  "ge_p1p1_to_p3 p = \<lparr>p3_X = fe_mul (p1_X p) (p1_T p), p3_Y = fe_mul (p1_Y p) (p1_Z p), p3_Z = fe_mul (p1_Z p) (p1_T p),
     p3_T = fe_mul (p1_X p) (p1_Y p)\<rparr>"

definition ge_p2_0 :: ge_p2 where "ge_p2_0 = \<lparr>p2_X = fe_0, p2_Y = fe_1, p2_Z = fe_1\<rparr>"

definition ge_p3_0 :: ge_p3 where "ge_p3_0 = \<lparr>p3_X = fe_0, p3_Y = fe_1, p3_Z = fe_1, p3_T = fe_0\<rparr>"

definition ge_p2_dbl :: "ge_p2 \<Rightarrow> ge_p1p1" where
  "ge_p2_dbl p =
     (let X = fe_sq (p2_X p);
          Z = fe_sq (p2_Y p);
          T = fe_sq2 (p2_Z p);
          Y = fe_add (p2_X p) (p2_Y p);
          t0 = fe_sq Y;
          Y = fe_add Z X;
          Z = fe_sub Z X;
          X = fe_sub t0 Y;
          T = fe_sub T Z
      in \<lparr>p1_X = X, p1_Y = Y, p1_Z = Z, p1_T = T\<rparr>)"

definition ge_p3_to_p2 :: "ge_p3 \<Rightarrow> ge_p2" where
  "ge_p3_to_p2 p = \<lparr>p2_X = p3_X p, p2_Y = p3_Y p, p2_Z = p3_Z p\<rparr>"

definition ge_p3_dbl :: "ge_p3 \<Rightarrow> ge_p1p1" where "ge_p3_dbl p = ge_p2_dbl (ge_p3_to_p2 p)"

definition ge_p3_to_moonbankd :: "ge_p3 \<Rightarrow> ge_moonbankd" where
  "ge_p3_to_moonbankd p = \<lparr>YplusX = fe_add (p3_Y p) (p3_X p), YminusX = fe_sub (p3_Y p) (p3_X p), mb_Z = p3_Z p,
     T2d = fe_mul (p3_T p) fe_d2\<rparr>"

definition ge_mul8 :: "ge_p2 \<Rightarrow> ge_p1p1" where
  "ge_mul8 t =
     (let r = ge_p2_dbl t; u = ge_p1p1_to_p2 r;
          r = ge_p2_dbl u; u = ge_p1p1_to_p2 r
      in ge_p2_dbl u)"

text \<open>Points as bytes: \<open>y\<close> with the sign of \<open>x\<close> in the highest bit.\<close>

definition affine_bytes :: "fe \<Rightarrow> fe \<Rightarrow> fe \<Rightarrow> u8 list" where
  "affine_bytes X Y Z =
     (let recip = fe_invert Z;
          x = fe_mul X recip;
          y = fe_mul Y recip;
          s = fe_tobytes y
      in s[31 := s ! 31 XOR byte (shl 7 (fe_isnegative x))])"

definition ge_tobytes :: "ge_p2 \<Rightarrow> u8 list" where "ge_tobytes h = affine_bytes (p2_X h) (p2_Y h) (p2_Z h)"

definition ge_p3_tobytes :: "ge_p3 \<Rightarrow> u8 list" where "ge_p3_tobytes h = affine_bytes (p3_X h) (p3_Y h) (p3_Z h)"

section \<open>Elements and the numbers they stand for\<close>

definition stands :: "int \<Rightarrow> int \<Rightarrow> fe \<Rightarrow> bool" where
  "stands B v f \<longleftrightarrow> fe_bound B f \<and> fe_val f mod P25519 = v mod P25519"

abbreviation tight :: "int \<Rightarrow> fe \<Rightarrow> bool" where "tight \<equiv> stands 16944988"

abbreviation loose :: "int \<Rightarrow> fe \<Rightarrow> bool" where "loose \<equiv> stands 55364812"

lemma stands_weaken: "stands A v f \<Longrightarrow> A \<le> B \<Longrightarrow> stands B v f"
  by (auto simp: stands_def elim: fe_bound_mono)

lemma stands_add: "stands A x f \<Longrightarrow> stands B y g \<Longrightarrow> A + B < 2 ^ 30 \<Longrightarrow> stands (A + B) (x + y) (fe_add f g)"
  using fe_add_val [of A f B g] by (auto simp: stands_def intro: mod_add_cong)

lemma stands_sub: "stands A x f \<Longrightarrow> stands B y g \<Longrightarrow> A + B < 2 ^ 30 \<Longrightarrow> stands (A + B) (x - y) (fe_sub f g)"
  using fe_sub_val [of A f B g] by (auto simp: stands_def intro: mod_diff_cong)

lemma stands_neg: "stands B x f \<Longrightarrow> B < 2 ^ 30 \<Longrightarrow> stands B (- x) (fe_neg f)"
  using fe_neg_val [of B f] mod_minus_eq [of "fe_val f" P25519] mod_minus_eq [of x P25519] by (simp add: stands_def)

lemma stands_mul:
  assumes "stands A x f" "stands B y g" "A \<le> 55364812" "B \<le> 55364812"
  shows "tight (x * y) (fe_mul f g)"
proof -
  have "fe_bound 55364812 f" "fe_bound 55364812 g" using assms by (auto simp: stands_def elim: fe_bound_mono)
  from fe_mul_val [OF this] mod_mult_cong [of "fe_val f" P25519 x "fe_val g" y] assms(1,2) show ?thesis
    by (simp add: stands_def)
qed

lemma stands_sq:
  assumes "stands B x f" "B \<le> 55364812"
  shows "tight (x * x) (fe_sq f)"
proof -
  have "fe_bound 55364812 f" using assms by (auto simp: stands_def elim: fe_bound_mono)
  from fe_sq_val(2) [OF this] stands_mul [OF assms(1,1) assms(2,2)] show ?thesis by simp
qed

lemma stands_sq2:
  assumes "stands B x f" "B \<le> 55364812"
  shows "tight (2 * (x * x)) (fe_sq2 f)"
proof -
  have f: "fe_bound 55364812 f" using assms by (auto simp: stands_def elim: fe_bound_mono)
  have "2 * (fe_val f * fe_val f) mod P25519 = 2 * (x * x) mod P25519"
    using assms(1) by (intro mod_mult_cong refl) (simp_all add: stands_def)
  then show ?thesis using fe_sq2_val [OF f] by (simp add: stands_def)
qed

lemma stands_cong: "stands B x f \<Longrightarrow> x mod P25519 = y mod P25519 \<Longrightarrow> stands B y f"
  by (simp add: stands_def)

lemma stands_const: "tight 0 fe_0" "tight 1 fe_1"
  by (simp_all add: stands_def fe_0_def fe_1_def)

section \<open>Constants\<close>

definition ed_d :: int where "ed_d = fe_val fe_d"

lemma stands_d: "tight ed_d fe_d" "tight (2 * ed_d) fe_d2"
  by (simp_all add: stands_def ed_d_def fe_d_def fe_d2_def P25519_def)

lemma ed_d_fraction: "121666 * ed_d mod P25519 = - 121665 mod P25519"
  by (simp add: ed_d_def fe_d_def P25519_def)

definition sqrt_m1 :: int where "sqrt_m1 = fe_val fe_sqrtm1"

lemma stands_sqrtm1: "tight sqrt_m1 fe_sqrtm1"
  by (simp add: stands_def sqrt_m1_def fe_sqrtm1_def P25519_def)

lemma sqrt_m1_square: "sqrt_m1 * sqrt_m1 mod P25519 = - 1 mod P25519"
proof -
  have "sqrt_m1 * sqrt_m1 = 6690407189080634018507799843845558368979872843924222843531373839242004886245 * P25519 - 1" by (simp add: sqrt_m1_def fe_sqrtm1_def P25519_def)
  then show ?thesis using mod_mult_self1 [of "- 1" _ P25519] by simp
qed

section \<open>Addition and doubling\<close>

text \<open>Points in extended coordinates over the integers, read modulo \<open>2 ^ 255 - 19\<close>.\<close>

type_synonym ext_point = "int \<times> int \<times> int \<times> int"

fun p3_of :: "ext_point \<Rightarrow> ge_p3 \<Rightarrow> bool" where
  "p3_of (X, Y, Z, T) p \<longleftrightarrow> tight X (p3_X p) \<and> tight Y (p3_Y p) \<and> tight Z (p3_Z p) \<and> tight T (p3_T p)"

fun p2_of :: "ext_point \<Rightarrow> ge_p2 \<Rightarrow> bool" where
  "p2_of (X, Y, Z, T) p \<longleftrightarrow> tight X (p2_X p) \<and> tight Y (p2_Y p) \<and> tight Z (p2_Z p)"

fun p1_of :: "int \<times> int \<times> int \<times> int \<Rightarrow> ge_p1p1 \<Rightarrow> bool" where
  "p1_of (X, Y, Z, T) p \<longleftrightarrow> loose X (p1_X p) \<and> loose Y (p1_Y p) \<and> loose Z (p1_Z p) \<and> loose T (p1_T p)"

fun cached_of :: "ext_point \<Rightarrow> ge_moonbankd \<Rightarrow> bool" where
  "cached_of (X, Y, Z, T) q \<longleftrightarrow>
     loose (Y + X) (YplusX q) \<and> loose (Y - X) (YminusX q) \<and> tight Z (mb_Z q) \<and> tight (2 * ed_d * T) (T2d q)"

fun precomp_of :: "ext_point \<Rightarrow> ge_precomp \<Rightarrow> bool" where
  "precomp_of (X, Y, Z, T) q \<longleftrightarrow>
     loose (Y + X) (yplusx q) \<and> loose (Y - X) (yminusx q) \<and> Z = 1 \<and> tight (2 * ed_d * T) (xy2d q)"

fun completed :: "int \<times> int \<times> int \<times> int \<Rightarrow> ext_point" where
  "completed (X, Y, Z, T) = (X * T, Y * Z, Z * T, X * Y)"

fun add_formula :: "ext_point \<Rightarrow> ext_point \<Rightarrow> int \<times> int \<times> int \<times> int" where
  "add_formula (X1, Y1, Z1, T1) (X2, Y2, Z2, T2) =
     (2 * (X1 * Y2 + Y1 * X2), 2 * (Y1 * Y2 + X1 * X2), 2 * (Z1 * Z2 + ed_d * T1 * T2), 2 * (Z1 * Z2 - ed_d * T1 * T2))"

fun dbl_formula :: "ext_point \<Rightarrow> int \<times> int \<times> int \<times> int" where
  "dbl_formula (X, Y, Z, T) = (2 * X * Y, Y * Y + X * X, Y * Y - X * X, 2 * Z * Z - (Y * Y - X * X))"

fun ext_neg :: "ext_point \<Rightarrow> ext_point" where "ext_neg (X, Y, Z, T) = (- X, Y, Z, - T)"

definition ext_add :: "ext_point \<Rightarrow> ext_point \<Rightarrow> ext_point" where "ext_add p q = completed (add_formula p q)"

definition ext_dbl :: "ext_point \<Rightarrow> ext_point" where "ext_dbl p = completed (dbl_formula p)"

lemma stands_eq: "stands B x f \<Longrightarrow> B \<le> C \<Longrightarrow> x = y \<Longrightarrow> stands C y f"
  by (simp add: stands_weaken)

lemmas stands_ops = stands_add stands_sub stands_neg stands_mul stands_sq stands_sq2

lemma ge_add_of: "p3_of p P \<Longrightarrow> cached_of q Q \<Longrightarrow> p1_of (add_formula p q) (ge_add P Q)"
proof (cases p, cases q)
  fix X1 Y1 Z1 T1 X2 Y2 Z2 T2
  assume pq: "p3_of p P" "cached_of q Q" "p = (X1, Y1, Z1, T1)" "q = (X2, Y2, Z2, T2)"
  then have a: "tight X1 (p3_X P)" "tight Y1 (p3_Y P)" "tight Z1 (p3_Z P)" "tight T1 (p3_T P)" "loose (Y2 + X2) (YplusX Q)"
    "loose (Y2 - X2) (YminusX Q)" "tight Z2 (mb_Z Q)" "tight (2 * ed_d * T2) (T2d Q)" by simp_all
  show ?thesis unfolding pq(3,4) ge_add_def Let_def add_formula.simps p1_of.simps ge_p1p1.simps 
    by (intro conjI; (rule stands_eq, (rule stands_ops a | simp add: algebra_simps)+))
qed

lemma ge_sub_of: "p3_of p P \<Longrightarrow> cached_of q Q \<Longrightarrow> p1_of (add_formula p (ext_neg q)) (ge_sub P Q)"
proof (cases p, cases q)
  fix X1 Y1 Z1 T1 X2 Y2 Z2 T2
  assume pq: "p3_of p P" "cached_of q Q" "p = (X1, Y1, Z1, T1)" "q = (X2, Y2, Z2, T2)"
  then have a: "tight X1 (p3_X P)" "tight Y1 (p3_Y P)" "tight Z1 (p3_Z P)" "tight T1 (p3_T P)" "loose (Y2 + X2) (YplusX Q)"
    "loose (Y2 - X2) (YminusX Q)" "tight Z2 (mb_Z Q)" "tight (2 * ed_d * T2) (T2d Q)" by simp_all
  show ?thesis unfolding pq(3,4) ge_sub_def Let_def add_formula.simps p1_of.simps ge_p1p1.simps ext_neg.simps
    by (intro conjI; (rule stands_eq, (rule stands_ops a | simp add: algebra_simps)+))
qed

lemma ge_madd_of: "p3_of p P \<Longrightarrow> precomp_of q Q \<Longrightarrow> p1_of (add_formula p q) (ge_madd P Q)"
proof (cases p, cases q)
  fix X1 Y1 Z1 T1 X2 Y2 Z2 T2
  assume pq: "p3_of p P" "precomp_of q Q" "p = (X1, Y1, Z1, T1)" "q = (X2, Y2, Z2, T2)"
  then have a: "tight X1 (p3_X P)" "tight Y1 (p3_Y P)" "tight Z1 (p3_Z P)" "tight T1 (p3_T P)" "loose (Y2 + X2) (yplusx Q)"
    "loose (Y2 - X2) (yminusx Q)" "Z2 = 1" "tight (2 * ed_d * T2) (xy2d Q)" by simp_all
  show ?thesis unfolding pq(3,4) ge_madd_def Let_def add_formula.simps p1_of.simps ge_p1p1.simps 
    by (intro conjI; (rule stands_eq, (rule stands_ops a | simp add: algebra_simps a(7))+))
qed

lemma ge_msub_of: "p3_of p P \<Longrightarrow> precomp_of q Q \<Longrightarrow> p1_of (add_formula p (ext_neg q)) (ge_msub P Q)"
proof (cases p, cases q)
  fix X1 Y1 Z1 T1 X2 Y2 Z2 T2
  assume pq: "p3_of p P" "precomp_of q Q" "p = (X1, Y1, Z1, T1)" "q = (X2, Y2, Z2, T2)"
  then have a: "tight X1 (p3_X P)" "tight Y1 (p3_Y P)" "tight Z1 (p3_Z P)" "tight T1 (p3_T P)" "loose (Y2 + X2) (yplusx Q)"
    "loose (Y2 - X2) (yminusx Q)" "Z2 = 1" "tight (2 * ed_d * T2) (xy2d Q)" by simp_all
  show ?thesis unfolding pq(3,4) ge_msub_def Let_def add_formula.simps p1_of.simps ge_p1p1.simps ext_neg.simps
    by (intro conjI; (rule stands_eq, (rule stands_ops a | simp add: algebra_simps a(7))+))
qed

lemma p1p1_to_p3_of: "p1_of r R \<Longrightarrow> p3_of (completed r) (ge_p1p1_to_p3 R)"
  by (cases r) (auto simp: ge_p1p1_to_p3_def intro: stands_mul)

lemma p1p1_to_p2_of: "p1_of r R \<Longrightarrow> p2_of (completed r) (ge_p1p1_to_p2 R)"
  by (cases r) (auto simp: ge_p1p1_to_p2_def intro: stands_mul)

lemma ge_p2_dbl_of:
  assumes "p2_of p P"
  shows "p1_of (dbl_formula p) (ge_p2_dbl P)"
proof -
  obtain X Y Z T where p: "p = (X, Y, Z, T)" by (cases p)
  have a: "tight X (p2_X P)" "tight Y (p2_Y P)" "tight Z (p2_Z P)" using assms by (simp_all add: p)
  show ?thesis unfolding p ge_p2_dbl_def Let_def dbl_formula.simps p1_of.simps ge_p1p1.simps
    by (intro conjI; (rule stands_eq, (rule stands_ops a | simp add: algebra_simps)+))
qed

lemma p3_to_p2_of: "p3_of p P \<Longrightarrow> p2_of p (ge_p3_to_p2 P)"
  by (cases p) (simp add: ge_p3_to_p2_def)

lemma ge_p3_dbl_of: "p3_of p P \<Longrightarrow> p1_of (dbl_formula p) (ge_p3_dbl P)"
  unfolding ge_p3_dbl_def by (intro ge_p2_dbl_of p3_to_p2_of)

lemma p3_to_moonbankd_of: "p3_of p P \<Longrightarrow> cached_of p (ge_p3_to_moonbankd P)"
proof (cases p)
  fix X Y Z T
  assume p: "p3_of p P" "p = (X, Y, Z, T)"
  then have a: "tight X (p3_X P)" "tight Y (p3_Y P)" "tight Z (p3_Z P)" "tight T (p3_T P)" by simp_all
  show ?thesis unfolding p(2) ge_p3_to_moonbankd_def cached_of.simps ge_moonbankd.simps
    by (intro conjI; (rule stands_eq, (rule stands_ops a stands_d | simp)+))
qed

section \<open>The curve\<close>

text \<open>The equation of the curve in extended coordinates, and the law that ties \<open>T\<close> to the others.\<close>

fun on_curve :: "ext_point \<Rightarrow> bool" where
  "on_curve (X, Y, Z, T) \<longleftrightarrow> (X * Y - Z * T) mod P25519 = 0 \<and> (Y * Y - X * X - Z * Z - ed_d * T * T) mod P25519 = 0"

text \<open>What the sum of two points leaves of the equation, in terms of \<open>M = X Y\<close>, \<open>A = Y\<^sup>2 - X\<^sup>2\<close> and \<open>S = X\<^sup>2 + Y\<^sup>2\<close>.\<close>

definition add_residue :: "int \<Rightarrow> int \<Rightarrow> int \<Rightarrow> int \<Rightarrow> int \<Rightarrow> int \<Rightarrow> int \<Rightarrow> int \<Rightarrow> int \<Rightarrow> int \<Rightarrow> int" where
  "add_residue m1 m2 s u w d M1 M2 A1 A2 =
     2 * d * s * (m1 * m2 - M1 * M2) + 8 * d * m1 * m2 * (M1 * M2) + (u + w) * (A1 * A2) - (u - w) * (u - w)
     - d * (M1 * M1 * (A2 * A2) + M2 * M2 * (A1 * A1) + 8 * (M1 * M1 * (M2 * M2)))"

lemma add_residue_eq:
  fixes X1 Y1 Z1 T1 X2 Y2 Z2 T2 d :: int
  defines "E \<equiv> 2 * (X1 * Y2 + Y1 * X2)" and "H \<equiv> 2 * (Y1 * Y2 + X1 * X2)"
    and "G \<equiv> 2 * (Z1 * Z2 + d * T1 * T2)" and "F \<equiv> 2 * (Z1 * Z2 - d * T1 * T2)"
  shows "(H * G) * (H * G) - (E * F) * (E * F) - (G * F) * (G * F) - d * (E * H) * (E * H) =
    16 * add_residue (Z1 * T1) (Z2 * T2) ((X1 * X1 + Y1 * Y1) * (X2 * X2 + Y2 * Y2)) (Z1 * Z1 * (Z2 * Z2))
      (d * d * (T1 * T1) * (T2 * T2)) d (X1 * Y1) (X2 * Y2) (Y1 * Y1 - X1 * X1) (Y2 * Y2 - X2 * X2)"
  unfolding E_def H_def G_def F_def add_residue_def by algebra

lemma add_residue_cong:
  assumes "M1 mod p = M1' mod p" "M2 mod p = M2' mod p" "A1 mod p = A1' mod p" "A2 mod p = A2' mod p"
  shows "add_residue m1 m2 s u w d M1 M2 A1 A2 mod p = add_residue m1 m2 s u w d M1' M2' A1' A2' mod p"
  unfolding add_residue_def by (intro mod_add_cong mod_diff_cong mod_mult_cong refl assms)

lemma add_residue_0:
  "add_residue (Z1 * T1) (Z2 * T2) s (Z1 * Z1 * (Z2 * Z2)) (d * d * (T1 * T1) * (T2 * T2)) d (Z1 * T1) (Z2 * T2)
    (Z1 * Z1 + d * T1 * T1) (Z2 * Z2 + d * T2 * T2) = 0"
  unfolding add_residue_def by algebra

lemma on_curveD:
  assumes "on_curve (X, Y, Z, T)"
  shows "X * Y mod P25519 = Z * T mod P25519" "(Y * Y - X * X) mod P25519 = (Z * Z + ed_d * T * T) mod P25519"
  using assms by (simp_all add: mod_eq_dvd_iff mod_0_imp_dvd algebra_simps)

lemma on_curve_completed:
  assumes "(H * G * (H * G) - E * F * (E * F) - G * F * (G * F) - ed_d * (E * H) * (E * H)) mod P25519 = 0"
  shows "on_curve (completed (E, H, G, F))"
proof -
  have "E * F * (H * G) - G * F * (E * H) = 0" by algebra
  then show ?thesis unfolding completed.simps on_curve.simps using assms by simp
qed

lemma on_curve_add:
  assumes "on_curve p" "on_curve q"
  shows "on_curve (ext_add p q)"
proof -
  obtain X1 Y1 Z1 T1 X2 Y2 Z2 T2 where p: "p = (X1, Y1, Z1, T1)" and q: "q = (X2, Y2, Z2, T2)" by (cases p, cases q)
  have "add_residue (Z1 * T1) (Z2 * T2) ((X1 * X1 + Y1 * Y1) * (X2 * X2 + Y2 * Y2)) (Z1 * Z1 * (Z2 * Z2))
      (ed_d * ed_d * (T1 * T1) * (T2 * T2)) ed_d (X1 * Y1) (X2 * Y2) (Y1 * Y1 - X1 * X1) (Y2 * Y2 - X2 * X2) mod P25519 = 0"
    using add_residue_cong [OF on_curveD(1) [OF assms(1) [unfolded p]] on_curveD(1) [OF assms(2) [unfolded q]]
        on_curveD(2) [OF assms(1) [unfolded p]] on_curveD(2) [OF assms(2) [unfolded q]]]
    by (simp only: add_residue_0) simp
  then show ?thesis unfolding p q ext_add_def add_formula.simps
    by (intro on_curve_completed) (simp only: add_residue_eq mod_mult_right_eq [symmetric, of 16] mult_zero_right mod_0)
qed

lemma on_curve_dbl:
  assumes "on_curve p"
  shows "on_curve (ext_dbl p)"
proof -
  obtain X Y Z T where p: "p = (X, Y, Z, T)" by (cases p)
  note c = on_curveD [OF assms [unfolded p]]
  let ?e = "\<lambda>A M :: int. 4 * ((X * X + Y * Y) * (X * X + Y * Y)) * (Z * Z * A - Z * Z * (Z * Z) - ed_d * (M * M))"
  have "?e (Y * Y - X * X) (X * Y) mod P25519 = ?e (Z * Z + ed_d * T * T) (Z * T) mod P25519"
    by (intro mod_add_cong mod_diff_cong mod_mult_cong refl c)
  also have "?e (Z * Z + ed_d * T * T) (Z * T) = 0" by algebra
  finally have "?e (Y * Y - X * X) (X * Y) mod P25519 = 0" by simp
  moreover have "?e (Y * Y - X * X) (X * Y) =
      (Y * Y + X * X) * (Y * Y - X * X) * ((Y * Y + X * X) * (Y * Y - X * X))
      - 2 * X * Y * (2 * Z * Z - (Y * Y - X * X)) * (2 * X * Y * (2 * Z * Z - (Y * Y - X * X)))
      - (Y * Y - X * X) * (2 * Z * Z - (Y * Y - X * X)) * ((Y * Y - X * X) * (2 * Z * Z - (Y * Y - X * X)))
      - ed_d * (2 * X * Y * (Y * Y + X * X)) * (2 * X * Y * (Y * Y + X * X))" by algebra
  ultimately show ?thesis unfolding p ext_dbl_def dbl_formula.simps by (intro on_curve_completed) (simp only:)
qed

lemma on_curve_neg:
  assumes "on_curve p"
  shows "on_curve (ext_neg p)"
proof -
  obtain X Y Z T where p: "p = (X, Y, Z, T)" by (cases p)
  have "- X * Y - Z * - T = - (X * Y - Z * T)" by simp
  moreover have "P25519 dvd X * Y - Z * T" using assms unfolding p on_curve.simps by (simp only: mod_eq_0_iff_dvd)
  ultimately have "(- X * Y - Z * - T) mod P25519 = 0" by (simp only: mod_eq_0_iff_dvd dvd_minus_iff)
  then show ?thesis using assms unfolding p ext_neg.simps on_curve.simps by simp
qed

section \<open>Theorems\<close>

text \<open>C21. On limbs that stand for points in extended coordinates, the operations of the source compute the addition,
  subtraction and doubling formulas of the curve modulo \<open>2 ^ 255 - 19\<close> without an overflow, and the formulas keep points
  on the curve \<open>Y\<^sup>2 - X\<^sup>2 = Z\<^sup>2 + d T\<^sup>2\<close>, \<open>X Y = Z T\<close>.\<close>

theorem point_addition_refines:
  assumes "p3_of p P" "p3_of q Q" "on_curve p" "on_curve q"
  shows "p3_of (ext_add p q) (ge_p1p1_to_p3 (ge_add P (ge_p3_to_moonbankd Q))) \<and> on_curve (ext_add p q) \<and>
    p3_of (ext_add p (ext_neg q)) (ge_p1p1_to_p3 (ge_sub P (ge_p3_to_moonbankd Q))) \<and> on_curve (ext_add p (ext_neg q)) \<and>
    p3_of (ext_dbl p) (ge_p1p1_to_p3 (ge_p3_dbl P)) \<and> on_curve (ext_dbl p) \<and>
    p2_of (ext_dbl (ext_dbl (ext_dbl p))) (ge_p1p1_to_p2 (ge_mul8 (ge_p3_to_p2 P)))"
proof (intro conjI)
  note c = p3_to_moonbankd_of [OF assms(2)]
  show "p3_of (ext_add p q) (ge_p1p1_to_p3 (ge_add P (ge_p3_to_moonbankd Q)))"
    unfolding ext_add_def by (intro p1p1_to_p3_of ge_add_of assms(1) c)
  show "p3_of (ext_add p (ext_neg q)) (ge_p1p1_to_p3 (ge_sub P (ge_p3_to_moonbankd Q)))"
    unfolding ext_add_def by (intro p1p1_to_p3_of ge_sub_of assms(1) c)
  show "p3_of (ext_dbl p) (ge_p1p1_to_p3 (ge_p3_dbl P))"
    unfolding ext_dbl_def by (intro p1p1_to_p3_of ge_p3_dbl_of assms(1))
  show "p2_of (ext_dbl (ext_dbl (ext_dbl p))) (ge_p1p1_to_p2 (ge_mul8 (ge_p3_to_p2 P)))"
    unfolding ge_mul8_def Let_def ext_dbl_def by (intro p1p1_to_p2_of ge_p2_dbl_of p3_to_p2_of assms(1))
  show "on_curve (ext_add p q)" "on_curve (ext_add p (ext_neg q))" "on_curve (ext_dbl p)"
    by (intro on_curve_add on_curve_neg on_curve_dbl assms(3,4))+
qed

text \<open>The point \<open>(\<surd>-1, 0)\<close> of order four.\<close>

definition order_four :: ge_p3 where
  "order_four = \<lparr>p3_X = fe_sqrtm1, p3_Y = fe_0, p3_Z = fe_1, p3_T = fe_0\<rparr>"

theorem point_addition_refines_witness:
  "p3_of (sqrt_m1, 0, 1, 0) order_four \<and> on_curve (sqrt_m1, 0, 1, 0) \<and>
   p3_of (ext_add (sqrt_m1, 0, 1, 0) (sqrt_m1, 0, 1, 0)) (ge_p1p1_to_p3 (ge_add order_four (ge_p3_to_moonbankd order_four)))"
proof -
  have p: "p3_of (sqrt_m1, 0, 1, 0) order_four" by (simp add: order_four_def stands_sqrtm1 stands_const)
  have "(- (sqrt_m1 * sqrt_m1) - 1) mod P25519 = (- (- 1) - 1) mod P25519"
    by (rule mod_diff_cong [OF _ refl]) (metis mod_minus_eq sqrt_m1_square)
  then have c: "on_curve (sqrt_m1, 0, 1, 0)" by simp
  from point_addition_refines [OF p p c c] p c show ?thesis by blast
qed

end
