(* ===== verification/PointCodec.thy ===== *)
theory PointCodec
  imports CurvePoints
begin

text \<open>Points as 32 bytes (\<^verbatim>\<open>crypto/crypto-ops.c\<close>: \<^verbatim>\<open>ge_frombytes_vartime\<close>, \<^verbatim>\<open>ge_p3_tobytes\<close>, \<^verbatim>\<open>ge_tobytes\<close>): what is accepted
  is a point of the curve, and it is written back to the same bytes.\<close>

section \<open>Reading limbs\<close>

definition load_3 :: "u8 list \<Rightarrow> int" where
  "load_3 s = (uint (s ! 0) OR push_bit 8 (uint (s ! 1))) OR push_bit 16 (uint (s ! 2))"

definition load_4 :: "u8 list \<Rightarrow> int" where
  "load_4 s = load_3 s OR push_bit 24 (uint (s ! 3))"

text \<open>The limbs before the carries; \<open>last3\<close> are the last three bytes, masked or not.\<close>

definition load_limbs :: "u8 list \<Rightarrow> int \<Rightarrow> fe" where
  "load_limbs s last3 = Fe (load_4 s) (load_3 (drop 4 s) * 2 ^ 6) (load_3 (drop 7 s) * 2 ^ 5) (load_3 (drop 10 s) * 2 ^ 3)
     (load_3 (drop 13 s) * 2 ^ 2) (load_4 (drop 16 s)) (load_3 (drop 20 s) * 2 ^ 7) (load_3 (drop 23 s) * 2 ^ 5)
     (load_3 (drop 26 s) * 2 ^ 4) (last3 * 2 ^ 2)"

fun frombytes_carries :: "fe \<Rightarrow> fe" where
  "frombytes_carries (Fe h0 h1 h2 h3 h4 h5 h6 h7 h8 h9) =
     (let (h9, h0) = carry_by 19 25 h9 h0;
          (h1, h2) = carry 25 h1 h2;
          (h3, h4) = carry 25 h3 h4;
          (h5, h6) = carry 25 h5 h6;
          (h7, h8) = carry 25 h7 h8;
          (h0, h1) = carry 26 h0 h1;
          (h2, h3) = carry 26 h2 h3;
          (h4, h5) = carry 26 h4 h5;
          (h6, h7) = carry 26 h6 h7;
          (h8, h9) = carry 26 h8 h9
      in Fe (i32 h0) (i32 h1) (i32 h2) (i32 h3) (i32 h4) (i32 h5) (i32 h6) (i32 h7) (i32 h8) (i32 h9))"

fun not_canonical :: "fe \<Rightarrow> bool" where
  "not_canonical (Fe h0 h1 h2 h3 h4 h5 h6 h7 h8 h9) \<longleftrightarrow>
     h9 = 33554428 \<and> h8 = 268435440 \<and> h7 = 536870880 \<and> h6 = 2147483520 \<and> h5 = 4294967295 \<and> h4 = 67108860 \<and>
     h3 = 134217720 \<and> h2 = 536870880 \<and> h1 = 1073741760 \<and> h0 \<ge> 4294967277"

section \<open>Reading a point\<close>

definition point_sign :: "u8 list \<Rightarrow> int" where "point_sign s = uint (drop_bit 7 (s ! 31))"

definition ge_frombytes_vartime :: "u8 list \<Rightarrow> ge_p3 option" where
  "ge_frombytes_vartime s =
     (let h = load_limbs s (load_3 (drop 29 s) AND 8388607) in
      if not_canonical h then None else
      let Y = frombytes_carries h;
          Z = fe_1;
          u = fe_sq Y;
          v = fe_mul u fe_d;
          u = fe_sub u Z;
          v = fe_add v Z;
          X = fe_divpowm1 u v;
          vxx = fe_mul (fe_sq X) v
      in case (if fe_isnonzero (fe_sub vxx u) \<noteq> 0
               then if fe_isnonzero (fe_add vxx u) \<noteq> 0 then None else Some (fe_mul X fe_sqrtm1)
               else Some X) of
           None \<Rightarrow> None
         | Some X \<Rightarrow>
             (case (if fe_isnegative X \<noteq> point_sign s
                    then if fe_isnonzero X = 0 then None else Some (fe_neg X)
                    else Some X) of
                None \<Rightarrow> None
              | Some X \<Rightarrow> Some \<lparr>p3_X = X, p3_Y = Y, p3_Z = Z, p3_T = fe_mul X Y\<rparr>))"

section \<open>The value of the limbs\<close>

lemma or_push: "0 \<le> a \<Longrightarrow> a < 2 ^ k \<Longrightarrow> a OR push_bit k b = a + 2 ^ k * b" for a b :: int
  using concat_bit_eq [of k a b] by (simp add: concat_bit_def push_bit_eq_mult take_bit_int_eq_self)

lemma load_3_eq: "load_3 s = uint (s ! 0) + 2 ^ 8 * uint (s ! 1) + 2 ^ 16 * uint (s ! 2)"
proof -
  have b: "0 \<le> uint (s ! i)" "uint (s ! i) < 256" for i using uint_lt2p [of "s ! i"] by simp_all
  have "uint (s ! 0) OR push_bit 8 (uint (s ! 1)) = uint (s ! 0) + 2 ^ 8 * uint (s ! 1)" using b by (intro or_push) simp_all
  moreover have "\<dots> OR push_bit 16 (uint (s ! 2)) = \<dots> + 2 ^ 16 * uint (s ! 2)"
    using b(2) [of 0] b(2) [of 1] by (intro or_push) simp_all
  ultimately show ?thesis by (simp add: load_3_def)
qed

lemma load_3_range: "0 \<le> load_3 s" "load_3 s < 2 ^ 24"
  using uint_lt2p [of "s ! 0"] uint_lt2p [of "s ! 1"] uint_lt2p [of "s ! 2"] by (simp_all add: load_3_eq)

lemma load_4_eq: "load_4 s = load_3 s + 2 ^ 24 * uint (s ! 3)"
  unfolding load_4_def by (rule or_push [OF load_3_range])

lemma load_4_range: "0 \<le> load_4 s" "load_4 s < 2 ^ 32"
  using uint_lt2p [of "s ! 3"] load_3_range [of s] by (simp_all add: load_4_eq)

lemma le_int_drop: "k < length s \<Longrightarrow> le_int (drop k s) = uint (s ! k) + 256 * le_int (drop (Suc k) s)"
  by (metis Cons_nth_drop_Suc le_int_simps(2))

lemma le_int_drop_3: "k + 3 \<le> length s \<Longrightarrow> le_int (drop k s) = load_3 (drop k s) + 2 ^ 24 * le_int (drop (k + 3) s)"
  using le_int_drop [of k s] le_int_drop [of "Suc k" s] le_int_drop [of "Suc (Suc k)" s]
  by (simp add: load_3_eq numeral_3_eq_3)

lemma le_int_drop_4: "k + 4 \<le> length s \<Longrightarrow> le_int (drop k s) = load_4 (drop k s) + 2 ^ 32 * le_int (drop (k + 4) s)"
  using le_int_drop_3 [of k s] le_int_drop [of "k + 3" s] by (simp add: load_4_eq numeral_eq_Suc)

lemma load_limbs_val:
  assumes "length s = 32"
  shows "fe_val (load_limbs s t) = le_int s + 2 ^ 232 * (t - load_3 (drop 29 s))"
proof -
  have "le_int s = load_4 s + 2 ^ 32 * (load_3 (drop 4 s) + 2 ^ 24 * (load_3 (drop 7 s) + 2 ^ 24 * (load_3 (drop 10 s) +
    2 ^ 24 * (load_3 (drop 13 s) + 2 ^ 24 * (load_4 (drop 16 s) + 2 ^ 32 * (load_3 (drop 20 s) + 2 ^ 24 * (load_3 (drop 23 s) +
    2 ^ 24 * (load_3 (drop 26 s) + 2 ^ 24 * load_3 (drop 29 s)))))))))"
    using le_int_drop_4 [of 0 s] le_int_drop_3 [of 4 s] le_int_drop_3 [of 7 s] le_int_drop_3 [of 10 s] le_int_drop_3 [of 13 s]
      le_int_drop_4 [of 16 s] le_int_drop_3 [of 20 s] le_int_drop_3 [of 23 s] le_int_drop_3 [of 26 s] le_int_drop_3 [of 29 s] assms
    by simp
  then show ?thesis unfolding load_limbs_def fe_val.simps by simp
qed

section \<open>Carries\<close>

fun loaded :: "fe \<Rightarrow> bool" where
  "loaded (Fe h0 h1 h2 h3 h4 h5 h6 h7 h8 h9) \<longleftrightarrow>
     \<bar>h0\<bar> \<le> 2 ^ 32 \<and> \<bar>h1\<bar> \<le> 2 ^ 30 \<and> \<bar>h2\<bar> \<le> 2 ^ 29 \<and>
     \<bar>h3\<bar> \<le> 2 ^ 27 \<and> \<bar>h4\<bar> \<le> 2 ^ 26 \<and> \<bar>h5\<bar> \<le> 2 ^ 32 \<and>
     \<bar>h6\<bar> \<le> 2 ^ 31 \<and> \<bar>h7\<bar> \<le> 2 ^ 29 \<and> \<bar>h8\<bar> \<le> 2 ^ 28 \<and>
     \<bar>h9\<bar> \<le> 2 ^ 26"

lemma frombytes_carries_spec:
  assumes "loaded h"
  shows "tight (fe_val h) (frombytes_carries h)"
proof -
  obtain h0 h1 h2 h3 h4 h5 h6 h7 h8 h9 where h: "h = Fe h0 h1 h2 h3 h4 h5 h6 h7 h8 h9" by (cases h)
  have W: "\<bar>h0\<bar> \<le> 2 ^ 32" "\<bar>h1\<bar> \<le> 2 ^ 30" "\<bar>h2\<bar> \<le> 2 ^ 29" "\<bar>h3\<bar> \<le> 2 ^
    27" "\<bar>h4\<bar> \<le> 2 ^ 26" "\<bar>h5\<bar> \<le> 2 ^ 32" "\<bar>h6\<bar> \<le> 2 ^ 31" "\<bar>h7\<bar> \<le>
    2 ^ 29" "\<bar>h8\<bar> \<le> 2 ^ 28" "\<bar>h9\<bar> \<le> 2 ^ 26"
    using assms unfolding h loaded.simps by blast+
  obtain c9 where c9: "carry_by 19 25 h9 h0 = (h9 - c9 * 2 ^ 25, h0 + c9 * 19)"
      "\<bar>h9 - c9 * 2 ^ 25\<bar> \<le> 2 ^ 24" "\<bar>c9\<bar> \<le> 3"
    by (rule carry_by_spec [of 25 19 "h9" 3 "h0"]) (use W(10,1) in auto)
  obtain c1 where c1: "carry 25 h1 h2 = (h1 - c1 * 2 ^ 25, h2 + c1)"
      "\<bar>h1 - c1 * 2 ^ 25\<bar> \<le> 2 ^ 24" "\<bar>c1\<bar> \<le> 33"
    by (rule carry_by_spec [of 25 1 "h1" 33 "h2"]) (use W(2,3) in auto)
  obtain c3 where c3: "carry 25 h3 h4 = (h3 - c3 * 2 ^ 25, h4 + c3)"
      "\<bar>h3 - c3 * 2 ^ 25\<bar> \<le> 2 ^ 24" "\<bar>c3\<bar> \<le> 5"
    by (rule carry_by_spec [of 25 1 "h3" 5 "h4"]) (use W(4,5) in auto)
  obtain c5 where c5: "carry 25 h5 h6 = (h5 - c5 * 2 ^ 25, h6 + c5)"
      "\<bar>h5 - c5 * 2 ^ 25\<bar> \<le> 2 ^ 24" "\<bar>c5\<bar> \<le> 129"
    by (rule carry_by_spec [of 25 1 "h5" 129 "h6"]) (use W(6,7) in auto)
  obtain c7 where c7: "carry 25 h7 h8 = (h7 - c7 * 2 ^ 25, h8 + c7)"
      "\<bar>h7 - c7 * 2 ^ 25\<bar> \<le> 2 ^ 24" "\<bar>c7\<bar> \<le> 17"
    by (rule carry_by_spec [of 25 1 "h7" 17 "h8"]) (use W(8,9) in auto)
  obtain c0 where c0: "carry 26 (h0 + c9 * 19) (h1 - c1 * 2 ^ 25) = (h0 + c9 * 19 - c0 * 2 ^ 26, h1 - c1 * 2 ^ 25 + c0)"
      "\<bar>h0 + c9 * 19 - c0 * 2 ^ 26\<bar> \<le> 2 ^ 25" "\<bar>c0\<bar> \<le> 66"
    by (rule carry_by_spec [of 26 1 "h0 + c9 * 19" 66 "h1 - c1 * 2 ^ 25"]) (use W(1) c9(3) c1(2) in auto)
  obtain c2 where c2: "carry 26 (h2 + c1) (h3 - c3 * 2 ^ 25) = (h2 + c1 - c2 * 2 ^ 26, h3 - c3 * 2 ^ 25 + c2)"
      "\<bar>h2 + c1 - c2 * 2 ^ 26\<bar> \<le> 2 ^ 25" "\<bar>c2\<bar> \<le> 10"
    by (rule carry_by_spec [of 26 1 "h2 + c1" 10 "h3 - c3 * 2 ^ 25"]) (use W(3) c1(3) c3(2) in auto)
  obtain c4 where c4: "carry 26 (h4 + c3) (h5 - c5 * 2 ^ 25) = (h4 + c3 - c4 * 2 ^ 26, h5 - c5 * 2 ^ 25 + c4)"
      "\<bar>h4 + c3 - c4 * 2 ^ 26\<bar> \<le> 2 ^ 25" "\<bar>c4\<bar> \<le> 3"
    by (rule carry_by_spec [of 26 1 "h4 + c3" 3 "h5 - c5 * 2 ^ 25"]) (use W(5) c3(3) c5(2) in auto)
  obtain c6 where c6: "carry 26 (h6 + c5) (h7 - c7 * 2 ^ 25) = (h6 + c5 - c6 * 2 ^ 26, h7 - c7 * 2 ^ 25 + c6)"
      "\<bar>h6 + c5 - c6 * 2 ^ 26\<bar> \<le> 2 ^ 25" "\<bar>c6\<bar> \<le> 34"
    by (rule carry_by_spec [of 26 1 "h6 + c5" 34 "h7 - c7 * 2 ^ 25"]) (use W(7) c5(3) c7(2) in auto)
  obtain c8 where c8: "carry 26 (h8 + c7) (h9 - c9 * 2 ^ 25) = (h8 + c7 - c8 * 2 ^ 26, h9 - c9 * 2 ^ 25 + c8)"
      "\<bar>h8 + c7 - c8 * 2 ^ 26\<bar> \<le> 2 ^ 25" "\<bar>c8\<bar> \<le> 6"
    by (rule carry_by_spec [of 26 1 "h8 + c7" 6 "h9 - c9 * 2 ^ 25"]) (use W(9) c7(3) c9(2) in auto)
  let ?r = "Fe (h0 + c9 * 19 - c0 * 2 ^ 26) (h1 - c1 * 2 ^ 25 + c0) (h2 + c1 - c2 * 2 ^ 26) (h3 - c3 * 2 ^ 25 + c2) (h4 + c3 -
    c4 * 2 ^ 26) (h5 - c5 * 2 ^ 25 + c4) (h6 + c5 - c6 * 2 ^ 26) (h7 - c7 * 2 ^ 25 + c6) (h8 + c7 - c8 * 2 ^ 26) (h9
    - c9 * 2 ^ 25 + c8)"
  have "fe_bound 16944988 ?r" unfolding fe_bound.simps
    by (intro conjI; (rule order_trans, rule c0(2) c2(2) c4(2) c6(2) c8(2) add_abs [OF c1(2) c0(3)] add_abs [OF c3(2) c2(3)]
          add_abs [OF c5(2) c4(3)] add_abs [OF c7(2) c6(3)] add_abs [OF c9(2) c8(3)], simp))
  moreover have "frombytes_carries h = fe_zip (\<lambda>_. i32) ?r ?r"
    unfolding h by (simp only: frombytes_carries.simps Let_def prod.case c0(1) c1(1) c2(1) c3(1) c4(1) c5(1) c6(1) c7(1) c8(1) c9(1) fe_zip.simps)
  moreover have "fe_val ?r = fe_val h + (- c9) * P25519" unfolding h by (simp add: P25519_def)
  ultimately have "fe_val (frombytes_carries h) mod P25519 = fe_val h mod P25519 \<and> fe_bound 16944988 (frombytes_carries h)"
    by (rule narrowed)
  then show ?thesis by (simp add: stands_def)
qed

section \<open>The canonical form\<close>

lemma top_digit:
  fixes l R K N :: int
  assumes "0 \<le> l" "l < K" "l + K * R = K * N - 1"
  shows "l = K - 1 \<and> R = N - 1"
proof -
  have "K * (N - R) = l + 1" using assms(3) by (simp add: algebra_simps)
  then have "0 < K * (N - R)" "K * (N - R) < K * 2" using assms(1,2) by linarith+
  then have "0 < N - R" "N - R < 2" using assms(1,2) by (simp_all add: zero_less_mult_iff)
  then have "N - R = 1" by linarith
  with \<open>K * (N - R) = l + 1\<close> show ?thesis by simp
qed

lemma canonical_limbs:
  fixes a0 l1 l2 l3 l4 a5 l6 l7 l8 m :: int
  assumes "0 \<le> a0" "a0 < 2 ^ 32" "0 \<le> l1" "l1 < 2 ^ 24" "0 \<le> l2" "l2 < 2 ^ 24" "0 \<le> l3" "l3 < 2 ^ 24" "0 \<le> l4" "l4 < 2 ^ 24"
    "0 \<le> a5" "a5 < 2 ^ 32" "0 \<le> l6" "l6 < 2 ^ 24" "0 \<le> l7" "l7 < 2 ^ 24" "0 \<le> l8" "l8 < 2 ^ 24" "0 \<le> m" "m < 2 ^ 23"
  defines "h \<equiv> Fe a0 (l1 * 2 ^ 6) (l2 * 2 ^ 5) (l3 * 2 ^ 3) (l4 * 2 ^ 2) a5 (l6 * 2 ^ 7) (l7 * 2 ^ 5) (l8 * 2 ^ 4) (m * 2 ^ 2)"
  shows "not_canonical h \<longleftrightarrow> P25519 \<le> fe_val h" "0 \<le> fe_val h" "fe_val h < 2 ^ 255" "loaded h"
proof -
  define r8 where "r8 = l8 + 2 ^ 24 * m"
  define r7 where "r7 = l7 + 2 ^ 24 * r8"
  define r6 where "r6 = l6 + 2 ^ 24 * r7"
  define r5 where "r5 = a5 + 2 ^ 32 * r6"
  define r4 where "r4 = l4 + 2 ^ 24 * r5"
  define r3 where "r3 = l3 + 2 ^ 24 * r4"
  define r2 where "r2 = l2 + 2 ^ 24 * r3"
  define r1 where "r1 = l1 + 2 ^ 24 * r2"
  have v: "fe_val h = a0 + 2 ^ 32 * r1"
    unfolding h_def fe_val.simps r1_def r2_def r3_def r4_def r5_def r6_def r7_def r8_def by simp
  have r8: "0 \<le> r8" "r8 \<le> 2 ^ 47 - 1" using assms(17-20) unfolding r8_def by simp_all
  have r7: "0 \<le> r7" "r7 \<le> 2 ^ 71 - 1" using assms(15,16) r8 unfolding r7_def by simp_all
  have r6: "0 \<le> r6" "r6 \<le> 2 ^ 95 - 1" using assms(13,14) r7 unfolding r6_def by simp_all
  have r5: "0 \<le> r5" "r5 \<le> 2 ^ 127 - 1" using assms(11,12) r6 unfolding r5_def by simp_all
  have r4: "0 \<le> r4" "r4 \<le> 2 ^ 151 - 1" using assms(9,10) r5 unfolding r4_def by simp_all
  have r3: "0 \<le> r3" "r3 \<le> 2 ^ 175 - 1" using assms(7,8) r4 unfolding r3_def by simp_all
  have r2: "0 \<le> r2" "r2 \<le> 2 ^ 199 - 1" using assms(5,6) r3 unfolding r2_def by simp_all
  have r1: "0 \<le> r1" "r1 \<le> 2 ^ 223 - 1" using assms(3,4) r2 unfolding r1_def by simp_all
  show "0 \<le> fe_val h" "fe_val h < 2 ^ 255" unfolding v using assms(1,2) r1 by simp_all
  show "loaded h" using assms(1-20) unfolding h_def loaded.simps by simp
  show "not_canonical h \<longleftrightarrow> P25519 \<le> fe_val h"
  proof
    assume "not_canonical h"
    then show "P25519 \<le> fe_val h" unfolding h_def not_canonical.simps fe_val.simps P25519_def by simp
  next
    assume p: "P25519 \<le> fe_val h"
    have "r1 = 2 ^ 223 - 1" "4294967277 \<le> a0" using p assms(1,2) r1 unfolding v P25519_def by simp_all
    moreover from this(1) have "l1 = 2 ^ 24 - 1 \<and> r2 = 2 ^ 199 - 1" using assms(3,4) unfolding r1_def by (intro top_digit) simp_all
    moreover from this have "l2 = 2 ^ 24 - 1 \<and> r3 = 2 ^ 175 - 1" using assms(5,6) unfolding r2_def by (intro top_digit) simp_all
    moreover from this have "l3 = 2 ^ 24 - 1 \<and> r4 = 2 ^ 151 - 1" using assms(7,8) unfolding r3_def by (intro top_digit) simp_all
    moreover from this have "l4 = 2 ^ 24 - 1 \<and> r5 = 2 ^ 127 - 1" using assms(9,10) unfolding r4_def by (intro top_digit) simp_all
    moreover from this have "a5 = 2 ^ 32 - 1 \<and> r6 = 2 ^ 95 - 1" using assms(11,12) unfolding r5_def by (intro top_digit) simp_all
    moreover from this have "l6 = 2 ^ 24 - 1 \<and> r7 = 2 ^ 71 - 1" using assms(13,14) unfolding r6_def by (intro top_digit) simp_all
    moreover from this have "l7 = 2 ^ 24 - 1 \<and> r8 = 2 ^ 47 - 1" using assms(15,16) unfolding r7_def by (intro top_digit) simp_all
    moreover from this have "l8 = 2 ^ 24 - 1 \<and> m = 2 ^ 23 - 1" using assms(17,18) unfolding r8_def by (intro top_digit) simp_all
    ultimately show "not_canonical h" unfolding h_def not_canonical.simps by simp
  qed
qed

text \<open>Masking the last bit splits the number into the coordinate and the sign.\<close>

lemma point_sign_eq:
  assumes "length s = 32"
  shows "load_3 (drop 29 s) div 2 ^ 23 = point_sign s" "point_sign s \<in> {0, 1}"
proof -
  define u where "u = uint (s ! 31)"
  define lo where "lo = uint (s ! 29) + 2 ^ 8 * uint (s ! 30)"
  have u: "0 \<le> u" "u < 256" using uint_lt2p [of "s ! 31"] by (simp_all add: u_def)
  have lo: "0 \<le> lo" "lo < 2 ^ 16" using uint_lt2p [of "s ! 29"] uint_lt2p [of "s ! 30"] by (simp_all add: lo_def)
  have p: "point_sign s = u div 2 ^ 7" by (simp add: point_sign_def u_def drop_bit_eq_div uint_div)
  have "load_3 (drop 29 s) = lo + 2 ^ 16 * u" using assms by (simp add: load_3_eq lo_def u_def)
  then have "load_3 (drop 29 s) div 2 ^ 16 = u" using lo by simp
  then show "load_3 (drop 29 s) div 2 ^ 23 = point_sign s"
    using zdiv_zmult2_eq [of "2 ^ 7" "load_3 (drop 29 s)" "2 ^ 16"] by (simp add: p)
  have "0 \<le> u div 2 ^ 7" "u div 2 ^ 7 < 2" using u by simp_all
  then show "point_sign s \<in> {0, 1}" unfolding p by auto
qed

lemma load_masked:
  assumes "length s = 32"
  defines "h \<equiv> load_limbs s (load_3 (drop 29 s) AND 8388607)"
  shows "le_int s = fe_val h + 2 ^ 255 * point_sign s" "0 \<le> fe_val h" "fe_val h < 2 ^ 255" "loaded h"
    "not_canonical h \<longleftrightarrow> P25519 \<le> fe_val h"
proof -
  have "(8388607 :: int) = mask 23" by (simp add: mask_eq_exp_minus_1)
  then have m: "load_3 (drop 29 s) AND 8388607 = load_3 (drop 29 s) mod 2 ^ 23"
    by (simp only: take_bit_eq_mask [symmetric] take_bit_eq_mod)
  show "le_int s = fe_val h + 2 ^ 255 * point_sign s"
    unfolding h_def m load_limbs_val [OF assms(1)]
    using div_mult_mod_eq [of "load_3 (drop 29 s)" "2 ^ 23"] unfolding point_sign_eq(1) [OF assms(1)] by simp
  note R = load_4_range [of s] load_3_range [of "drop 4 s"] load_3_range [of "drop 7 s"] load_3_range [of "drop 10 s"]
    load_3_range [of "drop 13 s"] load_4_range [of "drop 16 s"] load_3_range [of "drop 20 s"] load_3_range [of "drop 23 s"]
    load_3_range [of "drop 26 s"]
  note L = canonical_limbs [OF R, of "load_3 (drop 29 s) mod 2 ^ 23", folded load_limbs_def m, folded h_def]
  show "0 \<le> fe_val h" "fe_val h < 2 ^ 255" "loaded h" "not_canonical h \<longleftrightarrow> P25519 \<le> fe_val h" by (rule L; simp add: m)+
qed

section \<open>What is accepted\<close>

lemma stands_1: "stands 1 1 fe_1"
  by (simp add: stands_def fe_1_def)

lemma stands_isnonzero: "stands B v f \<Longrightarrow> B \<le> 36909875 \<Longrightarrow> fe_isnonzero f \<noteq> 0 \<longleftrightarrow> v mod P25519 \<noteq> 0"
  using fe_isnonzero_val [OF fe_bound_mono] by (auto simp: stands_def split: if_splits)

lemma stands_isnegative: "stands B v f \<Longrightarrow> B \<le> 36909875 \<Longrightarrow> fe_isnegative f = v mod P25519 mod 2"
  using fe_isnegative_val [OF fe_bound_mono] by (auto simp: stands_def)

lemma mod_eq_0_diff: "(a - b) mod m = 0 \<longleftrightarrow> a mod m = b mod m" for a b m :: int
  by (simp add: mod_eq_dvd_iff mod_eq_0_iff_dvd)

text \<open>The candidate for \<open>x\<close> is kept only if its square is right, whatever the power that produced it.\<close>

definition root_of :: "fe \<Rightarrow> fe option" where
  "root_of Y =
     (let u = fe_sq Y; v = fe_mul u fe_d; u = fe_sub u fe_1; v = fe_add v fe_1; X = fe_divpowm1 u v; vxx = fe_mul (fe_sq X) v
      in if fe_isnonzero (fe_sub vxx u) \<noteq> 0
         then if fe_isnonzero (fe_add vxx u) \<noteq> 0 then None else Some (fe_mul X fe_sqrtm1)
         else Some X)"

lemma root_of_square:
  assumes "tight y Y" "root_of Y = Some X"
  shows "\<exists>x. tight x X \<and> x * x * (ed_d * (y * y) + 1) mod P25519 = (y * y - 1) mod P25519"
proof -
  define u where "u = fe_sub (fe_sq Y) fe_1"
  define v where "v = fe_add (fe_mul (fe_sq Y) fe_d) fe_1"
  define X0 where "X0 = fe_divpowm1 u v"
  define vxx where "vxx = fe_mul (fe_sq X0) v"
  have u: "stands 16944989 (y * y - 1) u"
    unfolding u_def by (rule stands_eq, (rule stands_ops assms(1) stands_1 | simp)+)
  have v: "stands 16944989 (ed_d * (y * y) + 1) v"
    unfolding v_def by (rule stands_eq, (rule stands_ops assms(1) stands_1 stands_d | simp)+)
  have "fe_bound 55364812 u" "fe_bound 55364812 v" using u v by (auto simp: stands_def elim: fe_bound_mono)
  from fe_divpowm1_small [OF this] have x: "tight (fe_val X0) X0" by (simp add: X0_def small_def stands_def)
  define x where "x = fe_val X0"
  define w where "w = ed_d * (y * y) + 1"
  have vxx: "tight (x * x * w) vxx"
    unfolding vxx_def w_def x_def by (rule stands_eq, (rule stands_ops x v | simp)+)
  have n: "fe_isnonzero (fe_sub vxx u) \<noteq> 0 \<longleftrightarrow> (x * x * w - (y * y - 1)) mod P25519 \<noteq> 0"
    by (rule stands_isnonzero, (rule stands_ops vxx u | simp)+)
  have n': "fe_isnonzero (fe_add vxx u) \<noteq> 0 \<longleftrightarrow> (x * x * w + (y * y - 1)) mod P25519 \<noteq> 0"
    by (rule stands_isnonzero, (rule stands_ops vxx u | simp)+)
  have r: "root_of Y = (if (x * x * w - (y * y - 1)) mod P25519 \<noteq> 0
      then if (x * x * w + (y * y - 1)) mod P25519 \<noteq> 0 then None else Some (fe_mul X0 fe_sqrtm1) else Some X0)"
    unfolding root_of_def Let_def by (simp only: u_def [symmetric] v_def [symmetric] X0_def [symmetric] vxx_def [symmetric] n n')
  show ?thesis
  proof (cases "(x * x * w - (y * y - 1)) mod P25519 = 0")
    case True
    then have "X = X0" using assms(2) r by simp
    moreover have "x * x * w mod P25519 = (y * y - 1) mod P25519" using True unfolding mod_eq_0_diff .
    ultimately show ?thesis using x unfolding x_def [symmetric] w_def by blast
  next
    case False
    then have X: "X = fe_mul X0 fe_sqrtm1" and m: "(x * x * w + (y * y - 1)) mod P25519 = 0"
      using assms(2) r by (simp_all split: if_split_asm)
    have "tight (x * sqrt_m1) X" unfolding X by (rule stands_mul [OF x [folded x_def] stands_sqrtm1]) simp_all
    moreover have "x * sqrt_m1 * (x * sqrt_m1) * w mod P25519 = x * x * w * (sqrt_m1 * sqrt_m1) mod P25519"
      by (simp add: mult_ac)
    moreover have "\<dots> = x * x * w * (- 1) mod P25519" by (rule mod_mult_cong [OF refl sqrt_m1_square])
    moreover have "\<dots> = (y * y - 1) mod P25519"
      using m mod_eq_0_diff [of "y * y - 1" "- (x * x * w)" P25519] by (simp add: algebra_simps)
    ultimately show ?thesis unfolding w_def by metis
  qed
qed

lemma parity_neg: "x mod P25519 \<noteq> 0 \<Longrightarrow> (- x) mod P25519 mod 2 = 1 - x mod P25519 mod 2"
proof -
  assume x: "x mod P25519 \<noteq> 0"
  define r where "r = x mod P25519"
  have "(- x) mod P25519 = P25519 - r" using x by (simp add: zmod_zminus1_eq_if r_def)
  moreover obtain k where "P25519 = 2 * k + 1" by (rule that [of "2 ^ 254 - 10"]) (simp add: P25519_def)
  ultimately have "(- x) mod P25519 = 2 * k + 1 - r" by simp
  moreover have "(2 * k + 1 - r) mod 2 = 1 - r mod 2" by presburger
  ultimately show ?thesis unfolding r_def [symmetric] by (simp only:)
qed

text \<open>The sign bit selects one of the two roots.\<close>

lemma sign_selected:
  assumes "tight x X" "b \<in> {0, 1}"
    "(if fe_isnegative X \<noteq> b then if fe_isnonzero X = 0 then None else Some (fe_neg X) else Some X) = Some X'"
  shows "\<exists>x'. tight x' X' \<and> x' * x' = x * x \<and> x' mod P25519 mod 2 = b"
proof -
  note n = stands_isnegative [OF assms(1)] stands_isnonzero [OF assms(1)]
  show ?thesis
  proof (cases "x mod P25519 mod 2 = b")
    case True
    then have "X' = X" using assms(3) n by simp
    then show ?thesis using True assms(1) by blast
  next
    case False
    then have X': "X' = fe_neg X" and "x mod P25519 \<noteq> 0" using assms(3) n by (auto split: if_split_asm)
    then have "(- x) mod P25519 mod 2 = 1 - x mod P25519 mod 2" by (intro parity_neg)
    moreover have "x mod P25519 mod 2 = 0 \<or> x mod P25519 mod 2 = 1" by presburger
    ultimately have "(- x) mod P25519 mod 2 = b" using False assms(2) by auto
    moreover have "tight (- x) X'" unfolding X' by (rule stands_neg [OF assms(1)]) simp
    ultimately show ?thesis by (intro exI [of _ "- x"]) simp
  qed
qed

lemma frombytes_root:
  "ge_frombytes_vartime s =
     (let h = load_limbs s (load_3 (drop 29 s) AND 8388607); Y = frombytes_carries h in
      if not_canonical h then None else
      case root_of Y of None \<Rightarrow> None
      | Some X \<Rightarrow>
          (case (if fe_isnegative X \<noteq> point_sign s then if fe_isnonzero X = 0 then None else Some (fe_neg X) else Some X) of
             None \<Rightarrow> None | Some X \<Rightarrow> Some \<lparr>p3_X = X, p3_Y = Y, p3_Z = fe_1, p3_T = fe_mul X Y\<rparr>))"
  unfolding ge_frombytes_vartime_def root_of_def Let_def by (rule refl)

lemma frombytes_point:
  assumes "length s = 32" "ge_frombytes_vartime s = Some p"
  shows "\<exists>x y. p3_of (x, y, 1, x * y) p \<and> on_curve (x, y, 1, x * y) \<and> 0 \<le> y \<and> y < P25519 \<and>
    le_int s = y + 2 ^ 255 * (x mod P25519 mod 2)"
proof -
  define h where "h = load_limbs s (load_3 (drop 29 s) AND 8388607)"
  note L = load_masked [OF assms(1), folded h_def]
  define y where "y = fe_val h"
  have Y: "tight y (frombytes_carries h)" unfolding y_def by (rule frombytes_carries_spec [OF L(4)])
  from assms(2) obtain X X' where c: "\<not> not_canonical h" and X: "root_of (frombytes_carries h) = Some X"
    and X': "(if fe_isnegative X \<noteq> point_sign s then if fe_isnonzero X = 0 then None else Some (fe_neg X) else Some X) = Some X'"
    and p: "p = \<lparr>p3_X = X', p3_Y = frombytes_carries h, p3_Z = fe_1, p3_T = fe_mul X' (frombytes_carries h)\<rparr>"
    unfolding frombytes_root Let_def h_def [symmetric] by (auto split: option.split_asm if_split_asm)
  obtain x0 where x0: "tight x0 X" "x0 * x0 * (ed_d * (y * y) + 1) mod P25519 = (y * y - 1) mod P25519"
    using root_of_square [OF Y X] by blast
  obtain x where x: "tight x X'" "x * x = x0 * x0" "x mod P25519 mod 2 = point_sign s"
    using sign_selected [OF x0(1) point_sign_eq(2) [OF assms(1)] X'] by blast
  have "p3_of (x, y, 1, x * y) p"
    unfolding p p3_of.simps ge_p3.simps by (intro conjI x(1) Y stands_const stands_mul [OF x(1) Y]) simp_all
  moreover have "(y * y - x * x - 1 * 1 - ed_d * (x * y) * (x * y)) mod P25519 = 0"
    using x0(2) mod_eq_0_diff [of "y * y - 1" "x * x * (ed_d * (y * y) + 1)" P25519] unfolding x(2) [symmetric]
    by (simp add: algebra_simps)
  moreover have "0 \<le> y" "y < P25519" "le_int s = y + 2 ^ 255 * (x mod P25519 mod 2)"
    using L(1,2,5) c unfolding y_def x(3) by simp_all
  ultimately show ?thesis by (intro exI [of _ x] exI [of _ y] conjI) simp_all
qed

section \<open>Writing a point\<close>

lemma le_bytes_append: "le_bytes (m + n) v = le_bytes m v @ le_bytes n (v div 256 ^ m)"
proof (induction m arbitrary: v)
  case (Suc m)
  have "v div 256 div 256 ^ m = v div 256 ^ Suc m" by (simp add: zdiv_zmult2_eq)
  with Suc show ?case by simp
qed simp

lemma le_bytes_mod: "le_bytes n (v + 256 ^ n * k) = le_bytes n v"
  using le_bytes_le_int [of "le_bytes n (v + 256 ^ n * k)"] le_bytes_le_int [of "le_bytes n v"]
  by (simp add: le_int_le_bytes)

lemma set_sign:
  assumes "0 \<le> y" "y < 2 ^ 255" "b \<in> {0, 1}"
  defines "s \<equiv> le_bytes 32 y"
  shows "s[31 := s ! 31 XOR byte (shl 7 b)] = le_bytes 32 (y + 2 ^ 255 * b)"
proof -
  have split: "le_bytes 32 v = le_bytes 31 v @ [byte (v div 256 ^ 31)]" for v
    using le_bytes_append [of 31 1 v] by simp
  define t where "t = y div 256 ^ 31"
  have t: "0 \<le> t" "t < 128" using assms(1,2) unfolding t_def by simp_all
  have "(y + 2 ^ 255 * b) div 256 ^ 31 = t + 128 * b" unfolding t_def
    using div_mult_self4 [of "256 ^ 31" "128 * b" y] by (simp add: add.commute)
  moreover have "le_bytes 31 (y + 2 ^ 255 * b) = le_bytes 31 y" using le_bytes_mod [of 31 y "128 * b"] by simp
  moreover have "byte t XOR byte (shl 7 b) = byte (t + 128 * b)"
  proof -
    have o: "t + 128 * b = t OR push_bit 7 b" using t or_push [of t 7 b] by simp
    have "\<not> bit t 7" using t by (simp add: bit_iff_odd)
    moreover have "m = 0" if "bit b m" for m using that assms(3) by (auto simp: bit_1_iff)
    moreover have "shl 7 b = push_bit 7 b" by (simp add: shl_def push_bit_eq_mult)
    ultimately show ?thesis unfolding o by (intro bit_word_eqI) (auto simp: bit_simps dest: le_antisym)
  qed
  ultimately show ?thesis unfolding s_def split by (simp add: t_def nth_append list_update_append)
qed

lemma affine_bytes_val:
  assumes "tight X A" "tight Y B" "tight Z C"
  defines "w \<equiv> Z ^ (2 ^ 255 - 21)"
  shows "affine_bytes A B C = le_bytes 32 (Y * w mod P25519 + 2 ^ 255 * (X * w mod P25519 mod 2))"
proof -
  have "fe_bound 55364812 C" using assms(3) by (auto simp: stands_def elim: fe_bound_mono)
  from fe_invert_small [OF this] have "tight (fe_val C ^ (2 ^ 255 - 21)) (fe_invert C)" by (simp add: small_def stands_def)
  moreover have "fe_val C ^ (2 ^ 255 - 21) mod P25519 = w mod P25519"
    using assms(3) unfolding w_def stands_def by (metis power_mod)
  ultimately have r: "tight w (fe_invert C)" by (rule stands_cong)
  have x: "tight (X * w) (fe_mul A (fe_invert C))" by (rule stands_mul [OF assms(1) r]) simp_all
  have y: "tight (Y * w) (fe_mul B (fe_invert C))" by (rule stands_mul [OF assms(2) r]) simp_all
  have "fe_tobytes (fe_mul B (fe_invert C)) = le_bytes 32 (Y * w mod P25519)"
    using fe_tobytes_val [OF fe_bound_mono] y by (auto simp: stands_def)
  moreover have "fe_isnegative (fe_mul A (fe_invert C)) = X * w mod P25519 mod 2" by (rule stands_isnegative [OF x]) simp
  moreover have "0 \<le> Y * w mod P25519" "Y * w mod P25519 < 2 ^ 255"
    using pos_mod_bound [of P25519 "Y * w"] by (simp_all add: P25519_def)
  ultimately show ?thesis unfolding affine_bytes_def Let_def by (simp only:) (rule set_sign, auto)
qed

lemma ge_tobytes_val: "p2_of (X, Y, Z, T) p \<Longrightarrow> ge_tobytes p = le_bytes 32
    (Y * Z ^ (2 ^ 255 - 21) mod P25519 + 2 ^ 255 * (X * Z ^ (2 ^ 255 - 21) mod P25519 mod 2))"
  unfolding ge_tobytes_def by (rule affine_bytes_val) simp_all

lemma ge_p3_tobytes_val: "p3_of (X, Y, Z, T) p \<Longrightarrow> ge_p3_tobytes p = le_bytes 32
    (Y * Z ^ (2 ^ 255 - 21) mod P25519 + 2 ^ 255 * (X * Z ^ (2 ^ 255 - 21) mod P25519 mod 2))"
  unfolding ge_p3_tobytes_def by (rule affine_bytes_val) simp_all

section \<open>Theorems\<close>

text \<open>C22. Bytes that \<^verbatim>\<open>ge_frombytes_vartime\<close> accepts stand for a point \<open>(x, y)\<close> of the curve, with \<open>y\<close> below the prime and the
  parity of \<open>x\<close> in the last bit, and \<^verbatim>\<open>ge_p3_tobytes\<close> writes the point back to the same bytes: a point has one form
  that is accepted.\<close>

theorem point_roundtrip:
  assumes "length s = 32" "ge_frombytes_vartime s = Some p"
  shows "ge_p3_tobytes p = s \<and> (\<exists>x y. p3_of (x, y, 1, x * y) p \<and> on_curve (x, y, 1, x * y) \<and> 0 \<le> y \<and> y < P25519 \<and>
    le_int s = y + 2 ^ 255 * (x mod P25519 mod 2))"
proof -
  obtain x y where p: "p3_of (x, y, 1, x * y) p" "on_curve (x, y, 1, x * y)" "0 \<le> y" "y < P25519"
    "le_int s = y + 2 ^ 255 * (x mod P25519 mod 2)" using frombytes_point [OF assms] by blast
  have "ge_p3_tobytes p = le_bytes 32 (y mod P25519 + 2 ^ 255 * (x mod P25519 mod 2))"
    using ge_p3_tobytes_val [OF p(1)] by (simp only: power_one mult_1_right)
  also have "\<dots> = le_bytes (length s) (le_int s)" using p(3,4) by (simp only: p(5) assms(1) mod_pos_pos_trivial)
  finally show ?thesis using p le_bytes_le_int [of s] by auto
qed

lemma neutral_accepted: "\<exists>p. ge_frombytes_vartime (1 # replicate 31 0) = Some p"
proof -
  let ?s = "1 # replicate 31 (0 :: u8)"
  define h where "h = load_limbs ?s (load_3 (drop 29 ?s) AND 8388607)"
  define Y where "Y = frombytes_carries h"
  have z: "le_int (replicate n 0) = 0" for n by (induction n) simp_all
  have l: "length ?s = 32" by simp
  note L = load_masked [OF l, folded h_def]
  have v: "fe_val h = 1" "point_sign ?s = 0" using L(1,2) point_sign_eq(2) [OF l] z [of 31] by auto
  have Y: "tight 1 Y" using frombytes_carries_spec [OF L(4)] v(1) by (simp add: Y_def)
  define u where "u = fe_sub (fe_sq Y) fe_1"
  define w where "w = fe_add (fe_mul (fe_sq Y) fe_d) fe_1"
  define X where "X = fe_divpowm1 u w"
  have u: "stands 16944989 0 u" unfolding u_def by (rule stands_eq, (rule stands_ops Y stands_1 | simp)+)
  have w: "stands 16944989 (ed_d + 1) w" unfolding w_def by (rule stands_eq, (rule stands_ops Y stands_1 stands_d | simp)+)
  have "fe_bound 55364812 u" "fe_bound 55364812 w" using u w by (auto simp: stands_def elim: fe_bound_mono)
  from fe_divpowm1_small [OF this] have x: "fe_bound 16944988 X" "fe_val X mod P25519 = fe_val u ^ (2 ^ 252 - 2) * fe_val w ^ (7 * (2 ^ 252 - 3) + 3) mod P25519"
    by (simp_all add: X_def small_def)
  have "P25519 dvd fe_val u" using u by (simp add: stands_def mod_eq_0_iff_dvd)
  then have "P25519 dvd fe_val u ^ (2 ^ 252 - 2)" by (rule dvd_trans) (rule dvd_power, simp)
  then have X: "tight 0 X" using x by (simp only: stands_def mod_0 dvd_mult2 mod_eq_0_iff_dvd)
  have "tight (0 * 0 * (ed_d + 1)) (fe_mul (fe_sq X) w)" by (rule stands_eq, (rule stands_ops X w | simp)+)
  from stands_isnonzero [OF stands_sub [OF this u]] have "fe_isnonzero (fe_sub (fe_mul (fe_sq X) w) u) = 0" by simp
  then have r: "root_of Y = Some X"
    unfolding root_of_def Let_def by (simp only: u_def [symmetric] w_def [symmetric] X_def [symmetric]) simp
  have "\<not> not_canonical h" using L(5) v(1) by (simp add: P25519_def)
  moreover have "fe_isnegative X = 0" using stands_isnegative [OF X] by simp
  ultimately show ?thesis unfolding frombytes_root Let_def h_def [symmetric] Y_def [symmetric] by (simp add: r v(2))
qed

theorem point_roundtrip_witness:
  "\<exists>p. ge_frombytes_vartime (1 # replicate 31 0) = Some p \<and> ge_p3_tobytes p = 1 # replicate 31 0"
proof -
  obtain p where p: "ge_frombytes_vartime (1 # replicate 31 0) = Some p" using neutral_accepted by blast
  from point_roundtrip [OF _ p] show ?thesis using p by simp
qed

end
