(* ===== verification/Spec2Isabelle.thy ===== *)
theory Spec2Isabelle
  imports Varint InvestmentIndex BlockIndex Checkpoints FormatUtils Difficulty Lwma Interest TransactionPool ChainHistory
    Shuffle ChainQueries BlockCandidate NodeCore PointCodec
begin

text \<open>
  A verification library for the node of MoonBank, a CryptoNote currency with deposits that bear interest.
  Paths below are relative to \<^verbatim>\<open>src/src\<close>.

  \<^bold>\<open>The program.\<close> A node keeps a chain of blocks and a pool of transactions that wait for a block. A block
  (\<^verbatim>\<open>include/CryptoNote.h\<close>) has a header, a miner transaction and the hashes of its transactions; its hash is
  that of the header, the Merkle root of the transaction hashes and their number. \<^verbatim>\<open>Blockchain::addNewBlock\<close>
  pushes a block that continues the chain and handles any other as an alternative block, which can make the
  chain switch. Pushing checks the version, timestamp, proof of work and miner transaction, takes the
  transactions from the pool, checks their inputs and outputs against the ledger, and records them in the
  ledger and in the indices; popping undoes this and returns the transactions to the pool.

  \<^bold>\<open>How the source is modelled.\<close> Structures are records and datatypes with the source's names, integers are
  words of the source's width (\<^verbatim>\<open>u8\<close> to \<^verbatim>\<open>u64\<close>, \<^verbatim>\<open>usize\<close> is 64 bits), byte strings are lists. State is passed
  explicitly. A function that can fail returns \<^typ>\<open>'a result\<close>: \<^typ>\<open>cpp_error\<close> names failed assertions,
  accesses out of range, null pointers, \<^verbatim>\<open>bad_get\<close>, thrown exceptions and loops that do not end. Assertions are
  compiled in, except that \<open>env_difficulty_asserts\<close> makes those of the difficulty function optional. Hash maps
  are maps, or association lists where the order of insertion is used; multimaps are lists ordered by key.
  Log messages, locks, timers and observers are left out.

  \<^bold>\<open>Theories.\<close>
  \<^item> \<^verbatim>\<open>Prelude\<close>: types, errors, \<open>bind_res\<close>, and facts on words; \<^verbatim>\<open>Loops\<close>: loops whose body can fail, loops
    with a 16-bit counter, and \<^verbatim>\<open>std::lower_bound\<close>; \<^verbatim>\<open>Codec\<close>, \<^verbatim>\<open>HeightIndex\<close>, \<^verbatim>\<open>MultiIndex\<close>: the
    locales \<open>prefix_code\<close>, \<open>height_index\<close>, \<open>multi_index\<close> and \<open>lookup_index\<close>, interpreted on the code's
    encoders and indices.
  \<^item> \<^verbatim>\<open>IntUtil\<close> (\<^verbatim>\<open>Common/int-util.h\<close>), \<^verbatim>\<open>Varint\<close> (\<^verbatim>\<open>Common/Varint.h\<close>), \<^verbatim>\<open>StringTools\<close>
    (\<^verbatim>\<open>Common/StringTools.cpp\<close>): exact 128-bit arithmetic, canonical variable-length integers, hexadecimal
    text in both directions.
  \<^item> \<^verbatim>\<open>CryptoNoteTypes\<close> (\<^verbatim>\<open>CryptoNote.h\<close>, \<^verbatim>\<open>CryptoNoteConfig.h\<close>) and \<^verbatim>\<open>FormatUtils\<close>
    (\<^verbatim>\<open>CryptoNoteCore/CryptoNoteFormatUtils.cpp\<close>): sums without overflow, relative and absolute offsets,
    the decomposition of amounts, the checks on inputs and outputs.
  \<^item> \<^verbatim>\<open>Keccak\<close> (\<^verbatim>\<open>crypto/keccak.c\<close>), \<^verbatim>\<open>TreeHash\<close> (\<^verbatim>\<open>crypto/tree-hash.c\<close>): the hash equals Keccak as
    specified, the in-place tree hash equals a recursive Merkle root, and branches prove the first leaf.
  \<^item> \<^verbatim>\<open>BinaryStream\<close>, \<^verbatim>\<open>Serialization\<close>, \<^verbatim>\<open>TransactionExtra\<close> (\<^verbatim>\<open>Serialization/Binary*\<close>,
    \<^verbatim>\<open>CryptoNoteCore/CryptoNoteSerialization.cpp\<close>, \<^verbatim>\<open>CryptoNoteTools.cpp\<close>, \<^verbatim>\<open>TransactionExtra.cpp\<close>): the
    locale \<open>stream_code\<close> (what is written is read back, and only what is written is read) holds for every
    part up to transactions and blocks; the hashing blob commits to header, root and number.
  \<^item> \<^verbatim>\<open>Difficulty\<close> (\<^verbatim>\<open>Difficulty.cpp\<close>), \<^verbatim>\<open>Lwma\<close>, \<^verbatim>\<open>Reward\<close>, \<^verbatim>\<open>Float32\<close>, \<^verbatim>\<open>Interest\<close>, \<^verbatim>\<open>Amounts\<close>
    (\<^verbatim>\<open>Currency.cpp\<close>): the proof-of-work test, the next difficulty, rewards and penalties, interest with
    single-precision rounding, fees, round amounts and fusion transactions.
  \<^item> \<^verbatim>\<open>BlockIndex\<close>, \<^verbatim>\<open>DepositIndex\<close>, \<^verbatim>\<open>InvestmentIndex\<close>, \<^verbatim>\<open>BlockchainIndices\<close>, \<^verbatim>\<open>Checkpoints\<close>,
    \<^verbatim>\<open>UpgradeDetector\<close> (the files of the same names in \<^verbatim>\<open>CryptoNoteCore\<close>): each index against the list of
    blocks it stands for, with push and pop as inverses.
  \<^item> \<^verbatim>\<open>TransactionPool\<close> (\<^verbatim>\<open>TransactionPool.cpp\<close>): the pool, its validator interface, expiry, and block
    templates; the invariant of every reachable pool.
  \<^item> \<^verbatim>\<open>Ledger\<close> (\<^verbatim>\<open>Blockchain.cpp\<close>: \<^verbatim>\<open>pushTransaction\<close>, \<^verbatim>\<open>popTransaction\<close>, the loops of
    \<^verbatim>\<open>rebuildMoonBank\<close>): outputs by amount, spent key images, multisignature outputs with their usage, and the
    map of transactions. Popping undoes pushing, and rebuilding does what pushing does.
  \<^item> \<^verbatim>\<open>ChainRules\<close> (\<^verbatim>\<open>Blockchain.cpp\<close>, \<^verbatim>\<open>Blockchain.h\<close>): the state \<open>blockchain\<close>, an extension of the ledger,
    the record \<open>environment\<close> of what the chain takes from outside, the checks of transactions and blocks,
    and the queries.
  \<^item> \<^verbatim>\<open>Blockchain\<close> (\<^verbatim>\<open>Blockchain.cpp\<close>): \<^verbatim>\<open>pushBlock\<close>, \<^verbatim>\<open>popBlock\<close>, alternative chains and switching,
    \<^verbatim>\<open>addNewBlock\<close>, rollback, rebuilding and reset on a node, a chain with its pool; and the invariant of the
    loop over a block's transactions.
  \<^item> \<^verbatim>\<open>ChainHistory\<close>: \<open>chain_inv\<close> ties every member of the chain to its blocks; it holds for every chain reached
    by pushing and popping, pops restore, rejected blocks leave the ledger alone but for one path, and
    rebuilding reproduces the chain.
  \<^item> \<^verbatim>\<open>Shuffle\<close> (\<^verbatim>\<open>Common/ShuffleGenerator.h\<close>), \<^verbatim>\<open>ChainQueries\<close> (\<^verbatim>\<open>Blockchain.cpp\<close>): random choice without
    repetition, and the queries of peers and wallets, each answered from the blocks of a consistent chain.
  \<^item> \<^verbatim>\<open>BlockCandidate\<close> (\<^verbatim>\<open>Core::get_block_template\<close>, \<^verbatim>\<open>Currency::constructMinerTx\<close>) and \<^verbatim>\<open>NodeCore\<close> (\<^verbatim>\<open>Core.cpp\<close>): the
    chain and the pool together under incoming transactions and blocks. The invariants of both hold over
    every sequence of events, and a candidate block is one the node accepts.
  \<^item> \<^verbatim>\<open>FieldElements\<close>, \<^verbatim>\<open>FieldBytes\<close>, \<^verbatim>\<open>CurvePoints\<close>, \<^verbatim>\<open>PointCodec\<close> (\<^verbatim>\<open>crypto/crypto-ops.c\<close>): arithmetic modulo
    \<open>2 ^ 255 - 19\<close> on ten limbs kept at 32 and 64 bits, the bytes of an element, the formulas of the curve, and the
    bytes of a point. Within the bounds of the source's comments nothing overflows and the limbs stand for the
    results; a point has one form in bytes that is accepted.

  \<^bold>\<open>Bounds and fuel.\<close> \<open>for_u16\<close> gives a 16-bit loop 65537 tests, after which the counter has taken every value, so
  using them up means the loop does not end. \<open>alternative_walk\<close> gets one step more than there are alternative
  blocks; the theorem \<open>alternative_walk_ends\<close> shows that this is never what stops it.
  \<open>handle_alternative_block\<close> and \<open>addNewBlock\<close> take the depth of the mutual recursion with the switching of
  chains as an argument. The heights of the theorems on the chain stay below \<open>2 ^ 32 - 1\<close>, where the 32-bit
  counters of the indices do not wrap.

  \<^bold>\<open>Assumptions of the chain theorems.\<close> \<open>sound_block\<close> asks that the chain is past its checkpoints (in their zone
  the source does not check inputs), that the block has fewer than 65535 transactions, that its hashes are
  those of its transactions, that none of them is in the chain and that the inputs of each differ from one
  another; the last two are what the pool and \<^verbatim>\<open>Core::check_tx_semantic\<close> ensure.

  \<^bold>\<open>Not modelled.\<close> For the chain the signatures, the slow hashes, the clock and the DNS records are parameters. Files
  (the stored chain and its serializers, swapped containers), threads, locks, observers and messages,
  the peer-to-peer network, the remote interfaces, the built-in miner and the wallets are left out:
  they are input and output, concurrency, or code on top of the parts above.
\<close>

end
